(* ===== verification/OSC_Prelude.thy ===== *)
theory OSC_Prelude
  imports Main "HOL-Library.Word" "HOL-Library.Monad_Syntax" "HOL-Library.Multiset"
begin

text \<open>
  Shared vocabulary of the development: the C integer types of \<^verbatim>\<open>kernel/include/types.h\<close> at
  their width, checked array accesses (an access outside an array is undefined behaviour of the
  C program and is the value \<^const>\<open>None\<close>), the store loops of the allocators, and the facts on
  words, aligned blocks and lists that the component theories use. The collection
  \<open>arr_simps\<close> holds the equations of the array operations.
\<close>

unbundle bit_operations_syntax

section \<open>C types\<close>

type_synonym u8 = "8 word"
type_synonym i8 = "8 word"
type_synonym u32 = "32 word"
type_synonym i32 = "32 word"
type_synonym u64 = "64 word"

abbreviation NULL :: u64 where
  "NULL \<equiv> 0"

definition PAGE_SIZE :: u64 where
  "PAGE_SIZE = 4096"

section \<open>Checked array accesses and store loops\<close>

named_theorems arr_simps \<open>equations of the array operations\<close>

definition aget :: "'a list \<Rightarrow> nat \<Rightarrow> 'a option" where
  "aget xs i = (if i < length xs then Some (xs ! i) else None)"

definition aset :: "'a list \<Rightarrow> nat \<Rightarrow> 'a \<Rightarrow> 'a list option" where
  "aset xs i v = (if i < length xs then Some (xs[i := v]) else None)"

text \<open>The store loop \<^verbatim>\<open>for (i = 0; i < n; i++) xs[start + i] = v\<close>.\<close>

primrec fill :: "nat \<Rightarrow> nat \<Rightarrow> 'a \<Rightarrow> 'a list \<Rightarrow> 'a list option" where
  "fill 0 start v xs = Some xs"
| "fill (Suc n) start v xs = do { ys \<leftarrow> aset xs start v; fill n (Suc start) v ys }"

lemma aget_in [arr_simps]: "i < length xs \<Longrightarrow> aget xs i = Some (xs ! i)"
  by (simp add: aget_def)

lemma aset_in [arr_simps]: "i < length xs \<Longrightarrow> aset xs i v = Some (xs[i := v])"
  by (simp add: aset_def)

lemma aget_Some_iff: "aget xs i = Some v \<longleftrightarrow> i < length xs \<and> v = xs ! i"
  by (auto simp: aget_def)

lemma aset_Some_iff: "aset xs i v = Some ys \<longleftrightarrow> i < length xs \<and> ys = xs[i := v]"
  by (auto simp: aset_def)

text \<open>What the loop leaves in each cell, and that it stays inside the array exactly when its
  range does.\<close>

lemma fill_length: "fill n start v xs = Some ys \<Longrightarrow> length ys = length xs"
  by (induction n arbitrary: start xs) (auto simp: aset_def bind_eq_Some_conv split: if_splits)

lemma fill_nth:
  assumes "fill n start v xs = Some ys" and "p < length xs"
  shows "ys ! p = (if start \<le> p \<and> p < start + n then v else xs ! p)"
  using assms
proof (induction n arbitrary: start xs)
  case 0
  then show ?case by auto
next
  case (Suc n)
  from Suc.prems(1) have start: "start < length xs"
    and rest: "fill n (Suc start) v (xs[start := v]) = Some ys"
    by (auto simp: aset_def bind_eq_Some_conv split: if_splits)
  from Suc.IH [OF rest] Suc.prems(2) start show ?case
    by (auto simp: nth_list_update)
qed

lemma fill_in_range:
  assumes "start + n \<le> length xs"
  shows "\<exists>ys. fill n start v xs = Some ys"
  using assms
proof (induction n arbitrary: start xs)
  case 0
  then show ?case by simp
next
  case (Suc n)
  then have "\<exists>ys. fill n (Suc start) v (xs[start := v]) = Some ys"
    by (intro Suc.IH) simp
  with Suc.prems show ?case
    by (simp add: aset_def)
qed

lemma fill_out_of_range:
  "length xs < start + n \<Longrightarrow> start \<le> length xs \<Longrightarrow> fill n start v xs = None"
proof (induction n arbitrary: start xs)
  case 0
  then show ?case by simp
next
  case (Suc n)
  then show ?case by (cases "start < length xs") (auto simp: aset_def)
qed

lemma fill_whole:
  assumes "length xs = n"
  shows "fill n 0 v xs = Some (replicate n v)"
proof -
  from fill_in_range [of 0 n xs v] assms obtain ys where ys: "fill n 0 v xs = Some ys"
    by auto
  with assms have "ys = replicate n v"
    by (intro nth_equalityI) (simp_all add: fill_nth fill_length [OF ys])
  with ys show ?thesis by simp
qed

section \<open>Rounding to a power of two\<close>

lemma word_and_not_mask: "(a :: 'a::len word) AND NOT (mask n) = push_bit n (drop_bit n a)"
  by (rule bit_word_eqI) (auto simp: bit_simps)

lemma unat_and_not_mask:
  "unat ((a :: 'a::len word) AND NOT (mask n)) = unat a div 2 ^ n * 2 ^ n"
proof -
  have "unat a div 2 ^ n * 2 ^ n < 2 ^ LENGTH('a)"
    by (rule le_less_trans [OF _ unsigned_less [of a]]) simp
  then show ?thesis
    unfolding word_and_not_mask unsigned_push_bit_eq unat_drop_bit_eq
    by (simp add: push_bit_eq_mult take_bit_eq_mod drop_bit_eq_div)
qed

definition align_down :: "u64 \<Rightarrow> u64" where
  "align_down a = a AND NOT (PAGE_SIZE - 1)"

definition align_up :: "u64 \<Rightarrow> u64" where
  "align_up a = (a + PAGE_SIZE - 1) AND NOT (PAGE_SIZE - 1)"

lemma page_mask: "PAGE_SIZE - 1 = mask 12"
  by (simp add: PAGE_SIZE_def mask_eq_exp_minus_1)

lemma unat_align_down: "unat (align_down a) = unat a div 4096 * 4096"
  unfolding align_down_def page_mask unat_and_not_mask by simp

lemma unat_add_4095:
  assumes "unat a \<le> 2 ^ 64 - 4096"
  shows "unat (a + PAGE_SIZE - 1) = unat a + 4095"
proof -
  have "a + PAGE_SIZE - 1 = a + 4095"
    by (simp add: PAGE_SIZE_def)
  moreover have "unat (a + 4095) = unat a + 4095"
    using assms by (simp add: unat_word_ariths)
  ultimately show ?thesis by (simp only:)
qed

lemma unat_align_up:
  assumes "unat a \<le> 2 ^ 64 - 4096"
  shows "unat (align_up a) = (unat a + 4095) div 4096 * 4096"
  unfolding align_up_def page_mask unat_and_not_mask
  using unat_add_4095 [OF assms] by (simp add: page_mask)

lemma unat_lt64: "unat (x :: u64) < 2 ^ 64"
  using unsigned_less [of x, where 'a = nat] by simp

lemma unat_pow2: "n < 64 \<Longrightarrow> unat (2 ^ n :: u64) = 2 ^ n"
proof -
  assume "n < 64"
  then have "(2::nat) ^ n < 2 ^ 64"
    by (rule power_strict_increasing) simp
  then have "unat (of_nat (2 ^ n) :: u64) = 2 ^ n"
    by (simp only: unat_of_nat) simp
  then show ?thesis by simp
qed

section \<open>Aligned blocks of naturals\<close>

text \<open>The half-open range of \<^term>\<open>2 ^ k\<close> page frames that starts at frame \<^term>\<open>i\<close>.\<close>

definition blk :: "nat \<Rightarrow> nat \<Rightarrow> nat set" where
  "blk i k = {i ..< i + 2 ^ k}"

lemma mem_blk [simp]: "p \<in> blk i k \<longleftrightarrow> i \<le> p \<and> p < i + 2 ^ k"
  by (simp add: blk_def)

lemma nat_and_low: "(i::nat) AND (2 ^ k - 1) = i mod 2 ^ k"
proof -
  have "(2::nat) ^ k - 1 = mask k"
    by (simp add: mask_eq_exp_minus_1)
  then show ?thesis
    by (simp only: take_bit_eq_mod flip: take_bit_eq_mask)
qed

lemma nat_xor_pow2:
  fixes q :: nat
  shows "(q * 2 ^ k) XOR 2 ^ k = (if even q then q + 1 else q - 1) * 2 ^ k"
proof -
  have "(q * 2 ^ k) XOR 2 ^ k = push_bit k q XOR push_bit k 1"
    by (simp add: push_bit_eq_mult)
  also have "\<dots> = push_bit k (q XOR 1)"
    by simp
  also have "q XOR 1 = (if even q then q + 1 else q - 1)"
    unfolding xor_one_eq by simp
  finally show ?thesis
    by (simp add: push_bit_eq_mult)
qed

text \<open>The buddy of an aligned block is the other half of the aligned block one order up.\<close>

lemma xor_buddy_cases:
  assumes "2 ^ k dvd (i::nat)"
  obtains (low) "i XOR 2 ^ k = i + 2 ^ k" "2 ^ Suc k dvd i"
    | (high) "i XOR 2 ^ k = i - 2 ^ k" "2 ^ k \<le> i" "2 ^ Suc k dvd i - 2 ^ k"
proof -
  from assms obtain q where i: "i = q * 2 ^ k"
    by (metis dvd_def mult.commute)
  show thesis
  proof (cases "even q")
    case True
    then obtain r where "q = 2 * r" ..
    with i True show thesis
      by (intro low) (simp_all add: nat_xor_pow2)
  next
    case False
    then obtain r where "q = 2 * r + 1" ..
    then have "i - 2 ^ k = 2 ^ Suc k * r" and "2 ^ k \<le> i"
      using i by (simp_all add: algebra_simps)
    moreover have "i XOR 2 ^ k = i - 2 ^ k"
      using False unfolding i nat_xor_pow2 by (simp add: algebra_simps)
    ultimately show thesis
      by (intro high) simp_all
  qed
qed

lemma xor_buddy_low:
  assumes "2 ^ Suc k dvd (i::nat)"
  shows "(i + 2 ^ k) XOR 2 ^ k = i"
proof -
  from assms obtain r where i: "i = 2 * r * 2 ^ k"
    by (auto elim!: dvdE)
  then have "i + 2 ^ k = (2 * r + 1) * 2 ^ k"
    by (simp add: algebra_simps)
  then have "(i + 2 ^ k) XOR 2 ^ k = (2 * r + 1 - 1) * 2 ^ k"
    by (simp only: nat_xor_pow2) simp
  with i show ?thesis by simp
qed

lemma xor_buddy_aligned:
  assumes "2 ^ k dvd (i::nat)"
  shows "2 ^ k dvd (i XOR 2 ^ k)"
  using assms by (rule xor_buddy_cases) (use assms in auto)

text \<open>Two aligned blocks are nested or disjoint.\<close>

lemma aligned_blk_nested:
  assumes "2 ^ k dvd i" and "2 ^ l dvd j" and "k \<le> l" and "p \<in> blk i k" and "p \<in> blk j l"
  shows "blk i k \<subseteq> blk j l"
proof -
  from assms(3) have kl: "(2::nat) ^ k dvd 2 ^ l"
    by (simp add: le_imp_power_dvd)
  with assms(2) have "2 ^ k dvd j" by (auto intro: dvd_trans)
  have ij: "j \<le> i"
  proof (rule ccontr)
    assume "\<not> j \<le> i"
    then have "i < j" by simp
    moreover from assms(1) \<open>2 ^ k dvd j\<close> have "2 ^ k dvd j - i"
      by (rule dvd_diff_nat [rotated])
    ultimately have "2 ^ k \<le> j - i"
      by (intro dvd_imp_le) auto
    with assms(4,5) \<open>i < j\<close> show False by auto
  qed
  have "2 ^ k dvd j + 2 ^ l - i"
    using \<open>2 ^ k dvd j\<close> kl assms(1) by (intro dvd_diff_nat dvd_add)
  moreover have "i < j + 2 ^ l"
    using assms(4,5) by auto
  ultimately have "2 ^ k \<le> j + 2 ^ l - i"
    by (intro dvd_imp_le) auto
  with ij \<open>i < j + 2 ^ l\<close> show ?thesis by auto
qed

end
