(* ===== verification/Buddy.thy ===== *)
theory Buddy
  imports OSC_Prelude
begin

text \<open>
  The page allocator of \<^verbatim>\<open>kernel/src/buddy.c\<close> (lines 1 to 379): the frame array, one free
  list per order, block push and pop, allocation with splitting and release with coalescing.

  The state keeps the file's static variables. A free block is represented in its free list by
  its frame index: the C list node lives in the first page of the block, and
  \<open>list_head_to_idx\<close> inverts \<open>frame_list_head\<close> (lemma \<open>list_head_to_idx_frame\<close>). That the
  pointer operations of \<^verbatim>\<open>list.h\<close> act on such lists as the list operations used here is shown
  in theory \<open>Klist\<close>. Accesses to \<^verbatim>\<open>frame_array\<close> are checked: \<^const>\<open>None\<close> is an access outside
  the array or a shift by 64 or more, undefined behaviour in C.
\<close>

section \<open>State and constants\<close>

definition MAX_ORDER :: nat where
  "MAX_ORDER = 16"

definition FRAME_FREE_PART :: i32 where
  "FRAME_FREE_PART = -1"

definition FRAME_RESERVED :: i32 where
  "FRAME_RESERVED = -2"

record buddy =
  g_buddy_base :: u64
  g_buddy_end :: u64
  g_total_pages :: nat
  frame_array :: "i32 list"
  free_list :: "nat list list"

definition ALLOC_TAG :: "nat \<Rightarrow> nat \<Rightarrow> i32" where
  "ALLOC_TAG idx order = ucast (push_bit 30 1 OR push_bit 8 (of_nat idx) OR of_nat order :: u64)"

definition GET_ALLOC_ORDER :: "i32 \<Rightarrow> nat" where
  "GET_ALLOC_ORDER val = unat (val AND 0xFF)"

definition GET_ALLOC_IDX :: "i32 \<Rightarrow> nat" where
  "GET_ALLOC_IDX val = unat (signed_drop_bit 8 val AND 0x3FFFFF)"

section \<open>Address helpers\<close>

definition idx_to_addr :: "buddy \<Rightarrow> nat \<Rightarrow> u64" where
  "idx_to_addr b idx = g_buddy_base b + of_nat idx * PAGE_SIZE"

definition addr_to_idx :: "buddy \<Rightarrow> u64 \<Rightarrow> nat" where
  "addr_to_idx b addr = unat ((addr - g_buddy_base b) div PAGE_SIZE)"

definition frame_list_head :: "buddy \<Rightarrow> nat \<Rightarrow> u64" where
  "frame_list_head b idx = idx_to_addr b idx"

definition list_head_to_idx :: "buddy \<Rightarrow> u64 \<Rightarrow> nat" where
  "list_head_to_idx b lh = addr_to_idx b lh"

text \<open>The loop of \<^verbatim>\<open>pages_to_order\<close> doubles a 64-bit block size; \<^const>\<open>None\<close> is not returning
  (the size wraps to 0 before it reaches \<^verbatim>\<open>pages\<close>).\<close>

partial_function (option) pages_to_order_loop :: "u64 \<Rightarrow> u64 \<Rightarrow> nat \<Rightarrow> nat option" where
  "pages_to_order_loop pages block order =
     (if block < pages then pages_to_order_loop pages (push_bit 1 block) (order + 1)
      else Some order)"

definition pages_to_order :: "u64 \<Rightarrow> nat option" where
  "pages_to_order pages = pages_to_order_loop pages 1 0"

section \<open>Free-list operations\<close>

definition block_push :: "buddy \<Rightarrow> nat \<Rightarrow> nat \<Rightarrow> buddy option" where
  "block_push b idx order = do {
     fa1 \<leftarrow> aset (frame_array b) idx (of_nat order);
     fa2 \<leftarrow> fill (2 ^ order - 1) (idx + 1) FRAME_FREE_PART fa1;
     fl \<leftarrow> aget (free_list b) order;
     Some (b\<lparr>frame_array := fa2, free_list := (free_list b)[order := idx # fl]\<rparr>)
   }"

text \<open>\<^verbatim>\<open>list_del\<close> unlinks the node from whatever list it is on; the order is only logged.\<close>

definition block_pop :: "buddy \<Rightarrow> nat \<Rightarrow> nat \<Rightarrow> buddy" where
  "block_pop b idx order = b\<lparr>free_list := map (remove1 idx) (free_list b)\<rparr>"

section \<open>Initialisation and reservation\<close>

definition buddy_init :: "u64 \<Rightarrow> u64 \<Rightarrow> i32 list \<Rightarrow> nat \<Rightarrow> buddy option" where
  "buddy_init base sz ext_frame_array frame_count = do {
     fa \<leftarrow> fill frame_count 0 FRAME_FREE_PART ext_frame_array;
     Some \<lparr>g_buddy_base = base, g_buddy_end = base + sz, g_total_pages = frame_count,
           frame_array = fa, free_list = replicate (MAX_ORDER + 1) []\<rparr>
   }"

definition buddy_reserve :: "buddy \<Rightarrow> u64 \<Rightarrow> u64 \<Rightarrow> buddy option" where
  "buddy_reserve b start0 end0 =
     (let start1 = align_down start0;
          end1 = align_up end0;
          start2 = (if start1 < g_buddy_base b then g_buddy_base b else start1);
          end2 = (if end1 > g_buddy_end b then g_buddy_end b else end1)
      in if start2 \<ge> end2 then Some b
         else (let first = addr_to_idx b start2; past = addr_to_idx b end2
               in do { fa \<leftarrow> fill (past - first) first FRAME_RESERVED (frame_array b);
                       Some (b\<lparr>frame_array := fa\<rparr>) }))"

definition buddy_get_base :: "buddy \<Rightarrow> u64" where
  "buddy_get_base b = g_buddy_base b"

definition buddy_get_total_pages :: "buddy \<Rightarrow> nat" where
  "buddy_get_total_pages b = g_total_pages b"

text \<open>The scan for a reserved page inside a candidate block.\<close>

primrec block_clean :: "nat \<Rightarrow> nat \<Rightarrow> i32 list \<Rightarrow> bool option" where
  "block_clean 0 p fa = Some True"
| "block_clean (Suc n) p fa =
     do { v \<leftarrow> aget fa p; if v = FRAME_RESERVED then Some False else block_clean n (Suc p) fa }"

text \<open>The inner loop of \<^verbatim>\<open>buddy_build_free_lists\<close>: the largest order, from \<^verbatim>\<open>order\<close> down, whose
  block is aligned, in range and free of reserved pages.\<close>

fun build_order :: "buddy \<Rightarrow> nat \<Rightarrow> nat \<Rightarrow> nat option" where
  "build_order b idx order =
     (if order > 0 then
        (let block = 2 ^ order
         in if idx AND (block - 1) \<noteq> 0 \<or> idx + block > g_total_pages b
            then build_order b idx (order - 1)
            else do { clean \<leftarrow> block_clean block idx (frame_array b);
                      if clean then Some order else build_order b idx (order - 1) })
      else Some order)"

declare build_order.simps [simp del]

text \<open>The outer loop, one step per skipped page or pushed block; \<open>build_free_lists_outcome\<close>
  shows that it returns.\<close>

function buddy_build_loop :: "buddy \<Rightarrow> nat \<Rightarrow> buddy option" where
  "buddy_build_loop b idx =
     (if idx < g_total_pages b then
        do { v \<leftarrow> aget (frame_array b) idx;
             if v = FRAME_RESERVED then buddy_build_loop b (idx + 1)
             else do { order \<leftarrow> build_order b idx MAX_ORDER;
                       b' \<leftarrow> block_push b idx order;
                       buddy_build_loop b' (idx + 2 ^ order) } }
      else Some b)"
  by pat_completeness auto

lemma block_push_total: "block_push b idx order = Some b' \<Longrightarrow> g_total_pages b' = g_total_pages b"
  by (auto simp: block_push_def bind_eq_Some_conv)

termination buddy_build_loop
proof (relation "measure (\<lambda>(b, idx). g_total_pages b - idx)")
  fix b b' :: buddy and idx order :: nat
  assume "idx < g_total_pages b" and "block_push b idx order = Some b'"
  then have "g_total_pages b' = g_total_pages b" and "idx < g_total_pages b"
    by (simp_all add: block_push_total)
  then show "((b', idx + 2 ^ order), b, idx) \<in> measure (\<lambda>(b, idx). g_total_pages b - idx)"
    by (simp add: diff_less_mono2)
qed auto

declare buddy_build_loop.simps [simp del]

definition buddy_build_free_lists :: "buddy \<Rightarrow> buddy option" where
  "buddy_build_free_lists b = buddy_build_loop b 0"

section \<open>Allocation\<close>

text \<open>The upward search of \<^verbatim>\<open>buddy_alloc\<close> for an order with a free block.\<close>

function find_order :: "buddy \<Rightarrow> nat \<Rightarrow> nat" where
  "find_order b current_order =
     (if current_order \<le> MAX_ORDER \<and> free_list b ! current_order = []
      then find_order b (current_order + 1) else current_order)"
  by pat_completeness auto
termination
  by (relation "measure (\<lambda>(b, k). MAX_ORDER + 1 - k)") auto

declare find_order.simps [simp del]

text \<open>The split loop: push the upper half until the block has the target order.\<close>

fun split_block :: "buddy \<Rightarrow> nat \<Rightarrow> nat \<Rightarrow> nat \<Rightarrow> buddy option" where
  "split_block b idx current_order target_order =
     (if current_order > target_order then
        (let k = current_order - 1
         in do { b' \<leftarrow> block_push b (idx + 2 ^ k) k; split_block b' idx k target_order })
      else Some b)"

declare split_block.simps [simp del]

definition buddy_alloc :: "buddy \<Rightarrow> u64 \<Rightarrow> (buddy \<times> u64) option" where
  "buddy_alloc b sz =
     (if sz = 0 then Some (b, NULL)
      else do {
        target_order \<leftarrow> pages_to_order ((sz + PAGE_SIZE - 1) div PAGE_SIZE);
        if target_order > MAX_ORDER then Some (b, NULL)
        else (let current_order = find_order b target_order
              in if current_order > MAX_ORDER then Some (b, NULL)
                 else (case free_list b ! current_order of
                         [] \<Rightarrow> None
                       | idx # _ \<Rightarrow> do {
                           b1 \<leftarrow> split_block (block_pop b idx current_order) idx
                                  current_order target_order;
                           fa \<leftarrow> fill (2 ^ target_order) idx (ALLOC_TAG idx target_order)
                                  (frame_array b1);
                           Some (b1\<lparr>frame_array := fa\<rparr>, idx_to_addr b idx)
                         }))
      })"

section \<open>Release\<close>

text \<open>The coalescing loop of \<^verbatim>\<open>buddy_free\<close>.\<close>

function coalesce :: "buddy \<Rightarrow> nat \<Rightarrow> nat \<Rightarrow> (buddy \<times> nat \<times> nat) option" where
  "coalesce b cur_idx cur_order =
     (if cur_order < MAX_ORDER then
        (let buddy_idx = cur_idx XOR 2 ^ cur_order
         in if buddy_idx \<ge> g_total_pages b then Some (b, cur_idx, cur_order)
            else do {
              v \<leftarrow> aget (frame_array b) buddy_idx;
              if v = FRAME_RESERVED then Some (b, cur_idx, cur_order)
              else if v \<noteq> of_nat cur_order then Some (b, cur_idx, cur_order)
              else coalesce (block_pop b buddy_idx cur_order)
                     (if buddy_idx < cur_idx then buddy_idx else cur_idx) (cur_order + 1)
            })
      else Some (b, cur_idx, cur_order))"
  by pat_completeness auto
termination
  by (relation "measure (\<lambda>(b, i, k). MAX_ORDER - k)") auto

declare coalesce.simps [simp del]

definition buddy_free :: "buddy \<Rightarrow> u64 \<Rightarrow> buddy option" where
  "buddy_free b ptr =
     (if ptr = NULL then Some b
      else if ptr < g_buddy_base b \<or> ptr \<ge> g_buddy_end b then Some b
      else (let idx = addr_to_idx b ptr
            in do {
              v \<leftarrow> aget (frame_array b) idx;
              if v = FRAME_RESERVED then Some b
              else (let order = GET_ALLOC_ORDER v
                    in if order \<ge> 64 then None
                       else do {
                         fa \<leftarrow> fill (2 ^ order) idx FRAME_FREE_PART (frame_array b);
                         (b1, cur_idx, cur_order) \<leftarrow> coalesce (b\<lparr>frame_array := fa\<rparr>) idx order;
                         block_push b1 cur_idx cur_order
                       })
            }))"

end
