(* ===== verification/Buddy_Inv.thy ===== *)
theory Buddy_Inv
  imports Buddy
begin

text \<open>
  Correctness of the page allocator. The invariant \<open>binv b A L\<close> relates the allocator state to
  the set \<open>A\<close> of blocks (first frame, order) handed out so far and to the set \<open>L\<close> of frames
  that an operation is working on: every other frame is reserved, in exactly one free block, or
  in exactly one allocated block. \<open>no_buddies\<close> says that coalescing is complete. Between calls
  \<open>L\<close> is empty.
\<close>

section \<open>Tags and frame values\<close>

lemma bit_ALLOC_TAG:
  "bit (ALLOC_TAG idx order) n \<longleftrightarrow>
     n < 32 \<and> (n = 30 \<or> (8 \<le> n \<and> bit idx (n - 8)) \<or> bit order n)"
  unfolding ALLOC_TAG_def bit_unsigned_iff bit_or_iff bit_push_bit_iff bit_1_iff bit_of_nat_iff
  by auto

lemma nat_bit_small: "(k::nat) < 2 ^ n \<Longrightarrow> n \<le> m \<Longrightarrow> \<not> bit k m"
  by (metis bit_take_bit_iff not_le take_bit_nat_eq_self)

lemma GET_ALLOC_ORDER_TAG [simp]:
  assumes "order < 256"
  shows "GET_ALLOC_ORDER (ALLOC_TAG idx order) = order"
proof -
  have "ALLOC_TAG idx order AND 0xFF = ALLOC_TAG idx order AND mask 8"
    by (simp add: mask_eq_exp_minus_1)
  also have "\<dots> = of_nat order"
    using nat_bit_small [of order 8] assms
    by (intro bit_word_eqI) (auto simp: bit_simps bit_ALLOC_TAG simp flip: not_le)
  finally show ?thesis
    using assms by (simp add: GET_ALLOC_ORDER_def unat_of_nat)
qed

lemma bit_of_order: "l \<le> MAX_ORDER \<Longrightarrow> \<not> bit (of_nat l :: i32) 30"
  using nat_bit_small [of l 5 30] by (simp add: bit_simps MAX_ORDER_def)

lemma of_order_eq_iff [simp]:
  "k \<le> MAX_ORDER \<Longrightarrow> l \<le> MAX_ORDER \<Longrightarrow> (of_nat k :: i32) = of_nat l \<longleftrightarrow> k = l"
  by (auto simp: MAX_ORDER_def word_unat_eq_iff unat_of_nat)

lemma tag_not_order [simp]: "l \<le> MAX_ORDER \<Longrightarrow> ALLOC_TAG i k \<noteq> of_nat l"
  using bit_of_order [of l] bit_ALLOC_TAG [of i k 30] by auto

lemma order_not_special [simp]:
  assumes "k \<le> MAX_ORDER"
  shows "of_nat k \<noteq> FRAME_RESERVED" and "of_nat k \<noteq> FRAME_FREE_PART"
proof -
  have "bit FRAME_RESERVED 30" and "bit FRAME_FREE_PART 30"
    by (simp_all add: FRAME_RESERVED_def FRAME_FREE_PART_def)
  with bit_of_order [OF assms]
  show "of_nat k \<noteq> FRAME_RESERVED" and "of_nat k \<noteq> FRAME_FREE_PART"
    by auto
qed

lemma tag_not_special [simp]:
  assumes "k \<le> MAX_ORDER"
  shows "ALLOC_TAG i k \<noteq> FRAME_RESERVED" and "ALLOC_TAG i k \<noteq> FRAME_FREE_PART"
proof -
  have "GET_ALLOC_ORDER (ALLOC_TAG i k) = k" "GET_ALLOC_ORDER FRAME_RESERVED = 254"
    "GET_ALLOC_ORDER FRAME_FREE_PART = 255"
    using assms by (simp_all add: MAX_ORDER_def)
      (simp_all add: GET_ALLOC_ORDER_def FRAME_RESERVED_def FRAME_FREE_PART_def)
  with assms show "ALLOC_TAG i k \<noteq> FRAME_RESERVED" and "ALLOC_TAG i k \<noteq> FRAME_FREE_PART"
    by (auto simp: MAX_ORDER_def simp del: GET_ALLOC_ORDER_TAG)
qed

lemma special_distinct [simp]: "FRAME_RESERVED \<noteq> FRAME_FREE_PART" "FRAME_FREE_PART \<noteq> FRAME_RESERVED"
  by (simp_all add: FRAME_RESERVED_def FRAME_FREE_PART_def)

lemmas not_special_sym [simp] =
  order_not_special [symmetric] tag_not_special [symmetric] tag_not_order [symmetric]

section \<open>The invariant\<close>

definition free_ok :: "buddy \<Rightarrow> nat set \<Rightarrow> nat \<Rightarrow> nat \<Rightarrow> bool" where
  "free_ok b L i k \<longleftrightarrow>
     2 ^ k dvd i \<and> i + 2 ^ k \<le> g_total_pages b \<and> blk i k \<inter> L = {} \<and>
     frame_array b ! i = of_nat k \<and>
     (\<forall>j. i < j \<and> j < i + 2 ^ k \<longrightarrow> frame_array b ! j = FRAME_FREE_PART)"

definition alloc_ok :: "buddy \<Rightarrow> nat set \<Rightarrow> nat \<Rightarrow> nat \<Rightarrow> bool" where
  "alloc_ok b L i k \<longleftrightarrow>
     k \<le> MAX_ORDER \<and> 2 ^ k dvd i \<and> i + 2 ^ k \<le> g_total_pages b \<and> blk i k \<inter> L = {} \<and>
     (\<forall>j\<in>blk i k. frame_array b ! j = ALLOC_TAG i k)"

definition owned :: "buddy \<Rightarrow> (nat \<times> nat) set \<Rightarrow> nat \<Rightarrow> bool" where
  "owned b A p \<longleftrightarrow>
     frame_array b ! p = FRAME_RESERVED \<or>
     (\<exists>k\<le>MAX_ORDER. \<exists>i\<in>set (free_list b ! k). p \<in> blk i k) \<or>
     (\<exists>(i, k)\<in>A. p \<in> blk i k)"

definition binv :: "buddy \<Rightarrow> (nat \<times> nat) set \<Rightarrow> nat set \<Rightarrow> bool" where
  "binv b A L \<longleftrightarrow>
     length (frame_array b) = g_total_pages b \<and> length (free_list b) = MAX_ORDER + 1 \<and>
     L \<subseteq> {..<g_total_pages b} \<and>
     (\<forall>k\<le>MAX_ORDER. distinct (free_list b ! k) \<and> (\<forall>i\<in>set (free_list b ! k). free_ok b L i k)) \<and>
     (\<forall>(i, k)\<in>A. alloc_ok b L i k) \<and>
     (\<forall>(i, k)\<in>A. \<forall>(j, l)\<in>A. (i, k) \<noteq> (j, l) \<longrightarrow> blk i k \<inter> blk j l = {}) \<and>
     (\<forall>p<g_total_pages b. p \<notin> L \<longrightarrow> owned b A p)"

definition no_buddies :: "buddy \<Rightarrow> bool" where
  "no_buddies b \<longleftrightarrow>
     (\<forall>k<MAX_ORDER. \<forall>i\<in>set (free_list b ! k). i XOR 2 ^ k \<notin> set (free_list b ! k))"

lemma binvD:
  assumes "binv b A L"
  shows "length (frame_array b) = g_total_pages b"
    and "length (free_list b) = MAX_ORDER + 1"
    and "L \<subseteq> {..<g_total_pages b}"
    and "k \<le> MAX_ORDER \<Longrightarrow> distinct (free_list b ! k)"
    and "k \<le> MAX_ORDER \<Longrightarrow> i \<in> set (free_list b ! k) \<Longrightarrow> free_ok b L i k"
    and "(i, k) \<in> A \<Longrightarrow> alloc_ok b L i k"
    and "(i, k) \<in> A \<Longrightarrow> (j, l) \<in> A \<Longrightarrow> (i, k) \<noteq> (j, l) \<Longrightarrow> blk i k \<inter> blk j l = {}"
    and "p < g_total_pages b \<Longrightarrow> p \<notin> L \<Longrightarrow> owned b A p"
  using assms unfolding binv_def by blast+

lemma binvI:
  assumes "length (frame_array b) = g_total_pages b"
    and "length (free_list b) = MAX_ORDER + 1"
    and "L \<subseteq> {..<g_total_pages b}"
    and "\<And>k. k \<le> MAX_ORDER \<Longrightarrow> distinct (free_list b ! k)"
    and "\<And>k i. k \<le> MAX_ORDER \<Longrightarrow> i \<in> set (free_list b ! k) \<Longrightarrow> free_ok b L i k"
    and "\<And>i k. (i, k) \<in> A \<Longrightarrow> alloc_ok b L i k"
    and "\<And>i k j l. (i, k) \<in> A \<Longrightarrow> (j, l) \<in> A \<Longrightarrow> (i, k) \<noteq> (j, l) \<Longrightarrow> blk i k \<inter> blk j l = {}"
    and "\<And>p. p < g_total_pages b \<Longrightarrow> p \<notin> L \<Longrightarrow> owned b A p"
  shows "binv b A L"
  using assms unfolding binv_def by blast

lemma pow2_pos [simp]: "0 < (2::nat) ^ k"
  by simp

lemma free_ok_page:
  assumes "free_ok b L i k" and "p \<in> blk i k"
  shows "p < g_total_pages b" and "p \<notin> L"
    and "frame_array b ! p = (if p = i then of_nat k else FRAME_FREE_PART)"
proof -
  from assms show "p < g_total_pages b"
    by (auto simp: free_ok_def)
  from assms show "p \<notin> L"
    unfolding free_ok_def by blast
  from assms show "frame_array b ! p = (if p = i then of_nat k else FRAME_FREE_PART)"
    by (auto simp: free_ok_def)
qed

lemma alloc_ok_page:
  assumes "alloc_ok b L i k" and "p \<in> blk i k"
  shows "p < g_total_pages b" and "p \<notin> L" and "frame_array b ! p = ALLOC_TAG i k"
    and "k \<le> MAX_ORDER"
proof -
  from assms show "p < g_total_pages b"
    by (auto simp: alloc_ok_def)
  from assms show "p \<notin> L"
    unfolding alloc_ok_def by blast
  from assms show "frame_array b ! p = ALLOC_TAG i k"
    by (auto simp: alloc_ok_def)
  from assms show "k \<le> MAX_ORDER"
    by (simp add: alloc_ok_def)
qed

text \<open>Two free blocks that share a frame are the same block; a free block and an allocated
  block share no frame.\<close>

lemma free_blocks_eq:
  assumes "binv b A L"
    and k: "k \<le> MAX_ORDER" "i \<in> set (free_list b ! k)"
    and l: "l \<le> MAX_ORDER" "j \<in> set (free_list b ! l)"
    and p: "p \<in> blk i k" "p \<in> blk j l"
  shows "i = j \<and> k = l"
proof -
  have fi: "free_ok b L i k" and fj: "free_ok b L j l"
    using binvD(5) [OF assms(1)] k l by blast+
  have al: "2 ^ k dvd i" "2 ^ l dvd j"
    using fi fj by (simp_all add: free_ok_def)
  have "i \<in> blk i k" and "j \<in> blk j l"
    by simp_all
  then have "i \<in> blk j l \<or> j \<in> blk i k"
    using aligned_blk_nested [OF al _ p] aligned_blk_nested [OF al(2,1) _ p(2,1)]
    by (meson nle_le subsetD)
  then have "i = j"
  proof
    assume "i \<in> blk j l"
    then show ?thesis
      using free_ok_page(3) [OF fj, of i] free_ok_page(3) [OF fi, of i] k(1)
      by (auto split: if_splits)
  next
    assume "j \<in> blk i k"
    then show ?thesis
      using free_ok_page(3) [OF fi, of j] free_ok_page(3) [OF fj, of j] l(1)
      by (auto split: if_splits)
  qed
  moreover have "k = l"
    using \<open>i = j\<close> free_ok_page(3) [OF fi, of i] free_ok_page(3) [OF fj, of i] k(1) l(1)
    by simp
  ultimately show ?thesis ..
qed

lemma free_alloc_disjoint:
  assumes "binv b A L" and "k \<le> MAX_ORDER" "i \<in> set (free_list b ! k)" and "(j, l) \<in> A"
  shows "blk i k \<inter> blk j l = {}"
proof -
  have fi: "free_ok b L i k" and aj: "alloc_ok b L j l"
    using binvD(5,6) [OF assms(1)] assms(2-) by blast+
  show ?thesis
  proof (rule ccontr)
    assume "blk i k \<inter> blk j l \<noteq> {}"
    then obtain p where "p \<in> blk i k" "p \<in> blk j l" by blast
    then show False
      using free_ok_page(3) [OF fi, of p] alloc_ok_page(3,4) [OF aj, of p] assms(2)
      by (auto split: if_splits)
  qed
qed

text \<open>A frame whose cell holds an order is the head of a free block of that order.\<close>

lemma order_cell_is_head:
  assumes "binv b A L" and "p < g_total_pages b" and "p \<notin> L" and "k \<le> MAX_ORDER"
    and "frame_array b ! p = of_nat k"
  shows "p \<in> set (free_list b ! k)"
proof -
  consider "frame_array b ! p = FRAME_RESERVED"
    | (free) l i where "l \<le> MAX_ORDER" "i \<in> set (free_list b ! l)" "p \<in> blk i l"
    | (used) i l where "(i, l) \<in> A" "p \<in> blk i l"
    using binvD(8) [OF assms(1-3)] unfolding owned_def by blast
  then show ?thesis
  proof cases
    case 1
    with assms(4,5) show ?thesis by simp
  next
    case free
    with binvD(5) [OF assms(1)] have "free_ok b L i l" by blast
    from free_ok_page(3) [OF this free(3)] free assms(4,5) show ?thesis
      by (auto split: if_splits)
  next
    case used
    with binvD(6) [OF assms(1)] have "alloc_ok b L i l" by blast
    from alloc_ok_page(3) [OF this used(2)] assms(4,5) show ?thesis
      by simp
  qed
qed

section \<open>The primitive steps keep the invariant\<close>

text \<open>Frames outside \<open>S\<close> keep their cell, no frame becomes reserved, and the managed region is
  the same.\<close>

definition changes_in :: "buddy \<Rightarrow> buddy \<Rightarrow> nat set \<Rightarrow> bool" where
  "changes_in b b' S \<longleftrightarrow>
     g_total_pages b' = g_total_pages b \<and> g_buddy_base b' = g_buddy_base b \<and>
     g_buddy_end b' = g_buddy_end b \<and>
     (\<forall>p<g_total_pages b. p \<notin> S \<longrightarrow> frame_array b' ! p = frame_array b ! p) \<and>
     (\<forall>p<g_total_pages b. frame_array b' ! p = FRAME_RESERVED \<longrightarrow> frame_array b ! p = FRAME_RESERVED)"

lemma changes_in_refl [simp]: "changes_in b b S"
  by (simp add: changes_in_def)

lemma changes_in_same:
  assumes "changes_in b b' S"
  shows "g_total_pages b' = g_total_pages b" and "g_buddy_base b' = g_buddy_base b"
    and "g_buddy_end b' = g_buddy_end b"
  using assms unfolding changes_in_def by blast+

lemma changes_in_trans:
  "changes_in b b1 S \<Longrightarrow> changes_in b1 b2 T \<Longrightarrow> S \<union> T \<subseteq> U \<Longrightarrow> changes_in b b2 U"
  unfolding changes_in_def by (metis Un_iff subset_iff)

lemma block_push_eq:
  assumes "length (frame_array b) = g_total_pages b" and "length (free_list b) = MAX_ORDER + 1"
    and "k \<le> MAX_ORDER" and "i + 2 ^ k \<le> g_total_pages b"
  obtains fa where
    "block_push b i k = Some (b\<lparr>frame_array := fa,
       free_list := (free_list b)[k := i # free_list b ! k]\<rparr>)"
    "length fa = g_total_pages b"
    "\<And>p. p < g_total_pages b \<Longrightarrow> fa ! p = (if p = i then of_nat k
       else if p \<in> blk i k then FRAME_FREE_PART else frame_array b ! p)"
proof -
  let ?fa = "(frame_array b)[i := of_nat k]"
  have i: "i < length (frame_array b)"
    using assms(1,4) by (metis add_lessD1 le_less_trans less_add_same_cancel1 less_le_trans pow2_pos)
  have "i + 1 + (2 ^ k - 1) \<le> length ?fa"
    using assms(1,4) by simp
  from fill_in_range [OF this] obtain fa where
    fa: "fill (2 ^ k - 1) (i + 1) FRAME_FREE_PART ?fa = Some fa" by blast
  show thesis
  proof (rule that)
    show "block_push b i k = Some (b\<lparr>frame_array := fa,
       free_list := (free_list b)[k := i # free_list b ! k]\<rparr>)"
      using fa i assms(2,3) by (simp add: block_push_def arr_simps)
    show "length fa = g_total_pages b"
      using fill_length [OF fa] assms(1) by simp
    show "fa ! p = (if p = i then of_nat k
        else if p \<in> blk i k then FRAME_FREE_PART else frame_array b ! p)"
      if "p < g_total_pages b" for p
      using fill_nth [OF fa, of p] that assms(1) i by (auto simp: nth_list_update)
  qed
qed

lemma blk_subset_fits:
  assumes "binv b A L" and "blk i k \<subseteq> L"
  shows "i + 2 ^ k \<le> g_total_pages b"
proof -
  have "i + 2 ^ k - 1 \<in> blk i k"
    using pow2_pos [of k] unfolding mem_blk by linarith
  with assms(2) have "i + 2 ^ k - 1 \<in> L" ..
  with binvD(3) [OF assms(1)] show ?thesis by auto
qed

lemma block_push_inv:
  assumes inv: "binv b A L" and k: "k \<le> MAX_ORDER" and al: "2 ^ k dvd i" and sub: "blk i k \<subseteq> L"
  obtains b' where "block_push b i k = Some b'" and "binv b' A (L - blk i k)"
    and "free_list b' = (free_list b)[k := i # free_list b ! k]"
    and "changes_in b b' (blk i k)"
proof -
  have fits: "i + 2 ^ k \<le> g_total_pages b"
    using inv sub by (rule blk_subset_fits)
  obtain fa where push: "block_push b i k = Some (b\<lparr>frame_array := fa,
       free_list := (free_list b)[k := i # free_list b ! k]\<rparr>)"
    and len: "length fa = g_total_pages b"
    and fa: "\<And>p. p < g_total_pages b \<Longrightarrow> fa ! p = (if p = i then of_nat k
       else if p \<in> blk i k then FRAME_FREE_PART else frame_array b ! p)"
    using block_push_eq [OF binvD(1,2) [OF inv] k fits] by metis
  let ?b = "b\<lparr>frame_array := fa, free_list := (free_list b)[k := i # free_list b ! k]\<rparr>"
  have k': "k < length (free_list b)"
    using binvD(2) [OF inv] k by simp
  have fl: "free_list ?b ! l = (if l = k then i # free_list b ! k else free_list b ! l)" for l
    using k' by simp
  have keep: "fa ! p = frame_array b ! p" if "p < g_total_pages b" "p \<notin> L" for p
  proof -
    from that sub have "p \<notin> blk i k" by blast
    moreover from this have "p \<noteq> i" by auto
    ultimately show ?thesis using fa [OF that(1)] by auto
  qed
  have old: "free_ok ?b (L - blk i k) j l" if "l \<le> MAX_ORDER" "j \<in> set (free_list b ! l)" for j l
  proof -
    have f: "free_ok b L j l"
      using binvD(5) [OF inv that] .
    have "fa ! p = frame_array b ! p" if "p \<in> blk j l" for p
      using free_ok_page(1,2) [OF f that] by (rule keep)
    then show ?thesis
      using f unfolding free_ok_def by (auto simp: blk_def)
  qed
  have "i < g_total_pages b"
    using fits pow2_pos [of k] by linarith
  then have new: "free_ok ?b (L - blk i k) i k"
    using al fits fa by (auto simp: free_ok_def)
  have i_new: "i \<notin> set (free_list b ! k)"
  proof
    assume "i \<in> set (free_list b ! k)"
    from free_ok_page(2) [OF binvD(5) [OF inv k this], of i] have "i \<notin> L"
      by simp
    moreover have "i \<in> blk i k"
      by simp
    ultimately show False
      using sub by blast
  qed
  have "binv ?b A (L - blk i k)"
  proof (rule binvI)
    show "distinct (free_list ?b ! l)" if "l \<le> MAX_ORDER" for l
      using binvD(4) [OF inv that] i_new unfolding fl by auto
    show "free_ok ?b (L - blk i k) j l" if "l \<le> MAX_ORDER" "j \<in> set (free_list ?b ! l)" for j l
      using that old new unfolding fl by (auto split: if_splits)
    show "alloc_ok ?b (L - blk i k) j l" if "(j, l) \<in> A" for j l
    proof -
      have a: "alloc_ok b L j l"
        using binvD(6) [OF inv that] .
      have "fa ! p = frame_array b ! p" if "p \<in> blk j l" for p
        using alloc_ok_page(1,2) [OF a that] by (rule keep)
      then show ?thesis
        using a unfolding alloc_ok_def by (auto simp: blk_def)
    qed
    show "owned ?b A p" if "p < g_total_pages ?b" "p \<notin> L - blk i k" for p
    proof (cases "p \<in> blk i k")
      case True
      then have "\<exists>j\<in>set (free_list ?b ! k). p \<in> blk j k"
        unfolding fl by auto
      with k show ?thesis unfolding owned_def by blast
    next
      case False
      with that have "p \<notin> L" and p: "p < g_total_pages b" by auto
      with binvD(8) [OF inv] keep [OF p] have "owned b A p" and "fa ! p = frame_array b ! p"
        by auto
      then show ?thesis
        unfolding owned_def fl by fastforce
    qed
  qed (use binvD [OF inv] len in auto)
  moreover have "changes_in b ?b (blk i k)"
    using fa k by (auto simp: changes_in_def)
  ultimately show thesis
    using push by (intro that [of ?b]) simp_all
qed

lemma block_pop_nth:
  assumes "binv b A L" and "k \<le> MAX_ORDER" and "i \<in> set (free_list b ! k)" and "l \<le> MAX_ORDER"
  shows "set (free_list (block_pop b i k) ! l) =
     (if l = k then set (free_list b ! k) - {i} else set (free_list b ! l))"
proof -
  have "i \<notin> set (free_list b ! l)" if "l \<noteq> k"
    using free_blocks_eq [OF assms(1-3,4), of i i] that by auto
  then show ?thesis
    using binvD(2) [OF assms(1)] binvD(4) [OF assms(1,4)] assms(4)
    by (auto simp: block_pop_def remove1_idem)
qed

lemma block_pop_inv:
  assumes inv: "binv b A L" and k: "k \<le> MAX_ORDER" and i: "i \<in> set (free_list b ! k)"
  shows "binv (block_pop b i k) A (L \<union> blk i k)"
proof -
  let ?b = "block_pop b i k"
  have same: "frame_array ?b = frame_array b" "g_total_pages ?b = g_total_pages b"
    by (simp_all add: block_pop_def)
  have sets: "l \<le> MAX_ORDER \<Longrightarrow> set (free_list ?b ! l) =
     (if l = k then set (free_list b ! k) - {i} else set (free_list b ! l))" for l
    using block_pop_nth [OF inv k i] .
  have fi: "free_ok b L i k"
    using binvD(5) [OF inv k i] .
  show ?thesis
  proof (rule binvI)
    show "L \<union> blk i k \<subseteq> {..<g_total_pages ?b}"
      using binvD(3) [OF inv] free_ok_page(1) [OF fi] unfolding same by blast
    show "distinct (free_list ?b ! l)" if "l \<le> MAX_ORDER" for l
      using binvD(4) [OF inv that] binvD(2) [OF inv] that by (simp add: block_pop_def distinct_remove1)
    show "free_ok ?b (L \<union> blk i k) j l" if l: "l \<le> MAX_ORDER" and j: "j \<in> set (free_list ?b ! l)" for j l
    proof -
      from j have j': "j \<in> set (free_list b ! l)" and ne: "j \<noteq> i \<or> l \<noteq> k"
        unfolding sets [OF l] by (auto split: if_splits)
      then have "blk j l \<inter> blk i k = {}"
        using free_blocks_eq [OF inv l j' k i] by blast
      with binvD(5) [OF inv l j'] show ?thesis
        unfolding free_ok_def same by blast
    qed
    show "alloc_ok ?b (L \<union> blk i k) j l" if a: "(j, l) \<in> A" for j l
      using binvD(6) [OF inv a] free_alloc_disjoint [OF inv k i a]
      unfolding alloc_ok_def same by blast
    show "owned ?b A p" if "p < g_total_pages ?b" "p \<notin> L \<union> blk i k" for p
    proof -
      have "owned b A p"
        using binvD(8) [OF inv, of p] that by (simp add: same)
      moreover have "j \<in> set (free_list ?b ! l)"
        if "l \<le> MAX_ORDER" "j \<in> set (free_list b ! l)" "p \<in> blk j l" for j l
        using that \<open>p \<notin> L \<union> blk i k\<close> by (auto simp: sets split: if_splits)
      ultimately show ?thesis
        unfolding owned_def same by blast
    qed
  qed (use binvD [OF inv] in \<open>simp_all add: block_pop_def\<close>)
qed

text \<open>Tagging a block of working frames hands it out.\<close>

lemma tag_inv:
  assumes inv: "binv b A L" and k: "k \<le> MAX_ORDER" and al: "2 ^ k dvd i" and sub: "blk i k \<subseteq> L"
  obtains fa where "fill (2 ^ k) i (ALLOC_TAG i k) (frame_array b) = Some fa"
    and "binv (b\<lparr>frame_array := fa\<rparr>) (insert (i, k) A) (L - blk i k)"
    and "changes_in b (b\<lparr>frame_array := fa\<rparr>) (blk i k)"
proof -
  have fits: "i + 2 ^ k \<le> g_total_pages b"
    using inv sub by (rule blk_subset_fits)
  then obtain fa where fill: "fill (2 ^ k) i (ALLOC_TAG i k) (frame_array b) = Some fa"
    using fill_in_range [of i "2 ^ k" "frame_array b"] binvD(1) [OF inv] by auto
  have fa: "fa ! p = (if p \<in> blk i k then ALLOC_TAG i k else frame_array b ! p)"
    if "p < g_total_pages b" for p
    using fill_nth [OF fill] that binvD(1) [OF inv] by simp
  have keep: "fa ! p = frame_array b ! p" if "p < g_total_pages b" "p \<notin> L" for p
    using fa [OF that(1)] that(2) sub by (auto simp del: mem_blk)
  let ?b = "b\<lparr>frame_array := fa\<rparr>"
  have old: "alloc_ok ?b (L - blk i k) j l \<and> blk i k \<inter> blk j l = {}" if "(j, l) \<in> A" for j l
  proof -
    have a: "alloc_ok b L j l"
      using binvD(6) [OF inv that] .
    have "fa ! p = frame_array b ! p" if "p \<in> blk j l" for p
      using alloc_ok_page(1,2) [OF a that] by (rule keep)
    then show ?thesis
      using a sub unfolding alloc_ok_def by auto
  qed
  have "binv ?b (insert (i, k) A) (L - blk i k)"
  proof (rule binvI)
    show "free_ok ?b (L - blk i k) j l" if "l \<le> MAX_ORDER" "j \<in> set (free_list ?b ! l)" for j l
    proof -
      have f: "free_ok b L j l"
        using binvD(5) [OF inv] that by simp
      have "fa ! p = frame_array b ! p" if "p \<in> blk j l" for p
        using free_ok_page(1,2) [OF f that] by (rule keep)
      then show ?thesis
        using f unfolding free_ok_def by (auto simp: blk_def)
    qed
    have "alloc_ok ?b (L - blk i k) i k"
      using k al fits fa by (auto simp: alloc_ok_def)
    then show "alloc_ok ?b (L - blk i k) j l" if "(j, l) \<in> insert (i, k) A" for j l
      using that old by blast
    show "blk j l \<inter> blk m n = {}" if "(j, l) \<in> insert (i, k) A" "(m, n) \<in> insert (i, k) A"
      "(j, l) \<noteq> (m, n)" for j l m n
      using that old binvD(7) [OF inv, of j l m n] by blast
    show "owned ?b (insert (i, k) A) p" if "p < g_total_pages ?b" "p \<notin> L - blk i k" for p
    proof (cases "p \<in> blk i k")
      case True
      then show ?thesis unfolding owned_def by blast
    next
      case False
      then have "owned b A p" and "fa ! p = frame_array b ! p"
        using binvD(8) [OF inv, of p] keep [of p] that by auto
      then show ?thesis
        unfolding owned_def by (auto simp del: mem_blk)
    qed
  qed (use binvD [OF inv] fill_length [OF fill] in auto)
  moreover have "changes_in b ?b (blk i k)"
    using fa k by (auto simp: changes_in_def)
  ultimately show thesis
    using fill by (intro that [of fa])
qed

text \<open>Marking an allocated block free takes it back.\<close>

lemma untag_inv:
  assumes inv: "binv b A {}" and a: "(i, k) \<in> A"
  obtains fa where "fill (2 ^ k) i FRAME_FREE_PART (frame_array b) = Some fa"
    and "binv (b\<lparr>frame_array := fa\<rparr>) (A - {(i, k)}) (blk i k)"
    and "changes_in b (b\<lparr>frame_array := fa\<rparr>) (blk i k)"
proof -
  have ok: "alloc_ok b {} i k"
    using binvD(6) [OF inv a] .
  then obtain fa where fill: "fill (2 ^ k) i FRAME_FREE_PART (frame_array b) = Some fa"
    using fill_in_range [of i "2 ^ k" "frame_array b"] binvD(1) [OF inv] by (auto simp: alloc_ok_def)
  have fa: "fa ! p = (if p \<in> blk i k then FRAME_FREE_PART else frame_array b ! p)"
    if "p < g_total_pages b" for p
    using fill_nth [OF fill] that binvD(1) [OF inv] by simp
  then have keep: "fa ! p = frame_array b ! p" if "p < g_total_pages b" "p \<notin> blk i k" for p
    using that by auto
  let ?b = "b\<lparr>frame_array := fa\<rparr>"
  have "binv ?b (A - {(i, k)}) (blk i k)"
  proof (rule binvI)
    show "blk i k \<subseteq> {..<g_total_pages ?b}"
      using alloc_ok_page(1) [OF ok] by auto
    show "free_ok ?b (blk i k) j l" if "l \<le> MAX_ORDER" "j \<in> set (free_list ?b ! l)" for j l
    proof -
      have f: "free_ok b {} j l" and dis: "blk j l \<inter> blk i k = {}"
        using binvD(5) [OF inv] free_alloc_disjoint [OF inv _ _ a] that by simp_all
      have "fa ! p = frame_array b ! p" if "p \<in> blk j l" for p
        using free_ok_page(1) [OF f that] dis that by (intro keep) blast+
      then show ?thesis
        using f dis unfolding free_ok_def by (simp add: blk_def)
    qed
    show "alloc_ok ?b (blk i k) j l" if "(j, l) \<in> A - {(i, k)}" for j l
    proof -
      have f: "alloc_ok b {} j l" and dis: "blk j l \<inter> blk i k = {}"
        using binvD(6) [OF inv] binvD(7) [OF inv _ a] that by (simp_all del: mem_blk)
      have "fa ! p = frame_array b ! p" if "p \<in> blk j l" for p
        using alloc_ok_page(1) [OF f that] dis that by (intro keep) blast+
      then show ?thesis
        using f dis unfolding alloc_ok_def by (simp add: blk_def)
    qed
    show "owned ?b (A - {(i, k)}) p" if "p < g_total_pages ?b" "p \<notin> blk i k" for p
    proof -
      have "owned b A p" and "fa ! p = frame_array b ! p"
        using binvD(8) [OF inv, of p] keep [of p] that by auto
      with that(2) show ?thesis
        unfolding owned_def by (auto simp del: mem_blk)
    qed
    show "blk j l \<inter> blk m n = {}" if "(j, l) \<in> A - {(i, k)}" "(m, n) \<in> A - {(i, k)}"
      "(j, l) \<noteq> (m, n)" for j l m n
      using that binvD(7) [OF inv] by (simp del: mem_blk)
  qed (use binvD [OF inv] fill_length [OF fill] in auto)
  moreover have "changes_in b ?b (blk i k)"
    using fa by (auto simp: changes_in_def)
  ultimately show thesis
    using fill by (intro that [of fa])
qed

section \<open>Allocation and release\<close>

lemma no_buddies_push:
  assumes "no_buddies b" and "free_list b' = (free_list b)[k := i # free_list b ! k]"
    and "k < length (free_list b)" and "2 ^ k dvd i"
    and "k < MAX_ORDER \<Longrightarrow> i XOR 2 ^ k \<notin> set (free_list b ! k)"
  shows "no_buddies b'"
  unfolding no_buddies_def
proof (intro allI impI ballI)
  fix l j
  assume l: "l < MAX_ORDER" and j: "j \<in> set (free_list b' ! l)"
  have self: "j XOR 2 ^ l \<noteq> j"
    using xor_self_eq by (metis xor.left_commute power_not_zero xor.right_neutral zero_neq_numeral)
  show "j XOR 2 ^ l \<notin> set (free_list b' ! l)"
  proof (cases "l = k")
    case False
    with assms(1) l j show ?thesis
      unfolding no_buddies_def assms(2) by simp
  next
    case True
    have twice: "(j XOR 2 ^ k) XOR 2 ^ k = j"
      by (simp add: xor.assoc)
    from True j have "j = i \<or> j \<in> set (free_list b ! k)"
      using assms(3) unfolding assms(2) by simp
    with assms(1,5) l True self twice show ?thesis
      using assms(3) unfolding no_buddies_def assms(2) by auto
  qed
qed

lemma no_buddies_pop:
  assumes "no_buddies b" and "length (free_list b) = MAX_ORDER + 1"
  shows "no_buddies (block_pop b i k)"
proof -
  have "set (free_list (block_pop b i k) ! l) \<subseteq> set (free_list b ! l)" if "l < MAX_ORDER" for l
    using assms(2) that by (simp add: block_pop_def set_remove1_subset)
  with assms(1) show ?thesis
    unfolding no_buddies_def by (meson subsetD)
qed

lemma split_block_inv:
  assumes "binv b A (blk idx c)" and "no_buddies b" and "t \<le> c" and "c \<le> MAX_ORDER"
    and "2 ^ c dvd idx"
  shows "\<exists>b'. split_block b idx c t = Some b' \<and> binv b' A (blk idx t) \<and> no_buddies b' \<and>
           changes_in b b' (blk idx c)"
  using assms
proof (induction c arbitrary: b)
  case 0
  then show ?case
    by (simp add: split_block.simps)
next
  case (Suc k)
  show ?case
  proof (cases "t = Suc k")
    case True
    with Suc.prems show ?thesis
      by (simp add: split_block.simps)
  next
    case False
    let ?hi = "idx + 2 ^ k"
    have al: "2 ^ k dvd idx" "2 ^ k dvd ?hi"
      using Suc.prems(5) by (auto simp: dvd_mult_right elim: dvd_trans [rotated])
    have sub: "blk ?hi k \<subseteq> blk idx (Suc k)"
      by (auto simp: blk_def)
    have rest: "blk idx (Suc k) - blk ?hi k = blk idx k"
      by (auto simp: blk_def)
    have k: "k \<le> MAX_ORDER"
      using Suc.prems(4) by simp
    obtain b1 where push: "block_push b ?hi k = Some b1"
      and inv1: "binv b1 A (blk idx k)"
      and fl: "free_list b1 = (free_list b)[k := ?hi # free_list b ! k]"
      and same: "changes_in b b1 (blk ?hi k)"
      using block_push_inv [OF Suc.prems(1) k al(2) sub] unfolding rest by metis
    have "idx \<notin> set (free_list b ! k)"
      using free_ok_page(2) [OF binvD(5) [OF Suc.prems(1) k], of idx idx] by auto
    then have "no_buddies b1"
      using no_buddies_push [OF Suc.prems(2) fl _ al(2)] binvD(2) [OF Suc.prems(1)] k
        xor_buddy_low [OF Suc.prems(5)] by simp
    with Suc.IH [OF inv1 _ _ k al(1)] False Suc.prems(3) obtain b2 where
      b2: "split_block b1 idx k t = Some b2" "binv b2 A (blk idx t)" "no_buddies b2"
      "changes_in b1 b2 (blk idx k)" by auto
    have "changes_in b b2 (blk idx (Suc k))"
      using same b2(4) by (rule changes_in_trans) (auto simp: blk_def)
    moreover have "split_block b idx (Suc k) t = Some b2"
      using False Suc.prems(3) push b2(1) by (simp add: split_block.simps [of b])
    ultimately show ?thesis
      using b2 by blast
  qed
qed

text \<open>The order computed for a page count is the least one whose block is large enough; the loop
  returns for every count up to \<open>2 ^ 63\<close>.\<close>

lemma pages_to_order_loop_least:
  assumes "unat pages \<le> 2 ^ 63" and "order \<le> 63" and "\<forall>j<order. 2 ^ j < unat pages"
  shows "\<exists>k\<le>63. pages_to_order_loop pages (2 ^ order) order = Some k \<and> unat pages \<le> 2 ^ k \<and>
           (\<forall>j<k. 2 ^ j < unat pages)"
  using assms(2,3)
proof (induction "63 - order" arbitrary: order)
  case 0
  then have "order = 63" by simp
  moreover have "unat (2 ^ 63 :: u64) = 2 ^ 63"
    by simp
  ultimately show ?case
    using assms(1) 0 by (auto simp: pages_to_order_loop.simps [of pages] word_less_nat_alt)
next
  case (Suc n)
  have pw: "unat (2 ^ order :: u64) = 2 ^ order"
    using Suc.prems(1) by (intro unat_pow2) simp
  show ?case
  proof (cases "(2 ^ order :: u64) < pages")
    case True
    then have "2 ^ order < unat pages"
      using pw by (simp add: word_less_nat_alt)
    then have "\<forall>j<Suc order. 2 ^ j < unat pages"
      using Suc.prems(2) less_Suc_eq by auto
    then have "\<exists>k\<le>63. pages_to_order_loop pages (2 ^ Suc order) (Suc order) = Some k \<and>
        unat pages \<le> 2 ^ k \<and> (\<forall>j<k. 2 ^ j < unat pages)"
      using Suc.hyps(2) by (intro Suc.hyps(1)) simp_all
    with True show ?thesis
      by (subst pages_to_order_loop.simps) (simp add: push_bit_eq_mult mult.commute)
  next
    case False
    then have "unat pages \<le> 2 ^ order"
      using pw by (simp add: word_less_nat_alt not_less)
    with False Suc.prems show ?thesis
      by (subst pages_to_order_loop.simps) auto
  qed
qed

lemma pages_to_order_least:
  assumes "unat pages \<le> 2 ^ 63"
  obtains k where "pages_to_order pages = Some k" and "unat pages \<le> 2 ^ k"
    and "\<And>j. j < k \<Longrightarrow> 2 ^ j < unat pages"
  using pages_to_order_loop_least [OF assms, of 0] by (auto simp: pages_to_order_def)

lemma pages_needed:
  assumes "unat sz \<le> 2 ^ 64 - 4096"
  shows "unat ((sz + PAGE_SIZE - 1) div PAGE_SIZE) = (unat sz + 4095) div 4096"
proof -
  have "unat PAGE_SIZE = 4096"
    by (simp add: PAGE_SIZE_def)
  then show ?thesis
    by (simp only: unat_div unat_add_4095 [OF assms])
qed

text \<open>The block order that fits a request, and what \<^verbatim>\<open>buddy_alloc\<close> computes for it.\<close>

lemma request_order:
  assumes "sz \<noteq> 0" and "unat sz \<le> 2 ^ 64 - 4096"
  obtains k where "pages_to_order ((sz + PAGE_SIZE - 1) div PAGE_SIZE) = Some k"
    and "unat sz \<le> 4096 * 2 ^ k" and "\<And>j. j < k \<Longrightarrow> 4096 * 2 ^ j < unat sz"
proof -
  let ?n = "(sz + PAGE_SIZE - 1) div PAGE_SIZE"
  have n: "unat ?n = (unat sz + 4095) div 4096"
    using pages_needed [OF assms(2)] .
  then have "unat ?n \<le> 2 ^ 63"
    using assms(2) by simp
  then obtain k where k: "pages_to_order ?n = Some k" "unat ?n \<le> 2 ^ k"
    "\<And>j. j < k \<Longrightarrow> 2 ^ j < unat ?n"
    using pages_to_order_least by blast
  show thesis
  proof (rule that [OF k(1)])
    have "(unat sz + 4095) div 4096 \<le> 2 ^ k"
      using k(2) n by simp
    then show "unat sz \<le> 4096 * 2 ^ k"
      by linarith
    show "4096 * 2 ^ j < unat sz" if "j < k" for j
    proof -
      have "2 ^ j < (unat sz + 4095) div 4096"
        using k(3) [OF that] n by simp
      then show ?thesis
        by linarith
    qed
  qed
qed

lemma find_order_props:
  "k \<le> find_order b k \<and> (\<forall>l. k \<le> l \<and> l < find_order b k \<longrightarrow> free_list b ! l = []) \<and>
   (find_order b k \<le> MAX_ORDER \<longrightarrow> free_list b ! find_order b k \<noteq> [])"
proof (induction b k rule: find_order.induct)
  case (1 b k)
  show ?case
  proof (cases "k \<le> MAX_ORDER \<and> free_list b ! k = []")
    case True
    then have eq: "find_order b k = find_order b (k + 1)"
      by (simp add: find_order.simps [of b k])
    have "free_list b ! l = []" if "k \<le> l" "l < find_order b (k + 1)" for l
      using "1.IH" [OF True] that True by (cases "l = k") auto
    then show ?thesis
      unfolding eq using "1.IH" [OF True] by auto
  next
    case False
    then have "find_order b k = k"
      by (auto simp: find_order.simps [of b k])
    with False show ?thesis by auto
  qed
qed

lemmas find_order_ge = find_order_props [THEN conjunct1]
lemmas find_order_empty = find_order_props [THEN conjunct2, THEN conjunct1, rule_format, OF conjI]
lemmas find_order_found = find_order_props [THEN conjunct2, THEN conjunct2, rule_format]

text \<open>Outcome of an allocation: either no free block is large enough and nothing changes, or a
  block that was free is handed out.\<close>

definition free_pages :: "buddy \<Rightarrow> nat set" where
  "free_pages b = {p. \<exists>k\<le>MAX_ORDER. \<exists>i\<in>set (free_list b ! k). p \<in> blk i k}"

definition reserved_pages :: "buddy \<Rightarrow> nat set" where
  "reserved_pages b = {p. p < g_total_pages b \<and> frame_array b ! p = FRAME_RESERVED}"

definition alloc_pages :: "(nat \<times> nat) set \<Rightarrow> nat set" where
  "alloc_pages A = (\<Union>(i, k)\<in>A. blk i k)"

lemma free_pages_not_reserved:
  assumes "binv b A L"
  shows "free_pages b \<inter> reserved_pages b = {}"
proof -
  have "frame_array b ! p \<noteq> FRAME_RESERVED" if "k \<le> MAX_ORDER" "i \<in> set (free_list b ! k)" "p \<in> blk i k" for i k p
    using free_ok_page(3) [OF binvD(5) [OF assms that(1,2)] that(3)] that(1) by simp
  then show ?thesis
    unfolding free_pages_def reserved_pages_def by blast
qed

lemma alloc_pages_not_reserved:
  assumes "binv b A L"
  shows "alloc_pages A \<inter> reserved_pages b = {}"
proof -
  have "frame_array b ! p \<noteq> FRAME_RESERVED" if "(i, k) \<in> A" "p \<in> blk i k" for i k p
    using alloc_ok_page(3,4) [OF binvD(6) [OF assms that(1)] that(2)] by simp
  then show ?thesis
    unfolding alloc_pages_def reserved_pages_def by blast
qed

lemma page_partition:
  assumes "binv b A {}"
  shows "free_pages b = {..<g_total_pages b} - reserved_pages b - alloc_pages A"
proof (intro equalityI subsetI)
  fix p
  assume p: "p \<in> free_pages b"
  then obtain k i where ki: "k \<le> MAX_ORDER" "i \<in> set (free_list b ! k)" "p \<in> blk i k"
    unfolding free_pages_def by blast
  have "p < g_total_pages b"
    using free_ok_page(1) [OF binvD(5) [OF assms ki(1,2)] ki(3)] .
  moreover have "p \<notin> reserved_pages b"
    using free_pages_not_reserved [OF assms] p by blast
  moreover have "p \<notin> alloc_pages A"
    using free_alloc_disjoint [OF assms ki(1,2)] ki(3) unfolding alloc_pages_def by blast
  ultimately show "p \<in> {..<g_total_pages b} - reserved_pages b - alloc_pages A"
    by simp
next
  fix p
  assume p: "p \<in> {..<g_total_pages b} - reserved_pages b - alloc_pages A"
  then have "owned b A p"
    using binvD(8) [OF assms] by blast
  with p show "p \<in> free_pages b"
    unfolding owned_def free_pages_def reserved_pages_def alloc_pages_def by blast
qed

lemma changes_in_pop: "changes_in (block_pop b i k) b' S = changes_in b b' S"
  unfolding changes_in_def block_pop_def by simp

lemma reserved_pages_same:
  assumes "changes_in b b' S" and "S \<inter> reserved_pages b = {}"
  shows "reserved_pages b' = reserved_pages b"
  using assms unfolding changes_in_def reserved_pages_def by auto

lemma free_block_pages:
  "k \<le> MAX_ORDER \<Longrightarrow> i \<in> set (free_list b ! k) \<Longrightarrow> blk i k \<subseteq> free_pages b"
  unfolding free_pages_def by blast

text \<open>Taking the first block of a list of order \<open>c\<close> and splitting it down to order \<open>t\<close>.\<close>

lemma take_block_inv:
  assumes inv: "binv b A {}" and nb: "no_buddies b" and c: "c \<le> MAX_ORDER" and t: "t \<le> c"
    and idx: "idx \<in> set (free_list b ! c)"
  obtains b1 fa where "split_block (block_pop b idx c) idx c t = Some b1"
    and "fill (2 ^ t) idx (ALLOC_TAG idx t) (frame_array b1) = Some fa"
    and "binv (b1\<lparr>frame_array := fa\<rparr>) (insert (idx, t) A) {}"
    and "no_buddies (b1\<lparr>frame_array := fa\<rparr>)"
    and "changes_in b (b1\<lparr>frame_array := fa\<rparr>) (blk idx c)"
proof -
  let ?p = "block_pop b idx c"
  have al: "2 ^ c dvd idx"
    using binvD(5) [OF inv c idx] by (simp add: free_ok_def)
  have "binv ?p A (blk idx c)"
    using block_pop_inv [OF inv c idx] by simp
  moreover have "no_buddies ?p"
    using nb binvD(2) [OF inv] by (rule no_buddies_pop)
  ultimately obtain b1 where b1: "split_block ?p idx c t = Some b1"
    "binv b1 A (blk idx t)" "no_buddies b1" "changes_in ?p b1 (blk idx c)"
    using split_block_inv [OF _ _ t c al] by blast
  have "2 ^ t dvd idx"
    using al t by (meson dvd_trans le_imp_power_dvd)
  then obtain fa where fa: "fill (2 ^ t) idx (ALLOC_TAG idx t) (frame_array b1) = Some fa"
    "binv (b1\<lparr>frame_array := fa\<rparr>) (insert (idx, t) A) {}"
    "changes_in b1 (b1\<lparr>frame_array := fa\<rparr>) (blk idx t)"
    using tag_inv [OF b1(2), of t idx] t c by auto
  have "blk idx t \<subseteq> blk idx c"
    using t power_increasing [OF t, of "2::nat"] by (auto simp: blk_def)
  moreover have "changes_in b ?p {}"
    by (simp add: changes_in_def block_pop_def)
  ultimately have "changes_in b (b1\<lparr>frame_array := fa\<rparr>) (blk idx c)"
    using b1(4) fa(3) by (meson changes_in_trans empty_subsetI order_refl sup.bounded_iff)
  with b1 fa show thesis
    by (intro that) (simp_all add: no_buddies_def)
qed

theorem buddy_alloc_outcome:
  assumes inv: "binv b A {}" and nb: "no_buddies b" and sz: "sz \<noteq> 0" "unat sz \<le> 2 ^ 64 - 4096"
  shows "\<exists>b' p. buddy_alloc b sz = Some (b', p) \<and>
    ((b' = b \<and> p = NULL \<and> (\<forall>k\<le>MAX_ORDER. unat sz \<le> 4096 * 2 ^ k \<longrightarrow> free_list b ! k = [])) \<or>
     (\<exists>i k. p = idx_to_addr b i \<and> k \<le> MAX_ORDER \<and> unat sz \<le> 4096 * 2 ^ k \<and>
        (\<forall>j<k. 4096 * 2 ^ j < unat sz) \<and> blk i k \<subseteq> free_pages b \<and>
        binv b' (insert (i, k) A) {} \<and> no_buddies b' \<and>
        reserved_pages b' = reserved_pages b \<and> changes_in b b' (free_pages b)))"
proof -
  obtain t where t: "pages_to_order ((sz + PAGE_SIZE - 1) div PAGE_SIZE) = Some t"
    "unat sz \<le> 4096 * 2 ^ t" "\<And>j. j < t \<Longrightarrow> 4096 * 2 ^ j < unat sz"
    using request_order [OF sz] by blast
  have least: "t \<le> k" if "unat sz \<le> 4096 * 2 ^ k" for k
    using t(3) [of k] that by (meson not_le)
  let ?c = "find_order b t"
  show ?thesis
  proof (cases "t \<le> MAX_ORDER \<and> ?c \<le> MAX_ORDER")
    case False
    then have "buddy_alloc b sz = Some (b, NULL)"
      using sz(1) t(1) by (auto simp: buddy_alloc_def Let_def)
    moreover have "free_list b ! k = []" if "k \<le> MAX_ORDER" "unat sz \<le> 4096 * 2 ^ k" for k
      using False find_order_empty [of t k b] least [OF that(2)] that(1) by auto
    ultimately show ?thesis by blast
  next
    case True
    then obtain idx rest where fl: "free_list b ! ?c = idx # rest"
      using find_order_found [of b t] by (cases "free_list b ! ?c") auto
    then have idx: "idx \<in> set (free_list b ! ?c)"
      by simp
    obtain b1 fa where st: "split_block (block_pop b idx ?c) idx ?c t = Some b1"
      "fill (2 ^ t) idx (ALLOC_TAG idx t) (frame_array b1) = Some fa"
      "binv (b1\<lparr>frame_array := fa\<rparr>) (insert (idx, t) A) {}"
      "no_buddies (b1\<lparr>frame_array := fa\<rparr>)"
      and ch: "changes_in b (b1\<lparr>frame_array := fa\<rparr>) (blk idx ?c)"
      using take_block_inv [OF inv nb _ find_order_ge idx] True by blast
    have sub: "blk idx ?c \<subseteq> free_pages b"
      using free_block_pages [OF _ idx] True by blast
    moreover have "blk idx t \<subseteq> blk idx ?c"
      using power_increasing [OF find_order_ge, of "2::nat" t b] by (auto simp: blk_def)
    moreover have "reserved_pages (b1\<lparr>frame_array := fa\<rparr>) = reserved_pages b"
      using ch sub free_pages_not_reserved [OF inv] by (intro reserved_pages_same) blast+
    moreover have "changes_in b (b1\<lparr>frame_array := fa\<rparr>) (free_pages b)"
      using ch sub by (meson changes_in_refl changes_in_trans sup.bounded_iff)
    moreover have "buddy_alloc b sz = Some (b1\<lparr>frame_array := fa\<rparr>, idx_to_addr b idx)"
      using sz(1) t(1) True fl st(1,2) by (simp add: buddy_alloc_def Let_def)
    ultimately show ?thesis
      using True t(2,3) st(3,4) by blast
  qed
qed

text \<open>The coalescing loop keeps the merged block among the working frames and stops where the
  buddy is not free.\<close>

lemma buddy_of_working_block:
  assumes "2 ^ k dvd (i::nat)"
  shows "blk i k \<inter> blk (i XOR 2 ^ k) k = {}"
    and "blk i k \<union> blk (i XOR 2 ^ k) k = blk (min i (i XOR 2 ^ k)) (Suc k)"
    and "2 ^ Suc k dvd min i (i XOR 2 ^ k)"
proof -
  have "blk i k \<inter> blk (i XOR 2 ^ k) k = {} \<and>
     blk i k \<union> blk (i XOR 2 ^ k) k = blk (min i (i XOR 2 ^ k)) (Suc k) \<and>
     2 ^ Suc k dvd min i (i XOR 2 ^ k)"
    using assms
  proof (cases rule: xor_buddy_cases)
    case low
    then show ?thesis
      unfolding low(1) by (auto simp: blk_def)
  next
    case high
    then obtain j where "i = j + 2 ^ k"
      using le_add_diff_inverse2 by metis
    then show ?thesis
      using high(3) unfolding high(1) by (auto simp: blk_def)
  qed
  then show "blk i k \<inter> blk (i XOR 2 ^ k) k = {}"
    and "blk i k \<union> blk (i XOR 2 ^ k) k = blk (min i (i XOR 2 ^ k)) (Suc k)"
    and "2 ^ Suc k dvd min i (i XOR 2 ^ k)"
    by blast+
qed

lemma coalesce_inv:
  assumes "binv b A (blk i k)" and "no_buddies b" and "k \<le> MAX_ORDER" and "2 ^ k dvd i"
  shows "\<exists>b' i' k'. coalesce b i k = Some (b', i', k') \<and> binv b' A (blk i' k') \<and> no_buddies b' \<and>
    k' \<le> MAX_ORDER \<and> 2 ^ k' dvd i' \<and> changes_in b b' {} \<and> blk i' k' \<subseteq> blk i k \<union> free_pages b \<and>
    (k' < MAX_ORDER \<longrightarrow> i' XOR 2 ^ k' \<notin> set (free_list b' ! k'))"
  using assms
proof (induction b i k rule: coalesce.induct)
  case (1 b i k)
  let ?j = "i XOR 2 ^ k"
  have stop: ?case if "coalesce b i k = Some (b, i, k)"
    "k < MAX_ORDER \<Longrightarrow> ?j \<notin> set (free_list b ! k)"
    using that "1.prems" by (intro exI [of _ b] exI [of _ i] exI [of _ k]) auto
  show ?case
  proof (cases "k < MAX_ORDER \<and> ?j < g_total_pages b \<and> frame_array b ! ?j = of_nat k")
    case False
    have "?j \<notin> set (free_list b ! k)" if "k < MAX_ORDER"
    proof
      assume j: "?j \<in> set (free_list b ! k)"
      have "free_ok b (blk i k) ?j k"
        using binvD(5) [OF "1.prems"(1) "1.prems"(3) j] .
      from free_ok_page(1,3) [OF this, of ?j] False that show False
        by simp
    qed
    moreover have "coalesce b i k = Some (b, i, k)"
      using False binvD(1) [OF "1.prems"(1)]
      by (auto simp: coalesce.simps [of b i k] Let_def arr_simps)
    ultimately show ?thesis
      by (intro stop)
  next
    case True
    note pair = buddy_of_working_block [OF "1.prems"(4)]
    have nL: "?j \<notin> blk i k"
      using pair(1) by (metis IntI empty_iff le_refl less_add_same_cancel1 mem_blk pow2_pos)
    have j: "?j \<in> set (free_list b ! k)"
      using order_cell_is_head [OF "1.prems"(1) _ nL "1.prems"(3)] True by blast
    let ?b = "block_pop b ?j k" and ?i = "if ?j < i then ?j else i"
    have min: "min i ?j = ?i"
      by (simp add: min_def)
    have step: "coalesce b i k = coalesce ?b ?i (k + 1)"
      using True binvD(1) [OF "1.prems"(1)] "1.prems"(3)
      by (simp add: coalesce.simps [of b i k] Let_def arr_simps)
    have "binv ?b A (blk ?i (k + 1))"
      using block_pop_inv [OF "1.prems"(1,3) j] pair(2) unfolding min by simp
    moreover have "no_buddies ?b"
      using "1.prems"(2) binvD(2) [OF "1.prems"(1)] by (rule no_buddies_pop)
    moreover have "2 ^ (k + 1) dvd ?i"
      using pair(3) unfolding min by simp
    ultimately obtain b' i' k' where r: "coalesce ?b ?i (k + 1) = Some (b', i', k')"
      "binv b' A (blk i' k')" "no_buddies b'" "k' \<le> MAX_ORDER" "2 ^ k' dvd i'"
      "changes_in ?b b' {}" "blk i' k' \<subseteq> blk ?i (k + 1) \<union> free_pages ?b"
      "k' < MAX_ORDER \<longrightarrow> i' XOR 2 ^ k' \<notin> set (free_list b' ! k')"
      using "1.IH" [OF _ refl, of "of_nat k"] True "1.prems"(3)
        binvD(1) [OF "1.prems"(1)] by (auto simp: arr_simps)
    have "changes_in b b' {}"
      using r(6) by (simp only: changes_in_pop)
    moreover have "free_pages ?b \<subseteq> free_pages b"
      using block_pop_nth [OF "1.prems"(1,3) j] unfolding free_pages_def by (fastforce split: if_splits)
    then have "blk i' k' \<subseteq> blk i k \<union> free_pages b"
      using r(7) pair(2) free_block_pages [OF "1.prems"(3) j] unfolding min by auto
    ultimately show ?thesis
      using r step by auto
  qed
qed

text \<open>The managed region: it does not start at address 0 and does not wrap.\<close>

definition region_ok :: "buddy \<Rightarrow> bool" where
  "region_ok b \<longleftrightarrow> 0 < unat (g_buddy_base b) \<and>
     unat (g_buddy_base b) + 4096 * g_total_pages b \<le> unat (g_buddy_end b)"

lemma addr_to_idx_of_idx:
  assumes "i < 2 ^ 52"
  shows "addr_to_idx b (idx_to_addr b i) = i"
proof -
  have "unat (of_nat i * PAGE_SIZE :: u64) = i * 4096"
    using assms by (simp add: PAGE_SIZE_def unat_word_ariths unat_of_nat)
  moreover have "idx_to_addr b i - g_buddy_base b = of_nat i * PAGE_SIZE"
    by (simp add: idx_to_addr_def)
  ultimately show ?thesis
    by (simp add: addr_to_idx_def unat_div PAGE_SIZE_def)
qed

lemma list_head_to_idx_frame:
  "i < 2 ^ 52 \<Longrightarrow> list_head_to_idx b (frame_list_head b i) = i"
  by (simp add: list_head_to_idx_def frame_list_head_def addr_to_idx_of_idx)

lemma region_total: "region_ok b \<Longrightarrow> g_total_pages b < 2 ^ 52"
  using unat_lt64 [of "g_buddy_end b"] by (simp add: region_ok_def)

lemma unat_idx_to_addr:
  assumes "region_ok b" and "i < g_total_pages b"
  shows "unat (idx_to_addr b i) = unat (g_buddy_base b) + 4096 * i"
proof -
  have lt: "unat (g_buddy_base b) + 4096 * i < 2 ^ 64"
    using assms unat_lt64 [of "g_buddy_end b"] by (simp add: region_ok_def)
  have "idx_to_addr b i = of_nat (unat (g_buddy_base b) + 4096 * i)"
    by (simp add: idx_to_addr_def PAGE_SIZE_def)
  also have "unat \<dots> = unat (g_buddy_base b) + 4096 * i"
    unfolding unat_of_nat using lt by simp
  finally show ?thesis .
qed

lemma idx_to_addr_in_region:
  assumes "region_ok b" and "i < g_total_pages b"
  shows "idx_to_addr b i \<noteq> NULL" and "g_buddy_base b \<le> idx_to_addr b i"
    and "idx_to_addr b i < g_buddy_end b"
proof -
  note a = unat_idx_to_addr [OF assms]
  have base: "0 < unat (g_buddy_base b)"
    and fits: "unat (g_buddy_base b) + 4096 * g_total_pages b \<le> unat (g_buddy_end b)"
    using assms(1) by (simp_all add: region_ok_def)
  show "idx_to_addr b i \<noteq> NULL"
    using a base by (metis add_is_0 less_numeral_extra(3) unsigned_0)
  show "g_buddy_base b \<le> idx_to_addr b i"
    unfolding word_le_nat_alt a by simp
  show "idx_to_addr b i < g_buddy_end b"
    unfolding word_less_nat_alt a using fits assms(2) by linarith
qed

lemma idx_to_addr_inject:
  assumes "region_ok b" and "i < g_total_pages b" and "j < g_total_pages b"
    and "idx_to_addr b i = idx_to_addr b j"
  shows "i = j"
proof -
  have "unat (g_buddy_base b) + 4096 * i = unat (g_buddy_base b) + 4096 * j"
    using unat_idx_to_addr [OF assms(1,2)] unat_idx_to_addr [OF assms(1,3)] assms(4) by metis
  then show ?thesis by simp
qed

lemma changes_in_region:
  "changes_in b b' S \<Longrightarrow> region_ok b' \<longleftrightarrow> region_ok b"
  by (simp add: changes_in_same region_ok_def)

lemma changes_in_addr:
  "changes_in b b' S \<Longrightarrow> idx_to_addr b' i = idx_to_addr b i"
  by (simp add: changes_in_same idx_to_addr_def)

theorem buddy_free_outcome:
  assumes inv: "binv b A {}" and nb: "no_buddies b" and reg: "region_ok b" and a: "(i, k) \<in> A"
  shows "\<exists>b'. buddy_free b (idx_to_addr b i) = Some b' \<and> binv b' (A - {(i, k)}) {} \<and>
     no_buddies b' \<and> reserved_pages b' = reserved_pages b \<and>
     free_pages b' = free_pages b \<union> blk i k \<and> changes_in b b' (free_pages b \<union> blk i k)"
proof -
  have ok: "alloc_ok b {} i k"
    using binvD(6) [OF inv a] .
  have i: "i < g_total_pages b" and tag: "frame_array b ! i = ALLOC_TAG i k" and k: "k \<le> MAX_ORDER"
    using alloc_ok_page [OF ok, of i] by simp_all
  have al: "2 ^ k dvd i"
    using ok by (simp add: alloc_ok_def)
  have idx: "addr_to_idx b (idx_to_addr b i) = i"
    using i region_total [OF reg] by (intro addr_to_idx_of_idx) simp
  have k64: "k < 64" and k256: "k < 256"
    using k by (simp_all add: MAX_ORDER_def)
  obtain fa where fa: "fill (2 ^ k) i FRAME_FREE_PART (frame_array b) = Some fa"
    "binv (b\<lparr>frame_array := fa\<rparr>) (A - {(i, k)}) (blk i k)"
    "changes_in b (b\<lparr>frame_array := fa\<rparr>) (blk i k)"
    using untag_inv [OF inv a] by blast
  let ?b0 = "b\<lparr>frame_array := fa\<rparr>"
  have "no_buddies ?b0"
    using nb by (simp add: no_buddies_def)
  then obtain b1 j l where c: "coalesce ?b0 i k = Some (b1, j, l)"
    "binv b1 (A - {(i, k)}) (blk j l)" "no_buddies b1" "l \<le> MAX_ORDER" "2 ^ l dvd j"
    "changes_in ?b0 b1 {}" "blk j l \<subseteq> blk i k \<union> free_pages ?b0"
    "l < MAX_ORDER \<longrightarrow> j XOR 2 ^ l \<notin> set (free_list b1 ! l)"
    using coalesce_inv [OF fa(2) _ k al] by blast
  obtain b' where p: "block_push b1 j l = Some b'" "binv b' (A - {(i, k)}) {}"
    "free_list b' = (free_list b1)[l := j # free_list b1 ! l]" "changes_in b1 b' (blk j l)"
    using block_push_inv [OF c(2,4,5) order_refl] by auto
  have "no_buddies b'"
    using no_buddies_push [OF c(3) p(3) _ c(5)] binvD(2) [OF c(2)] c(4,8) by simp
  moreover have "free_pages ?b0 = free_pages b"
    by (simp add: free_pages_def)
  then have ch: "changes_in b b' (free_pages b \<union> blk i k)"
    using changes_in_trans [OF changes_in_trans [OF fa(3) c(6) order_refl] p(4)] c(7)
    by (simp add: Un_commute)
  moreover have "alloc_pages A \<inter> reserved_pages b = {}" "free_pages b \<inter> reserved_pages b = {}"
    using alloc_pages_not_reserved [OF inv] free_pages_not_reserved [OF inv] .
  then have "(free_pages b \<union> blk i k) \<inter> reserved_pages b = {}"
    using a unfolding alloc_pages_def by blast
  with ch have res: "reserved_pages b' = reserved_pages b"
    by (rule reserved_pages_same)
  moreover have "free_pages b' = free_pages b \<union> blk i k"
  proof -
    have split: "alloc_pages A = alloc_pages (A - {(i, k)}) \<union> blk i k"
      and dis: "alloc_pages (A - {(i, k)}) \<inter> blk i k = {}"
      using a binvD(7) [OF inv a] unfolding alloc_pages_def by blast+
    have sub: "blk i k \<subseteq> {..<g_total_pages b} - reserved_pages b"
      using alloc_ok_page(1) [OF ok] \<open>(free_pages b \<union> blk i k) \<inter> reserved_pages b = {}\<close>
      by (auto simp del: mem_blk)
    have "free_pages b' = {..<g_total_pages b} - reserved_pages b - alloc_pages (A - {(i, k)})"
      using page_partition [OF p(2)] res changes_in_same(1) [OF ch] by simp
    with page_partition [OF inv] split dis sub show ?thesis by blast
  qed
  moreover have "buddy_free b (idx_to_addr b i) = Some b'"
    using idx_to_addr_in_region [OF reg i] idx i tag k k64 k256 binvD(1) [OF inv] fa(1) c(1) p(1)
    by (simp add: buddy_free_def Let_def arr_simps not_le not_less)
  ultimately show ?thesis
    using p(2) by blast
qed

section \<open>The free lists are determined by the set of free pages\<close>

text \<open>With complete coalescing, every aligned block of free pages lies inside one free block.\<close>

lemma free_block_cover:
  assumes inv: "binv b A L" and nb: "no_buddies b" and "k \<le> MAX_ORDER" and "2 ^ k dvd i"
    and "blk i k \<subseteq> free_pages b"
  shows "\<exists>l j. k \<le> l \<and> l \<le> MAX_ORDER \<and> j \<in> set (free_list b ! l) \<and> blk i k \<subseteq> blk j l"
  using assms(3-)
proof (induction k arbitrary: i)
  case 0
  then have "i \<in> free_pages b"
    by auto
  then show ?case
    unfolding free_pages_def by (auto simp: blk_def)
next
  case (Suc k)
  let ?h = "i + 2 ^ k"
  have al: "2 ^ k dvd i" "2 ^ k dvd ?h"
    using Suc.prems(2) by (auto simp: dvd_mult_right elim: dvd_trans [rotated])
  have halves: "blk i k \<subseteq> blk i (Suc k)" "blk ?h k \<subseteq> blk i (Suc k)"
    by (auto simp: blk_def)
  obtain l j where lj: "k \<le> l" "l \<le> MAX_ORDER" "j \<in> set (free_list b ! l)" "blk i k \<subseteq> blk j l"
    using Suc.IH [OF _ al(1)] Suc.prems(1,3) halves by (meson Suc_leD order_trans)
  obtain m g where mg: "k \<le> m" "m \<le> MAX_ORDER" "g \<in> set (free_list b ! m)" "blk ?h k \<subseteq> blk g m"
    using Suc.IH [OF _ al(2)] Suc.prems(1,3) halves by (meson Suc_leD order_trans)
  have aj: "2 ^ l dvd j" and ag: "2 ^ m dvd g"
    using binvD(5) [OF inv] lj(2,3) mg(2,3) by (auto simp: free_ok_def)
  have whole: "blk i (Suc k) \<subseteq> blk x y" if "Suc k \<le> y" "2 ^ y dvd x" "p \<in> blk i (Suc k)" "p \<in> blk x y" for x y p
    using aligned_blk_nested [OF Suc.prems(2) that(2,1,3,4)] .
  have i: "i \<in> blk i k" and h: "?h \<in> blk ?h k"
    by simp_all
  consider "Suc k \<le> l" | "Suc k \<le> m" | "l = k" "m = k"
    using lj(1) mg(1) by linarith
  then show ?case
  proof cases
    case 1
    from whole [OF 1 aj, of i] i halves(1) lj(4) have "blk i (Suc k) \<subseteq> blk j l" by blast
    with 1 lj show ?thesis by blast
  next
    case 2
    from whole [OF 2 ag, of ?h] h halves(2) mg(4) have "blk i (Suc k) \<subseteq> blk g m" by blast
    with 2 mg show ?thesis by blast
  next
    case 3
    have eq: "x = y" if "blk x k \<subseteq> blk y k" for x y
      using that by (auto simp: blk_def)
    from 3 lj(4) mg(4) have "i = j" "?h = g"
      by (simp_all add: eq)
    with 3 lj(3) mg(3) have "?h \<in> set (free_list b ! k)" "i \<in> set (free_list b ! k)"
      by simp_all
    moreover have "?h XOR 2 ^ k = i"
      using xor_buddy_low [OF Suc.prems(2)] .
    ultimately show ?thesis
      using nb Suc.prems(1) unfolding no_buddies_def by (metis Suc_le_lessD)
  qed
qed

theorem free_list_canonical:
  assumes "binv b A L" and "no_buddies b" and "binv b' A' L'" and "no_buddies b'"
    and "free_pages b = free_pages b'" and "k \<le> MAX_ORDER"
  shows "set (free_list b ! k) = set (free_list b' ! k)"
proof -
  have sub: "set (free_list x ! k) \<subseteq> set (free_list y ! k)"
    if x: "binv x B M" "no_buddies x" and y: "binv y C N" "no_buddies y"
      and eq: "free_pages x = free_pages y" for x y B C M N
  proof
    fix i
    assume i: "i \<in> set (free_list x ! k)"
    have fx: "2 ^ k dvd i"
      using binvD(5) [OF x(1) assms(6) i] by (simp add: free_ok_def)
    have pages: "blk i k \<subseteq> free_pages x"
      using free_block_pages [OF assms(6) i] .
    obtain l j where lj: "k \<le> l" "l \<le> MAX_ORDER" "j \<in> set (free_list y ! l)" "blk i k \<subseteq> blk j l"
      using free_block_cover [OF y assms(6) fx] pages eq by metis
    have fy: "2 ^ l dvd j"
      using binvD(5) [OF y(1) lj(2,3)] by (simp add: free_ok_def)
    obtain m g where mg: "l \<le> m" "m \<le> MAX_ORDER" "g \<in> set (free_list x ! m)" "blk j l \<subseteq> blk g m"
      using free_block_cover [OF x lj(2) fy] free_block_pages [OF lj(2,3)] eq by metis
    have "i \<in> blk i k" by simp
    with lj(4) mg(4) have "i \<in> blk g m" by blast
    with free_blocks_eq [OF x(1) assms(6) i mg(2,3), of i] have "i = g \<and> k = m"
      by simp
    with lj mg have "l = k" and "blk i k \<subseteq> blk j k" by auto
    moreover from this have "i = j"
      by (auto simp: blk_def)
    ultimately show "i \<in> set (free_list y ! k)"
      using lj(3) by simp
  qed
  from sub [OF assms(1-4)] sub [OF assms(3,4,1,2)] assms(5) show ?thesis
    by auto
qed

end
