(* ===== verification/Buddy_Boot.thy ===== *)
theory Buddy_Boot
  imports Buddy_Inv
begin

text \<open>
  Bringing the page allocator up: \<^verbatim>\<open>buddy_init\<close> and \<^verbatim>\<open>buddy_reserve\<close> leave every frame free or
  reserved, and \<^verbatim>\<open>buddy_build_free_lists\<close> establishes the invariant of theory \<open>Buddy_Inv\<close> with
  no block handed out, complete coalescing and the same reserved pages.
\<close>

section \<open>The order search\<close>

definition candidate :: "buddy \<Rightarrow> nat \<Rightarrow> nat \<Rightarrow> bool" where
  "candidate b k i \<longleftrightarrow> 2 ^ k dvd i \<and> i + 2 ^ k \<le> g_total_pages b \<and> blk i k \<inter> reserved_pages b = {}"

lemma block_clean_eq:
  "p + n \<le> length fa \<Longrightarrow> block_clean n p fa = Some (\<forall>q. p \<le> q \<and> q < p + n \<longrightarrow> fa ! q \<noteq> FRAME_RESERVED)"
proof (induction n arbitrary: p)
  case 0
  then show ?case by auto
next
  case (Suc n)
  have "(\<forall>q. p \<le> q \<and> q < p + Suc n \<longrightarrow> fa ! q \<noteq> FRAME_RESERVED) \<longleftrightarrow>
     fa ! p \<noteq> FRAME_RESERVED \<and> (\<forall>q. Suc p \<le> q \<and> q < Suc p + n \<longrightarrow> fa ! q \<noteq> FRAME_RESERVED)"
  proof (intro iffI conjI allI impI)
    fix q
    assume r: "fa ! p \<noteq> FRAME_RESERVED \<and> (\<forall>q. Suc p \<le> q \<and> q < Suc p + n \<longrightarrow> fa ! q \<noteq> FRAME_RESERVED)"
      and "p \<le> q \<and> q < p + Suc n"
    then consider "q = p" | "Suc p \<le> q" "q < Suc p + n" by linarith
    then show "fa ! q \<noteq> FRAME_RESERVED" using r by cases auto
  qed auto
  with Suc show ?case
    by (simp add: arr_simps)
qed

lemma candidate_guard:
  assumes "length (frame_array b) = g_total_pages b"
  shows "candidate b k i \<longleftrightarrow> \<not> (i AND (2 ^ k - 1) \<noteq> 0 \<or> i + 2 ^ k > g_total_pages b) \<and>
     block_clean (2 ^ k) i (frame_array b) = Some True"
proof (cases "i + 2 ^ k \<le> g_total_pages b")
  case True
  with assms show ?thesis
    unfolding candidate_def nat_and_low reserved_pages_def
    by (auto simp: block_clean_eq mod_eq_0_iff_dvd)
next
  case False
  then show ?thesis by (simp add: candidate_def)
qed

lemma build_order_largest:
  assumes "length (frame_array b) = g_total_pages b" and "i < g_total_pages b"
    and "frame_array b ! i \<noteq> FRAME_RESERVED"
  shows "\<exists>k\<le>n. build_order b i n = Some k \<and> candidate b k i \<and> (\<forall>j. k < j \<and> j \<le> n \<longrightarrow> \<not> candidate b j i)"
proof (induction n)
  case 0
  have "candidate b 0 i"
    using assms by (auto simp: candidate_def reserved_pages_def blk_def)
  then show ?case
    by (simp add: build_order.simps)
next
  case (Suc n)
  show ?case
  proof (cases "candidate b (Suc n) i")
    case True
    then have "build_order b i (Suc n) = Some (Suc n)"
      using candidate_guard [OF assms(1), of "Suc n" i]
      by (auto simp: build_order.simps [of b i "Suc n"] Let_def)
    with True show ?thesis by auto
  next
    case False
    have "build_order b i (Suc n) = build_order b i n"
    proof (cases "i AND (2 ^ Suc n - 1) \<noteq> 0 \<or> i + 2 ^ Suc n > g_total_pages b")
      case True
      then show ?thesis
        by (auto simp: build_order.simps [of b i "Suc n"] Let_def)
    next
      case guard: False
      then have "block_clean (2 ^ Suc n) i (frame_array b) = Some False"
        using False candidate_guard [OF assms(1), of "Suc n" i]
          block_clean_eq [of i "2 ^ Suc n" "frame_array b"] assms(1) by auto
      with guard show ?thesis
        by (auto simp: build_order.simps [of b i "Suc n"] Let_def)
    qed
    with Suc.IH False show ?thesis
      by (metis le_Suc_eq)
  qed
qed

section \<open>The build loop\<close>

text \<open>No free block could have been one order larger.\<close>

definition maximal :: "buddy \<Rightarrow> bool" where
  "maximal b \<longleftrightarrow> (\<forall>k<MAX_ORDER. \<forall>i\<in>set (free_list b ! k). \<not> candidate b (Suc k) i)"

definition building :: "buddy \<Rightarrow> nat \<Rightarrow> bool" where
  "building b n \<longleftrightarrow> binv b {} {n..<g_total_pages b} \<and> no_buddies b \<and> maximal b"

lemma binv_skip_reserved:
  assumes "binv b A L" and "frame_array b ! p = FRAME_RESERVED"
  shows "binv b A (L - {p})"
proof (rule binvI)
  show "free_ok b (L - {p}) i k" if "k \<le> MAX_ORDER" "i \<in> set (free_list b ! k)" for i k
    using binvD(5) [OF assms(1) that] by (auto simp: free_ok_def)
  show "alloc_ok b (L - {p}) i k" if "(i, k) \<in> A" for i k
    using binvD(6) [OF assms(1) that] by (auto simp: alloc_ok_def)
  show "owned b A q" if "q < g_total_pages b" "q \<notin> L - {p}" for q
    using binvD(8) [OF assms(1), of q] that assms(2) by (cases "q = p") (auto simp: owned_def)
  show "blk i k \<inter> blk j l = {}" if "(i, k) \<in> A" "(j, l) \<in> A" "(i, k) \<noteq> (j, l)" for i k j l
    using binvD(7) [OF assms(1) that] .
qed (use binvD [OF assms(1)] in auto)

lemma building_skip:
  assumes "building b n" and "n < g_total_pages b" and "frame_array b ! n = FRAME_RESERVED"
  shows "building b (Suc n)"
proof -
  have "{n..<g_total_pages b} - {n} = {Suc n..<g_total_pages b}"
    by auto
  with assms binv_skip_reserved [of b "{}" "{n..<g_total_pages b}" n] show ?thesis
    by (simp add: building_def)
qed

lemma building_push:
  assumes bld: "building b n" and n: "n < g_total_pages b" and k: "k \<le> MAX_ORDER"
    and cand: "candidate b k n" and largest: "\<And>j. k < j \<Longrightarrow> j \<le> MAX_ORDER \<Longrightarrow> \<not> candidate b j n"
  obtains b' where "block_push b n k = Some b'" and "building b' (n + 2 ^ k)"
    and "changes_in b b' (blk n k)" and "reserved_pages b' = reserved_pages b"
proof -
  let ?L = "{n..<g_total_pages b}"
  have inv: "binv b {} ?L" and nb: "no_buddies b" and max: "maximal b"
    using bld by (simp_all add: building_def)
  have al: "2 ^ k dvd n" and fits: "n + 2 ^ k \<le> g_total_pages b"
    and clean: "blk n k \<inter> reserved_pages b = {}"
    using cand by (simp_all add: candidate_def)
  have sub: "blk n k \<subseteq> ?L" and rest: "?L - blk n k = {n + 2 ^ k..<g_total_pages b}"
    using fits by (auto simp: blk_def)
  obtain b' where push: "block_push b n k = Some b'" and inv': "binv b' {} {n + 2 ^ k..<g_total_pages b}"
    and fl: "free_list b' = (free_list b)[k := n # free_list b ! k]" and ch: "changes_in b b' (blk n k)"
    using block_push_inv [OF inv k al sub] unfolding rest by metis
  have res: "reserved_pages b' = reserved_pages b"
    using ch clean by (rule reserved_pages_same)
  have tot: "g_total_pages b' = g_total_pages b"
    using ch by (rule changes_in_same)
  have cand': "candidate b' = candidate b"
    by (simp add: fun_eq_iff candidate_def res tot)
  have klen: "k < length (free_list b)"
    using binvD(2) [OF inv] k by simp
  have "n XOR 2 ^ k \<notin> set (free_list b ! k)" if kM: "k < MAX_ORDER"
  proof
    assume j: "n XOR 2 ^ k \<in> set (free_list b ! k)"
    have f: "free_ok b ?L (n XOR 2 ^ k) k"
      using binvD(5) [OF inv k j] .
    show False
      using al
    proof (cases rule: xor_buddy_cases)
      case low
      with free_ok_page(1,2) [OF f, of "n + 2 ^ k"] show False by auto
    next
      case high
      let ?j = "n - 2 ^ k"
      have "blk ?j k \<inter> reserved_pages b = {}"
        using free_block_pages [OF k j] free_pages_not_reserved [OF inv] high(1) by auto
      moreover have "blk ?j (Suc k) = blk ?j k \<union> blk n k"
        using high(2) by (auto simp: blk_def)
      ultimately have "candidate b (Suc k) ?j"
        using high clean fits by (auto simp: candidate_def Int_Un_distrib2 simp del: mem_blk)
      with max kM j high(1) show False
        by (simp add: maximal_def)
    qed
  qed
  then have "no_buddies b'"
    using no_buddies_push [OF nb fl klen al] by blast
  moreover have "maximal b'"
    unfolding maximal_def cand'
  proof (intro allI impI ballI)
    fix l i
    assume l: "l < MAX_ORDER" and i: "i \<in> set (free_list b' ! l)"
    then consider "l = k" "i = n" | "i \<in> set (free_list b ! l)"
      using klen unfolding fl by (auto simp: nth_list_update split: if_splits)
    then show "\<not> candidate b (Suc l) i"
      using largest [of "Suc k"] max l by cases (auto simp: maximal_def)
  qed
  ultimately have "building b' (n + 2 ^ k)"
    using inv' tot by (simp add: building_def)
  with push ch res show thesis
    by (intro that)
qed

lemma build_loop_inv:
  assumes "building b n" and "n \<le> g_total_pages b"
  shows "\<exists>b'. buddy_build_loop b n = Some b' \<and> building b' (g_total_pages b') \<and>
    reserved_pages b' = reserved_pages b \<and> changes_in b b' {..<g_total_pages b}"
  using assms
proof (induction b n rule: buddy_build_loop.induct)
  case (1 b n)
  show ?case
  proof (cases "n < g_total_pages b")
    case False
    then have "buddy_build_loop b n = Some b"
      by (simp add: buddy_build_loop.simps [of b n])
    with False "1.prems" show ?thesis
      by auto
  next
    case True
    have len: "length (frame_array b) = g_total_pages b"
      using "1.prems"(1) binvD(1) by (auto simp: building_def)
    then have get: "aget (frame_array b) n = Some (frame_array b ! n)"
      using True by (simp add: arr_simps)
    show ?thesis
    proof (cases "frame_array b ! n = FRAME_RESERVED")
      case res: True
      have "buddy_build_loop b n = buddy_build_loop b (n + 1)"
        using True get res by (simp add: buddy_build_loop.simps [of b n])
      with "1.IH"(1) [OF True get res] building_skip [OF "1.prems"(1) True res] True show ?thesis
        by simp
    next
      case clean: False
      obtain k where k: "k \<le> MAX_ORDER" "build_order b n MAX_ORDER = Some k" "candidate b k n"
        "\<And>j. k < j \<Longrightarrow> j \<le> MAX_ORDER \<Longrightarrow> \<not> candidate b j n"
        using build_order_largest [OF len True clean, of MAX_ORDER] by blast
      obtain b1 where b1: "block_push b n k = Some b1" "building b1 (n + 2 ^ k)"
        "changes_in b b1 (blk n k)" "reserved_pages b1 = reserved_pages b"
        using building_push [OF "1.prems"(1) True k(1,3,4)] by blast
      have tot: "g_total_pages b1 = g_total_pages b"
        using b1(3) by (rule changes_in_same)
      have fits: "n + 2 ^ k \<le> g_total_pages b1"
        using k(3) tot by (simp add: candidate_def)
      obtain b' where b': "buddy_build_loop b1 (n + 2 ^ k) = Some b'"
        "building b' (g_total_pages b')" "reserved_pages b' = reserved_pages b1"
        "changes_in b1 b' {..<g_total_pages b1}"
        using "1.IH"(2) [OF True get clean k(2) b1(1) b1(2) fits] by blast
      have "buddy_build_loop b n = Some b'"
        using True get clean k(2) b1(1) b'(1) by (simp add: buddy_build_loop.simps [of b n])
      moreover have "changes_in b b' {..<g_total_pages b}"
        using b1(3) b'(4) by (rule changes_in_trans) (use fits tot in \<open>auto simp: blk_def\<close>)
      ultimately show ?thesis
        using b' b1(4) by auto
    qed
  qed
qed

text \<open>The state after \<^verbatim>\<open>buddy_init\<close> and any number of \<^verbatim>\<open>buddy_reserve\<close> calls.\<close>

definition unbuilt :: "buddy \<Rightarrow> bool" where
  "unbuilt b \<longleftrightarrow> length (frame_array b) = g_total_pages b \<and>
     free_list b = replicate (MAX_ORDER + 1) [] \<and>
     set (frame_array b) \<subseteq> {FRAME_FREE_PART, FRAME_RESERVED}"

lemma unbuilt_building:
  assumes "unbuilt b"
  shows "building b 0"
proof -
  have empty: "free_list b ! k = []" if "k \<le> MAX_ORDER" for k
    using assms that by (simp add: unbuilt_def del: replicate_Suc)
  have "binv b {} {0..<g_total_pages b}"
    by (rule binvI) (use assms empty in \<open>auto simp: unbuilt_def\<close>)
  with empty show ?thesis
    by (simp add: building_def no_buddies_def maximal_def)
qed

theorem build_free_lists_outcome:
  assumes "unbuilt b"
  shows "\<exists>b'. buddy_build_free_lists b = Some b' \<and> binv b' {} {} \<and> no_buddies b' \<and>
    reserved_pages b' = reserved_pages b \<and>
    free_pages b' = {..<g_total_pages b} - reserved_pages b \<and> changes_in b b' {..<g_total_pages b}"
proof -
  obtain b' where b': "buddy_build_loop b 0 = Some b'" "building b' (g_total_pages b')"
    "reserved_pages b' = reserved_pages b" "changes_in b b' {..<g_total_pages b}"
    using build_loop_inv [OF unbuilt_building [OF assms]] by auto
  then have inv: "binv b' {} {}" and "no_buddies b'"
    by (simp_all add: building_def)
  moreover have "free_pages b' = {..<g_total_pages b} - reserved_pages b"
    using page_partition [OF inv] changes_in_same(1) [OF b'(4)] b'(3) by (simp add: alloc_pages_def)
  ultimately show ?thesis
    using b' by (auto simp: buddy_build_free_lists_def)
qed

end
