(* ===== verification/Startup.thy ===== *)
theory Startup
  imports Buddy_Boot
begin

text \<open>
  The startup allocator of \<^verbatim>\<open>kernel/src/buddy.c\<close> (lines 381 to 542), which hands out the metadata
  arrays before the page allocator exists. \<open>g_sa_reserves\<close> holds the first
  \<^verbatim>\<open>g_sa_reserve_count\<close> cells of the C array of 16; \<^const>\<open>None\<close> is a store past its end.
\<close>

section \<open>Model\<close>

definition BUDDY_STARTUP_MAX_RESERVES :: nat where
  "BUDDY_STARTUP_MAX_RESERVES = 16"

record startup =
  g_sa_reserves :: "(u64 \<times> u64) list"
  g_sa_mem_base :: u64
  g_sa_mem_end :: u64

text \<open>The inner loop of the insertion sort. The second argument is \<^verbatim>\<open>j + 1\<close>, the cell the moved
  entry leaves free.\<close>

fun sa_shift :: "(u64 \<times> u64) list \<Rightarrow> nat \<Rightarrow> u64 \<Rightarrow> (u64 \<times> u64) list \<times> nat" where
  "sa_shift rs 0 ks = (rs, 0)"
| "sa_shift rs (Suc j) ks =
     (if fst (rs ! j) > ks then sa_shift (rs[Suc j := rs ! j]) j ks else (rs, Suc j))"

function sa_sort_loop :: "(u64 \<times> u64) list \<Rightarrow> nat \<Rightarrow> (u64 \<times> u64) list" where
  "sa_sort_loop rs i =
     (if i < length rs then
        (let (ks, ke) = rs ! i;
             (rs', hole) = sa_shift rs i ks
         in sa_sort_loop (rs'[hole := (ks, ke)]) (i + 1))
      else rs)"
  by pat_completeness auto

lemma sa_shift_length: "length (fst (sa_shift rs m ks)) = length rs"
  by (induction rs m ks rule: sa_shift.induct) auto

termination sa_sort_loop
  by (relation "measure (\<lambda>(rs, i). length rs - i)")
    (auto dest: arg_cong [of _ _ "\<lambda>x. length (fst x)"] simp: sa_shift_length)

declare sa_sort_loop.simps [simp del]

definition sa_sort_reserves :: "startup \<Rightarrow> startup" where
  "sa_sort_reserves s = s\<lparr>g_sa_reserves := sa_sort_loop (g_sa_reserves s) 1\<rparr>"

fun sa_find_loop :: "(u64 \<times> u64) list \<Rightarrow> u64 \<Rightarrow> u64 \<Rightarrow> u64 \<Rightarrow> u64" where
  "sa_find_loop [] cursor sz mem_end =
     (let c = align_up cursor in if c + sz \<le> mem_end then c else 0)"
| "sa_find_loop ((s, e) # rs) cursor sz mem_end =
     (let c = align_up cursor in if c + sz \<le> s then c else sa_find_loop rs e sz mem_end)"

definition sa_find_first_free :: "startup \<Rightarrow> u64 \<Rightarrow> u64" where
  "sa_find_first_free s sz = sa_find_loop (g_sa_reserves s) (g_sa_mem_base s) sz (g_sa_mem_end s)"

definition buddy_startup_init :: "u64 \<Rightarrow> u64 \<Rightarrow> startup" where
  "buddy_startup_init mem_base mem_size =
     \<lparr>g_sa_reserves = [], g_sa_mem_base = mem_base, g_sa_mem_end = mem_base + mem_size\<rparr>"

definition buddy_startup_reserve :: "startup \<Rightarrow> u64 \<Rightarrow> u64 \<Rightarrow> startup" where
  "buddy_startup_reserve s start0 end0 =
     (if length (g_sa_reserves s) \<ge> BUDDY_STARTUP_MAX_RESERVES then s
      else (let start1 = align_down start0;
                end1 = align_up end0;
                start2 = (if start1 < g_sa_mem_base s then g_sa_mem_base s else start1);
                end2 = (if end1 > g_sa_mem_end s then g_sa_mem_end s else end1)
            in if start2 \<ge> end2 then s
               else s\<lparr>g_sa_reserves := g_sa_reserves s @ [(start2, end2)]\<rparr>))"

definition buddy_startup_alloc :: "startup \<Rightarrow> u64 \<Rightarrow> (startup \<times> u64) option" where
  "buddy_startup_alloc s sz0 =
     (let sz = align_up sz0;
          s1 = sa_sort_reserves s;
          ret = sa_find_first_free s1 sz
      in if ret = 0 then Some (s1, NULL)
         else if length (g_sa_reserves s1) \<ge> BUDDY_STARTUP_MAX_RESERVES then None
         else Some (s1\<lparr>g_sa_reserves := g_sa_reserves s1 @ [(ret, ret + sz)]\<rparr>, ret))"

fun replay_loop :: "(u64 \<times> u64) list \<Rightarrow> buddy \<Rightarrow> buddy option" where
  "replay_loop [] b = Some b"
| "replay_loop ((s, e) # rs) b = do { b' \<leftarrow> buddy_reserve b s e; replay_loop rs b' }"

definition buddy_startup_replay_reserves :: "startup \<Rightarrow> buddy \<Rightarrow> buddy option" where
  "buddy_startup_replay_reserves s b = replay_loop (g_sa_reserves s) b"

section \<open>The insertion sort\<close>

text \<open>One pass moves the entry left over the entries with a larger start address, and over no
  other.\<close>

lemma sa_shift_eq:
  assumes "sa_shift rs m ks = (rs', h)" and "m < length rs"
  shows "h \<le> m \<and> rs'[h := x] = take h rs @ x # drop h (take m rs) @ drop (Suc m) rs \<and>
    (\<forall>y\<in>set (drop h (take m rs)). ks < fst y) \<and> (0 < h \<longrightarrow> fst (rs ! (h - 1)) \<le> ks)"
  using assms
proof (induction rs m ks rule: sa_shift.induct)
  case (1 rs ks)
  then show ?case
    by (auto simp: upd_conv_take_nth_drop)
next
  case (2 rs j ks)
  show ?case
  proof (cases "fst (rs ! j) > ks")
    case False
    with 2 show ?thesis
      by (auto simp: upd_conv_take_nth_drop)
  next
    case True
    let ?rs1 = "rs[Suc j := rs ! j]"
    have ih: "h \<le> j" "rs'[h := x] = take h ?rs1 @ x # drop h (take j ?rs1) @ drop (Suc j) ?rs1"
      "\<forall>y\<in>set (drop h (take j ?rs1)). ks < fst y" "0 < h \<longrightarrow> fst (?rs1 ! (h - 1)) \<le> ks"
      using "2.IH" [OF True] "2.prems" True by auto
    have tj: "take j ?rs1 = take j rs"
      by simp
    have th: "take h ?rs1 = take h rs"
      using ih(1) by simp
    have dj: "drop (Suc j) ?rs1 = rs ! j # drop (Suc (Suc j)) rs"
      using "2.prems"(2) by (simp add: drop_update_swap Cons_nth_drop_Suc [symmetric])
    have mid: "drop h (take (Suc j) rs) = drop h (take j rs) @ [rs ! j]"
      using ih(1) "2.prems"(2) by (simp add: take_Suc_conv_app_nth)
    show ?thesis
      using ih True unfolding tj th dj mid by auto
  qed
qed

lemma sa_sort_step:
  assumes "i < length rs" and "sa_shift rs i (fst (rs ! i)) = (rs', h)"
    and "sorted (map fst (take i rs))"
  shows "mset (rs'[h := rs ! i]) = mset rs"
    and "filter (\<lambda>y. key = fst y) (rs'[h := rs ! i]) = filter (\<lambda>y. key = fst y) rs"
    and "sorted (map fst (take (Suc i) (rs'[h := rs ! i])))"
proof -
  let ?x = "rs ! i" and ?mid = "drop h (take i rs)"
  have h: "h \<le> i" and new: "rs'[h := ?x] = take h rs @ ?x # ?mid @ drop (Suc i) rs"
    and mid: "\<forall>y\<in>set ?mid. fst ?x < fst y" and left: "0 < h \<longrightarrow> fst (rs ! (h - 1)) \<le> fst ?x"
    using sa_shift_eq [OF assms(2,1), of ?x] by auto
  have "take h rs @ ?mid = take i rs"
    using h by (metis append_take_drop_id min.absorb1 take_take)
  then have old: "rs = take h rs @ ?mid @ ?x # drop (Suc i) rs"
    using id_take_nth_drop [OF assms(1)] by (metis append_assoc)
  show "mset (rs'[h := ?x]) = mset rs"
    unfolding new by (subst (4) old) simp
  have "filter (\<lambda>y. key = fst y) ?mid = []" if "key = fst ?x"
    using mid that by (auto simp: filter_empty_conv)
  then show "filter (\<lambda>y. key = fst y) (rs'[h := ?x]) = filter (\<lambda>y. key = fst y) rs"
    unfolding new by (subst (4) old) simp
  have "take (Suc i) (rs'[h := ?x]) = take h rs @ ?x # ?mid"
    unfolding new using h assms(1) by (simp add: Suc_diff_le)
  moreover have "sorted (map fst (take h rs @ ?x # ?mid))"
  proof -
    have "map fst (take h rs) @ map fst ?mid = map fst (take i rs)"
      unfolding map_append [symmetric] \<open>take h rs @ ?mid = take i rs\<close> ..
    then have "sorted (map fst (take h rs) @ map fst ?mid)"
      using assms(3) by (simp only:)
    then have srt: "sorted (map fst (take h rs)) \<and> sorted (map fst ?mid)"
      unfolding sorted_append by blast
    have "fst y \<le> fst ?x" if "y \<in> set (take h rs)" for y
    proof -
      have "0 < h"
        using that by (cases h) auto
      then have "take h rs = take (h - 1) rs @ [rs ! (h - 1)]"
        using h assms(1) take_Suc_conv_app_nth [of "h - 1" rs] by simp
      with srt have "fst y \<le> fst (rs ! (h - 1))"
        using that by (auto simp: sorted_append)
      with left \<open>0 < h\<close> show ?thesis by auto
    qed
    with srt mid show ?thesis
      by (force simp: sorted_append)
  qed
  ultimately show "sorted (map fst (take (Suc i) (rs'[h := ?x])))"
    by simp
qed

lemma sa_sort_loop_stable:
  assumes "sorted (map fst (take i rs))"
  shows "mset (sa_sort_loop rs i) = mset rs \<and> sorted (map fst (sa_sort_loop rs i)) \<and>
    (\<forall>key. filter (\<lambda>y. key = fst y) (sa_sort_loop rs i) = filter (\<lambda>y. key = fst y) rs)"
  using assms
proof (induction rs i rule: sa_sort_loop.induct)
  case (1 rs i)
  show ?case
  proof (cases "i < length rs")
    case False
    with "1.prems" show ?thesis
      by (simp add: sa_sort_loop.simps [of rs i])
  next
    case True
    obtain rs' h where sh: "sa_shift rs i (fst (rs ! i)) = (rs', h)"
      by force
    note step = sa_sort_step [OF True sh "1.prems"]
    have eq: "sa_sort_loop rs i = sa_sort_loop (rs'[h := rs ! i]) (i + 1)"
      using True sh by (cases "rs ! i") (simp add: sa_sort_loop.simps [of rs i])
    have "mset (sa_sort_loop (rs'[h := rs ! i]) (i + 1)) = mset (rs'[h := rs ! i]) \<and>
      sorted (map fst (sa_sort_loop (rs'[h := rs ! i]) (i + 1))) \<and>
      (\<forall>key. filter (\<lambda>y. key = fst y) (sa_sort_loop (rs'[h := rs ! i]) (i + 1)) =
         filter (\<lambda>y. key = fst y) (rs'[h := rs ! i]))"
      using "1.IH" [OF True refl _ sh [symmetric], of "snd (rs ! i)"] step(3) by simp
    with step show ?thesis
      unfolding eq by simp
  qed
qed

theorem sa_sort_is_sort_key: "sa_sort_loop rs 1 = sort_key fst rs"
proof -
  have "sorted (map fst (take 1 rs))"
    by (cases rs) auto
  from sa_sort_loop_stable [OF this] show ?thesis
    by (intro properties_for_sort_key [symmetric]) auto
qed

section \<open>The gap search\<close>

text \<open>The state invariant: the region lies below \<open>2 ^ 63\<close> and every recorded range is a
  non-empty part of it.\<close>

definition startup_ok :: "startup \<Rightarrow> bool" where
  "startup_ok s \<longleftrightarrow> g_sa_mem_base s \<le> g_sa_mem_end s \<and> unat (g_sa_mem_end s) \<le> 2 ^ 63 \<and>
     (\<forall>(a, b)\<in>set (g_sa_reserves s). g_sa_mem_base s \<le> a \<and> a < b \<and> b \<le> g_sa_mem_end s)"

text \<open>No recorded range lies strictly inside another one: a range that starts no later ends no
  later. Ranges that do not overlap have this property.\<close>

definition not_nested :: "(u64 \<times> u64) list \<Rightarrow> bool" where
  "not_nested rs \<longleftrightarrow> (\<forall>p\<in>set rs. \<forall>q\<in>set rs. fst p \<le> fst q \<longrightarrow> snd p \<le> snd q)"

definition disjoint_ranges :: "u64 \<times> u64 \<Rightarrow> u64 \<times> u64 \<Rightarrow> bool" where
  "disjoint_ranges r q \<longleftrightarrow> snd r \<le> fst q \<or> snd q \<le> fst r"

lemma align_up_bounds:
  assumes "unat c \<le> 2 ^ 63"
  shows "4096 dvd unat (align_up c)" and "c \<le> align_up c" and "unat (align_up c) < unat c + 4096"
  using unat_align_up [of c] assms by (auto simp: word_le_nat_alt)

lemma word_add_le:
  fixes c sz w :: u64
  assumes "unat c + unat sz < 2 ^ 64"
  shows "c + sz \<le> w \<longleftrightarrow> unat c + unat sz \<le> unat w" and "unat (c + sz) = unat c + unat sz"
  using assms by (simp_all add: word_le_nat_alt unat_word_ariths)

lemma sa_find_loop_gap:
  assumes "sorted (map fst rs)" and "sorted (map snd rs)"
    and "\<forall>(a, b)\<in>set rs. b \<le> mem_end \<and> a < b \<and> cursor \<le> b"
    and "unat mem_end \<le> 2 ^ 63" and "unat cursor \<le> 2 ^ 63" and "unat sz \<le> 2 ^ 62"
    and "sa_find_loop rs cursor sz mem_end = r" and "r \<noteq> 0"
  shows "4096 dvd unat r \<and> cursor \<le> r \<and> unat r + unat sz \<le> unat mem_end \<and>
    (\<forall>q\<in>set rs. unat r + unat sz \<le> unat (fst q) \<or> snd q \<le> r)"
  using assms(1,2,3,5,7)
proof (induction rs arbitrary: cursor)
  case Nil
  let ?c = "align_up cursor"
  have c: "unat ?c < unat cursor + 4096" and "4096 dvd unat ?c" "cursor \<le> ?c"
    using align_up_bounds [OF Nil.prems(4)] by simp_all
  moreover have "unat ?c + unat sz < 2 ^ 64"
    using c Nil.prems(4) assms(6) by simp
  ultimately show ?case
    using Nil.prems(5) assms(8) word_add_le(1) [of ?c sz mem_end]
    by (auto simp: Let_def split: if_splits)
next
  case (Cons q rs)
  obtain a b where q: "q = (a, b)" by (cases q)
  let ?c = "align_up cursor"
  have c: "unat ?c < unat cursor + 4096" and al: "4096 dvd unat ?c" "cursor \<le> ?c"
    using align_up_bounds [OF Cons.prems(4)] by simp_all
  have small: "unat ?c + unat sz < 2 ^ 64"
    using c Cons.prems(4) assms(6) by simp
  have ab: "a < b" "b \<le> mem_end" "cursor \<le> b"
    using Cons.prems(3) q by auto
  show ?case
  proof (cases "?c + sz \<le> a")
    case True
    then have le: "unat ?c + unat sz \<le> unat a"
      using word_add_le(1) [OF small, of a] by simp
    have "unat a \<le> unat (fst p)" if "p \<in> set rs" for p
      using Cons.prems(1) that q by (auto simp: word_le_nat_alt)
    moreover have "r = ?c"
      using Cons.prems(5) True q by (simp add: Let_def)
    moreover have "unat a \<le> unat mem_end"
      using ab by (simp add: word_le_nat_alt word_less_nat_alt)
    ultimately show ?thesis
      using le al q by force
  next
    case False
    then have rest: "sa_find_loop rs b sz mem_end = r"
      using Cons.prems(5) q by (simp add: Let_def)
    have "\<forall>(c, d)\<in>set rs. d \<le> mem_end \<and> c < d \<and> b \<le> d"
      using Cons.prems(2,3) q by auto
    moreover have "unat b \<le> 2 ^ 63"
      using ab(2) assms(4) by (simp add: word_le_nat_alt)
    ultimately have "4096 dvd unat r \<and> b \<le> r \<and> unat r + unat sz \<le> unat mem_end \<and>
        (\<forall>q\<in>set rs. unat r + unat sz \<le> unat (fst q) \<or> snd q \<le> r)"
      using Cons.IH [OF _ _ _ _ rest] Cons.prems(1,2) by simp
    with ab(3) q show ?thesis
      by (auto intro: order_trans)
  qed
qed

section \<open>Allocation\<close>

lemma not_nested_sorted:
  assumes "not_nested rs"
  shows "sorted (map snd (sort_key fst rs))"
proof -
  have "sorted_wrt (\<lambda>p q. fst p \<le> fst q) (sort_key fst rs)"
    using sorted_sort_key [of fst rs] by (simp only: sorted_map)
  then have "sorted_wrt (\<lambda>p q. snd p \<le> snd q) (sort_key fst rs)"
    by (rule sorted_wrt_mono_rel [rotated]) (use assms in \<open>auto simp: not_nested_def\<close>)
  then show ?thesis
    by (simp only: sorted_map)
qed

lemma not_nested_append:
  assumes ok: "\<forall>q\<in>set rs. fst q < snd q" and nn: "not_nested rs" and r: "fst r < snd r"
    and dis: "\<forall>q\<in>set rs. disjoint_ranges r q"
  shows "not_nested (rs @ [r])"
proof -
  have "snd p \<le> snd r" if "p \<in> set rs" "fst p \<le> fst r" for p
    using dis that r unfolding disjoint_ranges_def by (meson leD less_imp_le order_trans order_le_less_trans)
  moreover have "snd r \<le> snd q" if "q \<in> set rs" "fst r \<le> fst q" for q
    using dis ok that unfolding disjoint_ranges_def by (meson leD less_imp_le order_trans order_less_le_trans)
  ultimately show ?thesis
    using nn unfolding not_nested_def by auto
qed

text \<open>A successful allocation returns a page-aligned range of the region that is disjoint from
  every range recorded so far, and records it; the invariants are kept, so the guarantee holds
  for every sequence of allocations.\<close>

theorem buddy_startup_alloc_disjoint:
  assumes ok: "startup_ok s" and nn: "not_nested (g_sa_reserves s)"
    and sz: "0 < unat sz" "unat sz \<le> 2 ^ 61"
    and run: "buddy_startup_alloc s sz = Some (s', p)" and p: "p \<noteq> NULL"
  shows "4096 dvd unat p \<and> g_sa_mem_base s \<le> p \<and> unat p + unat sz \<le> unat (g_sa_mem_end s) \<and>
    (\<forall>q\<in>set (g_sa_reserves s). disjoint_ranges (p, p + align_up sz) q) \<and>
    set (g_sa_reserves s') = insert (p, p + align_up sz) (set (g_sa_reserves s)) \<and>
    startup_ok s' \<and> not_nested (g_sa_reserves s')"
proof -
  let ?rs = "sort_key fst (g_sa_reserves s)" and ?sz = "align_up sz"
  have usz: "unat sz \<le> unat ?sz" "unat ?sz \<le> 2 ^ 62"
    using align_up_bounds(2,3) [of sz] sz(2) by (simp_all add: word_le_nat_alt)
  have p_def: "sa_find_loop ?rs (g_sa_mem_base s) ?sz (g_sa_mem_end s) = p"
    and s': "s' = s\<lparr>g_sa_reserves := ?rs @ [(p, p + ?sz)]\<rparr>"
    using run p by (auto simp: buddy_startup_alloc_def sa_sort_reserves_def sa_find_first_free_def
        Let_def sa_sort_is_sort_key [unfolded One_nat_def] split: if_splits)
  have rng: "\<forall>(a, b)\<in>set ?rs. b \<le> g_sa_mem_end s \<and> a < b \<and> g_sa_mem_base s \<le> b"
    using ok by (force simp: startup_ok_def)
  have me: "unat (g_sa_mem_end s) \<le> 2 ^ 63" "unat (g_sa_mem_base s) \<le> 2 ^ 63"
    using ok by (simp_all add: startup_ok_def word_le_nat_alt)
  have gap: "4096 dvd unat p" "g_sa_mem_base s \<le> p" "unat p + unat ?sz \<le> unat (g_sa_mem_end s)"
    "\<forall>q\<in>set ?rs. unat p + unat ?sz \<le> unat (fst q) \<or> snd q \<le> p"
    using sa_find_loop_gap [OF sorted_sort_key not_nested_sorted [OF nn] rng me usz(2) p_def p]
    by blast+
  have up: "unat (p + ?sz) = unat p + unat ?sz"
    using gap(3) me(1) by (intro word_add_le(2)) simp
  have dis: "\<forall>q\<in>set (g_sa_reserves s). disjoint_ranges (p, p + ?sz) q"
    using gap(4) up by (auto simp: disjoint_ranges_def word_le_nat_alt)
  have new: "p < p + ?sz" "p + ?sz \<le> g_sa_mem_end s"
    using up gap(3) sz(1) usz(1) by (simp_all add: word_less_nat_alt word_le_nat_alt)
  have ne: "\<forall>q\<in>set (g_sa_reserves s). fst q < snd q"
    using ok by (auto simp: startup_ok_def)
  have "not_nested (g_sa_reserves s @ [(p, p + ?sz)])"
    using not_nested_append [OF ne nn _ dis] new by simp
  then have "not_nested (g_sa_reserves s')"
    by (simp add: s' not_nested_def)
  moreover have "startup_ok s'"
    using ok new gap(2) by (auto simp: startup_ok_def s')
  moreover have "unat p + unat sz \<le> unat (g_sa_mem_end s)"
    using gap(3) usz(1) by linarith
  ultimately show ?thesis
    using gap dis by (simp add: s')
qed


section \<open>Reservations in the frame array\<close>

definition page_region :: "buddy \<Rightarrow> bool" where
  "page_region b \<longleftrightarrow> 4096 dvd unat (g_buddy_base b) \<and> g_buddy_base b \<le> g_buddy_end b \<and>
     g_total_pages b = (unat (g_buddy_end b) - unat (g_buddy_base b)) div 4096 \<and>
     length (frame_array b) = g_total_pages b"

text \<open>Page \<open>p\<close> of the region has a byte of the half-open range from \<open>s\<close> to \<open>e\<close>.\<close>

definition page_touches :: "buddy \<Rightarrow> u64 \<times> u64 \<Rightarrow> nat \<Rightarrow> bool" where
  "page_touches b r p \<longleftrightarrow> unat (fst r) < unat (g_buddy_base b) + 4096 * p + 4096 \<and>
     unat (g_buddy_base b) + 4096 * p < unat (snd r)"

lemma addr_to_idx_eq:
  "g_buddy_base b \<le> a \<Longrightarrow> addr_to_idx b a = (unat a - unat (g_buddy_base b)) div 4096"
  by (simp add: addr_to_idx_def PAGE_SIZE_def unat_div unat_sub)

lemma reserve_window:
  fixes B E s e q :: nat
  defines "lo \<equiv> max B (s div 4096 * 4096)" and "hi \<equiv> min E ((e + 4095) div 4096 * 4096)"
  assumes "4096 dvd B" and "q < (E - B) div 4096"
  shows "(s < B + 4096 * q + 4096 \<and> B + 4096 * q < e) \<longleftrightarrow>
    (lo < hi \<and> (lo - B) div 4096 \<le> q \<and> q < (hi - B) div 4096)"
proof -
  obtain c where B: "B = 4096 * c"
    using assms(3) by blast
  have lo: "lo = 4096 * max c (s div 4096)"
    unfolding lo_def B by (simp add: nat_mult_max_right mult.commute)
  have qE: "4096 * (c + q) + 4096 \<le> E"
    using assms(4) less_eq_div_iff_mult_less_eq [of 4096 "Suc q" "E - B"] unfolding B by auto
  have l: "s < B + 4096 * q + 4096 \<longleftrightarrow> s div 4096 \<le> c + q"
    unfolding B by linarith
  have r: "B + 4096 * q < e \<longleftrightarrow> 4096 * (c + q) + 4096 \<le> (e + 4095) div 4096 * 4096"
  proof -
    have "4096 * (c + q) + 4096 \<le> (e + 4095) div 4096 * 4096 \<longleftrightarrow> Suc (c + q) \<le> (e + 4095) div 4096"
      by auto
    also have "\<dots> \<longleftrightarrow> 4096 * (c + q) < e"
      by (subst less_eq_div_iff_mult_less_eq) auto
    finally show ?thesis
      unfolding B by simp
  qed
  have "(lo - B) div 4096 \<le> q \<longleftrightarrow> s div 4096 \<le> c + q"
    unfolding lo B by (cases "c \<le> s div 4096") (auto simp: max_def)
  moreover have "q < (hi - B) div 4096 \<longleftrightarrow> 4096 * (c + q) + 4096 \<le> hi"
    using less_eq_div_iff_mult_less_eq [of 4096 "Suc q" "hi - B"] unfolding B by auto
  moreover have "4096 * (c + q) + 4096 \<le> hi \<longleftrightarrow> 4096 * (c + q) + 4096 \<le> (e + 4095) div 4096 * 4096"
    unfolding hi_def using qE by simp
  moreover have "lo \<le> 4096 * (c + q)" if "s div 4096 \<le> c + q"
    unfolding lo using that by simp
  ultimately show ?thesis
    using l r by fastforce
qed

lemma buddy_reserve_pages:
  assumes reg: "page_region b" and e: "unat e \<le> 2 ^ 64 - 4096"
  shows "\<exists>fa. buddy_reserve b s e = Some (b\<lparr>frame_array := fa\<rparr>) \<and>
    length fa = g_total_pages b \<and>
    (\<forall>p<g_total_pages b. fa ! p =
       (if page_touches b (s, e) p then FRAME_RESERVED else frame_array b ! p))"
proof -
  let ?B = "unat (g_buddy_base b)" and ?E = "unat (g_buddy_end b)"
  let ?n = "g_total_pages b"
  define lo where "lo = (if align_down s < g_buddy_base b then g_buddy_base b else align_down s)"
  define hi where "hi = (if align_up e > g_buddy_end b then g_buddy_end b else align_up e)"
  have B: "4096 dvd ?B" and BE: "?B \<le> ?E" and n: "?n = (?E - ?B) div 4096"
    and len: "length (frame_array b) = ?n"
    using reg by (simp_all add: page_region_def word_le_nat_alt)
  have ulo: "unat lo = max ?B (unat s div 4096 * 4096)"
    unfolding lo_def using unat_align_down [of s] by (auto simp: word_less_nat_alt max_def)
  have uhi: "unat hi = min ?E ((unat e + 4095) div 4096 * 4096)"
    unfolding hi_def using unat_align_up(1) [of e] e by (auto simp: word_less_nat_alt min_def)
  have run: "buddy_reserve b s e =
    (if lo \<ge> hi then Some b
     else do { fa \<leftarrow> fill (addr_to_idx b hi - addr_to_idx b lo) (addr_to_idx b lo) FRAME_RESERVED (frame_array b);
               Some (b\<lparr>frame_array := fa\<rparr>) })"
    by (simp add: buddy_reserve_def Let_def lo_def hi_def)
  have win: "page_touches b (s, e) q \<longleftrightarrow>
     unat lo < unat hi \<and> (unat lo - ?B) div 4096 \<le> q \<and> q < (unat hi - ?B) div 4096" if "q < ?n" for q
    using reserve_window [OF B, of q ?E "unat s" "unat e"] that
    by (simp add: page_touches_def ulo uhi n)
  show ?thesis
  proof (cases "lo \<ge> hi")
    case True
    then have "\<not> unat lo < unat hi"
      by (simp add: word_le_nat_alt)
    then show ?thesis
      using run True win len by (intro exI [of _ "frame_array b"]) simp
  next
    case False
    have base: "g_buddy_base b \<le> lo" "g_buddy_base b \<le> hi"
      using ulo False by (auto simp: word_le_nat_alt)
    let ?f = "(unat lo - ?B) div 4096" and ?h = "(unat hi - ?B) div 4096"
    have idx: "addr_to_idx b lo = ?f" "addr_to_idx b hi = ?h"
      using base by (simp_all add: addr_to_idx_eq)
    have "?f \<le> ?h"
      using False by (intro div_le_mono) (simp add: word_le_nat_alt)
    moreover have "?h \<le> ?n"
      unfolding n using uhi by (intro div_le_mono) simp
    ultimately have fit: "?f + (?h - ?f) \<le> length (frame_array b)"
      using len by simp
    obtain fa where fa: "fill (?h - ?f) ?f FRAME_RESERVED (frame_array b) = Some fa"
      using fill_in_range [OF fit] by blast
    have "fa ! p = (if page_touches b (s, e) p then FRAME_RESERVED else frame_array b ! p)"
      if "p < ?n" for p
    proof -
      have "unat lo < unat hi"
        using False by (simp add: word_le_nat_alt)
      then show ?thesis
        using fill_nth [OF fa, of p] that len \<open>?f \<le> ?h\<close> win [OF that] by auto
    qed
    then show ?thesis
      using run False idx fa fill_length [OF fa] len by auto
  qed
qed

text \<open>Replaying the recorded ranges reserves exactly the pages they touch.\<close>

lemma replay_loop_pages:
  assumes "page_region b" and "\<forall>r\<in>set rs. unat (snd r) \<le> 2 ^ 64 - 4096"
  shows "\<exists>fa. replay_loop rs b = Some (b\<lparr>frame_array := fa\<rparr>) \<and> length fa = g_total_pages b \<and>
    (\<forall>p<g_total_pages b. fa ! p =
       (if \<exists>r\<in>set rs. page_touches b r p then FRAME_RESERVED else frame_array b ! p))"
  using assms
proof (induction rs arbitrary: b)
  case Nil
  then show ?case
    by (intro exI [of _ "frame_array b"]) (simp add: page_region_def)
next
  case (Cons r rs)
  obtain s e where r: "r = (s, e)" by (cases r)
  obtain fa where fa: "buddy_reserve b s e = Some (b\<lparr>frame_array := fa\<rparr>)" "length fa = g_total_pages b"
    "\<forall>p<g_total_pages b. fa ! p =
       (if page_touches b (s, e) p then FRAME_RESERVED else frame_array b ! p)"
    using buddy_reserve_pages [OF Cons.prems(1), of e s] Cons.prems(2) r by auto
  let ?b1 = "b\<lparr>frame_array := fa\<rparr>"
  have "page_region ?b1"
    using Cons.prems(1) fa(2) by (simp add: page_region_def)
  then obtain fa' where fa': "replay_loop rs ?b1 = Some (?b1\<lparr>frame_array := fa'\<rparr>)"
    "length fa' = g_total_pages b" "\<forall>p<g_total_pages b. fa' ! p =
       (if \<exists>r\<in>set rs. page_touches ?b1 r p then FRAME_RESERVED else fa ! p)"
    using Cons.IH [of ?b1] Cons.prems(2) by auto
  have "page_touches ?b1 = page_touches b"
    by (intro ext) (simp add: page_touches_def)
  then show ?case
    using fa fa' r by (intro exI [of _ fa']) auto
qed

text \<open>Registering a range keeps the state invariant, and records at most a part of the range, rounded
  out to pages.\<close>

lemma buddy_startup_reserve_ok:
  assumes "startup_ok s"
  shows "startup_ok (buddy_startup_reserve s a e)"
  using assms unfolding buddy_startup_reserve_def Let_def startup_ok_def
  by (auto simp: not_le not_less intro: order_less_imp_le)


section \<open>Properties\<close>

text \<open>
  \<^verbatim>\<open>sa_sort_reserves\<close> is a stable sort of the recorded ranges by start address.
\<close>

theorem sa_sort_reserves_stable:
  "sa_sort_reserves s = s\<lparr>g_sa_reserves := sort_key fst (g_sa_reserves s)\<rparr>"
  unfolding sa_sort_reserves_def sa_sort_is_sort_key by (rule refl)

text \<open>
  C33: When no recorded range lies strictly inside another one, and \<^verbatim>\<open>buddy_startup_alloc\<close> of at most \<open>2 ^ 61\<close> bytes succeeds,
  it has returned a page-aligned range of the region that overlaps no recorded range, and recorded it, so
  the same holds for the allocations that follow. Without the first condition it does not hold
  (\<open>startup_alloc_nested_overlap\<close>).
\<close>

theorem startup_alloc_avoids_reserves:
  assumes ok: "startup_ok s" and nn: "not_nested (g_sa_reserves s)"
    and sz: "0 < unat sz" "unat sz \<le> 2 ^ 61"
    and run: "buddy_startup_alloc s sz = Some (s', p)" and p: "p \<noteq> NULL"
  shows "4096 dvd unat p \<and> g_sa_mem_base s \<le> p \<and> unat p + unat sz \<le> unat (g_sa_mem_end s) \<and>
    (\<forall>q\<in>set (g_sa_reserves s). disjoint_ranges (p, p + align_up sz) q) \<and>
    (p, p + align_up sz) \<in> set (g_sa_reserves s') \<and> set (g_sa_reserves s) \<subseteq> set (g_sa_reserves s') \<and>
    startup_ok s' \<and> not_nested (g_sa_reserves s')"
  using buddy_startup_alloc_disjoint [OF assms] by auto

definition sample_startup :: startup where
  "sample_startup = \<lparr>g_sa_reserves = [(0x80000000, 0x80001000)],
     g_sa_mem_base = 0x80000000, g_sa_mem_end = 0x80008000\<rparr>"

lemma sample_startup_ok: "startup_ok sample_startup" "not_nested (g_sa_reserves sample_startup)"
  by (simp_all add: startup_ok_def sample_startup_def not_nested_def)

lemma sample_startup_alloc:
  "buddy_startup_alloc sample_startup 32 =
     Some (sample_startup\<lparr>g_sa_reserves := [(0x80000000, 0x80001000), (0x80001000, 0x80002000)]\<rparr>, 0x80001000)"
  by (simp add: buddy_startup_alloc_def sample_startup_def sa_sort_reserves_def sa_sort_loop.simps
      sa_find_first_free_def align_up_def PAGE_SIZE_def BUDDY_STARTUP_MAX_RESERVES_def Let_def)

theorem startup_alloc_avoids_reserves_witness:
  "g_sa_reserves sample_startup = [(0x80000000, 0x80001000)] \<and>
     disjoint_ranges (0x80001000, 0x80001000 + align_up 32) (0x80000000, 0x80001000)"
proof -
  have r: "g_sa_reserves sample_startup = [(0x80000000, 0x80001000)]"
    by (simp add: sample_startup_def)
  then have "(0x80000000, 0x80001000) \<in> set (g_sa_reserves sample_startup)"
    by simp
  with r show ?thesis
    using startup_alloc_avoids_reserves [OF sample_startup_ok _ _ sample_startup_alloc] by auto
qed

text \<open>With one recorded range inside another, the search returns to the end of the inner one: the
  allocation lies inside the outer range.\<close>

lemma startup_alloc_nested_overlap:
  "\<exists>s'. buddy_startup_alloc \<lparr>g_sa_reserves = [(0x80000000, 0x80004000), (0x80001000, 0x80002000)],
      g_sa_mem_base = 0x80000000, g_sa_mem_end = 0x80008000\<rparr> 32 = Some (s', 0x80002000)"
  by (simp add: buddy_startup_alloc_def sa_sort_reserves_def sa_sort_loop.simps
      sa_find_first_free_def align_up_def PAGE_SIZE_def BUDDY_STARTUP_MAX_RESERVES_def Let_def)

text \<open>A region that starts at address 0 gives no memory: the gap at its start has the address that
  stands for failure.\<close>

lemma startup_alloc_zero_base:
  "buddy_startup_alloc (buddy_startup_init 0 mem_size) sz = Some (buddy_startup_init 0 mem_size, NULL)"
  by (simp add: buddy_startup_alloc_def buddy_startup_init_def sa_sort_reserves_def sa_sort_loop.simps
      sa_find_first_free_def align_up_def PAGE_SIZE_def Let_def)

text \<open>With the table full, an allocation that finds a gap writes past its end.\<close>

lemma startup_alloc_table_full:
  assumes "length (g_sa_reserves s) = BUDDY_STARTUP_MAX_RESERVES"
    and "sa_find_first_free (sa_sort_reserves s) (align_up sz) \<noteq> 0"
  shows "buddy_startup_alloc s sz = None"
proof -
  have "length (sa_sort_loop (g_sa_reserves s) 1) = length (g_sa_reserves s)"
    unfolding sa_sort_is_sort_key by simp
  with assms show ?thesis
    by (simp add: buddy_startup_alloc_def Let_def) (simp add: sa_sort_reserves_def)
qed

end
