(* ===== verification/Allocator.thy ===== *)
theory Allocator
  imports OSC_Prelude
begin

text \<open>
  The contract that the page allocator (\<^verbatim>\<open>buddy_alloc\<close>, \<^verbatim>\<open>buddy_free\<close>) and the kernel heap
  (\<^verbatim>\<open>kmalloc\<close>, \<^verbatim>\<open>kfree\<close>) share, as the locale \<open>allocator\<close>, and what a client may conclude
  from it about a whole sequence of calls. The locale is interpreted on both models.
\<close>

section \<open>Clients\<close>

text \<open>A memory range is its address and its length in bytes.\<close>

type_synonym mrange = "u64 \<times> nat"

definition bytes_of :: "mrange \<Rightarrow> nat set" where
  "bytes_of r = {unat (fst r) ..< unat (fst r) + snd r}"

text \<open>A client asks for memory or returns the \<open>n\<close>-th range it holds; it skips a request to
  return a range it does not have. \<open>serve\<close> keeps the list of the ranges held, each with the size
  that was asked for; \<^const>\<open>None\<close> is undefined behaviour inside the allocator.\<close>

datatype request = Get u64 | Put nat

fun serve_one :: "('s \<Rightarrow> u64 \<Rightarrow> ('s \<times> u64) option) \<Rightarrow> ('s \<Rightarrow> u64 \<Rightarrow> 's option) \<Rightarrow>
    request \<Rightarrow> 's \<times> mrange list \<Rightarrow> ('s \<times> mrange list) option" where
  "serve_one alloc free (Get sz) (s, held) = do {
     (s', p) \<leftarrow> alloc s sz;
     Some (s', if p = NULL then held else held @ [(p, unat sz)])
   }"
| "serve_one alloc free (Put n) (s, held) =
     (if n < length held
      then do { s' \<leftarrow> free s (fst (held ! n)); Some (s', take n held @ drop (Suc n) held) }
      else Some (s, held))"

fun serve :: "('s \<Rightarrow> u64 \<Rightarrow> ('s \<times> u64) option) \<Rightarrow> ('s \<Rightarrow> u64 \<Rightarrow> 's option) \<Rightarrow>
    request list \<Rightarrow> 's \<times> mrange list \<Rightarrow> ('s \<times> mrange list) option" where
  "serve alloc free [] c = Some c"
| "serve alloc free (r # rs) c = do { c' \<leftarrow> serve_one alloc free r c; serve alloc free rs c' }"

definition ranges_disjoint :: "mrange list \<Rightarrow> bool" where
  "ranges_disjoint rs \<longleftrightarrow>
     (\<forall>i<length rs. \<forall>j<length rs. i \<noteq> j \<longrightarrow> bytes_of (rs ! i) \<inter> bytes_of (rs ! j) = {})"

fun request_ok :: "nat \<Rightarrow> request \<Rightarrow> bool" where
  "request_ok limit (Get sz) = (0 < unat sz \<and> unat sz \<le> limit)"
| "request_ok limit (Put n) = True"

section \<open>The contract\<close>

text \<open>\<open>inv s A\<close>: in state \<open>s\<close> exactly the ranges of \<open>A\<close> are handed out.\<close>

locale allocator =
  fixes inv :: "'s \<Rightarrow> mrange set \<Rightarrow> bool"
    and alloc :: "'s \<Rightarrow> u64 \<Rightarrow> ('s \<times> u64) option"
    and free :: "'s \<Rightarrow> u64 \<Rightarrow> 's option"
    and limit :: nat
  assumes disjoint_law:
      "inv s A \<Longrightarrow> x \<in> A \<Longrightarrow> y \<in> A \<Longrightarrow> x \<noteq> y \<Longrightarrow> bytes_of x \<inter> bytes_of y = {}"
    and alloc_law:
      "inv s A \<Longrightarrow> 0 < unat sz \<Longrightarrow> unat sz \<le> limit \<Longrightarrow>
         \<exists>s' p. alloc s sz = Some (s', p) \<and>
           (p = NULL \<and> inv s' A \<or>
            p \<noteq> NULL \<and> (\<exists>n. unat sz \<le> n \<and> (p, n) \<notin> A \<and> inv s' (insert (p, n) A)))"
    and free_law:
      "inv s A \<Longrightarrow> (p, n) \<in> A \<Longrightarrow> \<exists>s'. free s p = Some s' \<and> inv s' (A - {(p, n)})"
begin

text \<open>The ranges a client holds are parts of distinct ranges the allocator has handed out.\<close>

definition holds :: "'s \<Rightarrow> mrange list \<Rightarrow> bool" where
  "holds s held \<longleftrightarrow> (\<exists>blocks. inv s (set blocks) \<and> distinct blocks \<and>
     list_all2 (\<lambda>h b. fst h = fst b \<and> snd h \<le> snd b) held blocks)"

lemma holds_disjoint:
  assumes "holds s held"
  shows "ranges_disjoint held"
  unfolding ranges_disjoint_def
proof (intro allI impI)
  fix i j
  assume ij: "i < length held" "j < length held" "i \<noteq> j"
  obtain blocks where b: "inv s (set blocks)" "distinct blocks"
    "list_all2 (\<lambda>h b. fst h = fst b \<and> snd h \<le> snd b) held blocks"
    using assms by (auto simp: holds_def)
  have len: "length blocks = length held"
    using b(3) by (simp add: list_all2_lengthD)
  have sub: "bytes_of (held ! n) \<subseteq> bytes_of (blocks ! n)" if "n < length held" for n
    using list_all2_nthD [OF b(3) that] by (auto simp: bytes_of_def)
  have "bytes_of (blocks ! i) \<inter> bytes_of (blocks ! j) = {}"
    using ij b(2) len by (intro disjoint_law [OF b(1)]) (simp_all add: nth_eq_iff_index_eq)
  with sub [OF ij(1)] sub [OF ij(2)] show "bytes_of (held ! i) \<inter> bytes_of (held ! j) = {}"
    by blast
qed

lemma serve_one_holds:
  assumes "holds s held" and "request_ok limit r"
  shows "\<exists>s' held'. serve_one alloc free r (s, held) = Some (s', held') \<and> holds s' held'"
proof -
  obtain blocks where b: "inv s (set blocks)" "distinct blocks"
    "list_all2 (\<lambda>h b. fst h = fst b \<and> snd h \<le> snd b) held blocks"
    using assms(1) by (auto simp: holds_def)
  show ?thesis
  proof (cases r)
    case (Get sz)
    then obtain s' p where run: "alloc s sz = Some (s', p)"
      and res: "p = NULL \<and> inv s' (set blocks) \<or> p \<noteq> NULL \<and>
        (\<exists>n. unat sz \<le> n \<and> (p, n) \<notin> set blocks \<and> inv s' (insert (p, n) (set blocks)))"
      using alloc_law [OF b(1), of sz] assms(2) by auto
    from res show ?thesis
    proof (elim disjE conjE exE)
      assume "p = NULL" "inv s' (set blocks)"
      with run b Get show ?thesis by (auto simp: holds_def)
    next
      fix n
      assume n: "p \<noteq> NULL" "unat sz \<le> n" "(p, n) \<notin> set blocks" "inv s' (insert (p, n) (set blocks))"
      then have "holds s' (held @ [(p, unat sz)])"
        unfolding holds_def using b by (intro exI [of _ "blocks @ [(p, n)]"])
          (auto intro!: list_all2_appendI)
      with run n(1) Get show ?thesis by simp
    qed
  next
    case (Put n)
    show ?thesis
    proof (cases "n < length held")
      case True
      then have len: "n < length blocks"
        using b(3) by (simp add: list_all2_lengthD)
      obtain p m where pm: "blocks ! n = (p, m)" "fst (held ! n) = p"
        using list_all2_nthD [OF b(3) True] by (cases "blocks ! n") auto
      obtain s' where s': "free s p = Some s'" "inv s' (set blocks - {(p, m)})"
        using free_law [OF b(1), of p m] nth_mem [OF len] pm by auto
      have split: "blocks = take n blocks @ (p, m) # drop (Suc n) blocks"
        using len pm(1) by (metis id_take_nth_drop)
      then have "(p, m) \<notin> set (take n blocks)" "(p, m) \<notin> set (drop (Suc n) blocks)"
        "set blocks = insert (p, m) (set (take n blocks @ drop (Suc n) blocks))"
        "distinct (take n blocks @ drop (Suc n) blocks)"
        using b(2) by (metis distinct_append not_distinct_conv_prefix distinct.simps(2)
            disjoint_iff list.set_intros(1), metis distinct_append distinct.simps(2),
            metis Un_insert_right list.simps(15) set_append,
            metis distinct_append distinct.simps(2) disjoint_insert(1) list.simps(15))
      then have "holds s' (take n held @ drop (Suc n) held)"
        unfolding holds_def using b(3) s'(2)
        by (intro exI [of _ "take n blocks @ drop (Suc n) blocks"])
          (auto intro!: list_all2_appendI list_all2_takeI list_all2_dropI)
      with s'(1) pm(2) True Put show ?thesis by simp
    qed (use assms(1) Put in auto)
  qed
qed

text \<open>Whatever a client asks for, the allocator answers every request, and the ranges the client
  holds at the end do not overlap.\<close>

lemma serve_safe:
  assumes "holds s held" and "\<forall>r\<in>set rs. request_ok limit r"
  shows "\<exists>s' held'. serve alloc free rs (s, held) = Some (s', held') \<and> holds s' held' \<and>
    ranges_disjoint held'"
  using assms
proof (induction rs arbitrary: s held)
  case Nil
  then show ?case
    using holds_disjoint by auto
next
  case (Cons r rs)
  obtain s1 held1 where "serve_one alloc free r (s, held) = Some (s1, held1)" "holds s1 held1"
    using serve_one_holds [OF Cons.prems(1), of r] Cons.prems(2) by auto
  with Cons.IH [of s1 held1] Cons.prems(2) show ?case
    by simp
qed

lemma holds_nothing: "inv s {} \<Longrightarrow> holds s []"
  unfolding holds_def by (rule exI [of _ "[]"]) simp

text \<open>A client that keeps its pointers in slots: slot \<open>x\<close> holds \<open>f x\<close>, or \<^const>\<open>NULL\<close>, and needs \<open>need x\<close> bytes.
  It owns its memory when the ranges handed out are exactly those the slots point to and those of
  the pointers \<open>E\<close>, which other clients hold, and no two slots share one.\<close>

definition owns :: "'s \<Rightarrow> ('x \<Rightarrow> u64) \<Rightarrow> ('x \<Rightarrow> nat) \<Rightarrow> u64 set \<Rightarrow> bool" where
  "owns s f need E \<longleftrightarrow> (\<exists>A. inv s A \<and> (\<forall>r\<in>A. 0 < snd r) \<and> fst ` A = (range f - {NULL}) \<union> E \<and>
     range f \<inter> E \<subseteq> {NULL} \<and> NULL \<notin> E \<and> (\<forall>x y. f x = f y \<longrightarrow> f x \<noteq> NULL \<longrightarrow> x = y) \<and>
     (\<forall>x. f x \<noteq> NULL \<longrightarrow> (\<exists>n\<ge>need x. (f x, n) \<in> A)))"

lemma same_start:
  assumes "inv s A" and "\<forall>r\<in>A. 0 < snd r" and "(p, m) \<in> A" and "(p, n) \<in> A"
  shows "m = n"
proof (rule ccontr)
  assume "m \<noteq> n"
  then have "bytes_of (p, m) \<inter> bytes_of (p, n) = {}"
    using disjoint_law [OF assms(1,3,4)] by simp
  then show False
    using assms(2-4) by (fastforce simp: bytes_of_def)
qed

lemma owns_range:
  assumes "owns s f need E" and "f x \<noteq> NULL"
  obtains A n where "inv s A" "(f x, n) \<in> A" "0 < n" "need x \<le> n"
proof -
  obtain A where A: "inv s A" "\<forall>r\<in>A. 0 < snd r" "\<forall>x. f x \<noteq> NULL \<longrightarrow> (\<exists>n\<ge>need x. (f x, n) \<in> A)"
    using assms(1) by (auto simp: owns_def)
  obtain n where n: "need x \<le> n" "(f x, n) \<in> A"
    using A(3) assms(2) by blast
  moreover have "0 < n"
    using A(2) n(2) by force
  ultimately show ?thesis
    using that A(1) by blast
qed

lemma owns_disjoint:
  assumes "owns s f need E" and "x \<noteq> y" and "f x \<noteq> NULL" and "f y \<noteq> NULL"
  shows "bytes_of (f x, need x) \<inter> bytes_of (f y, need y) = {}"
proof -
  obtain A where A: "inv s A" "\<forall>x y. f x = f y \<longrightarrow> f x \<noteq> NULL \<longrightarrow> x = y"
    "\<forall>x. f x \<noteq> NULL \<longrightarrow> (\<exists>n\<ge>need x. (f x, n) \<in> A)"
    using assms(1) by (auto simp: owns_def)
  obtain m n where mn: "need x \<le> m" "(f x, m) \<in> A" "need y \<le> n" "(f y, n) \<in> A"
    using A(3) assms(3,4) by blast
  then have "bytes_of (f x, m) \<inter> bytes_of (f y, n) = {}"
    using A(2) assms(2,3) by (intro disjoint_law [OF A(1)]) auto
  with mn(1,3) show ?thesis
    by (auto simp: bytes_of_def)
qed

lemma owns_alloc:
  assumes own: "owns s f need E" and sz: "0 < unat sz" "unat sz \<le> limit" and x: "f x = NULL"
  obtains (fail) s' where "alloc s sz = Some (s', NULL)" "owns s' f need E"
  | (fresh) s' p where "alloc s sz = Some (s', p)" "p \<noteq> NULL" "p \<notin> range f" "p \<notin> E"
      "\<And>n. n \<le> unat sz \<Longrightarrow> owns s' (f(x := p)) (need(x := n)) E"
proof -
  obtain A where A: "inv s A" "\<forall>r\<in>A. 0 < snd r" "fst ` A = (range f - {NULL}) \<union> E"
      "range f \<inter> E \<subseteq> {NULL}" "NULL \<notin> E" "\<forall>x y. f x = f y \<longrightarrow> f x \<noteq> NULL \<longrightarrow> x = y"
      "\<forall>x. f x \<noteq> NULL \<longrightarrow> (\<exists>n\<ge>need x. (f x, n) \<in> A)"
    using own by (auto simp: owns_def)
  obtain s' p where run: "alloc s sz = Some (s', p)" and
    out: "p = NULL \<and> inv s' A \<or> p \<noteq> NULL \<and> (\<exists>n. unat sz \<le> n \<and> (p, n) \<notin> A \<and> inv s' (insert (p, n) A))"
    using alloc_law [OF A(1) sz] by blast
  show thesis
  proof (cases "p = NULL")
    case True
    with out have "owns s' f need E"
      using A unfolding owns_def by blast
    with run True fail show ?thesis
      by blast
  next
    case False
    then obtain m where m: "unat sz \<le> m" "(p, m) \<notin> A" "inv s' (insert (p, m) A)"
      using out by blast
    have pos: "\<forall>r\<in>insert (p, m) A. 0 < snd r"
      using A(2) m(1) sz(1) by auto
    have new: "p \<notin> fst ` A"
      using same_start [OF m(3) pos] m(2) by fastforce
    have own': "owns s' (f(x := p)) (need(x := n)) E" if "n \<le> unat sz" for n
      unfolding owns_def
    proof (intro exI [of _ "insert (p, m) A"] conjI)
      show "fst ` insert (p, m) A = range (f(x := p)) - {NULL} \<union> E"
        using A(3) x False by (auto simp: image_iff)
      show "range (f(x := p)) \<inter> E \<subseteq> {NULL}"
        using A(3,4) new by (auto split: if_splits)
      show "\<forall>a b. (f(x := p)) a = (f(x := p)) b \<longrightarrow> (f(x := p)) a \<noteq> NULL \<longrightarrow> a = b"
        using A(3,6) new by (auto split: if_splits)
      show "\<forall>a. (f(x := p)) a \<noteq> NULL \<longrightarrow> (\<exists>k\<ge>(need(x := n)) a. ((f(x := p)) a, k) \<in> insert (p, m) A)"
      proof (intro allI impI)
        fix a
        assume "(f(x := p)) a \<noteq> NULL"
        then show "\<exists>k\<ge>(need(x := n)) a. ((f(x := p)) a, k) \<in> insert (p, m) A"
          using A(7) m(1) that by (cases "a = x") (auto intro: exI [of _ m])
      qed
    qed (use m(3) pos A(5) in auto)
    have "p \<notin> range f" "p \<notin> E"
      using new A(3) False by auto
    with run False own' fresh show ?thesis
      by blast
  qed
qed

lemma owns_free:
  assumes own: "owns s f need E" and x: "f x \<noteq> NULL"
  shows "\<exists>s'. free s (f x) = Some s' \<and> owns s' (f(x := NULL)) need E"
proof -
  obtain A where A: "inv s A" "\<forall>r\<in>A. 0 < snd r" "fst ` A = (range f - {NULL}) \<union> E"
      "range f \<inter> E \<subseteq> {NULL}" "NULL \<notin> E" "\<forall>x y. f x = f y \<longrightarrow> f x \<noteq> NULL \<longrightarrow> x = y"
      "\<forall>x. f x \<noteq> NULL \<longrightarrow> (\<exists>n\<ge>need x. (f x, n) \<in> A)"
    using own by (auto simp: owns_def)
  obtain n where n: "(f x, n) \<in> A"
    using A(7) x by blast
  obtain s' where s': "free s (f x) = Some s'" "inv s' (A - {(f x, n)})"
    using free_law [OF A(1) n] by blast
  have other: "(f y, k) \<noteq> (f x, n)" if "y \<noteq> x" for y k
    using A(6) x that by auto
  have image: "fst ` (A - {(f x, n)}) = fst ` A - {f x}"
  proof
    show "fst ` (A - {(f x, n)}) \<subseteq> fst ` A - {f x}"
      using same_start [OF A(1,2) n] by fastforce
  qed auto
  have "owns s' (f(x := NULL)) need E"
    unfolding owns_def
  proof (intro exI [of _ "A - {(f x, n)}"] conjI)
    show "fst ` (A - {(f x, n)}) = range (f(x := NULL)) - {NULL} \<union> E"
      unfolding image A(3) using A(4,5,6) x by (auto split: if_splits)
    show "\<forall>y. (f(x := NULL)) y \<noteq> NULL \<longrightarrow> (\<exists>k\<ge>need y. ((f(x := NULL)) y, k) \<in> A - {(f x, n)})"
      using A(7) other by (auto split: if_splits)
    show "range (f(x := NULL)) \<inter> E \<subseteq> {NULL}"
    proof
      fix a
      assume "a \<in> range (f(x := NULL)) \<inter> E"
      then have "a = NULL \<or> a \<in> range f \<inter> E"
        by (auto split: if_splits)
      with A(4) show "a \<in> {NULL}" by blast
    qed
  qed (use s' A in \<open>auto split: if_splits\<close>)
  with s'(1) show ?thesis
    by blast
qed

text \<open>A slot may ask for less, and a pointer may move to a free slot.\<close>

lemma owns_need:
  assumes "owns s f need E" and "\<And>x. f x \<noteq> NULL \<Longrightarrow> need' x \<le> need x"
  shows "owns s f need' E"
proof -
  obtain A where A: "inv s A" "\<forall>r\<in>A. 0 < snd r" "fst ` A = (range f - {NULL}) \<union> E"
      "range f \<inter> E \<subseteq> {NULL}" "NULL \<notin> E" "\<forall>x y. f x = f y \<longrightarrow> f x \<noteq> NULL \<longrightarrow> x = y"
      "\<forall>x. f x \<noteq> NULL \<longrightarrow> (\<exists>n\<ge>need x. (f x, n) \<in> A)"
    using assms(1) by (auto simp: owns_def)
  have "\<forall>x. f x \<noteq> NULL \<longrightarrow> (\<exists>n\<ge>need' x. (f x, n) \<in> A)"
    using A(7) assms(2) by (meson order_trans)
  with A show ?thesis
    unfolding owns_def by blast
qed

lemma owns_move:
  assumes own: "owns s f need E" and y: "f y = NULL" and x: "f x \<noteq> NULL"
  shows "owns s (f(x := NULL, y := f x)) (need(y := need x)) E"
proof -
  obtain A where A: "inv s A" "\<forall>r\<in>A. 0 < snd r" "fst ` A = (range f - {NULL}) \<union> E"
      "range f \<inter> E \<subseteq> {NULL}" "NULL \<notin> E" "\<forall>x y. f x = f y \<longrightarrow> f x \<noteq> NULL \<longrightarrow> x = y"
      "\<forall>x. f x \<noteq> NULL \<longrightarrow> (\<exists>n\<ge>need x. (f x, n) \<in> A)"
    using own by (auto simp: owns_def)
  let ?f = "f(x := NULL, y := f x)"
  have rng: "range ?f - {NULL} = range f - {NULL}"
  proof
    show "range ?f - {NULL} \<subseteq> range f - {NULL}"
      by auto
    show "range f - {NULL} \<subseteq> range ?f - {NULL}"
    proof
      fix a
      assume "a \<in> range f - {NULL}"
      then obtain z where z: "a = f z" "f z \<noteq> NULL"
        by blast
      show "a \<in> range ?f - {NULL}"
      proof (cases "z = x")
        case True
        with z show ?thesis by (auto intro: image_eqI [of _ _ y])
      next
        case False
        with z y have "?f z = a" by auto
        with z show ?thesis
          by (metis DiffI rangeI singletonD)
      qed
    qed
  qed
  show ?thesis
    unfolding owns_def
  proof (intro exI [of _ A] conjI)
    show "fst ` A = range ?f - {NULL} \<union> E"
      unfolding rng by (rule A(3))
    show "range ?f \<inter> E \<subseteq> {NULL}"
      using rng A(4) by blast
    show "\<forall>a b. ?f a = ?f b \<longrightarrow> ?f a \<noteq> NULL \<longrightarrow> a = b"
    proof (intro allI impI)
      fix a b
      assume ab: "?f a = ?f b" "?f a \<noteq> NULL"
      define g where "g c = (if c = y then x else c)" for c
      have g: "f (g c) = ?f c" if "?f c \<noteq> NULL" for c
        using that by (auto simp: g_def split: if_splits)
      have "f (g a) = f (g b)" "f (g a) \<noteq> NULL"
        using g [of a] g [of b] ab by simp_all
      then have "g a = g b"
        using A(6) by blast
      then show "a = b"
        using ab by (auto simp: g_def split: if_splits)
    qed
    show "\<forall>a. ?f a \<noteq> NULL \<longrightarrow> (\<exists>n\<ge>(need(y := need x)) a. (?f a, n) \<in> A)"
      using A(7) by auto
  qed (use A in auto)
qed

end

section \<open>Memory that is never handed out\<close>

text \<open>An allocator that also keeps clear of a fixed part of the memory (the reserved pages).\<close>

locale guarded_allocator = allocator +
  fixes guarded :: "'a \<Rightarrow> nat set"
  assumes guarded_law: "inv s A \<Longrightarrow> x \<in> A \<Longrightarrow> bytes_of x \<inter> guarded s = {}"
    and alloc_guarded:
      "inv s A \<Longrightarrow> 0 < unat sz \<Longrightarrow> unat sz \<le> limit \<Longrightarrow> alloc s sz = Some (s', p) \<Longrightarrow>
         guarded s' = guarded s"
    and free_guarded:
      "inv s A \<Longrightarrow> (p, n) \<in> A \<Longrightarrow> free s p = Some s' \<Longrightarrow> guarded s' = guarded s"
begin

lemma holds_guarded:
  assumes "holds s held" and "r \<in> set held"
  shows "bytes_of r \<inter> guarded s = {}"
proof -
  obtain blocks where b: "inv s (set blocks)"
    "list_all2 (\<lambda>h b. fst h = fst b \<and> snd h \<le> snd b) held blocks"
    using assms(1) by (auto simp: holds_def)
  obtain i where i: "i < length held" "r = held ! i"
    using assms(2) by (auto simp: in_set_conv_nth)
  have "bytes_of r \<subseteq> bytes_of (blocks ! i)"
    using list_all2_nthD [OF b(2) i(1)] i(2) by (auto simp: bytes_of_def)
  moreover have "blocks ! i \<in> set blocks"
    using i(1) list_all2_lengthD [OF b(2)] by simp
  ultimately show ?thesis
    using guarded_law [OF b(1)] by blast
qed

lemma serve_one_guarded:
  assumes "holds s held" and "request_ok limit r"
    and "serve_one alloc free r (s, held) = Some (s', held')"
  shows "guarded s' = guarded s"
proof -
  obtain blocks where b: "inv s (set blocks)"
    "list_all2 (\<lambda>h b. fst h = fst b \<and> snd h \<le> snd b) held blocks"
    using assms(1) by (auto simp: holds_def)
  show ?thesis
  proof (cases r)
    case (Get sz)
    then show ?thesis
      using alloc_guarded [OF b(1), of sz] assms(2,3) by (auto simp: bind_eq_Some_conv)
  next
    case (Put n)
    show ?thesis
    proof (cases "n < length held")
      case True
      then have "blocks ! n \<in> set blocks" "fst (held ! n) = fst (blocks ! n)"
        using list_all2_nthD [OF b(2) True] list_all2_lengthD [OF b(2)] by simp_all
      with True Put show ?thesis
        using free_guarded [OF b(1), of "fst (blocks ! n)" "snd (blocks ! n)"] assms(3)
        by (auto simp: bind_eq_Some_conv)
    qed (use assms(3) Put in auto)
  qed
qed

lemma serve_guarded:
  assumes "holds s held" and "\<forall>r\<in>set rs. request_ok limit r"
  shows "\<exists>s' held'. serve alloc free rs (s, held) = Some (s', held') \<and> holds s' held' \<and>
    ranges_disjoint held' \<and> guarded s' = guarded s \<and> (\<forall>r\<in>set held'. bytes_of r \<inter> guarded s = {})"
  using assms
proof (induction rs arbitrary: s held)
  case Nil
  then show ?case
    using holds_disjoint holds_guarded by auto
next
  case (Cons r rs)
  obtain s1 held1 where s1: "serve_one alloc free r (s, held) = Some (s1, held1)" "holds s1 held1"
    using serve_one_holds [OF Cons.prems(1), of r] Cons.prems(2) by auto
  have "guarded s1 = guarded s"
    using serve_one_guarded [OF Cons.prems(1) _ s1(1)] Cons.prems(2) by simp
  with Cons.IH [OF s1(2)] Cons.prems(2) s1(1) show ?case
    by simp
qed

lemma owns_alloc_guarded:
  assumes own: "owns s f need E" and sz: "0 < unat sz" "unat sz \<le> limit" and x: "f x = NULL"
  obtains (fail) s' where "alloc s sz = Some (s', NULL)" "owns s' f need E" "guarded s' = guarded s"
  | (fresh) s' p where "alloc s sz = Some (s', p)" "p \<noteq> NULL" "p \<notin> range f" "p \<notin> E"
      "unat p \<notin> guarded s" "guarded s' = guarded s"
      "\<And>n. n \<le> unat sz \<Longrightarrow> owns s' (f(x := p)) (need(x := n)) E"
proof -
  have inv: "\<exists>A. inv s A"
    using own by (auto simp: owns_def)
  show thesis
  proof (cases rule: owns_alloc [OF own sz x])
    case (1 s')
    then show ?thesis
      using inv alloc_guarded [OF _ sz] fail by blast
  next
    case (2 s' p)
    then have g: "guarded s' = guarded s"
      using inv alloc_guarded [OF _ sz] by blast
    have "owns s' (f(x := p)) (need(x := 0)) E" "(f(x := p)) x \<noteq> NULL"
      using 2(2) 2(5) [of 0] by simp_all
    then obtain A n where A: "inv s' A" "((f(x := p)) x, n) \<in> A" "0 < n"
      by (rule owns_range)
    then have "bytes_of (p, n) \<inter> guarded s = {}" "unat p \<in> bytes_of (p, n)"
      using guarded_law [OF A(1,2)] g by (simp_all add: bytes_of_def)
    then have "unat p \<notin> guarded s"
      by blast
    with 2 g fresh show ?thesis
      by blast
  qed
qed

lemma owns_free_guarded:
  assumes own: "owns s f need E" and x: "f x \<noteq> NULL"
  shows "\<exists>s'. free s (f x) = Some s' \<and> owns s' (f(x := NULL)) need E \<and> guarded s' = guarded s"
proof -
  obtain s' where s': "free s (f x) = Some s'" "owns s' (f(x := NULL)) need E"
    using owns_free [OF own x] by blast
  obtain A n where "inv s A" "(f x, n) \<in> A"
    using owns_range [OF own x] .
  then have "guarded s' = guarded s"
    using free_guarded s'(1) by blast
  with s' show ?thesis by blast
qed

end

end
