(* ===== verification/Buddy_Spec.thy ===== *)
theory Buddy_Spec
  imports Startup Allocator
begin

text \<open>
  The page allocator as an instance of the contract of theory \<open>Allocator\<close>, and the properties of
  its operations: allocation, release, the construction of the free lists, and whole sequences of
  calls from boot on.
\<close>

section \<open>Blocks as memory ranges\<close>

definition block_range :: "buddy \<Rightarrow> nat \<times> nat \<Rightarrow> mrange" where
  "block_range b x = (idx_to_addr b (fst x), 4096 * 2 ^ snd x)"

definition buddy_live :: "buddy \<Rightarrow> mrange set \<Rightarrow> bool" where
  "buddy_live b R \<longleftrightarrow> region_ok b \<and> no_buddies b \<and> (\<exists>A. binv b A {} \<and> R = block_range b ` A)"

lemma block_bytes:
  assumes "region_ok b" and "i + 2 ^ k \<le> g_total_pages b"
  shows "bytes_of (block_range b (i, k)) =
    {unat (g_buddy_base b) + 4096 * i ..< unat (g_buddy_base b) + 4096 * (i + 2 ^ k)}"
proof -
  have "i < g_total_pages b"
    using assms(2) pow2_pos [of k] by linarith
  from unat_idx_to_addr [OF assms(1) this] show ?thesis
    by (simp add: bytes_of_def block_range_def add.assoc)
qed

lemma block_bytes_disjoint:
  assumes reg: "region_ok b" and "i + 2 ^ k \<le> g_total_pages b" and "j + 2 ^ l \<le> g_total_pages b"
    and dis: "blk i k \<inter> blk j l = {}"
  shows "bytes_of (block_range b (i, k)) \<inter> bytes_of (block_range b (j, l)) = {}"
proof -
  have "i + 2 ^ k \<le> j \<or> j + 2 ^ l \<le> i"
  proof (rule ccontr)
    assume "\<not> ?thesis"
    then have "max i j \<in> blk i k \<inter> blk j l"
      by (auto simp: max_def)
    with dis show False by blast
  qed
  then show ?thesis
    unfolding block_bytes [OF reg assms(2)] block_bytes [OF reg assms(3)] by auto
qed

lemma binv_fits: "binv b A L \<Longrightarrow> (i, k) \<in> A \<Longrightarrow> i + 2 ^ k \<le> g_total_pages b"
  using binvD(6) by (auto simp: alloc_ok_def)

lemma binv_block_head: "binv b A L \<Longrightarrow> (i, k) \<in> A \<Longrightarrow> i < g_total_pages b"
  using binv_fits [of b A L i k] pow2_pos [of k] by linarith

lemma live_blocks_disjoint:
  assumes "region_ok b" and "binv b A L" and "x \<in> A" and "y \<in> A" and "x \<noteq> y"
  shows "bytes_of (block_range b x) \<inter> bytes_of (block_range b y) = {}"
  using assms block_bytes_disjoint [OF assms(1)] binv_fits [OF assms(2)] binvD(7) [OF assms(2)]
  by (cases x, cases y) (metis)

text \<open>Distinct blocks have distinct addresses.\<close>

lemma block_range_inj:
  assumes "region_ok b" and "binv b A L"
  shows "inj_on (block_range b) A"
proof (rule inj_onI)
  fix x y
  assume xy: "x \<in> A" "y \<in> A" "block_range b x = block_range b y"
  then have "fst x = fst y"
    using idx_to_addr_inject [OF assms(1) binv_block_head [OF assms(2)] binv_block_head [OF assms(2)]]
    by (cases x, cases y) (auto simp: block_range_def)
  with xy(3) show "x = y"
    by (cases x, cases y) (simp add: block_range_def)
qed

section \<open>The contract\<close>

lemma block_range_same: "changes_in b b' S \<Longrightarrow> block_range b' = block_range b"
  by (rule ext) (simp add: block_range_def changes_in_addr)

lemma buddy_alloc_live:
  assumes "buddy_live b R" and "0 < unat sz" and "unat sz \<le> 2 ^ 64 - 4096"
  shows "\<exists>b' p. buddy_alloc b sz = Some (b', p) \<and>
    (p = NULL \<and> buddy_live b' R \<or>
     p \<noteq> NULL \<and> (\<exists>n. unat sz \<le> n \<and> (p, n) \<notin> R \<and> buddy_live b' (insert (p, n) R)))"
proof -
  obtain A where A: "region_ok b" "no_buddies b" "binv b A {}" "R = block_range b ` A"
    using assms(1) by (auto simp: buddy_live_def)
  have sz: "sz \<noteq> 0"
    using assms(2) by auto
  obtain b' p where run: "buddy_alloc b sz = Some (b', p)" and out:
    "b' = b \<and> p = NULL \<and> (\<forall>k\<le>MAX_ORDER. unat sz \<le> 4096 * 2 ^ k \<longrightarrow> free_list b ! k = []) \<or>
     (\<exists>i k. p = idx_to_addr b i \<and> k \<le> MAX_ORDER \<and> unat sz \<le> 4096 * 2 ^ k \<and>
        (\<forall>j<k. 4096 * 2 ^ j < unat sz) \<and> blk i k \<subseteq> free_pages b \<and>
        binv b' (insert (i, k) A) {} \<and> no_buddies b' \<and>
        reserved_pages b' = reserved_pages b \<and> changes_in b b' (free_pages b))"
    using buddy_alloc_outcome [OF A(3,2) sz assms(3)] by blast
  from out show ?thesis
  proof (elim disjE exE conjE)
    assume "b' = b" "p = NULL"
    with run assms(1) show ?thesis by blast
  next
    fix i k
    assume p: "p = idx_to_addr b i" "unat sz \<le> 4096 * 2 ^ k" "blk i k \<subseteq> free_pages b"
      "binv b' (insert (i, k) A) {}" "no_buddies b'" "changes_in b b' (free_pages b)"
    have reg: "region_ok b'"
      using A(1) changes_in_region [OF p(6)] by simp
    have i: "i < g_total_pages b"
      using binv_block_head [OF p(4), of i k] changes_in_same(1) [OF p(6)] by simp
    have "(i, k) \<notin> A"
    proof
      assume a: "(i, k) \<in> A"
      have "i \<in> free_pages b"
        using p(3) by auto
      moreover have "i \<in> alloc_pages A"
        using a by (force simp: alloc_pages_def)
      ultimately show False
        using page_partition [OF A(3)] by blast
    qed
    then have "(p, 4096 * 2 ^ k) \<notin> R"
      using block_range_inj [OF reg p(4)] block_range_same [OF p(6)] A(4) p(1)
      by (force simp: inj_on_def block_range_def)
    moreover have "buddy_live b' (insert (p, 4096 * 2 ^ k) R)"
      unfolding buddy_live_def using reg p(4,5) block_range_same [OF p(6)] A(4) p(1)
      by (auto intro!: exI [of _ "insert (i, k) A"] simp: block_range_def)
    ultimately show ?thesis
      using run p(1,2) idx_to_addr_in_region(1) [OF A(1) i] by blast
  qed
qed

lemma buddy_free_live:
  assumes "buddy_live b R" and "(p, n) \<in> R"
  shows "\<exists>b'. buddy_free b p = Some b' \<and> buddy_live b' (R - {(p, n)})"
proof -
  obtain A where A: "region_ok b" "no_buddies b" "binv b A {}" "R = block_range b ` A"
    using assms(1) by (auto simp: buddy_live_def)
  obtain i k where ik: "(i, k) \<in> A" "(p, n) = block_range b (i, k)"
    using assms(2) A(4) by auto
  obtain b' where b': "buddy_free b p = Some b'" "binv b' (A - {(i, k)}) {}" "no_buddies b'"
    "changes_in b b' (free_pages b \<union> blk i k)"
    using buddy_free_outcome [OF A(3,2,1) ik(1)] ik(2) by (auto simp: block_range_def)
  have "R - {(p, n)} = block_range b' ` (A - {(i, k)})"
    using inj_on_image_set_diff [OF block_range_inj [OF A(1,3)], of A "{(i, k)}"] A(4) ik
      block_range_same [OF b'(4)] by auto
  then show ?thesis
    using b' A(1) changes_in_region [OF b'(4)] by (auto simp: buddy_live_def)
qed

interpretation page: allocator buddy_live buddy_alloc buddy_free "2 ^ 64 - 4096"
proof unfold_locales
  fix b R x y
  assume "buddy_live b R" "x \<in> R" "y \<in> R" "x \<noteq> y"
  then show "bytes_of x \<inter> bytes_of y = {}"
    using live_blocks_disjoint by (fastforce simp: buddy_live_def)
qed (use buddy_alloc_live buddy_free_live in auto)

text \<open>Reserved pages, and addresses outside the managed pages, are never handed out.\<close>

definition page_bytes :: "buddy \<Rightarrow> nat \<Rightarrow> nat set" where
  "page_bytes b p = {unat (g_buddy_base b) + 4096 * p ..< unat (g_buddy_base b) + 4096 * (p + 1)}"

definition off_limits :: "buddy \<Rightarrow> nat set" where
  "off_limits b = - (\<Union>p\<in>{..<g_total_pages b} - reserved_pages b. page_bytes b p)"

lemma off_limits_same:
  "changes_in b b' S \<Longrightarrow> reserved_pages b' = reserved_pages b \<Longrightarrow> off_limits b' = off_limits b"
  by (simp add: off_limits_def page_bytes_def changes_in_same)

lemma block_not_reserved:
  assumes reg: "region_ok b" and inv: "binv b A L" and x: "(i, k) \<in> A"
  shows "bytes_of (block_range b (i, k)) \<inter> off_limits b = {}"
proof -
  note fits = binv_fits [OF inv x]
  have "frame_array b ! q \<noteq> FRAME_RESERVED" if "q \<in> blk i k" for q
    using binvD(6) [OF inv x] that by (simp add: alloc_ok_def)
  then have q: "q \<in> {..<g_total_pages b} - reserved_pages b" if "i \<le> q" "q < i + 2 ^ k" for q
    using that fits by (auto simp: reserved_pages_def)
  show ?thesis
    unfolding disjoint_iff
  proof (intro allI impI)
    fix a
    assume "a \<in> bytes_of (block_range b (i, k))"
    then have a: "unat (g_buddy_base b) + 4096 * i \<le> a" "a < unat (g_buddy_base b) + 4096 * (i + 2 ^ k)"
      unfolding block_bytes [OF reg fits] by auto
    let ?p = "(a - unat (g_buddy_base b)) div 4096"
    have "i \<le> ?p" "?p < i + 2 ^ k"
      using a by (auto simp: less_eq_div_iff_mult_less_eq div_less_iff_less_mult)
    moreover have "a \<in> page_bytes b ?p"
      unfolding page_bytes_def using a(1) by auto
    ultimately show "a \<notin> off_limits b"
      using q unfolding off_limits_def by blast
  qed
qed

lemma buddy_alloc_reserved:
  assumes "buddy_live b R" and "0 < unat sz" and "unat sz \<le> 2 ^ 64 - 4096"
    and "buddy_alloc b sz = Some (b', p)"
  shows "off_limits b' = off_limits b"
proof -
  obtain A where A: "no_buddies b" "binv b A {}"
    using assms(1) by (auto simp: buddy_live_def)
  have "sz \<noteq> 0"
    using assms(2) by auto
  from buddy_alloc_outcome [OF A(2,1) this assms(3)] assms(4) show ?thesis
    using off_limits_same by fastforce
qed

lemma buddy_free_reserved:
  assumes "buddy_live b R" and "(p, n) \<in> R" and "buddy_free b p = Some b'"
  shows "off_limits b' = off_limits b"
proof -
  obtain A where A: "region_ok b" "no_buddies b" "binv b A {}" "R = block_range b ` A"
    using assms(1) by (auto simp: buddy_live_def)
  obtain i k where ik: "(i, k) \<in> A" "p = idx_to_addr b i"
    using assms(2) A(4) by (auto simp: block_range_def)
  from buddy_free_outcome [OF A(3,2,1) ik(1)] assms(3) ik(2) show ?thesis
    using off_limits_same by fastforce
qed

interpretation page_guarded: guarded_allocator buddy_live buddy_alloc buddy_free "2 ^ 64 - 4096" off_limits
proof unfold_locales
  fix b R x
  assume "buddy_live b R" "x \<in> R"
  then show "bytes_of x \<inter> off_limits b = {}"
    using block_not_reserved by (fastforce simp: buddy_live_def)
qed (use buddy_alloc_reserved buddy_free_reserved in blast)+

section \<open>Properties\<close>

text \<open>A small region for the examples: four free pages in one block, then a reserved page.\<close>

definition sample_pages :: buddy where
  "sample_pages = \<lparr>g_buddy_base = 0x80000000, g_buddy_end = 0x80005000, g_total_pages = 5,
     frame_array = [2, FRAME_FREE_PART, FRAME_FREE_PART, FRAME_FREE_PART, FRAME_RESERVED],
     free_list = (replicate (MAX_ORDER + 1) [])[2 := [0]]\<rparr>"

lemma sample_pages_free_list: "k \<le> MAX_ORDER \<Longrightarrow> free_list sample_pages ! k = (if k = 2 then [0] else [])"
  by (simp add: sample_pages_def nth_list_update del: replicate_Suc)

lemma sample_pages_ok: "binv sample_pages {} {}" "no_buddies sample_pages" "region_ok sample_pages"
proof -
  have owned: "owned sample_pages {} p" if "p < 5" for p
  proof (cases "p = 4")
    case True
    then show ?thesis
      by (simp add: owned_def sample_pages_def)
  next
    case False
    with that have "p \<in> blk 0 2"
      by simp
    then show ?thesis
      unfolding owned_def using sample_pages_free_list [of 2]
      by (intro disjI2 disjI1 exI [of _ 2]) (simp add: MAX_ORDER_def)
  qed
  have free: "free_ok sample_pages {} 0 2"
  proof -
    have "frame_array sample_pages ! j = FRAME_FREE_PART" if "0 < j" "j < 4" for j
    proof -
      have "j = 1 \<or> j = 2 \<or> j = 3"
        using that by linarith
      then show ?thesis
        by (auto simp: sample_pages_def)
    qed
    then show ?thesis
      by (simp add: free_ok_def sample_pages_def)
  qed
  show "binv sample_pages {} {}"
  proof (rule binvI)
    show "owned sample_pages {} p" if "p < g_total_pages sample_pages" for p
      using owned that by (simp add: sample_pages_def)
    show "free_ok sample_pages {} i k" if "k \<le> MAX_ORDER" "i \<in> set (free_list sample_pages ! k)" for k i
      using that free by (auto simp: sample_pages_free_list split: if_splits)
  qed (auto simp: sample_pages_free_list, auto simp: sample_pages_def)
  show "no_buddies sample_pages"
    unfolding no_buddies_def by (auto simp: sample_pages_free_list)
  show "region_ok sample_pages"
    by (simp add: region_ok_def sample_pages_def)
qed

lemma alloc_free_pages:
  assumes inv: "binv b A {}" and inv': "binv b' (insert (i, k) A) {}"
    and same: "reserved_pages b' = reserved_pages b" "changes_in b b' S"
  shows "free_pages b' = free_pages b - blk i k"
  unfolding page_partition [OF inv] page_partition [OF inv'] same(1) changes_in_same(1) [OF same(2)]
    alloc_pages_def by auto

text \<open>
  C28: In every state that satisfies the allocator's invariant, over a region that does not start at address 0,
  \<^verbatim>\<open>buddy_alloc\<close> of a size that does not wrap when it is rounded up (not 0 and at most \<open>2 ^ 64 - 4096\<close>) returns without undefined
  behaviour. It succeeds exactly when some
  free list holds a block that is large enough, takes a block of the least sufficient order that
  was entirely free, removes exactly its pages from the free pages, leaves the reserved pages
  alone and keeps the invariant with the block added to the blocks handed out; otherwise it
  returns \<^verbatim>\<open>NULL\<close> and changes nothing.
\<close>

theorem buddy_alloc_best_fit:
  assumes inv: "binv b A {}" and nb: "no_buddies b" and reg: "region_ok b"
    and sz: "sz \<noteq> 0" "unat sz \<le> 2 ^ 64 - 4096"
  shows "\<exists>b' p. buddy_alloc b sz = Some (b', p) \<and>
    (if \<exists>k\<le>MAX_ORDER. unat sz \<le> 4096 * 2 ^ k \<and> free_list b ! k \<noteq> []
     then p \<noteq> NULL \<and> (\<exists>i k. p = idx_to_addr b i \<and> k \<le> MAX_ORDER \<and>
            unat sz \<le> 4096 * 2 ^ k \<and> (\<forall>j<k. 4096 * 2 ^ j < unat sz) \<and>
            blk i k \<subseteq> free_pages b \<and> free_pages b' = free_pages b - blk i k \<and>
            reserved_pages b' = reserved_pages b \<and> binv b' (insert (i, k) A) {} \<and>
            no_buddies b' \<and> region_ok b')
     else p = NULL \<and> b' = b)"
proof -
  obtain b' p where run: "buddy_alloc b sz = Some (b', p)" and out:
    "b' = b \<and> p = NULL \<and> (\<forall>k\<le>MAX_ORDER. unat sz \<le> 4096 * 2 ^ k \<longrightarrow> free_list b ! k = []) \<or>
     (\<exists>i k. p = idx_to_addr b i \<and> k \<le> MAX_ORDER \<and> unat sz \<le> 4096 * 2 ^ k \<and>
        (\<forall>j<k. 4096 * 2 ^ j < unat sz) \<and> blk i k \<subseteq> free_pages b \<and>
        binv b' (insert (i, k) A) {} \<and> no_buddies b' \<and>
        reserved_pages b' = reserved_pages b \<and> changes_in b b' (free_pages b))"
    using buddy_alloc_outcome [OF inv nb sz] by blast
  from out show ?thesis
  proof (elim disjE exE conjE)
    assume "b' = b" "p = NULL" "\<forall>k\<le>MAX_ORDER. unat sz \<le> 4096 * 2 ^ k \<longrightarrow> free_list b ! k = []"
    with run show ?thesis by auto
  next
    fix i k
    assume p: "p = idx_to_addr b i" "k \<le> MAX_ORDER" "unat sz \<le> 4096 * 2 ^ k"
      "\<forall>j<k. 4096 * 2 ^ j < unat sz" "blk i k \<subseteq> free_pages b"
      "binv b' (insert (i, k) A) {}" "no_buddies b'" "reserved_pages b' = reserved_pages b"
      "changes_in b b' (free_pages b)"
    have al: "2 ^ k dvd i"
      using binvD(6) [OF p(6), of i k] by (simp add: alloc_ok_def)
    obtain l j where l: "k \<le> l" "l \<le> MAX_ORDER" "j \<in> set (free_list b ! l)"
      using free_block_cover [OF inv nb p(2) al p(5)] by metis
    have "4096 * 2 ^ k \<le> (4096 * 2 ^ l :: nat)"
      using l(1) by simp
    with p(3) have "unat sz \<le> 4096 * 2 ^ l"
      by (rule order_trans)
    with l(2,3) have found: "\<exists>k\<le>MAX_ORDER. unat sz \<le> 4096 * 2 ^ k \<and> free_list b ! k \<noteq> []"
      by (intro exI [of _ l]) auto
    have "i < g_total_pages b"
      using binv_block_head [OF p(6), of i k] changes_in_same(1) [OF p(9)] by simp
    then have "p \<noteq> NULL"
      using idx_to_addr_in_region(1) [OF reg] p(1) by simp
    with run found p alloc_free_pages [OF inv p(6,8,9)] changes_in_region [OF p(9)] reg show ?thesis
      by auto
  qed
qed

theorem buddy_alloc_best_fit_witness:
  "\<exists>b' p i k. buddy_alloc sample_pages 5000 = Some (b', p) \<and> p = idx_to_addr sample_pages i \<and>
     (5000::nat) \<le> 4096 * 2 ^ k \<and> (\<forall>j<k. 4096 * 2 ^ j < (5000::nat)) \<and>
     free_pages b' = free_pages sample_pages - blk i k \<and> binv b' {(i, k)} {}"
proof -
  have "\<exists>k\<le>MAX_ORDER. unat (5000 :: u64) \<le> 4096 * 2 ^ k \<and> free_list sample_pages ! k \<noteq> []"
    by (rule exI [of _ 2]) (simp add: sample_pages_free_list MAX_ORDER_def)
  moreover have "(5000 :: u64) \<noteq> 0" "unat (5000 :: u64) \<le> 2 ^ 64 - 4096" "unat (5000 :: u64) = 5000"
    by simp_all
  ultimately show ?thesis
    using buddy_alloc_best_fit [OF sample_pages_ok, of 5000] by (simp only: if_True) metis
qed

text \<open>
  C29: \<^verbatim>\<open>buddy_free\<close> of the address of a block that is handed out returns without undefined
  behaviour, whatever neighbours it coalesces with: exactly the pages of the block become free,
  the reserved pages stay, the block leaves the set of blocks handed out, and no two buddies of
  the same order remain in the free lists.
\<close>

theorem buddy_free_coalesces:
  assumes inv: "binv b A {}" and nb: "no_buddies b" and reg: "region_ok b" and a: "(i, k) \<in> A"
  shows "\<exists>b'. buddy_free b (idx_to_addr b i) = Some b' \<and> free_pages b' = free_pages b \<union> blk i k \<and>
    reserved_pages b' = reserved_pages b \<and> binv b' (A - {(i, k)}) {} \<and> no_buddies b' \<and> region_ok b'"
  using buddy_free_outcome [OF assms] changes_in_region reg by metis

text \<open>The first page of the sample region handed out, its buddy and the upper half free.\<close>

definition sample_split :: buddy where
  "sample_split = sample_pages\<lparr>
     frame_array := [ALLOC_TAG 0 0, 0, 1, FRAME_FREE_PART, FRAME_RESERVED],
     free_list := (replicate (MAX_ORDER + 1) [])[0 := [1], 1 := [2]]\<rparr>"

lemma sample_alloc: "buddy_alloc sample_pages 1 = Some (sample_split, 0x80000000)"
proof -
  have find: "find_order sample_pages 0 = 2"
    by (simp add: find_order.simps sample_pages_free_list) (simp add: MAX_ORDER_def)
  have order: "pages_to_order ((1 + PAGE_SIZE - 1) div PAGE_SIZE) = Some 0"
    by (simp add: pages_to_order_def pages_to_order_loop.simps PAGE_SIZE_def)
  show ?thesis
    unfolding buddy_alloc_def order
    by (simp add: Let_def find sample_pages_free_list MAX_ORDER_def)
      (simp add: split_block.simps block_push_def block_pop_def sample_pages_def sample_split_def
        MAX_ORDER_def aset_def aget_def idx_to_addr_def numeral_eq_Suc)
qed

lemma sample_split_ok: "binv sample_split {(0, 0)} {}" "no_buddies sample_split" "region_ok sample_split"
proof -
  have sz: "(1 :: u64) \<noteq> 0" "unat (1 :: u64) \<le> 2 ^ 64 - 4096"
    by simp_all
  obtain i k where ik: "0x80000000 = idx_to_addr sample_pages i" "\<forall>j<k. 4096 * 2 ^ j < unat (1 :: u64)"
    "binv sample_split {(i, k)} {}" "no_buddies sample_split"
    "changes_in sample_pages sample_split (free_pages sample_pages)"
    using buddy_alloc_outcome [OF sample_pages_ok(1,2) sz] sample_alloc by auto
  show "no_buddies sample_split" "region_ok sample_split"
    using ik(4) changes_in_region [OF ik(5)] sample_pages_ok(3) by simp_all
  have "k = 0"
    using ik(2) by (cases k) auto
  moreover have "i = 0"
  proof (rule idx_to_addr_inject [OF sample_pages_ok(3)])
    show "i < g_total_pages sample_pages" "0 < g_total_pages sample_pages"
      using binv_block_head [OF ik(3), of i k] changes_in_same(1) [OF ik(5)] by simp_all
    show "idx_to_addr sample_pages i = idx_to_addr sample_pages 0"
      by (simp add: ik(1) [symmetric]) (simp add: idx_to_addr_def sample_pages_def)
  qed
  ultimately show "binv sample_split {(0, 0)} {}"
    using ik(3) by simp
qed

theorem buddy_free_coalesces_witness:
  "\<exists>b'. buddy_free sample_split (idx_to_addr sample_split 0) = Some b' \<and>
     free_pages b' = free_pages sample_split \<union> blk 0 0 \<and> binv b' {} {}"
  using buddy_free_coalesces [OF sample_split_ok, of 0 0] by auto

text \<open>
  Releasing a block right after it was allocated undoes the allocation: the free list of every
  order holds the same blocks as before, so nothing leaks and no fragmentation is left behind.
\<close>

theorem buddy_alloc_free_roundtrip:
  assumes inv: "binv b A {}" and nb: "no_buddies b" and reg: "region_ok b"
    and sz: "sz \<noteq> 0" "unat sz \<le> 2 ^ 64 - 4096"
    and alloc: "buddy_alloc b sz = Some (b1, p)" and p: "p \<noteq> NULL"
  shows "\<exists>b2. buddy_free b1 p = Some b2 \<and> free_pages b2 = free_pages b \<and>
    (\<forall>k\<le>MAX_ORDER. set (free_list b2 ! k) = set (free_list b ! k))"
proof -
  obtain i k where ik: "p = idx_to_addr b i" "blk i k \<subseteq> free_pages b" "binv b1 (insert (i, k) A) {}"
    "no_buddies b1" "reserved_pages b1 = reserved_pages b" "changes_in b b1 (free_pages b)"
    using buddy_alloc_outcome [OF inv nb sz] alloc p by auto
  have reg1: "region_ok b1" and addr: "idx_to_addr b1 i = p"
    using changes_in_region [OF ik(6)] reg changes_in_addr [OF ik(6)] ik(1) by simp_all
  obtain b2 where b2: "buddy_free b1 p = Some b2" "binv b2 (insert (i, k) A - {(i, k)}) {}"
    "no_buddies b2" "free_pages b2 = free_pages b1 \<union> blk i k"
    using buddy_free_outcome [OF ik(3,4) reg1, of i k] addr by auto
  have fp: "free_pages b2 = free_pages b"
    unfolding b2(4) alloc_free_pages [OF inv ik(3,5,6)] using ik(2) by auto
  with b2(1) free_list_canonical [OF b2(2,3) inv nb fp] show ?thesis
    by blast
qed

theorem buddy_alloc_free_roundtrip_witness:
  "\<exists>b2. buddy_free sample_split 0x80000000 = Some b2 \<and> free_pages b2 = free_pages sample_pages \<and>
     (\<forall>k\<le>MAX_ORDER. set (free_list b2 ! k) = set (free_list sample_pages ! k))"
  using buddy_alloc_free_roundtrip [OF sample_pages_ok _ _ sample_alloc] by simp

text \<open>
  C30: A client that starts from an allocator with nothing handed out, over a region that does not start at address 0, may make
  any sequence of allocations, of sizes that do not wrap when they are rounded up (not 0 and at most \<open>2 ^ 64 - 4096\<close>), and
  releases: every call returns, the ranges it holds never overlap, and none of
  them contains a byte of a reserved page or of memory outside the region.
\<close>

theorem buddy_requests_safe:
  assumes "binv b {} {}" and "no_buddies b" and "region_ok b"
    and "\<forall>r\<in>set rs. request_ok (2 ^ 64 - 4096) r"
  shows "\<exists>b' held. serve buddy_alloc buddy_free rs (b, []) = Some (b', held) \<and>
    ranges_disjoint held \<and> (\<forall>r\<in>set held. bytes_of r \<inter> off_limits b = {})"
proof -
  have "buddy_live b {}"
    using assms(1-3) by (auto simp: buddy_live_def)
  from page_guarded.serve_guarded [OF page.holds_nothing [OF this] assms(4)] show ?thesis
    by blast
qed

theorem buddy_requests_safe_witness:
  "\<exists>b' held. serve buddy_alloc buddy_free [Get 1, Get 5000, Put 0, Get 4096] (sample_pages, []) = Some (b', held) \<and>
    ranges_disjoint held \<and> (\<forall>r\<in>set held. bytes_of r \<inter> off_limits sample_pages = {})"
  by (rule buddy_requests_safe [OF sample_pages_ok]) simp

lemma pages_to_order_loop_diverges:
  "pages_to_order_loop pages block order = Some k \<Longrightarrow> \<forall>j. block = 2 ^ j \<longrightarrow> unat pages \<le> 2 ^ 63"
proof (rule pages_to_order_loop.raw_induct [where P = "\<lambda>pages block order k.
      \<forall>j. block = 2 ^ j \<longrightarrow> unat pages \<le> 2 ^ 63", rotated], assumption, intro allI impI)
  fix loop :: "u64 \<Rightarrow> u64 \<Rightarrow> nat \<Rightarrow> nat option" and pages block :: u64 and order k j :: nat
  assume ih: "\<And>pages block order k. loop pages block order = Some k \<Longrightarrow>
      \<forall>j. block = 2 ^ j \<longrightarrow> unat pages \<le> 2 ^ 63"
    and step: "(if block < pages then loop pages (push_bit 1 block) (order + 1) else Some order) = Some k"
    and block: "block = 2 ^ j"
  show "unat pages \<le> 2 ^ 63"
  proof (cases "block < pages")
    case True
    then have "loop pages (push_bit 1 block) (order + 1) = Some k"
      using step by simp
    moreover have "push_bit 1 block = 2 ^ Suc j"
      unfolding block by (simp add: push_bit_eq_mult)
    ultimately show ?thesis
      using ih by blast
  next
    case False
    have "unat block \<le> 2 ^ 63"
    proof (cases "j < 64")
      case True
      then have "(2::nat) ^ j \<le> 2 ^ 63"
        by (intro power_increasing) simp_all
      with True show ?thesis
        unfolding block unat_pow2 [OF True] by simp
    next
      case False
      then have "block = 0"
        by (simp add: block exp_eq_zero_iff)
      then show ?thesis by simp
    qed
    with False show ?thesis
      by (simp add: word_less_nat_alt)
  qed
qed

lemma pages_to_order_diverges: "\<not> unat pages \<le> 2 ^ 63 \<Longrightarrow> pages_to_order pages = None"
  using pages_to_order_loop_diverges [of pages 1 0, THEN spec, of _ 0] by (cases "pages_to_order pages") (auto simp: pages_to_order_def)

text \<open>
  C34: \<^verbatim>\<open>pages_to_order\<close> returns for every page count up to \<open>2 ^ 63\<close>, and its result is the least order
  whose block has at least that many pages; above that its loop never ends.
\<close>

theorem pages_to_order_returns_least:
  "pages_to_order pages =
     (if unat pages \<le> 2 ^ 63 then Some (LEAST k. unat pages \<le> 2 ^ k) else None)"
proof (cases "unat pages \<le> 2 ^ 63")
  case True
  obtain k where k: "pages_to_order pages = Some k" "unat pages \<le> 2 ^ k"
    "\<And>j. j < k \<Longrightarrow> 2 ^ j < unat pages"
    by (rule pages_to_order_least [OF True]) auto
  have "(LEAST k. unat pages \<le> 2 ^ k) = k"
    using k(2,3) by (intro Least_equality) (auto simp: not_less [symmetric])
  with k(1) True show ?thesis by simp
next
  case False
  then show ?thesis
    by (simp add: pages_to_order_diverges)
qed

text \<open>
  The tag written into the frame array gives back the order and the first frame of the block,
  for every frame index below \<open>2 ^ 22\<close> (16 GiB of memory) and every order below 256.
\<close>

theorem alloc_tag_roundtrip:
  assumes "idx < 2 ^ 22" and "order < 256"
  shows "GET_ALLOC_ORDER (ALLOC_TAG idx order) = order \<and> GET_ALLOC_IDX (ALLOC_TAG idx order) = idx"
proof
  show "GET_ALLOC_ORDER (ALLOC_TAG idx order) = order"
    using assms(2) by simp
  have small: "\<not> bit idx n" if "22 \<le> n" for n
    using nat_bit_small [OF assms(1) that] .
  have small': "\<not> bit order n" if "8 \<le> n" for n
    using nat_bit_small [of order 8 n] assms(2) that by simp
  have "signed_drop_bit 8 (ALLOC_TAG idx order) AND mask 22 = of_nat idx"
    by (rule bit_word_eqI) (auto simp: bit_simps bit_ALLOC_TAG small' small intro: ccontr [of "_ < _"] dest: small)
  then show "GET_ALLOC_IDX (ALLOC_TAG idx order) = idx"
    using assms(1) by (simp add: GET_ALLOC_IDX_def mask_eq_exp_minus_1 unat_of_nat)
qed

theorem alloc_tag_roundtrip_witness:
  "GET_ALLOC_ORDER (ALLOC_TAG 1234 5) = 5 \<and> GET_ALLOC_IDX (ALLOC_TAG 1234 5) = 1234"
  by (rule alloc_tag_roundtrip) simp_all

text \<open>
  The page count of a request is computed with wrap-around: a request within a page of
  \<open>2 ^ 64\<close> bytes counts as no page at all, and \<^verbatim>\<open>buddy_alloc\<close> answers it like a request for one byte.
\<close>

theorem buddy_alloc_size_wraps:
  assumes "2 ^ 64 - 4096 < unat sz"
  shows "buddy_alloc b sz = buddy_alloc b 1"
proof -
  have "(sz + PAGE_SIZE - 1) div PAGE_SIZE = 0"
  proof -
    have "sz + PAGE_SIZE - 1 = sz + 4095"
      by (simp add: PAGE_SIZE_def)
    moreover have "unat (sz + 4095) < 4096"
      using assms unat_lt64 [of sz] by (simp add: unat_word_ariths mod_if) linarith
    ultimately show ?thesis
      by (simp add: word_unat_eq_iff unat_div PAGE_SIZE_def)
  qed
  moreover have "pages_to_order 0 = Some 0" "pages_to_order 1 = Some 0"
    by (simp_all add: pages_to_order_def pages_to_order_loop.simps)
  moreover have "(1 + PAGE_SIZE - 1) div PAGE_SIZE = 1"
    by (simp add: PAGE_SIZE_def)
  moreover have "sz \<noteq> 0"
    using assms by auto
  ultimately show ?thesis
    by (simp add: buddy_alloc_def)
qed

theorem buddy_alloc_size_wraps_witness:
  "buddy_alloc sample_pages 0xFFFFFFFFFFFFF800 = Some (sample_split, 0x80000000)"
  using buddy_alloc_size_wraps [of "0xFFFFFFFFFFFFF800" sample_pages] sample_alloc by simp

end
