(* ===== verification/Kmalloc.thy ===== *)
theory Kmalloc
  imports Buddy_Spec
begin

text \<open>
  The kernel heap of \<^verbatim>\<open>kernel/src/kmalloc.c\<close>: eight pools of fixed-size chunks on top of the page
  allocator, and larger requests passed on to it. The state is the pool table, the array
  \<^verbatim>\<open>page_pool_idx\<close> and the page allocator underneath. A pool's singly linked free list, whose
  nodes lie in the free chunks themselves, is the list of their addresses, first node first.
\<close>

section \<open>Model\<close>

record pool_t =
  chunk_size :: u64
  pool_free_list :: "u64 list"

record kheap =
  pools :: "pool_t list"
  page_pool_idx :: "i8 list"
  heap_buddy :: buddy

definition NUM_POOLS :: nat where
  "NUM_POOLS = 8"

definition pool_sizes :: "u64 list" where
  "pool_sizes = [16, 32, 64, 128, 256, 512, 1024, 2048]"

text \<open>The first pool, from \<^verbatim>\<open>i\<close> up, whose chunks are large enough; \<^const>\<open>None\<close> is the result
  \<^verbatim>\<open>-1\<close>.\<close>

function find_pool_from :: "nat \<Rightarrow> u64 \<Rightarrow> nat option" where
  "find_pool_from i sz =
     (if i < NUM_POOLS then if sz \<le> pool_sizes ! i then Some i else find_pool_from (i + 1) sz
      else None)"
  by pat_completeness auto
termination
  by (relation "measure (\<lambda>(i, sz). NUM_POOLS - i)") auto

declare find_pool_from.simps [simp del]

definition find_pool :: "u64 \<Rightarrow> nat option" where
  "find_pool sz = find_pool_from 0 sz"

definition addr_to_page_idx :: "kheap \<Rightarrow> u64 \<Rightarrow> nat" where
  "addr_to_page_idx h addr = unat ((addr - buddy_get_base (heap_buddy h)) div PAGE_SIZE)"

definition kmalloc_init :: "buddy \<Rightarrow> i8 list \<Rightarrow> nat \<Rightarrow> kheap option" where
  "kmalloc_init b ext_page_pool_idx page_count = do {
     ppi \<leftarrow> fill page_count 0 (-1) ext_page_pool_idx;
     Some \<lparr>pools = map (\<lambda>sz. \<lparr>chunk_size = sz, pool_free_list = []\<rparr>) pool_sizes,
           page_pool_idx = ppi, heap_buddy = b\<rparr>
   }"

text \<open>Slicing a page: the chunks \<^verbatim>\<open>i\<close>, \<^verbatim>\<open>i + 1\<close>, ... are pushed one after the other.\<close>

primrec slice_page :: "nat \<Rightarrow> u64 \<Rightarrow> u64 \<Rightarrow> nat \<Rightarrow> u64 list \<Rightarrow> u64 list" where
  "slice_page 0 page chunk_sz i fl = fl"
| "slice_page (Suc n) page chunk_sz i fl =
     slice_page n page chunk_sz (Suc i) ((page + of_nat i * chunk_sz) # fl)"

text \<open>The small-request path up to the pop; \<^const>\<open>False\<close> is the early return of \<^verbatim>\<open>NULL\<close>.\<close>

definition pool_refill :: "kheap \<Rightarrow> nat \<Rightarrow> (kheap \<times> bool) option" where
  "pool_refill h pidx = do {
     pool \<leftarrow> aget (pools h) pidx;
     if pool_free_list pool \<noteq> [] then Some (h, True)
     else do {
       (b, page) \<leftarrow> buddy_alloc (heap_buddy h) PAGE_SIZE;
       if page = NULL then Some (h\<lparr>heap_buddy := b\<rparr>, False)
       else do {
         let pg_idx = addr_to_page_idx h page;
         ppi \<leftarrow> aset (page_pool_idx h) pg_idx (of_nat pidx);
         let chunk_sz = chunk_size pool;
         let fl = slice_page (unat (PAGE_SIZE div chunk_sz)) page chunk_sz 0 [];
         Some (h\<lparr>pools := (pools h)[pidx := pool\<lparr>pool_free_list := fl\<rparr>],
                 page_pool_idx := ppi, heap_buddy := b\<rparr>, True)
       }
     }
   }"

definition kmalloc :: "kheap \<Rightarrow> u64 \<Rightarrow> (kheap \<times> u64) option" where
  "kmalloc h sz =
     (if sz = 0 then Some (h, NULL)
      else case find_pool sz of
        None \<Rightarrow> do {
          (b, ptr) \<leftarrow> buddy_alloc (heap_buddy h) sz;
          if ptr = NULL then Some (h\<lparr>heap_buddy := b\<rparr>, NULL)
          else do {
            ppi \<leftarrow> fill (unat ((sz + PAGE_SIZE - 1) div PAGE_SIZE)) (addr_to_page_idx h ptr) (-1)
                     (page_pool_idx h);
            Some (h\<lparr>page_pool_idx := ppi, heap_buddy := b\<rparr>, ptr)
          }
        }
      | Some pidx \<Rightarrow> do {
          (h', filled) \<leftarrow> pool_refill h pidx;
          if \<not> filled then Some (h', NULL)
          else do {
              pool \<leftarrow> aget (pools h') pidx;
              case pool_free_list pool of
                [] \<Rightarrow> None
              | chunk # rest \<Rightarrow>
                  Some (h'\<lparr>pools := (pools h')[pidx := pool\<lparr>pool_free_list := rest\<rparr>]\<rparr>, chunk)
            }
        })"

definition kfree :: "kheap \<Rightarrow> u64 \<Rightarrow> kheap option" where
  "kfree h ptr =
     (if ptr = NULL then Some h
      else (let page_base = ptr AND NOT (PAGE_SIZE - 1);
                pg_idx = addr_to_page_idx h page_base
            in do {
              pidx \<leftarrow> aget (page_pool_idx h) pg_idx;
              if sint pidx < 0 then do { b \<leftarrow> buddy_free (heap_buddy h) ptr; Some (h\<lparr>heap_buddy := b\<rparr>) }
              else do {
                pool \<leftarrow> aget (pools h) (nat (sint pidx));
                Some (h\<lparr>pools := (pools h)[nat (sint pidx) :=
                          pool\<lparr>pool_free_list := ptr # pool_free_list pool\<rparr>]\<rparr>)
              }
            }))"

section \<open>Pools and chunks\<close>

lemma less8_cases:
  assumes "j < NUM_POOLS"
  obtains "j = 0" | "j = 1" | "j = 2" | "j = 3" | "j = 4" | "j = 5" | "j = 6" | "j = 7"
  using assms unfolding NUM_POOLS_def by linarith

lemma length_pool_sizes [simp]: "length pool_sizes = NUM_POOLS"
  by (simp add: pool_sizes_def NUM_POOLS_def)

text \<open>Chunk sizes are powers of two that divide a page.\<close>

lemma pool_size_pow:
  assumes "j < NUM_POOLS"
  shows "unat (pool_sizes ! j) = 2 ^ (j + 4)" and "(2::nat) ^ (j + 4) * 2 ^ (8 - j) = 4096"
    and "unat (PAGE_SIZE div pool_sizes ! j) = 2 ^ (8 - j)"
  by (rule less8_cases [OF assms]; simp add: pool_sizes_def PAGE_SIZE_def unat_div)+

lemma pool_idx_signed:
  assumes "j < NUM_POOLS"
  shows "sint (of_nat j :: i8) = int j" and "(of_nat j :: i8) \<noteq> - 1"
proof -
  show j: "sint (of_nat j :: i8) = int j"
    using assms by (simp add: signed_of_nat signed_take_bit_int_eq_self NUM_POOLS_def)
  show "(of_nat j :: i8) \<noteq> - 1"
  proof
    assume "(of_nat j :: i8) = - 1"
    then have "sint (of_nat j :: i8) = - 1"
      by (simp only: sint_n1)
    with j show False by linarith
  qed
qed

lemma pool_idx_inject:
  assumes "i < NUM_POOLS" and "j < NUM_POOLS" and "(of_nat i :: i8) = of_nat j"
  shows "i = j"
proof -
  have "int i = sint (of_nat j :: i8)"
    using pool_idx_signed(1) [OF assms(1)] unfolding assms(3) by (rule sym)
  then show ?thesis
    unfolding pool_idx_signed(1) [OF assms(2)] by simp
qed

lemma find_pool_from_least:
  "(case find_pool_from i sz of
      None \<Rightarrow> \<forall>j. i \<le> j \<and> j < NUM_POOLS \<longrightarrow> pool_sizes ! j < sz
    | Some p \<Rightarrow> i \<le> p \<and> p < NUM_POOLS \<and> sz \<le> pool_sizes ! p \<and>
        (\<forall>j. i \<le> j \<and> j < p \<longrightarrow> pool_sizes ! j < sz))"
proof (induction i sz rule: find_pool_from.induct)
  case (1 i sz)
  show ?case
  proof (cases "i < NUM_POOLS \<and> \<not> sz \<le> pool_sizes ! i")
    case True
    then have "find_pool_from i sz = find_pool_from (i + 1) sz"
      by (simp add: find_pool_from.simps [of i])
    with 1 True show ?thesis
      by (auto simp: not_le split: option.splits) (metis Suc_leI le_neq_implies_less)+
  qed (auto simp: find_pool_from.simps [of i])
qed

text \<open>\<^verbatim>\<open>find_pool\<close> picks the smallest chunk that holds the request.\<close>

lemma find_pool_least:
  "find_pool sz = Some p \<Longrightarrow> p < NUM_POOLS \<and> unat sz \<le> unat (pool_sizes ! p) \<and>
     (\<forall>j<p. pool_sizes ! j < sz)"
  "find_pool sz = None \<Longrightarrow> 2048 < sz"
  using find_pool_from_least [of 0 sz]
  by (auto simp: find_pool_def word_le_nat_alt) (auto simp: pool_sizes_def NUM_POOLS_def dest: spec [of _ 7])

lemma slice_page_eq:
  "slice_page n page csz i fl = rev (map (\<lambda>c. page + of_nat c * csz) [i..<i + n]) @ fl"
proof (induction n arbitrary: i fl)
  case (Suc n)
  have "[i..<i + Suc n] = i # [Suc i..<Suc i + n]"
    by (simp add: upt_conv_Cons del: upt_Suc)
  with Suc show ?case by simp
qed simp

section \<open>Invariant\<close>

text \<open>The chunk \<open>c\<close> of pool \<open>j\<close> in page \<open>p\<close>, and all chunks of a pool: those of the pages that
  \<^verbatim>\<open>page_pool_idx\<close> gives to it.\<close>

definition chunk_addr :: "kheap \<Rightarrow> nat \<Rightarrow> nat \<Rightarrow> nat \<Rightarrow> u64" where
  "chunk_addr h j p c = idx_to_addr (heap_buddy h) p + of_nat c * pool_sizes ! j"

definition pool_chunks :: "kheap \<Rightarrow> nat \<Rightarrow> u64 set" where
  "pool_chunks h j = {chunk_addr h j p c | p c.
     p < g_total_pages (heap_buddy h) \<and> page_pool_idx h ! p = of_nat j \<and> c < 2 ^ (8 - j)}"

abbreviation free_of :: "kheap \<Rightarrow> nat \<Rightarrow> u64 list" where
  "free_of h j \<equiv> pool_free_list (pools h ! j)"

definition page_owner_ok :: "kheap \<Rightarrow> (nat \<times> nat) set \<Rightarrow> nat \<Rightarrow> bool" where
  "page_owner_ok h A p \<longleftrightarrow> page_pool_idx h ! p = -1 \<or>
     (\<exists>j<NUM_POOLS. page_pool_idx h ! p = of_nat j \<and> (p, 0) \<in> A)"

definition heap_base_ok :: "kheap \<Rightarrow> (nat \<times> nat) set \<Rightarrow> bool" where
  "heap_base_ok h A \<longleftrightarrow> region_ok (heap_buddy h) \<and> 4096 dvd unat (g_buddy_base (heap_buddy h)) \<and>
     no_buddies (heap_buddy h) \<and> binv (heap_buddy h) A {} \<and>
     length (page_pool_idx h) = g_total_pages (heap_buddy h) \<and>
     (\<forall>p<g_total_pages (heap_buddy h). page_owner_ok h A p)"

definition pools_ok :: "kheap \<Rightarrow> bool" where
  "pools_ok h \<longleftrightarrow> length (pools h) = NUM_POOLS \<and>
     (\<forall>j<NUM_POOLS. chunk_size (pools h ! j) = pool_sizes ! j \<and>
        distinct (free_of h j) \<and> set (free_of h j) \<subseteq> pool_chunks h j)"

definition large_ranges :: "kheap \<Rightarrow> (nat \<times> nat) set \<Rightarrow> mrange set" where
  "large_ranges h A = block_range (heap_buddy h) ` {x \<in> A. page_pool_idx h ! fst x = -1}"

definition small_ranges :: "kheap \<Rightarrow> mrange set" where
  "small_ranges h = {(a, 2 ^ (j + 4)) | j a. j < NUM_POOLS \<and> a \<in> pool_chunks h j - set (free_of h j)}"

definition heap_live :: "kheap \<Rightarrow> mrange set \<Rightarrow> bool" where
  "heap_live h R \<longleftrightarrow> (\<exists>A. heap_base_ok h A \<and> pools_ok h \<and> R = large_ranges h A \<union> small_ranges h)"

section \<open>Geometry of the chunks\<close>

lemma chunk_fits:
  fixes c :: nat
  assumes "j < NUM_POOLS" and "c < 2 ^ (8 - j)"
  shows "c * 2 ^ (j + 4) + 2 ^ (j + 4) \<le> 4096"
proof -
  have "Suc c * 2 ^ (j + 4) \<le> 2 ^ (8 - j) * 2 ^ (j + 4)"
    using assms(2) by (intro mult_le_mono1) simp
  also have "\<dots> = 4096"
    using pool_size_pow(2) [OF assms(1)] by (simp add: mult.commute)
  finally show ?thesis by simp
qed

lemma unat_chunk_addr:
  assumes "heap_base_ok h A" and "j < NUM_POOLS" and "p < g_total_pages (heap_buddy h)"
    and "c < 2 ^ (8 - j)"
  shows "unat (chunk_addr h j p c) = unat (g_buddy_base (heap_buddy h)) + 4096 * p + c * 2 ^ (j + 4)"
proof -
  let ?b = "heap_buddy h"
  have reg: "region_ok ?b"
    using assms(1) by (simp add: heap_base_ok_def)
  have fits: "c * 2 ^ (j + 4) + 2 ^ (j + 4) \<le> 4096"
    using chunk_fits [OF assms(2,4)] .
  have "unat (of_nat c * pool_sizes ! j) = c * 2 ^ (j + 4)"
  proof -
    have "of_nat c * pool_sizes ! j = of_nat (c * unat (pool_sizes ! j))"
      by simp
    also have "unat \<dots> = c * 2 ^ (j + 4)"
      unfolding pool_size_pow(1) [OF assms(2)] unat_of_nat using fits by simp
    finally show ?thesis .
  qed
  moreover have "unat (g_buddy_base ?b) + 4096 * g_total_pages ?b < 2 ^ 64"
    using reg unat_lt64 [of "g_buddy_end ?b"] by (simp add: region_ok_def)
  moreover have "4096 * p + 4096 \<le> 4096 * g_total_pages ?b"
    using assms(3) by simp
  ultimately show ?thesis
    unfolding chunk_addr_def
    using word_add_le(2) [of "idx_to_addr ?b p" "of_nat c * pool_sizes ! j"]
      unat_idx_to_addr [OF reg assms(3)] fits by simp
qed

lemma chunk_bytes_in_page:
  assumes "heap_base_ok h A" and "j < NUM_POOLS" and "p < g_total_pages (heap_buddy h)"
    and "c < 2 ^ (8 - j)"
  shows "bytes_of (chunk_addr h j p c, 2 ^ (j + 4)) \<subseteq> bytes_of (block_range (heap_buddy h) (p, 0))"
proof -
  have reg: "region_ok (heap_buddy h)"
    using assms(1) by (simp add: heap_base_ok_def)
  have "bytes_of (block_range (heap_buddy h) (p, 0)) =
    {unat (g_buddy_base (heap_buddy h)) + 4096 * p ..< unat (g_buddy_base (heap_buddy h)) + 4096 * (p + 1)}"
    using block_bytes [OF reg, of p 0] assms(3) by simp
  with chunk_fits [OF assms(2,4)] show ?thesis
    by (auto simp: bytes_of_def unat_chunk_addr [OF assms])
qed

text \<open>\<^verbatim>\<open>kfree\<close> finds the page of a chunk by masking the address.\<close>

lemma chunk_page:
  assumes "heap_base_ok h A" and "j < NUM_POOLS" and "p < g_total_pages (heap_buddy h)"
    and "c < 2 ^ (8 - j)"
  shows "addr_to_page_idx h (chunk_addr h j p c AND NOT (PAGE_SIZE - 1)) = p"
proof -
  let ?b = "heap_buddy h" and ?a = "chunk_addr h j p c"
  have reg: "region_ok ?b" and al: "4096 dvd unat (g_buddy_base ?b)"
    using assms(1) by (simp_all add: heap_base_ok_def)
  obtain m where m: "unat (g_buddy_base ?b) = 4096 * m"
    using al by blast
  have lt: "c * 2 ^ (j + 4) < 4096"
    using chunk_fits [OF assms(2,4)] zero_less_power [of "2::nat" "j + 4"] by linarith
  have "unat ?a = c * 2 ^ (j + 4) + (m + p) * 4096"
    unfolding unat_chunk_addr [OF assms] m by simp
  with lt have "unat ?a div 4096 = m + p"
    by simp
  then have "unat (?a AND NOT (PAGE_SIZE - 1)) = unat (idx_to_addr ?b p)"
    unfolding page_mask unat_and_not_mask unat_idx_to_addr [OF reg assms(3)] m by simp
  then have "?a AND NOT (PAGE_SIZE - 1) = idx_to_addr ?b p"
    by (simp only: word_unat_eq_iff)
  then show ?thesis
    using addr_to_idx_of_idx [of p ?b] region_total [OF reg] assms(3)
    by (simp add: addr_to_page_idx_def addr_to_idx_def buddy_get_base_def)
qed

lemma chunk_inject:
  assumes "heap_base_ok h A"
    and "j < NUM_POOLS" "p < g_total_pages (heap_buddy h)" "c < 2 ^ (8 - j)" "page_pool_idx h ! p = of_nat j"
    and "l < NUM_POOLS" "q < g_total_pages (heap_buddy h)" "d < 2 ^ (8 - l)" "page_pool_idx h ! q = of_nat l"
    and eq: "chunk_addr h j p c = chunk_addr h l q d"
  shows "j = l \<and> p = q \<and> c = d"
proof -
  have pq: "p = q"
    using chunk_page [OF assms(1-4)] chunk_page [OF assms(1,6-8)] unfolding eq by (simp only:)
  have "(of_nat j :: i8) = of_nat l"
    using assms(5,9) unfolding pq by (simp only:)
  then have jl: "j = l"
    by (rule pool_idx_inject [OF assms(2,6)])
  have "unat (chunk_addr h j p c) = unat (chunk_addr h l q d)"
    by (simp only: eq)
  then have "c * 2 ^ (j + 4) = d * 2 ^ (j + 4)"
    unfolding unat_chunk_addr [OF assms(1-4)] unat_chunk_addr [OF assms(1,6-8)] unfolding pq jl
    by linarith
  then have "c = d"
    by simp
  with pq jl show ?thesis by simp
qed

lemma chunk_bytes_disjoint:
  assumes "heap_base_ok h A" and "j < NUM_POOLS" and "l < NUM_POOLS"
    and "a \<in> pool_chunks h j" and "e \<in> pool_chunks h l" and "a \<noteq> e"
  shows "bytes_of (a, 2 ^ (j + 4)) \<inter> bytes_of (e, 2 ^ (l + 4)) = {}"
proof -
  obtain p c where a: "a = chunk_addr h j p c" "p < g_total_pages (heap_buddy h)"
    "page_pool_idx h ! p = of_nat j" "c < 2 ^ (8 - j)"
    using assms(4) by (auto simp: pool_chunks_def)
  obtain q d where e: "e = chunk_addr h l q d" "q < g_total_pages (heap_buddy h)"
    "page_pool_idx h ! q = of_nat l" "d < 2 ^ (8 - l)"
    using assms(5) by (auto simp: pool_chunks_def)
  have reg: "region_ok (heap_buddy h)"
    using assms(1) by (simp add: heap_base_ok_def)
  show ?thesis
  proof (cases "p = q")
    case False
    then have "blk p 0 \<inter> blk q 0 = {}"
      by auto
    then have "bytes_of (block_range (heap_buddy h) (p, 0)) \<inter> bytes_of (block_range (heap_buddy h) (q, 0)) = {}"
      using a(2) e(2) by (intro block_bytes_disjoint [OF reg]) auto
    then show ?thesis
      using chunk_bytes_in_page [OF assms(1,2) a(2,4)] chunk_bytes_in_page [OF assms(1,3) e(2,4)]
      unfolding a(1) e(1) by blast
  next
    case True
    then have "(of_nat j :: i8) = of_nat l"
      using a(3) e(3) by (simp only:)
    then have jl: "j = l"
      by (rule pool_idx_inject [OF assms(2,3)])
    have "c \<noteq> d"
      using assms(6) a(1) e(1) True jl by auto
    then have "Suc c \<le> d \<or> Suc d \<le> c"
      by linarith
    then have "Suc c * 2 ^ (j + 4) \<le> d * 2 ^ (j + 4) \<or> Suc d * 2 ^ (j + 4) \<le> c * 2 ^ (j + 4)"
      using mult_le_mono1 by blast
    moreover have "unat a = unat (g_buddy_base (heap_buddy h)) + 4096 * p + c * 2 ^ (j + 4)"
      "unat e = unat (g_buddy_base (heap_buddy h)) + 4096 * p + d * 2 ^ (j + 4)"
      unfolding a(1) e(1) unat_chunk_addr [OF assms(1,2) a(2,4)] unat_chunk_addr [OF assms(1,3) e(2,4)]
      using True jl by simp_all
    ultimately show ?thesis
      unfolding bytes_of_def jl by auto
  qed
qed

section \<open>The contract\<close>

lemma heap_small_block:
  assumes "heap_base_ok h A" and "j < NUM_POOLS" and "a \<in> pool_chunks h j"
  obtains p c where "a = chunk_addr h j p c" "p < g_total_pages (heap_buddy h)" "c < 2 ^ (8 - j)"
    "page_pool_idx h ! p = of_nat j" "page_pool_idx h ! p \<noteq> -1" "(p, 0) \<in> A"
proof -
  obtain p c where p: "a = chunk_addr h j p c" "p < g_total_pages (heap_buddy h)" "c < 2 ^ (8 - j)"
    "page_pool_idx h ! p = of_nat j"
    using assms(3) by (auto simp: pool_chunks_def)
  have "page_pool_idx h ! p \<noteq> -1"
    unfolding p(4) by (rule pool_idx_signed(2) [OF assms(2)])
  with assms(1) p that show ?thesis
    unfolding heap_base_ok_def page_owner_ok_def by blast
qed

lemma heap_disjoint:
  assumes "heap_live h R" and "x \<in> R" and "y \<in> R" and "x \<noteq> y"
  shows "bytes_of x \<inter> bytes_of y = {}"
proof -
  obtain A where A: "heap_base_ok h A" "R = large_ranges h A \<union> small_ranges h"
    using assms(1) by (auto simp: heap_live_def)
  have reg: "region_ok (heap_buddy h)" and inv: "binv (heap_buddy h) A {}"
    using A(1) by (simp_all add: heap_base_ok_def)
  have mixed: "bytes_of u \<inter> bytes_of v = {}" if uv: "u \<in> large_ranges h A" "v \<in> small_ranges h" for u v
  proof -
    obtain i k where u: "(i, k) \<in> A" "page_pool_idx h ! i = -1" "u = block_range (heap_buddy h) (i, k)"
      using uv(1) by (auto simp: large_ranges_def)
    obtain j a where v: "j < NUM_POOLS" "a \<in> pool_chunks h j" "v = (a, 2 ^ (j + 4))"
      using uv(2) by (auto simp: small_ranges_def)
    obtain p c where pc: "a = chunk_addr h j p c" "p < g_total_pages (heap_buddy h)" "c < 2 ^ (8 - j)"
      "page_pool_idx h ! p \<noteq> -1" "(p, 0) \<in> A"
      by (rule heap_small_block [OF A(1) v(1,2)])
    have "(i, k) \<noteq> (p, 0)"
      using u(2) pc(4) by auto
    from live_blocks_disjoint [OF reg inv u(1) pc(5) this] show ?thesis
      using chunk_bytes_in_page [OF A(1) v(1) pc(2,3)] unfolding u(3) v(3) pc(1) by blast
  qed
  have small: "bytes_of u \<inter> bytes_of v = {}"
    if uv: "u \<in> small_ranges h" "v \<in> small_ranges h" "u \<noteq> v" for u v
  proof -
    obtain j a where u: "j < NUM_POOLS" "a \<in> pool_chunks h j" "u = (a, 2 ^ (j + 4))"
      using uv(1) by (auto simp: small_ranges_def)
    obtain l e where v: "l < NUM_POOLS" "e \<in> pool_chunks h l" "v = (e, 2 ^ (l + 4))"
      using uv(2) by (auto simp: small_ranges_def)
    have "a \<noteq> e"
    proof
      assume ae: "a = e"
      obtain p c where p: "a = chunk_addr h j p c" "p < g_total_pages (heap_buddy h)" "c < 2 ^ (8 - j)"
        "page_pool_idx h ! p = of_nat j"
        by (rule heap_small_block [OF A(1) u(1,2)])
      obtain q d where q: "e = chunk_addr h l q d" "q < g_total_pages (heap_buddy h)" "d < 2 ^ (8 - l)"
        "page_pool_idx h ! q = of_nat l"
        by (rule heap_small_block [OF A(1) v(1,2)])
      have "j = l"
        using chunk_inject [OF A(1) u(1) p(2-4) v(1) q(2-4)] ae p(1) q(1) by simp
      with ae uv(3) u(3) v(3) show False by simp
    qed
    with chunk_bytes_disjoint [OF A(1) u(1) v(1) u(2) v(2)] u(3) v(3) show ?thesis by simp
  qed
  have large: "bytes_of u \<inter> bytes_of v = {}"
    if "u \<in> large_ranges h A" "v \<in> large_ranges h A" "u \<noteq> v" for u v
    using that live_blocks_disjoint [OF reg inv] by (fastforce simp: large_ranges_def)
  show ?thesis
    using assms(2-4) mixed [of x y] mixed [of y x] small large unfolding A(2) by blast
qed

text \<open>Popping a chunk hands it out; pushing a live chunk of the pool takes it back.\<close>

definition set_free :: "kheap \<Rightarrow> nat \<Rightarrow> u64 list \<Rightarrow> kheap" where
  "set_free h j fl = h\<lparr>pools := (pools h)[j := (pools h ! j)\<lparr>pool_free_list := fl\<rparr>]\<rparr>"

lemma set_free_simps [simp]:
  "page_pool_idx (set_free h j fl) = page_pool_idx h" "heap_buddy (set_free h j fl) = heap_buddy h"
  "heap_base_ok (set_free h j fl) A = heap_base_ok h A" "pool_chunks (set_free h j fl) l = pool_chunks h l"
  "large_ranges (set_free h j fl) A = large_ranges h A"
  by (simp_all add: set_free_def heap_base_ok_def page_owner_ok_def pool_chunks_def chunk_addr_def
      large_ranges_def cong: conj_cong)

lemma free_of_set_free:
  assumes "pools_ok h" and "j < NUM_POOLS" and "l < NUM_POOLS"
  shows "free_of (set_free h j fl) l = (if l = j then fl else free_of h l)"
    and "chunk_size (pools (set_free h j fl) ! l) = chunk_size (pools h ! l)"
  using assms by (auto simp: pools_ok_def set_free_def nth_list_update)

lemma set_free_pools_ok:
  assumes "pools_ok h" and "j < NUM_POOLS" and "distinct fl" and "set fl \<subseteq> pool_chunks h j"
  shows "pools_ok (set_free h j fl)"
proof -
  have "length (pools (set_free h j fl)) = NUM_POOLS"
    using assms(1) by (simp add: set_free_def pools_ok_def)
  with assms free_of_set_free [OF assms(1,2)] show ?thesis
    by (simp add: pools_ok_def)
qed

lemma set_free_small_ranges:
  assumes "pools_ok h" and "j < NUM_POOLS"
  shows "small_ranges (set_free h j fl) =
    {(a, 2 ^ (l + 4)) | l a. l < NUM_POOLS \<and> l \<noteq> j \<and> a \<in> pool_chunks h l - set (free_of h l)} \<union>
    {(a, 2 ^ (j + 4)) | a. a \<in> pool_chunks h j - set fl}"
  unfolding small_ranges_def using assms(2) free_of_set_free(1) [OF assms]
  by (auto split: if_splits)

lemma small_ranges_split:
  assumes "j < NUM_POOLS"
  shows "small_ranges h =
    {(a, 2 ^ (l + 4)) | l a. l < NUM_POOLS \<and> l \<noteq> j \<and> a \<in> pool_chunks h l - set (free_of h l)} \<union>
    {(a, 2 ^ (j + 4)) | a. a \<in> pool_chunks h j - set (free_of h j)}"
  unfolding small_ranges_def using assms by auto

lemma pool_size_small: "j < NUM_POOLS \<Longrightarrow> (2::nat) ^ (j + 4) < 4096"
  by (erule less8_cases) simp_all

lemma small_range_size: "(a, n) \<in> small_ranges h \<Longrightarrow> n < 4096"
  using pool_size_small by (auto simp: small_ranges_def)

lemma large_range_size: "(a, n) \<in> large_ranges h A \<Longrightarrow> 4096 \<le> n"
  by (auto simp: large_ranges_def block_range_def)

lemma heap_pop:
  assumes live: "heap_live h R" and j: "j < NUM_POOLS" and fl: "free_of h j = a # rest"
  shows "heap_live (set_free h j rest) (insert (a, 2 ^ (j + 4)) R)" and "(a, 2 ^ (j + 4)) \<notin> R"
    and "a \<noteq> NULL"
proof -
  obtain A where A: "heap_base_ok h A" "pools_ok h" "R = large_ranges h A \<union> small_ranges h"
    using live by (auto simp: heap_live_def)
  have d: "distinct (a # rest)" "set (a # rest) \<subseteq> pool_chunks h j"
    using A(2) j fl unfolding pools_ok_def by metis+
  have "insert (a, 2 ^ (j + 4)) R = large_ranges h A \<union> small_ranges (set_free h j rest)"
    unfolding A(3) small_ranges_split [OF j, of h] set_free_small_ranges [OF A(2) j] fl using d by auto
  then show "heap_live (set_free h j rest) (insert (a, 2 ^ (j + 4)) R)"
    unfolding heap_live_def using A(1) set_free_pools_ok [OF A(2) j, of rest] d
    by (intro exI [of _ A]) simp
  have aj: "a \<in> pool_chunks h j"
    using d by simp
  obtain p c where p: "a = chunk_addr h j p c" "p < g_total_pages (heap_buddy h)" "c < 2 ^ (8 - j)"
    "page_pool_idx h ! p = of_nat j" "page_pool_idx h ! p \<noteq> -1" "(p, 0) \<in> A"
    by (rule heap_small_block [OF A(1) j aj])
  have "0 < unat a"
    unfolding p(1) unat_chunk_addr [OF A(1) j p(2,3)] using A(1) by (simp add: heap_base_ok_def region_ok_def)
  then show "a \<noteq> NULL"
    by auto
  have "(a, 2 ^ (j + 4)) \<notin> small_ranges h"
    unfolding small_ranges_split [OF j, of h] fl by auto
  moreover have "(a, 2 ^ (j + 4)) \<notin> large_ranges h A"
    using large_range_size [of a "2 ^ (j + 4)" h A] pool_size_small [OF j] by linarith
  ultimately show "(a, 2 ^ (j + 4)) \<notin> R"
    unfolding A(3) by blast
qed

lemma heap_push:
  assumes live: "heap_live h R" and j: "j < NUM_POOLS"
    and a: "a \<in> pool_chunks h j" "a \<notin> set (free_of h j)"
  shows "heap_live (set_free h j (a # free_of h j)) (R - {(a, 2 ^ (j + 4))})"
proof -
  obtain A where A: "heap_base_ok h A" "pools_ok h" "R = large_ranges h A \<union> small_ranges h"
    using live by (auto simp: heap_live_def)
  have d: "distinct (free_of h j)" "set (free_of h j) \<subseteq> pool_chunks h j"
    using A(2) j unfolding pools_ok_def by metis+
  let ?h = "set_free h j (a # free_of h j)"
  have ok: "pools_ok ?h"
    using set_free_pools_ok [OF A(2) j, of "a # free_of h j"] d a by simp
  then have live': "heap_live ?h (large_ranges h A \<union> small_ranges ?h)"
    unfolding heap_live_def using A(1) by (intro exI [of _ A]) simp
  have fl: "free_of ?h j = a # free_of h j"
    using free_of_set_free(1) [OF A(2) j j] by simp
  have "heap_live (set_free ?h j (free_of h j))
      (insert (a, 2 ^ (j + 4)) (large_ranges h A \<union> small_ranges ?h))"
    and new: "(a, 2 ^ (j + 4)) \<notin> large_ranges h A \<union> small_ranges ?h"
    using heap_pop(1,2) [OF live' j fl] by simp_all
  have "R = insert (a, 2 ^ (j + 4)) (large_ranges h A \<union> small_ranges ?h)"
    unfolding A(3) small_ranges_split [OF j, of h] set_free_small_ranges [OF A(2) j] using a by auto
  with new live' show ?thesis
    by simp
qed

text \<open>A fresh page becomes chunks of its pool, all of them free: no range handed out changes.\<close>

definition add_page :: "kheap \<Rightarrow> nat \<Rightarrow> nat \<Rightarrow> buddy \<Rightarrow> kheap" where
  "add_page h j i b' = h\<lparr>pools := (pools h)[j := (pools h ! j)\<lparr>pool_free_list :=
       rev (map (chunk_addr h j i) [0..<2 ^ (8 - j)])\<rparr>],
     page_pool_idx := (page_pool_idx h)[i := of_nat j], heap_buddy := b'\<rparr>"

lemma free_page_unowned:
  assumes "heap_base_ok h A" and "i \<in> free_pages (heap_buddy h)"
  shows "i < g_total_pages (heap_buddy h)" and "page_pool_idx h ! i = -1"
    and "(i, k) \<notin> A"
proof -
  have inv: "binv (heap_buddy h) A {}"
    using assms(1) by (simp add: heap_base_ok_def)
  from assms(2) show i: "i < g_total_pages (heap_buddy h)"
    unfolding page_partition [OF inv] by blast
  have na: "(i, l) \<notin> A" for l
    using assms(2) unfolding page_partition [OF inv] alloc_pages_def by fastforce
  then show "(i, k) \<notin> A" .
  show "page_pool_idx h ! i = -1"
    using assms(1) i na unfolding heap_base_ok_def page_owner_ok_def by blast
qed

lemma chunk_addr_same: "changes_in (heap_buddy h) (heap_buddy h') S \<Longrightarrow> chunk_addr h' = chunk_addr h"
  by (intro ext) (simp add: chunk_addr_def changes_in_addr)

lemma add_page_chunks:
  assumes base: "heap_base_ok h A" and i: "i \<in> free_pages (heap_buddy h)"
    and ch: "changes_in (heap_buddy h) b' S" and "l < NUM_POOLS" and j: "j < NUM_POOLS"
  shows "pool_chunks (add_page h j i b') l =
    pool_chunks h l \<union> (if l = j then chunk_addr h j i ` {..<2 ^ (8 - j)} else {})"
proof -
  have t: "g_total_pages b' = g_total_pages (heap_buddy h)"
    using changes_in_same(1) [OF ch] by simp
  have len: "length (page_pool_idx h) = g_total_pages (heap_buddy h)"
    using base by (simp add: heap_base_ok_def)
  have c: "chunk_addr (add_page h j i b') = chunk_addr h"
    using ch by (intro chunk_addr_same) (simp add: add_page_def)
  have no: "page_pool_idx h ! i \<noteq> of_nat l"
    using free_page_unowned(2) [OF base i] pool_idx_signed(2) [OF assms(4)] by (metis)
  have eq: "(of_nat j :: i8) = of_nat l \<longleftrightarrow> l = j"
    using pool_idx_inject [OF j assms(4)] by blast
  have "(p < g_total_pages b' \<and> (page_pool_idx h)[i := of_nat j] ! p = of_nat l) \<longleftrightarrow>
      (p < g_total_pages (heap_buddy h) \<and> page_pool_idx h ! p = of_nat l \<or> p = i \<and> l = j)" for p
    using t len no eq free_page_unowned(1) [OF base i] by (cases "p = i") auto
  then show ?thesis
    unfolding pool_chunks_def c by (auto simp: add_page_def)
qed

lemma add_page_base_ok:
  assumes base: "heap_base_ok h A" and i: "i \<in> free_pages (heap_buddy h)" and j: "j < NUM_POOLS"
    and ch: "changes_in (heap_buddy h) b' S" and b': "binv b' (insert (i, 0) A) {}" "no_buddies b'"
  shows "heap_base_ok (add_page h j i b') (insert (i, 0) A)"
proof -
  have t: "g_total_pages b' = g_total_pages (heap_buddy h)" "g_buddy_base b' = g_buddy_base (heap_buddy h)"
    using changes_in_same [OF ch] by simp_all
  have "page_owner_ok (add_page h j i b') (insert (i, 0) A) p" if "p < g_total_pages (heap_buddy h)" for p
  proof (cases "p = i")
    case True
    then show ?thesis
      using j that base by (auto simp: page_owner_ok_def add_page_def heap_base_ok_def)
  next
    case False
    then have "page_pool_idx (add_page h j i b') ! p = page_pool_idx h ! p"
      by (simp add: add_page_def)
    moreover have "page_owner_ok h A p"
      using base that by (simp add: heap_base_ok_def)
    ultimately show ?thesis
      unfolding page_owner_ok_def by auto
  qed
  with base b' t changes_in_region [OF ch] show ?thesis
    by (simp add: heap_base_ok_def add_page_def)
qed

lemma add_page_live:
  assumes base: "heap_base_ok h A" and pools: "pools_ok h" and j: "j < NUM_POOLS"
    and empty: "free_of h j = []" and i: "i \<in> free_pages (heap_buddy h)"
    and ch: "changes_in (heap_buddy h) b' S" and b': "binv b' (insert (i, 0) A) {}" "no_buddies b'"
  shows "heap_live (add_page h j i b') (large_ranges h A \<union> small_ranges h)"
proof -
  let ?h = "add_page h j i b'" and ?new = "chunk_addr h j i ` {..<2 ^ (8 - j)}"
  note base' = add_page_base_ok [OF base i j ch b']
  note chunks = add_page_chunks [OF base i ch _ j]
  have it: "i < g_total_pages (heap_buddy h)" "page_pool_idx h ! i = -1" "\<And>k. (i, k) \<notin> A"
    using free_page_unowned [OF base i] by blast+
  have fl: "free_of ?h l = (if l = j then rev (map (chunk_addr h j i) [0..<2 ^ (8 - j)]) else free_of h l)"
    and csz: "chunk_size (pools ?h ! l) = chunk_size (pools h ! l)" if "l < NUM_POOLS" for l
    using pools that j by (auto simp: add_page_def pools_ok_def nth_list_update)
  have flj: "set (free_of ?h j) = ?new"
    unfolding fl [OF j] by (auto simp: atLeast0LessThan)
  have "inj_on (chunk_addr h j i) {..<2 ^ (8 - j)}"
  proof (rule inj_onI)
    fix c d
    assume cd: "c \<in> {..<2 ^ (8 - j)}" "d \<in> {..<2 ^ (8 - j)}" "chunk_addr h j i c = chunk_addr h j i d"
    have lt: "c < 2 ^ (8 - j)" "d < 2 ^ (8 - j)"
      using cd(1,2) by simp_all
    have "unat (chunk_addr h j i c) = unat (chunk_addr h j i d)"
      by (simp only: cd(3))
    then have "c * 2 ^ (j + 4) = d * 2 ^ (j + 4)"
      unfolding unat_chunk_addr [OF base j it(1) lt(1)] unat_chunk_addr [OF base j it(1) lt(2)] by linarith
    then show "c = d"
      by simp
  qed
  then have dist: "distinct (free_of ?h j)"
    unfolding fl [OF j] by (simp add: distinct_map atLeast0LessThan)
  have old: "pool_chunks h j \<inter> ?new = {}"
  proof (rule ccontr)
    assume "\<not> ?thesis"
    then obtain c where c: "c < 2 ^ (8 - j)" "chunk_addr h j i c \<in> pool_chunks h j"
      by auto
    obtain q d where q: "chunk_addr h j i c = chunk_addr h j q d" "q < g_total_pages (heap_buddy h)"
      "d < 2 ^ (8 - j)" "page_pool_idx h ! q \<noteq> -1"
      by (rule heap_small_block [OF base j c(2)])
    have "i = q"
      using chunk_page [OF base j it(1) c(1)] chunk_page [OF base j q(2,3)] unfolding q(1) by (simp only:)
    with q(4) it(2) show False by simp
  qed
  have pools': "pools_ok ?h"
    unfolding pools_ok_def
  proof (intro conjI allI impI)
    show "length (pools ?h) = NUM_POOLS"
      using pools by (simp add: add_page_def pools_ok_def)
    fix l
    assume l: "l < NUM_POOLS"
    show "chunk_size (pools ?h ! l) = pool_sizes ! l"
      using csz [OF l] pools l by (simp add: pools_ok_def)
    show "distinct (free_of ?h l)"
      using dist fl [OF l] pools l by (cases "l = j") (simp_all add: pools_ok_def)
    show "set (free_of ?h l) \<subseteq> pool_chunks ?h l"
      using chunks [OF l] flj fl [OF l] pools l by (cases "l = j") (simp_all add: pools_ok_def)
  qed
  have "pool_chunks ?h l - set (free_of ?h l) = pool_chunks h l - set (free_of h l)" if l: "l < NUM_POOLS" for l
    using chunks [OF l] flj fl [OF l] old empty by (cases "l = j") auto
  then have small: "small_ranges ?h = small_ranges h"
    unfolding small_ranges_def by (metis (no_types, lifting))
  have "{x \<in> insert (i, 0) A. page_pool_idx ?h ! fst x = -1} = {x \<in> A. page_pool_idx h ! fst x = -1}"
  proof -
    have "page_pool_idx ?h ! i \<noteq> -1"
      using it(1) base pool_idx_signed(2) [OF j] by (simp add: add_page_def heap_base_ok_def)
    moreover have "page_pool_idx ?h ! fst x = page_pool_idx h ! fst x" if "x \<in> A" for x
    proof -
      have "i \<noteq> fst x"
        using it(3) [of "snd x"] that by auto
      then show ?thesis
        by (simp add: add_page_def)
    qed
    ultimately show ?thesis by auto
  qed
  then have "large_ranges ?h (insert (i, 0) A) = large_ranges h A"
    using block_range_same [OF ch] by (simp add: large_ranges_def add_page_def)
  with base' pools' small show ?thesis
    unfolding heap_live_def by metis
qed

lemma pool_refill_live:
  assumes live: "heap_live h R" and j: "j < NUM_POOLS"
  shows "\<exists>h' ok. pool_refill h j = Some (h', ok) \<and> heap_live h' R \<and> (ok \<longrightarrow> free_of h' j \<noteq> [])"
proof -
  obtain A where A: "heap_base_ok h A" "pools_ok h" "R = large_ranges h A \<union> small_ranges h"
    using live by (auto simp: heap_live_def)
  have jlen: "j < length (pools h)" and csz: "chunk_size (pools h ! j) = pool_sizes ! j"
    using A(2) j by (simp_all add: pools_ok_def)
  show ?thesis
  proof (cases "free_of h j = []")
    case False
    then show ?thesis
      using live jlen by (intro exI [of _ h] exI [of _ True]) (simp add: pool_refill_def arr_simps)
  next
    case True
    let ?b = "heap_buddy h"
    have inv: "binv ?b A {}" and nb: "no_buddies ?b" and reg: "region_ok ?b"
      and len: "length (page_pool_idx h) = g_total_pages ?b"
      using A(1) by (simp_all add: heap_base_ok_def)
    have sz: "PAGE_SIZE \<noteq> 0" "unat PAGE_SIZE = 4096" "unat PAGE_SIZE \<le> 2 ^ 64 - 4096"
      by (simp_all add: PAGE_SIZE_def)
    obtain b' p where run: "buddy_alloc ?b PAGE_SIZE = Some (b', p)" and out: "b' = ?b \<and> p = NULL \<or>
       (\<exists>i k. p = idx_to_addr ?b i \<and> (\<forall>l<k. 4096 * 2 ^ l < unat PAGE_SIZE) \<and>
          blk i k \<subseteq> free_pages ?b \<and> binv b' (insert (i, k) A) {} \<and> no_buddies b' \<and>
          changes_in ?b b' (free_pages ?b))"
      using buddy_alloc_outcome [OF inv nb sz(1,3)] by blast
    from out show ?thesis
    proof (elim disjE conjE exE)
      assume "b' = ?b" "p = NULL"
      then show ?thesis
        using run live jlen True
        by (intro exI [of _ h] exI [of _ False]) (simp add: pool_refill_def arr_simps)
    next
      fix i k
      assume p: "p = idx_to_addr ?b i" "\<forall>l<k. 4096 * 2 ^ l < unat PAGE_SIZE" "blk i k \<subseteq> free_pages ?b"
        "binv b' (insert (i, k) A) {}" "no_buddies b'" "changes_in ?b b' (free_pages ?b)"
      have k: "k = 0"
        using p(2) sz(2) by (cases k) auto
      have i: "i \<in> free_pages ?b"
        using p(3) by auto
      note it = free_page_unowned(1) [OF A(1) i]
      have idx: "addr_to_page_idx h p = i"
        using addr_to_idx_of_idx [of i ?b] region_total [OF reg] it
        by (simp add: addr_to_page_idx_def addr_to_idx_def buddy_get_base_def p(1))
      have "pool_refill h j = Some (add_page h j i b', True)"
        using run jlen True idx it len csz pool_size_pow(3) [OF j]
          idx_to_addr_in_region(1) [OF reg it] p(1)
        by (simp add: pool_refill_def arr_simps Let_def add_page_def slice_page_eq chunk_addr_def [abs_def])
      moreover have "free_of (add_page h j i b') j \<noteq> []"
        using jlen by (simp add: add_page_def)
      ultimately show ?thesis
        using add_page_live [OF A(1,2) j True i p(6)] p(4,5) k A(3) by auto
    qed
  qed
qed

lemma kmalloc_small_live:
  assumes live: "heap_live h R" and sz: "sz \<noteq> 0" and j: "find_pool sz = Some j"
  shows "\<exists>h' p. kmalloc h sz = Some (h', p) \<and>
    (p = NULL \<and> heap_live h' R \<or>
     p \<noteq> NULL \<and> unat sz \<le> 2 ^ (j + 4) \<and> (p, 2 ^ (j + 4)) \<notin> R \<and> heap_live h' (insert (p, 2 ^ (j + 4)) R))"
proof -
  have j8: "j < NUM_POOLS" and fits: "unat sz \<le> 2 ^ (j + 4)"
    using find_pool_least(1) [OF j] pool_size_pow(1) [of j] by simp_all
  obtain h1 ok where h1: "pool_refill h j = Some (h1, ok)" "heap_live h1 R" "ok \<longrightarrow> free_of h1 j \<noteq> []"
    using pool_refill_live [OF live j8] by blast
  show ?thesis
  proof (cases ok)
    case False
    then show ?thesis
      using h1 sz j by (simp add: kmalloc_def)
  next
    case True
    then obtain a rest where fl: "free_of h1 j = a # rest"
      using h1(3) by (cases "free_of h1 j") auto
    have "j < length (pools h1)"
      using h1(2) j8 by (auto simp: heap_live_def pools_ok_def)
    then have "kmalloc h sz = Some (set_free h1 j rest, a)"
      using h1(1) True sz j fl by (simp add: kmalloc_def arr_simps set_free_def)
    then show ?thesis
      using heap_pop [OF h1(2) j8 fl] fits by blast
  qed
qed

text \<open>A call into the page allocator that keeps the pools' pages keeps the rest of the heap.\<close>

lemma heap_set_buddy:
  assumes base: "heap_base_ok h A" and pools: "pools_ok h"
    and b': "binv b' A' {}" "no_buddies b'" and ch: "changes_in (heap_buddy h) b' S"
    and own: "\<And>p. (p, 0) \<in> A \<Longrightarrow> page_pool_idx h ! p \<noteq> -1 \<Longrightarrow> (p, 0) \<in> A'"
  shows "heap_live (h\<lparr>heap_buddy := b'\<rparr>) (large_ranges h A' \<union> small_ranges h)"
proof -
  let ?h = "h\<lparr>heap_buddy := b'\<rparr>"
  have t: "g_total_pages b' = g_total_pages (heap_buddy h)" "g_buddy_base b' = g_buddy_base (heap_buddy h)"
    using changes_in_same [OF ch] by simp_all
  have "page_owner_ok ?h A' p" if "page_owner_ok h A p" for p
    using that own pool_idx_signed(2) unfolding page_owner_ok_def by auto
  then have base': "heap_base_ok ?h A'"
    using base b' t changes_in_region [OF ch] by (simp add: heap_base_ok_def)
  have c: "chunk_addr ?h = chunk_addr h"
    using ch by (intro chunk_addr_same) simp
  have chunks: "pool_chunks ?h = pool_chunks h"
    by (rule ext) (simp add: pool_chunks_def c t)
  have "pools_ok ?h" "small_ranges ?h = small_ranges h" "large_ranges ?h A' = large_ranges h A'"
    using pools block_range_same [OF ch]
    by (simp_all add: pools_ok_def chunks small_ranges_def large_ranges_def)
  with base' show ?thesis
    unfolding heap_live_def by metis
qed

lemma kmalloc_large_live:
  assumes live: "heap_live h R" and sz: "sz \<noteq> 0" "unat sz \<le> 2 ^ 64 - 4096" and big: "find_pool sz = None"
  shows "\<exists>h' p. kmalloc h sz = Some (h', p) \<and>
    (p = NULL \<and> heap_live h' R \<or>
     p \<noteq> NULL \<and> (\<exists>n. unat sz \<le> n \<and> (p, n) \<notin> R \<and> heap_live h' (insert (p, n) R)))"
proof -
  obtain A where A: "heap_base_ok h A" "pools_ok h" "R = large_ranges h A \<union> small_ranges h"
    using live by (auto simp: heap_live_def)
  let ?b = "heap_buddy h"
  have inv: "binv ?b A {}" and nb: "no_buddies ?b" and reg: "region_ok ?b"
    and len: "length (page_pool_idx h) = g_total_pages ?b"
    using A(1) by (simp_all add: heap_base_ok_def)
  obtain b' p where run: "buddy_alloc ?b sz = Some (b', p)" and out: "b' = ?b \<and> p = NULL \<or>
     (\<exists>i k. p = idx_to_addr ?b i \<and> unat sz \<le> 4096 * 2 ^ k \<and> blk i k \<subseteq> free_pages ?b \<and>
        binv b' (insert (i, k) A) {} \<and> no_buddies b' \<and> changes_in ?b b' (free_pages ?b))"
    using buddy_alloc_outcome [OF inv nb sz] by blast
  from out show ?thesis
  proof (elim disjE conjE exE)
    assume "b' = ?b" "p = NULL"
    then show ?thesis
      using run live sz big by (simp add: kmalloc_def)
  next
    fix i k
    assume p: "p = idx_to_addr ?b i" "unat sz \<le> 4096 * 2 ^ k" "blk i k \<subseteq> free_pages ?b"
      "binv b' (insert (i, k) A) {}" "no_buddies b'" "changes_in ?b b' (free_pages ?b)"
    have i: "i \<in> free_pages ?b"
      using p(3) by auto
    note it = free_page_unowned [OF A(1) i]
    have idx: "addr_to_page_idx h p = i"
      using addr_to_idx_of_idx [of i ?b] region_total [OF reg] it(1)
      by (simp add: addr_to_page_idx_def addr_to_idx_def buddy_get_base_def p(1))
    let ?n = "unat ((sz + PAGE_SIZE - 1) div PAGE_SIZE)"
    have n: "?n \<le> 2 ^ k"
      using p(2) unfolding pages_needed [OF sz(2)] by simp
    have fit: "i + ?n \<le> length (page_pool_idx h)"
      using binv_fits [OF p(4), of i k] changes_in_same(1) [OF p(6)] n len by simp
    obtain ppi where ppi: "fill ?n i (-1) (page_pool_idx h) = Some ppi"
      using fill_in_range [OF fit] by blast
    have "ppi = page_pool_idx h"
    proof (rule nth_equalityI)
      show "length ppi = length (page_pool_idx h)"
        by (rule fill_length [OF ppi])
      fix q
      assume "q < length ppi"
      then have "q < length (page_pool_idx h)"
        by (simp add: fill_length [OF ppi])
      moreover have "page_pool_idx h ! q = -1" if "i \<le> q" "q < i + ?n"
        using that n p(3) by (intro free_page_unowned(2) [OF A(1)]) auto
      ultimately show "ppi ! q = page_pool_idx h ! q"
        using fill_nth [OF ppi, of q] by auto
    qed
    with ppi have run': "kmalloc h sz = Some (h\<lparr>heap_buddy := b'\<rparr>, p)"
      using run sz big idx idx_to_addr_in_region(1) [OF reg it(1)] p(1) by (simp add: kmalloc_def)
    have "heap_live (h\<lparr>heap_buddy := b'\<rparr>) (large_ranges h (insert (i, k) A) \<union> small_ranges h)"
      by (rule heap_set_buddy [OF A(1,2) p(4-6)]) simp
    moreover have "large_ranges h (insert (i, k) A) = insert (p, 4096 * 2 ^ k) (large_ranges h A)"
    proof -
      have "{x \<in> insert (i, k) A. page_pool_idx h ! fst x = -1} =
          insert (i, k) {x \<in> A. page_pool_idx h ! fst x = -1}"
        using it(2) by auto
      then show ?thesis
        by (simp add: large_ranges_def block_range_def p(1))
    qed
    moreover have "(p, 4096 * 2 ^ k) \<notin> R"
    proof -
      have "(p, 4096 * 2 ^ k) \<notin> small_ranges h"
        using small_range_size [of p "4096 * 2 ^ k" h] by auto
      moreover have "(p, 4096 * 2 ^ k) \<notin> block_range ?b ` A"
      proof
        assume "(p, 4096 * 2 ^ k) \<in> block_range ?b ` A"
        then obtain l where "(l, k) \<in> A" "idx_to_addr ?b l = idx_to_addr ?b i"
          by (auto simp: block_range_def p(1))
        then show False
          using idx_to_addr_inject [OF reg binv_block_head [OF inv] it(1)] it(3) by metis
      qed
      ultimately show ?thesis
        unfolding A(3) large_ranges_def by blast
    qed
    ultimately show ?thesis
      using run' p(2) idx_to_addr_in_region(1) [OF reg it(1)] unfolding A(3) p(1) by auto
  qed
qed

lemma kfree_chunk:
  assumes base: "heap_base_ok h A" and ok: "pools_ok h" and j: "j < NUM_POOLS" and p: "p \<in> pool_chunks h j"
  shows "kfree h p = Some (set_free h j (p # free_of h j))"
proof -
  obtain q c where q: "p = chunk_addr h j q c" "q < g_total_pages (heap_buddy h)" "c < 2 ^ (8 - j)"
    "page_pool_idx h ! q = of_nat j"
    by (rule heap_small_block [OF base j p])
  have "p \<noteq> NULL"
    using unat_chunk_addr [OF base j q(2,3)] base q(1)
    by (auto simp: heap_base_ok_def region_ok_def)
  moreover have "q < length (page_pool_idx h)" "j < length (pools h)"
    using base ok q(2) j by (simp_all add: heap_base_ok_def pools_ok_def)
  ultimately show ?thesis
    using chunk_page [OF base j q(2,3)] q(1,4) pool_idx_signed(1) [OF j]
    by (simp add: kfree_def arr_simps set_free_def)
qed

lemma kfree_live:
  assumes live: "heap_live h R" and r: "(p, n) \<in> R"
  shows "\<exists>h'. kfree h p = Some h' \<and> heap_live h' (R - {(p, n)})"
proof -
  obtain A where A: "heap_base_ok h A" "pools_ok h" "R = large_ranges h A \<union> small_ranges h"
    using live by (auto simp: heap_live_def)
  show ?thesis
  proof (cases "(p, n) \<in> small_ranges h")
    case True
    then obtain j where j: "j < NUM_POOLS" "p \<in> pool_chunks h j" "p \<notin> set (free_of h j)" "n = 2 ^ (j + 4)"
      by (auto simp: small_ranges_def)
    have "kfree h p = Some (set_free h j (p # free_of h j))"
      by (rule kfree_chunk [OF A(1,2) j(1,2)])
    then show ?thesis
      using heap_push [OF live j(1-3)] j(4) by simp
  next
    case False
    then obtain i k where ik: "(i, k) \<in> A" "page_pool_idx h ! i = -1" "p = idx_to_addr (heap_buddy h) i"
      "n = 4096 * 2 ^ k"
      using r unfolding A(3) by (auto simp: large_ranges_def block_range_def)
    have inv: "binv (heap_buddy h) A {}" and nb: "no_buddies (heap_buddy h)" and reg: "region_ok (heap_buddy h)"
      and len: "length (page_pool_idx h) = g_total_pages (heap_buddy h)"
      using A(1) by (simp_all add: heap_base_ok_def)
    have it: "i < g_total_pages (heap_buddy h)"
      by (rule binv_block_head [OF inv ik(1)])
    obtain b' where b': "buddy_free (heap_buddy h) p = Some b'" "binv b' (A - {(i, k)}) {}" "no_buddies b'"
      "changes_in (heap_buddy h) b' (free_pages (heap_buddy h) \<union> blk i k)"
      using buddy_free_outcome [OF inv nb reg ik(1)] ik(3) by blast
    have "p = chunk_addr h 0 i 0"
      by (simp add: chunk_addr_def ik(3))
    then have "addr_to_page_idx h (p AND NOT (PAGE_SIZE - 1)) = i"
      using chunk_page [OF A(1) _ it, of 0 0] by (simp add: NUM_POOLS_def)
    then have run: "kfree h p = Some (h\<lparr>heap_buddy := b'\<rparr>)"
      using b'(1) it len ik(2) idx_to_addr_in_region(1) [OF reg it] ik(3)
      by (simp add: kfree_def arr_simps)
    have "heap_live (h\<lparr>heap_buddy := b'\<rparr>) (large_ranges h (A - {(i, k)}) \<union> small_ranges h)"
      by (rule heap_set_buddy [OF A(1,2) b'(2-4)]) (use ik(2) in auto)
    moreover have "R - {(p, n)} = large_ranges h (A - {(i, k)}) \<union> small_ranges h"
    proof -
      have "large_ranges h (A - {(i, k)}) = large_ranges h A - {(p, n)}"
      proof -
        let ?B = "{x \<in> A. page_pool_idx h ! fst x = -1}"
        have "{x \<in> A - {(i, k)}. page_pool_idx h ! fst x = -1} = ?B - {(i, k)}"
          by auto
        moreover have "block_range (heap_buddy h) ` (?B - {(i, k)}) =
            block_range (heap_buddy h) ` ?B - {block_range (heap_buddy h) (i, k)}"
          using inj_on_image_set_diff [OF block_range_inj [OF reg inv], of ?B "{(i, k)}"] ik(1) by auto
        ultimately show ?thesis
          by (simp add: large_ranges_def block_range_def ik(3,4))
      qed
      with False show ?thesis
        unfolding A(3) by auto
    qed
    ultimately show ?thesis
      using run by metis
  qed
qed

interpretation heap: allocator heap_live kmalloc kfree "2 ^ 64 - 4096"
proof unfold_locales
  fix h R and sz :: u64
  assume live: "heap_live h R" and sz: "0 < unat sz" "unat sz \<le> 2 ^ 64 - 4096"
  then have "sz \<noteq> 0"
    by auto
  with live sz show "\<exists>h' p. kmalloc h sz = Some (h', p) \<and>
      (p = NULL \<and> heap_live h' R \<or>
       p \<noteq> NULL \<and> (\<exists>n. unat sz \<le> n \<and> (p, n) \<notin> R \<and> heap_live h' (insert (p, n) R)))"
    using kmalloc_large_live [of h R sz] kmalloc_small_live [of h R sz]
    by (cases "find_pool sz") blast+
qed (use heap_disjoint kfree_live in auto)

text \<open>The heap starts with nothing handed out.\<close>

lemma kmalloc_init_live:
  assumes "binv b {} {}" "no_buddies b" "region_ok b" "4096 dvd unat (g_buddy_base b)"
    and "length ppi = g_total_pages b"
  shows "\<exists>h. kmalloc_init b ppi (g_total_pages b) = Some h \<and> heap_buddy h = b \<and> heap_live h {}"
proof -
  let ?h = "\<lparr>pools = map (\<lambda>sz. \<lparr>chunk_size = sz, pool_free_list = []\<rparr>) pool_sizes,
      page_pool_idx = replicate (g_total_pages b) (-1), heap_buddy = b\<rparr>"
  have run: "kmalloc_init b ppi (g_total_pages b) = Some ?h"
    unfolding kmalloc_init_def fill_whole [OF assms(5)] by simp
  have "heap_base_ok ?h {}"
    using assms by (simp add: heap_base_ok_def page_owner_ok_def)
  moreover have "pools_ok ?h"
    by (simp add: pools_ok_def)
  moreover have "pool_chunks ?h j = {}" if "j < NUM_POOLS" for j
    using pool_idx_signed(2) [OF that] by (auto simp: pool_chunks_def)
  then have "small_ranges ?h = {}"
    by (auto simp: small_ranges_def)
  ultimately have "heap_live ?h {}"
    unfolding heap_live_def by (intro exI [of _ "{}"]) (simp add: large_ranges_def)
  with run show ?thesis
    by (intro exI [of _ ?h]) simp
qed


section \<open>Reserved pages\<close>

text \<open>The heap changes the page allocator through \<^verbatim>\<open>buddy_alloc\<close> and \<^verbatim>\<open>buddy_free\<close> only.\<close>

lemma kmalloc_buddy:
  assumes "kmalloc h sz = Some (h', p)"
  shows "heap_buddy h' = heap_buddy h \<or>
    (\<exists>n q. n \<in> {sz, PAGE_SIZE} \<and> buddy_alloc (heap_buddy h) n = Some (heap_buddy h', q))"
proof (cases "find_pool sz")
  case None
  then show ?thesis
    using assms by (auto simp: kmalloc_def bind_eq_Some_conv split: if_splits)
next
  case (Some j)
  show ?thesis
  proof (cases "sz = 0")
    case False
    obtain h1 ok where h1: "pool_refill h j = Some (h1, ok)"
      using assms Some False by (auto simp: kmalloc_def bind_eq_Some_conv)
    have "heap_buddy h' = heap_buddy h1"
    proof (cases ok)
      case True
      then obtain pool where "aget (pools h1) j = Some pool"
        using assms Some False h1 by (auto simp: kmalloc_def bind_eq_Some_conv)
      with True show ?thesis
        using assms Some False h1 by (cases "pool_free_list pool") (auto simp: kmalloc_def)
    qed (use assms Some False h1 in \<open>auto simp: kmalloc_def\<close>)
    moreover have "heap_buddy h1 = heap_buddy h \<or>
        (\<exists>q. buddy_alloc (heap_buddy h) PAGE_SIZE = Some (heap_buddy h1, q))"
      using h1 by (auto simp: pool_refill_def bind_eq_Some_conv Let_def split: if_splits)
    ultimately show ?thesis
      by auto
  qed (use assms in \<open>auto simp: kmalloc_def\<close>)
qed

lemma kfree_buddy:
  assumes "kfree h p = Some h'"
  shows "heap_buddy h' = heap_buddy h \<or>
    addr_to_page_idx h (p AND NOT (PAGE_SIZE - 1)) < length (page_pool_idx h) \<and>
    sint (page_pool_idx h ! addr_to_page_idx h (p AND NOT (PAGE_SIZE - 1))) < 0 \<and>
    buddy_free (heap_buddy h) p = Some (heap_buddy h')"
  using assms by (auto simp: kfree_def Let_def bind_eq_Some_conv aget_Some_iff split: if_splits)

lemma heap_live_buddy:
  assumes "heap_base_ok h A"
  shows "buddy_live (heap_buddy h) (block_range (heap_buddy h) ` A)"
  using assms by (auto simp: heap_base_ok_def buddy_live_def)

lemma kmalloc_reserved:
  assumes "heap_live h R" and "0 < unat sz" "unat sz \<le> 2 ^ 64 - 4096" and "kmalloc h sz = Some (h', p)"
  shows "off_limits (heap_buddy h') = off_limits (heap_buddy h)"
proof -
  obtain A where A: "heap_base_ok h A"
    using assms(1) by (auto simp: heap_live_def)
  have "0 < unat n \<and> unat n \<le> 2 ^ 64 - 4096" if "n \<in> {sz, PAGE_SIZE}" for n
    using that assms(2,3) by (auto simp: PAGE_SIZE_def)
  then show ?thesis
    using kmalloc_buddy [OF assms(4)] buddy_alloc_reserved [OF heap_live_buddy [OF A]] by metis
qed

lemma kfree_reserved:
  assumes live: "heap_live h R" and r: "(p, n) \<in> R" and run: "kfree h p = Some h'"
  shows "off_limits (heap_buddy h') = off_limits (heap_buddy h)"
proof (cases "heap_buddy h' = heap_buddy h")
  case False
  obtain A where A: "heap_base_ok h A" "R = large_ranges h A \<union> small_ranges h"
    using live by (auto simp: heap_live_def)
  let ?q = "addr_to_page_idx h (p AND NOT (PAGE_SIZE - 1))"
  have neg: "sint (page_pool_idx h ! ?q) < 0" and free: "buddy_free (heap_buddy h) p = Some (heap_buddy h')"
    using kfree_buddy [OF run] False by auto
  have "(p, n) \<notin> small_ranges h"
  proof
    assume "(p, n) \<in> small_ranges h"
    then obtain j where j: "j < NUM_POOLS" "p \<in> pool_chunks h j"
      by (auto simp: small_ranges_def)
    obtain q c where q: "p = chunk_addr h j q c" "q < g_total_pages (heap_buddy h)" "c < 2 ^ (8 - j)"
      "page_pool_idx h ! q = of_nat j"
      by (rule heap_small_block [OF A(1) j])
    have "?q = q"
      unfolding q(1) by (rule chunk_page [OF A(1) j(1) q(2,3)])
    with neg q(4) pool_idx_signed(1) [OF j(1)] show False
      by simp
  qed
  then have "(p, n) \<in> block_range (heap_buddy h) ` A"
    using r unfolding A(2) large_ranges_def by auto
  from buddy_free_reserved [OF heap_live_buddy [OF A(1)] this free] show ?thesis .
qed simp

lemma heap_not_reserved:
  assumes "heap_live h R" and "x \<in> R"
  shows "bytes_of x \<inter> off_limits (heap_buddy h) = {}"
proof -
  obtain A where A: "heap_base_ok h A" "R = large_ranges h A \<union> small_ranges h"
    using assms(1) by (auto simp: heap_live_def)
  have reg: "region_ok (heap_buddy h)" and inv: "binv (heap_buddy h) A {}"
    using A(1) by (simp_all add: heap_base_ok_def)
  have "\<exists>y\<in>A. bytes_of x \<subseteq> bytes_of (block_range (heap_buddy h) y)"
  proof (cases "x \<in> small_ranges h")
    case True
    then obtain j a where j: "j < NUM_POOLS" "a \<in> pool_chunks h j" "x = (a, 2 ^ (j + 4))"
      by (auto simp: small_ranges_def)
    obtain q c where q: "a = chunk_addr h j q c" "q < g_total_pages (heap_buddy h)" "c < 2 ^ (8 - j)" "(q, 0) \<in> A"
      by (rule heap_small_block [OF A(1) j(1,2)])
    show ?thesis
      using chunk_bytes_in_page [OF A(1) j(1) q(2,3)] q(4) unfolding j(3) q(1) by blast
  qed (use assms(2) in \<open>auto simp: A(2) large_ranges_def\<close>)
  then obtain i k where "(i, k) \<in> A" "bytes_of x \<subseteq> bytes_of (block_range (heap_buddy h) (i, k))"
    by auto
  with block_not_reserved [OF reg inv, of i k] show ?thesis
    by blast
qed

interpretation heap_guarded: guarded_allocator heap_live kmalloc kfree "2 ^ 64 - 4096"
  "\<lambda>h. off_limits (heap_buddy h)"
  by unfold_locales (rule heap_not_reserved kmalloc_reserved kfree_reserved; assumption)+


section \<open>Properties\<close>

lemma chunk_aligned:
  assumes "heap_base_ok h A" and "j < NUM_POOLS" and "a \<in> pool_chunks h j"
  shows "2 ^ (j + 4) dvd unat a"
proof -
  obtain p c where p: "a = chunk_addr h j p c" "p < g_total_pages (heap_buddy h)" "c < 2 ^ (8 - j)"
    by (rule heap_small_block [OF assms])
  have "(2::nat) ^ (j + 4) dvd 4096"
    using pool_size_pow(2) [OF assms(2)] by (metis dvd_triv_left)
  then have "2 ^ (j + 4) dvd unat (g_buddy_base (heap_buddy h))" "(2::nat) ^ (j + 4) dvd 4096 * p"
    using assms(1) by (auto simp: heap_base_ok_def intro: dvd_trans)
  then show ?thesis
    unfolding p(1) unat_chunk_addr [OF assms(1,2) p(2,3)] by simp
qed

lemma chunk_range_aligned:
  assumes live: "heap_live h R" and r: "(p, 2 ^ (j + 4)) \<in> R" and j: "j < NUM_POOLS"
  shows "2 ^ (j + 4) dvd unat p"
proof -
  obtain A where A: "heap_base_ok h A" "R = large_ranges h A \<union> small_ranges h"
    using live by (auto simp: heap_live_def)
  have "(p, 2 ^ (j + 4)) \<in> small_ranges h"
    using r A(2) large_range_size [of p "2 ^ (j + 4)" h A] pool_size_small [OF j] by auto
  then show ?thesis
    using chunk_aligned [OF A(1)] by (auto simp: small_ranges_def)
qed

text \<open>A small request fails only when the page allocator has no page left.\<close>

lemma kmalloc_small_succeeds:
  assumes live: "heap_live h R" and sz: "sz \<noteq> 0" and j: "find_pool sz = Some j"
    and page: "buddy_alloc (heap_buddy h) PAGE_SIZE = Some (b', page)" "page \<noteq> NULL"
  shows "\<exists>h' p. kmalloc h sz = Some (h', p) \<and> p \<noteq> NULL \<and> (p, 2 ^ (j + 4)) \<notin> R \<and>
    heap_live h' (insert (p, 2 ^ (j + 4)) R)"
proof -
  have j8: "j < NUM_POOLS"
    using find_pool_least(1) [OF j] by simp
  obtain h1 ok where h1: "pool_refill h j = Some (h1, ok)" "heap_live h1 R" "ok \<longrightarrow> free_of h1 j \<noteq> []"
    using pool_refill_live [OF live j8] by blast
  have ok
    using h1(1) page by (auto simp: pool_refill_def bind_eq_Some_conv Let_def split: if_splits)
  then obtain a rest where fl: "free_of h1 j = a # rest"
    using h1(3) by (cases "free_of h1 j") auto
  have "j < length (pools h1)"
    using h1(2) j8 by (auto simp: heap_live_def pools_ok_def)
  then have "kmalloc h sz = Some (set_free h1 j rest, a)"
    using h1(1) \<open>ok\<close> sz j fl by (simp add: kmalloc_def arr_simps set_free_def)
  then show ?thesis
    using heap_pop [OF h1(2) j8 fl] by blast
qed

text \<open>The other way round: \<^verbatim>\<open>NULL\<close> means that the pool had no chunk left and no page could be added to it.\<close>

lemma kmalloc_small_null:
  assumes live: "heap_live h R" and sz: "sz \<noteq> 0" and j: "find_pool sz = Some j" and run: "kmalloc h sz = Some (h', NULL)"
  shows "free_of h j = [] \<and> (\<exists>b'. buddy_alloc (heap_buddy h) PAGE_SIZE = Some (b', NULL))"
proof -
  have j8: "j < NUM_POOLS"
    using find_pool_least(1) [OF j] by simp
  obtain h1 ok where h1: "pool_refill h j = Some (h1, ok)" "heap_live h1 R" "ok \<longrightarrow> free_of h1 j \<noteq> []"
    using pool_refill_live [OF live j8] by blast
  have len: "j < length (pools h)" "j < length (pools h1)"
    using live h1(2) j8 by (auto simp: heap_live_def pools_ok_def)
  have "\<not> ok"
  proof
    assume ok
    then obtain a rest where fl: "free_of h1 j = a # rest"
      using h1(3) by (cases "free_of h1 j") auto
    have "kmalloc h sz = Some (set_free h1 j rest, a)"
      using h1(1) \<open>ok\<close> sz j fl len by (simp add: kmalloc_def arr_simps set_free_def)
    with run heap_pop [OF h1(2) j8 fl] show False by auto
  qed
  with h1(1) len show ?thesis
    by (auto simp: pool_refill_def arr_simps bind_eq_Some_conv Let_def split: if_splits)
qed

text \<open>A page of the page allocator holds at least two chunks, so the next request of the same size finds one.\<close>

lemma kmalloc_leaves_chunk:
  assumes live: "heap_live h R" and sz: "sz \<noteq> 0" and j: "find_pool sz = Some j"
    and empty: "free_of h j = []" and run: "kmalloc h sz = Some (h', p)" "p \<noteq> NULL"
  shows "free_of h' j \<noteq> []"
proof -
  have j8: "j < NUM_POOLS"
    using find_pool_least(1) [OF j] by simp
  obtain h1 ok where h1: "pool_refill h j = Some (h1, ok)" "heap_live h1 R"
    using pool_refill_live [OF live j8] by blast
  have len: "j < length (pools h)" "j < length (pools h1)" and csz: "chunk_size (pools h ! j) = pool_sizes ! j"
    using live h1(2) j8 by (auto simp: heap_live_def pools_ok_def)
  have ok
    using run h1(1) sz j by (auto simp: kmalloc_def split: if_splits)
  with h1(1) empty len csz have "length (free_of h1 j) = 2 ^ (8 - j)"
    by (auto simp: pool_refill_def arr_simps bind_eq_Some_conv Let_def slice_page_eq pool_size_pow(3) [OF j8]
        split: if_splits)
  moreover have "(2::nat) ^ 1 \<le> 2 ^ (8 - j)"
    using j8 by (intro power_increasing) (simp_all add: NUM_POOLS_def)
  ultimately have two: "2 \<le> length (free_of h1 j)" by simp
  then obtain a b rest where fl: "free_of h1 j = a # b # rest"
    by (cases "free_of h1 j"; cases "tl (free_of h1 j)") auto
  have "kmalloc h sz = Some (set_free h1 j (b # rest), a)"
    using h1(1) \<open>ok\<close> sz j fl len by (simp add: kmalloc_def arr_simps set_free_def)
  with run len show ?thesis by (auto simp: set_free_def)
qed

text \<open>The heap over the sample region, before any request.\<close>

definition sample_heap :: kheap where
  "sample_heap = \<lparr>pools = map (\<lambda>sz. \<lparr>chunk_size = sz, pool_free_list = []\<rparr>) pool_sizes,
     page_pool_idx = replicate 5 (-1), heap_buddy = sample_pages\<rparr>"

lemma sample_heap_live: "heap_live sample_heap {}"
proof -
  have "4096 dvd unat (g_buddy_base sample_pages)" and n: "g_total_pages sample_pages = 5"
    by (simp_all add: sample_pages_def)
  moreover have "kmalloc_init sample_pages (replicate 5 0) 5 = Some sample_heap"
    unfolding kmalloc_init_def fill_whole [OF length_replicate] by (simp add: sample_heap_def)
  ultimately show ?thesis
    using kmalloc_init_live [OF sample_pages_ok, of "replicate 5 0"] by simp
qed

lemma sample_page: "buddy_alloc (heap_buddy sample_heap) PAGE_SIZE = Some (sample_split, 0x80000000)"
proof -
  have "(PAGE_SIZE + PAGE_SIZE - 1) div PAGE_SIZE = (1 + PAGE_SIZE - 1) div PAGE_SIZE"
    by (simp add: PAGE_SIZE_def)
  then have "buddy_alloc sample_pages PAGE_SIZE = buddy_alloc sample_pages 1"
    unfolding buddy_alloc_def by (simp add: PAGE_SIZE_def)
  then show ?thesis
    by (simp add: sample_alloc sample_heap_def)
qed

text \<open>Two requests for the same pool in a row, on the sample heap.\<close>

lemma sample_two_chunks:
  assumes "find_pool s1 = Some j" and "find_pool s2 = Some j" and "s1 \<noteq> 0" and "s2 \<noteq> 0"
  shows "\<exists>h p h1 n. kmalloc sample_heap s1 = Some (h, p) \<and> p \<noteq> NULL \<and> kmalloc h s2 = Some (h1, n) \<and> n \<noteq> NULL \<and> n \<noteq> p \<and>
    heap_live h {(p, 2 ^ (j + 4))} \<and> heap_live h1 {(n, 2 ^ (j + 4)), (p, 2 ^ (j + 4))}"
proof -
  obtain h p where h: "kmalloc sample_heap s1 = Some (h, p)" "p \<noteq> NULL" "heap_live h {(p, 2 ^ (j + 4))}"
    using kmalloc_small_succeeds [OF sample_heap_live assms(3,1) sample_page] by auto
  have "j < NUM_POOLS"
    using find_pool_least(1) [OF assms(1)] by simp
  then have "free_of sample_heap j = []"
    by (rule less8_cases; simp add: sample_heap_def pool_sizes_def)
  from kmalloc_leaves_chunk [OF sample_heap_live assms(3,1) this h(1,2)] have left: "free_of h j \<noteq> []" .
  from kmalloc_small_live [OF h(3) assms(4,2)] kmalloc_small_null [OF h(3) assms(4,2)] left
  obtain h1 n where "kmalloc h s2 = Some (h1, n)" "n \<noteq> NULL" "(n, 2 ^ (j + 4)) \<notin> {(p, 2 ^ (j + 4))}"
    "heap_live h1 {(n, 2 ^ (j + 4)), (p, 2 ^ (j + 4))}" by blast
  with h show ?thesis by blast
qed

text \<open>
  C32: A request of at most 2048 bytes is served from the pool with the smallest sufficient chunk
  size (a power of two, at least 16). Whenever that pool has a chunk left or the page allocator can give it a
  page, \<^verbatim>\<open>kmalloc\<close> returns a chunk of that size that was not handed out, aligned to its size. It returns \<^verbatim>\<open>NULL\<close>
  in the one other state: the pool is empty and the page allocator answers a request for a page with
  \<^verbatim>\<open>NULL\<close>. Nothing is handed out then.
\<close>

theorem kmalloc_smallest_chunk:
  assumes live: "heap_live h R" and sz: "0 < unat sz" "unat sz \<le> 2048"
  shows "\<exists>h' p. kmalloc h sz = Some (h', p) \<and>
    (\<exists>j<NUM_POOLS. unat sz \<le> 2 ^ (j + 4) \<and> (\<forall>l<j. 2 ^ (l + 4) < unat sz) \<and>
      (p = NULL \<and> free_of h j = [] \<and> (\<exists>b'. buddy_alloc (heap_buddy h) PAGE_SIZE = Some (b', NULL)) \<and> heap_live h' R \<or>
       p \<noteq> NULL \<and> 2 ^ (j + 4) dvd unat p \<and> (p, 2 ^ (j + 4)) \<notin> R \<and> heap_live h' (insert (p, 2 ^ (j + 4)) R)))"
proof -
  obtain j where j: "find_pool sz = Some j"
    using find_pool_least(2) [of sz] sz(2) by (cases "find_pool sz") (auto simp: word_less_nat_alt)
  have least: "j < NUM_POOLS" "unat sz \<le> 2 ^ (j + 4)" "\<forall>l<j. 2 ^ (l + 4) < unat sz"
    using find_pool_least(1) [OF j] pool_size_pow(1) by (auto simp: word_less_nat_alt)
  have sz0: "sz \<noteq> 0"
    using sz(1) by auto
  obtain h' p where run: "kmalloc h sz = Some (h', p)" and out:
    "p = NULL \<and> heap_live h' R \<or> p \<noteq> NULL \<and> unat sz \<le> 2 ^ (j + 4) \<and> (p, 2 ^ (j + 4)) \<notin> R \<and>
       heap_live h' (insert (p, 2 ^ (j + 4)) R)"
    using kmalloc_small_live [OF live sz0 j] by blast
  from out show ?thesis
  proof (elim disjE conjE)
    assume "p = NULL" "heap_live h' R"
    with kmalloc_small_null [OF live sz0 j] run least show ?thesis
      by (intro exI [of _ h'] exI [of _ p] exI [of _ j] conjI) simp_all
  next
    assume p: "p \<noteq> NULL" "(p, 2 ^ (j + 4)) \<notin> R" "heap_live h' (insert (p, 2 ^ (j + 4)) R)"
    have "2 ^ (j + 4) dvd unat p"
      by (rule chunk_range_aligned [OF p(3) _ least(1)]) (rule insertI1)
    with p run least show ?thesis
      by (intro exI [of _ h'] exI [of _ p] exI [of _ j] conjI) simp_all
  qed
qed

theorem kmalloc_smallest_chunk_witness:
  "\<exists>h' p. kmalloc sample_heap 100 = Some (h', p) \<and> p \<noteq> NULL \<and> 128 dvd unat p \<and> heap_live h' {(p, 128)}"
proof -
  obtain h' p j where run: "kmalloc sample_heap 100 = Some (h', p)"
    and j: "(100::nat) \<le> 2 ^ (j + 4)" "\<forall>l<j. 2 ^ (l + 4) < (100::nat)"
    and out: "p = NULL \<and> (\<exists>b'. buddy_alloc (heap_buddy sample_heap) PAGE_SIZE = Some (b', NULL)) \<or>
       p \<noteq> NULL \<and> 2 ^ (j + 4) dvd unat p \<and> heap_live h' {(p, 2 ^ (j + 4))}"
    using kmalloc_smallest_chunk [OF sample_heap_live, of 100] by auto
  have "\<not> 3 < j"
  proof
    assume "3 < j"
    with j(2) have "(2::nat) ^ (3 + 4) < 100" by blast
    then show False by simp
  qed
  moreover have "\<not> j < 3"
  proof
    assume "j < 3"
    then have "(2::nat) ^ (j + 4) \<le> 2 ^ 6" by (intro power_increasing) simp_all
    with j(1) show False by simp
  qed
  ultimately have "j = 3" by simp
  with run out show ?thesis by (auto simp: sample_page)
qed

text \<open>
  \<^verbatim>\<open>kfree\<close> of a chunk followed by \<^verbatim>\<open>kmalloc\<close> for the same pool gives the chunk back and
  restores the heap: the free lists are stacks.
\<close>

theorem kfree_kmalloc_roundtrip:
  assumes live: "heap_live h R" and r: "(p, 2 ^ (j + 4)) \<in> R" and j: "find_pool sz = Some j" and sz: "sz \<noteq> 0"
  shows "\<exists>h1. kfree h p = Some h1 \<and> heap_live h1 (R - {(p, 2 ^ (j + 4))}) \<and> kmalloc h1 sz = Some (h, p)"
proof -
  obtain A where A: "heap_base_ok h A" "pools_ok h" "R = large_ranges h A \<union> small_ranges h"
    using live by (auto simp: heap_live_def)
  have j8: "j < NUM_POOLS"
    using find_pool_least(1) [OF j] by simp
  have "(p, 2 ^ (j + 4)) \<in> small_ranges h"
    using r A(3) large_range_size [of p "2 ^ (j + 4)" h A] pool_size_small [OF j8] by auto
  then have pj: "p \<in> pool_chunks h j" "p \<notin> set (free_of h j)"
    by (auto simp: small_ranges_def)
  have run: "kfree h p = Some (set_free h j (p # free_of h j))"
    by (rule kfree_chunk [OF A(1,2) j8 pj(1)])
  let ?h = "set_free h j (p # free_of h j)"
  have jl: "j < length (pools h)"
    using A(2) j8 by (simp add: pools_ok_def)
  have "pool_refill ?h j = Some (?h, True)"
    using jl by (simp add: pool_refill_def set_free_def arr_simps)
  then have "kmalloc ?h sz = Some (h, p)"
    using jl sz j by (simp add: kmalloc_def set_free_def arr_simps)
  with run heap_push [OF live j8 pj] show ?thesis by blast
qed

theorem kfree_kmalloc_roundtrip_witness:
  "\<exists>h h1 p. kmalloc sample_heap 100 = Some (h, p) \<and> p \<noteq> NULL \<and> kfree h p = Some h1 \<and>
     heap_live h1 {} \<and> kmalloc h1 65 = Some (h, p)"
proof -
  have pool: "find_pool 100 = Some 3" "find_pool 65 = Some 3"
    by (simp_all add: find_pool_def find_pool_from.simps NUM_POOLS_def pool_sizes_def)
  obtain h p where h: "kmalloc sample_heap 100 = Some (h, p)" "p \<noteq> NULL" "heap_live h {(p, 2 ^ (3 + 4))}"
    using kmalloc_small_succeeds [OF sample_heap_live _ pool(1) sample_page] by auto
  with kfree_kmalloc_roundtrip [OF h(3) _ pool(2)] show ?thesis
    by auto
qed

end
