(* ===== verification/Utils.thy ===== *)
theory Utils
  imports OSC_Prelude
begin

text \<open>
  The string, memory and number helpers of \<^verbatim>\<open>kernel/src/utils.c\<close> (the boot loader has the same
  file). Memory is a function from addresses to bytes, over the whole 64-bit address space. A string
  argument is a memory and an address, so that a literal is a memory of its own. Output to the
  UART is the list of the bytes written.
\<close>

section \<open>Model\<close>

type_synonym mem = "u64 \<Rightarrow> u8"

definition lit :: "u8 list \<Rightarrow> mem" where
  "lit s a = (if unat a < length s then s ! unat a else 0)"

definition ascii :: "string \<Rightarrow> u8 list" where
  "ascii s = map of_char s"

text \<open>\<^const>\<open>None\<close> is a loop that does not end.\<close>

partial_function (option) str_eq :: "mem \<Rightarrow> u64 \<Rightarrow> mem \<Rightarrow> u64 \<Rightarrow> bool option" where
  "str_eq m a n b =
     (if m a \<noteq> 0 \<and> n b \<noteq> 0 \<and> m a = n b then str_eq m (a + 1) n (b + 1)
      else Some (m a = 0 \<and> n b = 0))"

partial_function (option) str_startswith :: "mem \<Rightarrow> u64 \<Rightarrow> mem \<Rightarrow> u64 \<Rightarrow> bool option" where
  "str_startswith m str n prefix =
     (if n prefix \<noteq> 0
      then if m str \<noteq> n prefix then Some False else str_startswith m (str + 1) n (prefix + 1)
      else Some True)"

fun mem_cpy_loop :: "nat \<Rightarrow> mem \<Rightarrow> u64 \<Rightarrow> u64 \<Rightarrow> mem" where
  "mem_cpy_loop 0 m d s = m"
| "mem_cpy_loop (Suc n) m d s = mem_cpy_loop n (m(d := m s)) (d + 1) (s + 1)"

definition mem_cpy :: "mem \<Rightarrow> u64 \<Rightarrow> u64 \<Rightarrow> u64 \<Rightarrow> mem" where
  "mem_cpy m dst src n = mem_cpy_loop (unat n) m dst src"

definition hex_char :: "u8 \<Rightarrow> u8" where
  "hex_char nibble = (if nibble < 10 then 48 + nibble else 97 + (nibble - 10))"

text \<open>The buffer is filled from its last cell.\<close>

fun hex_fill :: "nat \<Rightarrow> 'a::len word \<Rightarrow> u8 list" where
  "hex_fill 0 x = []"
| "hex_fill (Suc i) x = hex_fill i (drop_bit 4 x) @ [hex_char (ucast (x AND 0xF))]"

definition print_hex_ulong :: "u64 \<Rightarrow> u8 list" where
  "print_hex_ulong x = hex_fill 16 x"

definition print_hex_u32 :: "u32 \<Rightarrow> u8 list" where
  "print_hex_u32 x = hex_fill 8 x"

text \<open>\<open>room\<close> counts the cells left in the 32-byte buffer; the list is the buffer, last digit first.\<close>

fun dec_fill :: "nat \<Rightarrow> u64 \<Rightarrow> u8 list" where
  "dec_fill 0 x = []"
| "dec_fill (Suc room) x =
     (if x > 0 then (48 + ucast (x mod 10)) # dec_fill room (x div 10) else [])"

definition print_dec_ulong :: "u64 \<Rightarrow> u8 list" where
  "print_dec_ulong x = (if x = 0 then [48] else rev (dec_fill 32 x))"

section \<open>Strings\<close>

text \<open>The bytes \<open>s\<close>, none of them 0, followed by a terminator.\<close>

definition cstr :: "mem \<Rightarrow> u64 \<Rightarrow> u8 list \<Rightarrow> bool" where
  "cstr m a s \<longleftrightarrow> (\<forall>i<length s. m (a + of_nat i) = s ! i \<and> s ! i \<noteq> 0) \<and> m (a + of_nat (length s)) = 0"

lemma cstr_Nil [simp]: "cstr m a [] \<longleftrightarrow> m a = 0"
  by (simp add: cstr_def)

lemma cstr_Cons [simp]: "cstr m a (c # s) \<longleftrightarrow> m a = c \<and> c \<noteq> 0 \<and> cstr m (a + 1) s"
  unfolding cstr_def by (auto simp: nth_Cons' add.assoc less_Suc_eq_0_disj)

lemma cstr_append: "cstr m a (s @ t) \<longleftrightarrow>
    (\<forall>i<length s. m (a + of_nat i) = s ! i \<and> s ! i \<noteq> 0) \<and> cstr m (a + of_nat (length s)) t"
  by (induction s arbitrary: a) (auto simp: nth_Cons' add.assoc less_Suc_eq_0_disj)

lemma cstr_unique: "cstr m a s \<Longrightarrow> cstr m a t \<Longrightarrow> s = t"
proof (induction s arbitrary: a t)
  case Nil
  then show ?case by (cases t) auto
next
  case (Cons c s)
  then show ?case by (cases t) auto
qed

lemma cstr_lit:
  assumes "0 \<notin> set s" and "length s < 2 ^ 64"
  shows "cstr (lit s) 0 s"
proof -
  have "unat (of_nat i :: u64) = i" if "i \<le> length s" for i
    using that assms(2) by (simp add: unat_of_nat)
  then show ?thesis
    using assms(1) by (auto simp: cstr_def lit_def in_set_conv_nth)
qed

lemma str_eq_decides:
  assumes "cstr m a s" and "cstr n b t"
  shows "str_eq m a n b = Some (s = t)"
  using assms
proof (induction s arbitrary: a b t)
  case Nil
  then show ?case
    by (cases t) (simp_all add: str_eq.simps)
next
  case (Cons c s)
  show ?case
  proof (cases t)
    case Nil
    with Cons.prems show ?thesis
      by (simp add: str_eq.simps)
  next
    case (Cons d t')
    with Cons.prems Cons.IH [of "a + 1" "b + 1" t'] show ?thesis
      by (subst str_eq.simps) auto
  qed
qed

lemma str_startswith_decides:
  assumes "cstr m a s" and "cstr n b t"
  shows "str_startswith m a n b = Some (take (length t) s = t)"
  using assms
proof (induction t arbitrary: a b s)
  case Nil
  then show ?case
    by (simp add: str_startswith.simps)
next
  case (Cons d t)
  show ?case
  proof (cases s)
    case Nil
    with Cons.prems show ?thesis
      by (simp add: str_startswith.simps)
  next
    case (Cons c s')
    with Cons.prems Cons.IH [of "a + 1" s' "b + 1"] show ?thesis
      by (subst str_startswith.simps) auto
  qed
qed

section \<open>Copying\<close>

text \<open>The bytes of a range that does not wrap.\<close>

definition mem_bytes :: "mem \<Rightarrow> u64 \<Rightarrow> nat \<Rightarrow> u8 list" where
  "mem_bytes m a n = map (\<lambda>i. m (a + of_nat i)) [0..<n]"

lemma mem_cpy_loop_eq:
  assumes "n < 2 ^ 64" and "\<forall>i<n. \<forall>j<i. s + of_nat i \<noteq> d + of_nat j"
  shows "mem_cpy_loop n m d s a = (if unat (a - d) < n then m (s + (a - d)) else m a)"
  using assms
proof (induction n arbitrary: m d s)
  case 0
  then show ?case by simp
next
  case (Suc n)
  have later: "\<forall>i<n. \<forall>j<i. s + 1 + of_nat i \<noteq> d + 1 + of_nat j"
  proof (intro allI impI)
    fix i j
    assume "i < n" "j < i"
    then have "s + of_nat (Suc i) \<noteq> d + of_nat (Suc j)"
      using Suc.prems(2) by simp
    then show "s + 1 + of_nat i \<noteq> d + 1 + of_nat j"
      by (simp add: add.assoc)
  qed
  have fresh: "s + of_nat i \<noteq> d" if "0 < i" "i < Suc n" for i
    using Suc.prems(2) [rule_format, of i 0] that by simp
  have un: "unat (a - d) = Suc (unat (a - (d + 1)))" if "a \<noteq> d"
  proof -
    have "a - d = (a - (d + 1)) + 1" by simp
    moreover have "a - d \<noteq> 0" using that by simp
    ultimately show ?thesis
      by (metis add.commute unat_1 Suc_eq_plus1_left unatSuc)
  qed
  have ih: "mem_cpy_loop n (m(d := m s)) (d + 1) (s + 1) a =
      (if unat (a - (d + 1)) < n then (m(d := m s)) (s + 1 + (a - (d + 1))) else (m(d := m s)) a)"
    using Suc.IH [OF _ later] Suc.prems(1) by simp
  show ?case
  proof (cases "a = d")
    case True
    have "unat (a - (d + 1)) = 2 ^ 64 - 1"
      unfolding True by (simp add: unsigned_minus_1_eq_mask mask_eq_exp_minus_1)
    then show ?thesis
      using ih Suc.prems(1) True by simp
  next
    case False
    have "s + (a - d) \<noteq> d" if "unat (a - d) < Suc n"
      using fresh [of "unat (a - d)"] that un [OF False] by simp
    then show ?thesis
      using ih un [OF False] False by (auto simp: algebra_simps)
  qed
qed

lemma mem_cpy_range:
  assumes "unat src + unat n \<le> 2 ^ 64" and "unat dst + unat n \<le> 2 ^ 64"
    and "unat dst \<le> unat src \<or> unat src + unat n \<le> unat dst"
  shows "mem_bytes (mem_cpy m dst src n) dst (unat n) = mem_bytes m src (unat n) \<and>
    (\<forall>a. \<not> (dst \<le> a \<and> unat a < unat dst + unat n) \<longrightarrow> mem_cpy m dst src n a = m a)"
proof -
  let ?n = "unat n"
  have off: "unat (a + of_nat i) = unat a + i" if "i < ?n" "unat a + ?n \<le> 2 ^ 64" for a :: u64 and i
  proof -
    have i: "unat (of_nat i :: u64) = i"
      using that(1) unat_lt64 [of n] by (simp add: unat_of_nat)
    then show ?thesis
      using that unat_add_lem [of a "of_nat i"] by simp
  qed
  have "\<forall>i<?n. \<forall>j<i. src + of_nat i \<noteq> dst + of_nat j"
  proof (intro allI impI notI)
    fix i j
    assume ij: "i < ?n" "j < i" "src + of_nat i = dst + of_nat j"
    have "unat (src + of_nat i) = unat (dst + of_nat j)"
      by (simp only: ij(3))
    with off [OF ij(1) assms(1)] off [of j dst] ij(1,2) assms(2) have "unat src + i = unat dst + j"
      by simp
    with ij(1,2) assms(3) show False by linarith
  qed
  with mem_cpy_loop_eq [OF unat_lt64]
  have eq: "mem_cpy m dst src n a = (if unat (a - dst) < ?n then m (src + (a - dst)) else m a)" for a
    by (simp add: mem_cpy_def)
  have win: "unat (a - dst) < ?n \<longleftrightarrow> dst \<le> a \<and> unat a < unat dst + ?n" for a
    using assms(2) by (auto simp: unat_sub_if' word_le_nat_alt)
  have "mem_cpy m dst src n (dst + of_nat i) = m (src + of_nat i)" if "i < ?n" for i
    using that unat_lt64 [of n] by (simp add: eq unat_of_nat)
  then have "mem_bytes (mem_cpy m dst src n) dst ?n = mem_bytes m src ?n"
    by (simp add: mem_bytes_def)
  with eq win show ?thesis
    by simp
qed

section \<open>Decimal output\<close>

definition dec_value :: "u8 list \<Rightarrow> nat" where
  "dec_value ds = foldl (\<lambda>n c. 10 * n + (unat c - 48)) 0 ds"

lemma dec_char:
  fixes x :: u64
  shows "unat (48 + ucast (x mod 10) :: u8) = 48 + unat x mod 10"
proof -
  have "unat (x mod 10) = unat x mod 10"
    by (simp add: unat_mod)
  moreover have "unat x mod 10 < 10"
    by simp
  ultimately have "unat (ucast (x mod 10) :: u8) = unat x mod 10"
    by (simp add: unsigned_ucast_eq take_bit_eq_mod)
  then show ?thesis
    using \<open>unat x mod 10 < 10\<close> by (simp add: unat_word_ariths)
qed

lemma dec_fill_value:
  "unat x < 10 ^ room \<Longrightarrow> dec_value (rev (dec_fill room x)) = unat x"
proof (induction room arbitrary: x)
  case 0
  then show ?case by (simp add: dec_value_def)
next
  case (Suc room)
  have "unat (x div 10) = unat x div 10"
    by (simp add: unat_div)
  moreover have "unat x div 10 < 10 ^ room"
    using Suc.prems by (simp add: div_less_iff_less_mult mult.commute)
  ultimately have "dec_value (rev (dec_fill room (x div 10))) = unat x div 10"
    using Suc.IH by simp
  then show ?case
    by (auto simp: dec_value_def dec_char word_gt_0 unat_eq_0 [symmetric] simp del: unat_eq_0)
qed

lemma dec_fill_digits: "c \<in> set (dec_fill room x) \<Longrightarrow> 48 \<le> unat c \<and> unat c \<le> 57"
proof (induction room arbitrary: x)
  case (Suc room)
  have "unat x mod 10 < 10"
    by simp
  with Suc show ?case
    by (auto simp: dec_char split: if_splits)
qed simp

section \<open>Properties\<close>

text \<open>
  \<^verbatim>\<open>str_eq\<close> and \<^verbatim>\<open>str_startswith\<close> return on terminated strings, and decide equality and the
  prefix relation.
\<close>

theorem string_tests_decide:
  assumes "cstr m a s" and "cstr n b t"
  shows "str_eq m a n b = Some (s = t) \<and> str_startswith m a n b = Some (take (length t) s = t)"
  using str_eq_decides [OF assms] str_startswith_decides [OF assms] by simp

theorem string_tests_decide_witness:
  "str_eq (lit [65, 66]) 0 (lit [65]) 0 = Some False \<and> str_startswith (lit [65, 66]) 0 (lit [65]) 0 = Some True"
  using string_tests_decide [OF cstr_lit [of "[65, 66]"] cstr_lit [of "[65]"]] by simp

text \<open>
  \<^verbatim>\<open>mem_cpy\<close> copies the source range into the destination range and changes no other byte, for
  ranges that do not overlap or whose destination starts below the source.
\<close>

theorem mem_cpy_copies:
  assumes "unat src + unat n \<le> 2 ^ 64" and "unat dst + unat n \<le> 2 ^ 64"
    and "unat dst \<le> unat src \<or> unat src + unat n \<le> unat dst"
  shows "mem_bytes (mem_cpy m dst src n) dst (unat n) = mem_bytes m src (unat n) \<and>
    (\<forall>a. \<not> (dst \<le> a \<and> unat a < unat dst + unat n) \<longrightarrow> mem_cpy m dst src n a = m a)"
  by (rule mem_cpy_range [OF assms])

theorem mem_cpy_copies_witness:
  "mem_bytes (mem_cpy (lit [1, 2, 3, 4]) 0 1 3) 0 (unat (3 :: u64)) = mem_bytes (lit [1, 2, 3, 4]) 1 (unat (3 :: u64))"
  using mem_cpy_copies [of 1 3 0 "lit [1, 2, 3, 4]"] by simp

text \<open>
  \<^verbatim>\<open>print_dec_ulong\<close> writes decimal digits only, and they denote the number: the 32-byte buffer is
  never too short.
\<close>

theorem print_dec_value:
  "dec_value (print_dec_ulong x) = unat x \<and> unat ` set (print_dec_ulong x) \<subseteq> {48..57}"
proof -
  have "unat x < 10 ^ 32"
    using unat_lt64 [of x] by (rule order_less_trans) simp
  then show ?thesis
    using dec_fill_value [of x 32] dec_fill_digits [of _ 32 x]
    by (auto simp: print_dec_ulong_def) (simp add: dec_value_def)
qed

end
