(* ===== verification/Threads.thy ===== *)
theory Threads
  imports Kmalloc Utils
begin

text \<open>
  The data of the scheduler, the signals and the system calls: trap frames (\<^verbatim>\<open>trap.h\<close>), signal
  state (\<^verbatim>\<open>signal.h\<close>), threads (\<^verbatim>\<open>sched.h\<close>) and the kernel state they live in. Threads are objects
  of an explicit store: a map from addresses to thread records, so that pointers between threads
  (parent, children, queue links) are addresses and may dangle. A list whose nodes are embedded in
  the threads is the list of their addresses.
\<close>

section \<open>Registers\<close>

record trap_frame =
  tf_ra :: u64
  tf_sp :: u64
  tf_gp :: u64
  tf_tp :: u64
  tf_t0 :: u64
  tf_t1 :: u64
  tf_t2 :: u64
  tf_s0 :: u64
  tf_s1 :: u64
  tf_a0 :: u64
  tf_a1 :: u64
  tf_a2 :: u64
  tf_a3 :: u64
  tf_a4 :: u64
  tf_a5 :: u64
  tf_a6 :: u64
  tf_a7 :: u64
  tf_s2 :: u64
  tf_s3 :: u64
  tf_s4 :: u64
  tf_s5 :: u64
  tf_s6 :: u64
  tf_s7 :: u64
  tf_s8 :: u64
  tf_s9 :: u64
  tf_s10 :: u64
  tf_s11 :: u64
  tf_t3 :: u64
  tf_t4 :: u64
  tf_t5 :: u64
  tf_t6 :: u64
  tf_sepc :: u64
  tf_sstatus :: u64
  tf_scause :: u64
  tf_stval :: u64

definition zero_frame :: trap_frame where
  "zero_frame =
     \<lparr>tf_ra = 0, tf_sp = 0, tf_gp = 0, tf_tp = 0, tf_t0 = 0, tf_t1 = 0, tf_t2 = 0, tf_s0 = 0,
      tf_s1 = 0, tf_a0 = 0, tf_a1 = 0, tf_a2 = 0, tf_a3 = 0, tf_a4 = 0, tf_a5 = 0, tf_a6 = 0,
      tf_a7 = 0, tf_s2 = 0, tf_s3 = 0, tf_s4 = 0, tf_s5 = 0, tf_s6 = 0, tf_s7 = 0, tf_s8 = 0,
      tf_s9 = 0, tf_s10 = 0, tf_s11 = 0, tf_t3 = 0, tf_t4 = 0, tf_t5 = 0, tf_t6 = 0, tf_sepc =
      0, tf_sstatus = 0, tf_scause = 0, tf_stval = 0\<rparr>"

record thread_ctx =
  ctx_ra :: u64
  ctx_sp :: u64
  ctx_s0 :: u64
  ctx_s1 :: u64
  ctx_s2 :: u64
  ctx_s3 :: u64
  ctx_s4 :: u64
  ctx_s5 :: u64
  ctx_s6 :: u64
  ctx_s7 :: u64
  ctx_s8 :: u64
  ctx_s9 :: u64
  ctx_s10 :: u64
  ctx_s11 :: u64

definition zero_ctx :: thread_ctx where
  "zero_ctx =
     \<lparr>ctx_ra = 0, ctx_sp = 0, ctx_s0 = 0, ctx_s1 = 0, ctx_s2 = 0, ctx_s3 = 0, ctx_s4 = 0,
      ctx_s5 = 0, ctx_s6 = 0, ctx_s7 = 0, ctx_s8 = 0, ctx_s9 = 0, ctx_s10 = 0, ctx_s11 =
      0\<rparr>"

section \<open>Threads\<close>

definition NSIG :: nat where
  "NSIG = 32"

definition SIG_DFL :: u64 where
  "SIG_DFL = 0"

definition SIG_IGN :: u64 where
  "SIG_IGN = 1"

definition SIGSTACK_SIZE :: u64 where
  "SIGSTACK_SIZE = 8 * 1024"

record signal_state =
  sig_pending :: u64
  sig_handlers :: "u64 list"
  sig_in_handler :: bool
  sig_saved :: trap_frame
  sigstack_base :: u64

definition signal_state_init :: signal_state where
  "signal_state_init = \<lparr>sig_pending = 0, sig_handlers = replicate NSIG 0, sig_in_handler = False,
     sig_saved = zero_frame, sigstack_base = NULL\<rparr>"

datatype thread_state = THREAD_READY | THREAD_RUNNING | THREAD_BLOCKED | THREAD_ZOMBIE

text \<open>\<open>kframe\<close> is the trap frame at the top of the thread's kernel stack.\<close>

record thread =
  ctx :: thread_ctx
  tid :: i32
  pid :: i32
  state :: thread_state
  entry :: u64
  kstack_base :: u64
  kstack_size :: u64
  parent :: u64
  children :: "u64 list"
  exit_status :: i32
  image_base :: u64
  image_size :: u64
  total_size :: u64
  sig :: signal_state
  kframe :: trap_frame

definition THREAD_SIZE :: u64 where
  "THREAD_SIZE = 800"

definition KSTACK_SIZE :: u64 where
  "KSTACK_SIZE = 8 * 1024"

definition USER_STACK_SIZE :: u64 where
  "USER_STACK_SIZE = 16 * 1024"

definition TF_SIZE :: u64 where
  "TF_SIZE = 280"

text \<open>The kernel state: the scheduler's static variables, the thread store, the registers of the hart
  that a context switch saves, the thread pointer \<open>cur\<close>, the status register, the heap and the
  memory. \<open>g_bootstrap\<close> and the three code addresses are fixed by the linker.\<close>

record kernel =
  threads :: "u64 \<rightharpoonup> thread"
  g_runq :: "u64 list"
  g_zombies :: "u64 list"
  g_next_tid :: i32
  g_need_resched :: bool
  g_user_base :: u64
  cur :: u64
  hart :: thread_ctx
  csr_sstatus :: u64
  k_heap :: kheap
  k_mem :: mem
  g_bootstrap :: u64
  thread_entry_trampoline :: u64
  user_thread_bootstrap :: u64

text \<open>Reading and writing a thread through a pointer; \<^const>\<open>None\<close> is a pointer to no thread.\<close>

definition upd :: "kernel \<Rightarrow> u64 \<Rightarrow> (thread \<Rightarrow> thread) \<Rightarrow> kernel option" where
  "upd k t f = (case threads k t of None \<Rightarrow> None | Some th \<Rightarrow> Some (k\<lparr>threads := (threads k)(t \<mapsto> f th)\<rparr>))"

definition get_current :: "kernel \<Rightarrow> u64" where
  "get_current k = cur k"

text \<open>Heap calls lifted to the kernel state.\<close>

definition k_kmalloc :: "kernel \<Rightarrow> u64 \<Rightarrow> (kernel \<times> u64) option" where
  "k_kmalloc k sz = do { (h, p) \<leftarrow> kmalloc (k_heap k) sz; Some (k\<lparr>k_heap := h\<rparr>, p) }"

definition k_kfree :: "kernel \<Rightarrow> u64 \<Rightarrow> kernel option" where
  "k_kfree k p = do { h \<leftarrow> kfree (k_heap k) p; Some (k\<lparr>k_heap := h\<rparr>) }"

text \<open>\<^verbatim>\<open>list_del\<close> of the queue link and of the sibling link of a thread, wherever they are linked.\<close>

definition del_link :: "u64 \<Rightarrow> kernel \<Rightarrow> kernel" where
  "del_link t k = k\<lparr>g_runq := remove1 t (g_runq k), g_zombies := remove1 t (g_zombies k)\<rparr>"

definition del_sibling :: "u64 \<Rightarrow> kernel \<Rightarrow> kernel" where
  "del_sibling t k = k\<lparr>threads := (\<lambda>a. map_option (\<lambda>th. th\<lparr>children := remove1 t (children th)\<rparr>) (threads k a))\<rparr>"

section \<open>Lemmas on the store\<close>

named_theorems k_simps \<open>equations of the store operations\<close>

lemma upd_Some [k_simps]:
  "threads k t = Some th \<Longrightarrow> upd k t f = Some (k\<lparr>threads := (threads k)(t \<mapsto> f th)\<rparr>)"
  by (simp add: upd_def)

lemma upd_None [k_simps]: "threads k t = None \<Longrightarrow> upd k t f = None"
  by (simp add: upd_def)

lemma upd_SomeE:
  assumes "upd k t f = Some k'"
  obtains th where "threads k t = Some th" and "k' = k\<lparr>threads := (threads k)(t \<mapsto> f th)\<rparr>"
  using assms by (auto simp: upd_def split: option.splits)

end
