(* ===== verification/Cpio.thy ===== *)
theory Cpio
  imports Utils
begin

text \<open>
  The initial ramdisk reader of \<^verbatim>\<open>kernel/src/cpio.c\<close> (the boot loader has a copy): the walk over the
  entries of a \<^verbatim>\<open>newc\<close> archive in memory, to list them, print one or find one.
\<close>

section \<open>Model\<close>

text \<open>The value a hexadecimal digit adds; any other character adds nothing.\<close>

definition hex_digit :: "u8 \<Rightarrow> u64" where
  "hex_digit c =
     (if 48 \<le> c \<and> c \<le> 57 then ucast c - 48
      else if 65 \<le> c \<and> c \<le> 70 then ucast c - 65 + 10
      else if 97 \<le> c \<and> c \<le> 102 then ucast c - 97 + 10
      else 0)"

fun hex2int_loop :: "nat \<Rightarrow> mem \<Rightarrow> u64 \<Rightarrow> u64 \<Rightarrow> u64" where
  "hex2int_loop 0 m hex val = val"
| "hex2int_loop (Suc n) m hex val = hex2int_loop n m (hex + 1) (push_bit 4 val + hex_digit (m hex))"

definition hex2int :: "mem \<Rightarrow> u64 \<Rightarrow> nat \<Rightarrow> u64" where
  "hex2int m hex len = hex2int_loop len m hex 0"

definition align_4 :: "u64 \<Rightarrow> u64" where
  "align_4 addr = (addr + 3) AND NOT 3"

text \<open>Offsets in \<^verbatim>\<open>struct cpio_newc_header\<close>: the magic, the file size, the name size, and the size
  of the header.\<close>

definition magic_ok :: "mem \<Rightarrow> u64 \<Rightarrow> bool" where
  "magic_ok m ptr \<longleftrightarrow> m ptr = 48 \<and> m (ptr + 1) = 55 \<and> m (ptr + 2) = 48 \<and>
     m (ptr + 3) = 55 \<and> m (ptr + 4) = 48 \<and> m (ptr + 5) = 49"

definition c_filesize :: "mem \<Rightarrow> u64 \<Rightarrow> u64" where
  "c_filesize m ptr = hex2int m (ptr + 54) 8"

definition c_namesize :: "mem \<Rightarrow> u64 \<Rightarrow> u64" where
  "c_namesize m ptr = hex2int m (ptr + 94) 8"

definition cpio_filename :: "u64 \<Rightarrow> u64" where
  "cpio_filename ptr = ptr + 110"

definition TRAILER :: "u8 list" where
  "TRAILER = [84, 82, 65, 73, 76, 69, 82, 33, 33, 33]"

text \<open>The data of an entry and the header after it.\<close>

definition cpio_file_data :: "mem \<Rightarrow> u64 \<Rightarrow> u64" where
  "cpio_file_data m ptr = align_4 (cpio_filename ptr + c_namesize m ptr)"

definition cpio_next :: "mem \<Rightarrow> u64 \<Rightarrow> u64" where
  "cpio_next m ptr = align_4 (cpio_file_data m ptr + c_filesize m ptr)"

text \<open>\<^verbatim>\<open>puts\<close> of a string in memory; the same bytes as a list.\<close>

partial_function (option) read_cstr :: "mem \<Rightarrow> u64 \<Rightarrow> u8 list option" where
  "read_cstr m a = (if m a = 0 then Some [] else Option.bind (read_cstr m (a + 1)) (\<lambda>s. Some (m a # s)))"

text \<open>Strings of the output.\<close>

definition msg_no_initrd :: "u8 list" where
  "msg_no_initrd = map (of_char :: char \<Rightarrow> u8) ''cpio: No initrd found.'' @ [10]"

definition msg_invalid_magic :: "u8 list" where
  "msg_invalid_magic = map (of_char :: char \<Rightarrow> u8) ''cpio: Invalid magic.'' @ [10]"

partial_function (option) cpio_ls_loop :: "mem \<Rightarrow> u64 \<Rightarrow> u8 list option" where
  "cpio_ls_loop m ptr =
     (if \<not> magic_ok m ptr then Some msg_invalid_magic
      else Option.bind (str_eq m (cpio_filename ptr) (lit TRAILER) 0) (\<lambda>trailer.
        if trailer then Some []
        else Option.bind (str_eq m (cpio_filename ptr) (lit [46]) 0) (\<lambda>dot.
          Option.bind (if dot then Some [] else Option.bind (read_cstr m (cpio_filename ptr)) (\<lambda>s. Some (s @ [10]))) (\<lambda>out.
            Option.bind (cpio_ls_loop m (cpio_next m ptr)) (\<lambda>rest. Some (out @ rest))))))"

definition cpio_ls :: "mem \<Rightarrow> u64 \<Rightarrow> u8 list option" where
  "cpio_ls m archive = (if archive = NULL then Some msg_no_initrd else cpio_ls_loop m archive)"

text \<open>The result is the output and whether the file was found.\<close>

partial_function (option) cpio_cat_loop :: "mem \<Rightarrow> u64 \<Rightarrow> mem \<Rightarrow> u64 \<Rightarrow> (u8 list \<times> bool) option" where
  "cpio_cat_loop m ptr tm target =
     (if \<not> magic_ok m ptr then Some (msg_invalid_magic, False)
      else Option.bind (str_eq m (cpio_filename ptr) (lit TRAILER) 0) (\<lambda>trailer.
        if trailer
        then Option.bind (read_cstr tm target) (\<lambda>s.
          Some (map (of_char :: char \<Rightarrow> u8) ''cat: '' @ s @
                map (of_char :: char \<Rightarrow> u8) '': No such file or directory'' @ [10], False))
        else Option.bind (str_eq m (cpio_filename ptr) tm target) (\<lambda>found.
          if found
          then let data = cpio_file_data m ptr;
                   filesize = c_filesize m ptr;
                   out = mem_bytes m data (unat filesize)
               in Some (if filesize > 0 \<and> m (data + filesize - 1) \<noteq> 10 then out @ [10] else out, True)
          else cpio_cat_loop m (cpio_next m ptr) tm target)))"

definition cpio_cat :: "mem \<Rightarrow> u64 \<Rightarrow> mem \<Rightarrow> u64 \<Rightarrow> (u8 list \<times> bool) option" where
  "cpio_cat m archive tm target =
     (if archive = NULL then Some (msg_no_initrd, False) else cpio_cat_loop m archive tm target)"

text \<open>\<open>Some None\<close> is the result \<^verbatim>\<open>-1\<close>; \<open>Some (Some (data, size))\<close> is success with the two
  out-parameters.\<close>

partial_function (option) cpio_find_loop :: "mem \<Rightarrow> u64 \<Rightarrow> mem \<Rightarrow> u64 \<Rightarrow> (u64 \<times> u64) option option" where
  "cpio_find_loop m ptr tm target =
     (if \<not> magic_ok m ptr then Some None
      else Option.bind (str_eq m (cpio_filename ptr) (lit TRAILER) 0) (\<lambda>trailer.
        if trailer then Some None
        else Option.bind (str_eq m (cpio_filename ptr) tm target) (\<lambda>found.
          if found then Some (Some (cpio_file_data m ptr, c_filesize m ptr))
          else cpio_find_loop m (cpio_next m ptr) tm target)))"

definition cpio_find :: "mem \<Rightarrow> u64 \<Rightarrow> mem \<Rightarrow> u64 \<Rightarrow> (u64 \<times> u64) option option" where
  "cpio_find m archive tm target =
     (if archive = NULL \<or> target = NULL then Some None else cpio_find_loop m archive tm target)"

section \<open>Hexadecimal fields\<close>

definition hex_value :: "u8 list \<Rightarrow> u64" where
  "hex_value cs = foldl (\<lambda>v c. push_bit 4 v + hex_digit c) 0 cs"

lemma hex2int_loop_eq:
  "hex2int_loop n m a v = foldl (\<lambda>v c. push_bit 4 v + hex_digit c) v (mem_bytes m a n)"
proof (induction n arbitrary: a v)
  case (Suc n)
  have "mem_bytes m a (Suc n) = m a # mem_bytes m (a + 1) n"
    unfolding mem_bytes_def by (simp add: map_upt_Suc add.assoc del: upt_Suc)
  with Suc show ?case by simp
qed (simp add: mem_bytes_def)

lemma hex2int_value: "hex2int m a n = hex_value (mem_bytes m a n)"
  by (simp add: hex2int_def hex_value_def hex2int_loop_eq)

lemma hex_digit_char:
  assumes "n < 16"
  shows "hex_digit (hex_char (of_nat n)) = of_nat n"
proof -
  have "n \<in> set [0..<16]"
    using assms by simp
  moreover have "\<forall>n\<in>set [0..<16]. hex_digit (hex_char (of_nat n)) = of_nat n"
    by (simp add: hex_digit_def hex_char_def upt_rec)
  ultimately show ?thesis
    by blast
qed

lemma hex_fill_value:
  fixes x :: "'a::len word"
  shows "hex_value (hex_fill n x) = of_nat (unat x mod 16 ^ n)"
proof (induction n arbitrary: x)
  case 0
  then show ?case by (simp add: hex_value_def)
next
  case (Suc n)
  let ?d = "unat x mod 16"
  have "x AND 0xF = take_bit 4 x"
    by (simp add: take_bit_eq_mask mask_eq_exp_minus_1)
  then have "unat (x AND 0xF) = take_bit 4 (unat x)"
    by (simp only: unsigned_take_bit_eq)
  then have "unat (x AND 0xF) = ?d"
    by (simp add: take_bit_eq_mod)
  then have "ucast (x AND 0xF) = (of_nat ?d :: u8)"
    by (metis of_nat_unat)
  then have d: "hex_digit (hex_char (ucast (x AND 0xF))) = of_nat ?d"
    by (simp add: hex_digit_char)
  have "unat (drop_bit 4 x) = unat x div 16"
    by (simp only: unsigned_drop_bit_eq) (simp add: drop_bit_eq_div take_bit_nat_eq_self)
  with Suc.IH [of "drop_bit 4 x"] have hi: "hex_value (hex_fill n (drop_bit 4 x)) = of_nat (unat x div 16 mod 16 ^ n)"
    by simp
  have "hex_value (hex_fill (Suc n) x) = push_bit 4 (of_nat (unat x div 16 mod 16 ^ n)) + of_nat ?d"
    using hi d by (simp add: hex_value_def)
  also have "\<dots> = of_nat (16 * (unat x div 16 mod 16 ^ n) + ?d)"
    by (simp add: push_bit_eq_mult mult.commute)
  also have "16 * (unat x div 16 mod 16 ^ n) + ?d = unat x mod 16 ^ Suc n"
    by (simp add: mod_mult2_eq)
  finally show ?case .
qed

lemma hex_fill_length: "length (hex_fill n x) = n"
  by (induction n arbitrary: x) simp_all

lemma mem_bytes_lit:
  assumes "length s < 2 ^ 64"
  shows "mem_bytes (lit s) 0 (length s) = s"
proof -
  have "unat (of_nat i :: u64) = i" if "i < length s" for i
    using that assms by (simp add: unat_of_nat)
  then show ?thesis
    by (intro nth_equalityI) (simp_all add: mem_bytes_def lit_def)
qed

section \<open>Archives\<close>

text \<open>The entries of an archive at an address: name and contents of each file, up to the trailer.\<close>

definition entry_at :: "mem \<Rightarrow> u64 \<Rightarrow> u8 list \<Rightarrow> u8 list \<Rightarrow> bool" where
  "entry_at m ptr name data \<longleftrightarrow> magic_ok m ptr \<and> cstr m (cpio_filename ptr) name \<and> name \<noteq> TRAILER \<and>
     mem_bytes m (cpio_file_data m ptr) (unat (c_filesize m ptr)) = data"

fun archive_at :: "mem \<Rightarrow> u64 \<Rightarrow> (u8 list \<times> u8 list) list \<Rightarrow> bool" where
  "archive_at m ptr [] = (magic_ok m ptr \<and> cstr m (cpio_filename ptr) TRAILER)"
| "archive_at m ptr ((name, data) # es) =
     (entry_at m ptr name data \<and> archive_at m (cpio_next m ptr) es)"

lemma cstr_TRAILER: "cstr (lit TRAILER) 0 TRAILER"
  by (rule cstr_lit) (simp_all add: TRAILER_def)

lemma entry_step:
  assumes "entry_at m ptr name data" and "cstr tm t target"
  shows "str_eq m (cpio_filename ptr) (lit TRAILER) 0 = Some False"
    and "str_eq m (cpio_filename ptr) tm t = Some (name = target)"
  using assms str_eq_decides [OF _ cstr_TRAILER] str_eq_decides [OF _ assms(2)]
  by (auto simp: entry_at_def)

lemma cpio_find_loop_eq:
  assumes "archive_at m ptr es" and "cstr tm t target"
  shows "\<exists>r. cpio_find_loop m ptr tm t = Some r \<and>
    (case r of None \<Rightarrow> map_of es target = None
     | Some (data, sz) \<Rightarrow> map_of es target = Some (mem_bytes m data (unat sz)))"
  using assms(1)
proof (induction es arbitrary: ptr)
  case Nil
  then have "str_eq m (cpio_filename ptr) (lit TRAILER) 0 = Some True"
    using str_eq_decides [OF _ cstr_TRAILER, of m "cpio_filename ptr" TRAILER] by simp
  with Nil show ?case
    by (subst cpio_find_loop.simps) simp
next
  case (Cons e es)
  obtain name data where e: "e = (name, data)" by (cases e)
  have ent: "entry_at m ptr name data" and rest: "archive_at m (cpio_next m ptr) es"
    using Cons.prems e by simp_all
  have mg: "magic_ok m ptr" and d: "mem_bytes m (cpio_file_data m ptr) (unat (c_filesize m ptr)) = data"
    using ent by (simp_all add: entry_at_def)
  show ?case
  proof (cases "name = target")
    case True
    then show ?thesis
      using entry_step [OF ent assms(2)] mg d e by (subst cpio_find_loop.simps) simp
  next
    case False
    then show ?thesis
      using Cons.IH [OF rest] entry_step [OF ent assms(2)] mg e
      by (subst cpio_find_loop.simps) (auto split: option.splits)
  qed
qed

lemma read_cstr_eq: "cstr m a s \<Longrightarrow> read_cstr m a = Some s"
proof (induction s arbitrary: a)
  case (Cons c s)
  then show ?case by (subst read_cstr.simps) simp
qed (simp add: read_cstr.simps)

lemma cpio_ls_loop_eq:
  assumes "archive_at m ptr es"
  shows "cpio_ls_loop m ptr = Some (concat (map (\<lambda>(name, data). if name = [46] then [] else name @ [10]) es))"
  using assms
proof (induction es arbitrary: ptr)
  case Nil
  then have "str_eq m (cpio_filename ptr) (lit TRAILER) 0 = Some True"
    using str_eq_decides [OF _ cstr_TRAILER, of m "cpio_filename ptr" TRAILER] by simp
  with Nil show ?case
    by (subst cpio_ls_loop.simps) simp
next
  case (Cons e es)
  obtain name data where e: "e = (name, data)" by (cases e)
  have ent: "entry_at m ptr name data" and rest: "archive_at m (cpio_next m ptr) es"
    using Cons.prems e by simp_all
  have dot: "cstr (lit [46]) 0 [46]"
    by (rule cstr_lit) simp_all
  have "magic_ok m ptr" "read_cstr m (cpio_filename ptr) = Some name"
    using ent read_cstr_eq by (simp_all add: entry_at_def)
  then show ?case
    using Cons.IH [OF rest] entry_step [OF ent dot] e by (subst cpio_ls_loop.simps) simp
qed

section \<open>Properties\<close>

text \<open>
  A header field written as hexadecimal digits, most significant first, is read back: \<^verbatim>\<open>hex2int\<close> of
  the digits that \<^verbatim>\<open>print_hex_u32\<close> produces for a number is that number.
\<close>

theorem hex_field_roundtrip:
  assumes "mem_bytes m a 8 = print_hex_u32 x"
  shows "hex2int m a 8 = ucast x"
proof -
  have "unat x < 16 ^ 8"
    using unsigned_less [of x, where 'a = nat] by simp
  then have "hex_value (hex_fill 8 x) = of_nat (unat x)"
    using hex_fill_value [of 8 x] by simp
  then show ?thesis
    using assms by (simp add: hex2int_value print_hex_u32_def of_nat_unat)
qed

theorem hex_field_roundtrip_witness:
  "hex2int (lit (print_hex_u32 0x1F2)) 0 8 = 0x1F2"
proof -
  have "length (print_hex_u32 0x1F2) = 8"
    by (simp add: print_hex_u32_def hex_fill_length)
  then have "mem_bytes (lit (print_hex_u32 0x1F2)) 0 8 = print_hex_u32 0x1F2"
    using mem_bytes_lit [of "print_hex_u32 0x1F2"] by simp
  from hex_field_roundtrip [OF this] show ?thesis
    by simp
qed

text \<open>An archive with one file, \<^verbatim>\<open>A\<close>, of two bytes.\<close>

definition sample_cells :: "(u64 \<times> u8) list" where
  "sample_cells =
     [(0x1000, 48), (0x1001, 55), (0x1002, 48), (0x1003, 55), (0x1004, 48), (0x1005, 49),
      (0x103D, 50), (0x1065, 50), (0x106E, 65), (0x1070, 7), (0x1071, 9),
      (0x1074, 48), (0x1075, 55), (0x1076, 48), (0x1077, 55), (0x1078, 48), (0x1079, 49),
      (0x10E2, 84), (0x10E3, 82), (0x10E4, 65), (0x10E5, 73), (0x10E6, 76), (0x10E7, 69),
      (0x10E8, 82), (0x10E9, 33), (0x10EA, 33), (0x10EB, 33)]"

definition sample_archive :: mem where
  "sample_archive a = (case map_of sample_cells a of None \<Rightarrow> 0 | Some c \<Rightarrow> c)"

lemma hex2int_8:
  "hex2int m a 8 = hex_value [m a, m (a + 1), m (a + 2), m (a + 3), m (a + 4), m (a + 5), m (a + 6), m (a + 7)]"
  unfolding hex2int_value mem_bytes_def by (simp add: upt_rec)

lemma sample_sizes: "c_filesize sample_archive 0x1000 = 2" "c_namesize sample_archive 0x1000 = 2"
  unfolding c_filesize_def c_namesize_def hex2int_8
  by (simp_all add: sample_archive_def sample_cells_def hex_digit_def hex_value_def)

lemma sample_archive_at: "archive_at sample_archive 0x1000 [([65], [7, 9])]"
proof -
  have next_hdr: "cpio_file_data sample_archive 0x1000 = 0x1070" "cpio_next sample_archive 0x1000 = 0x1074"
    by (simp_all add: cpio_next_def cpio_file_data_def cpio_filename_def sample_sizes align_4_def)
  have "entry_at sample_archive 0x1000 [65] [7, 9]"
    by (simp add: entry_at_def next_hdr sample_sizes TRAILER_def magic_ok_def cpio_filename_def mem_bytes_def upt_rec)
      (simp add: sample_archive_def sample_cells_def)
  moreover have "archive_at sample_archive 0x1074 []"
    by (simp add: TRAILER_def magic_ok_def cpio_filename_def)
      (simp add: sample_archive_def sample_cells_def)
  ultimately show ?thesis
    by (simp add: next_hdr del: archive_at.simps(1))
qed

text \<open>
  C38: On a well-formed archive \<^verbatim>\<open>cpio_find\<close> returns, fails exactly when no entry has the name, and
  otherwise gives address and size of the contents of the first entry with that name.
\<close>

theorem cpio_find_correct:
  assumes "archive_at m archive es" and "cstr tm t target" and "archive \<noteq> NULL" and "t \<noteq> NULL"
  shows "\<exists>r. cpio_find m archive tm t = Some r \<and>
    (case r of None \<Rightarrow> map_of es target = None
     | Some (data, sz) \<Rightarrow> map_of es target = Some (mem_bytes m data (unat sz)))"
  using cpio_find_loop_eq [OF assms(1,2)] assms(3,4) by (simp add: cpio_find_def)

theorem cpio_find_correct_witness:
  "\<exists>r. cpio_find sample_archive 0x1000 (sample_archive) 0x106E = Some r \<and>
    (case r of None \<Rightarrow> False | Some (data, sz) \<Rightarrow> mem_bytes sample_archive data (unat sz) = [7, 9])"
proof -
  have "cstr sample_archive 0x106E [65]"
    by simp (simp add: sample_archive_def sample_cells_def)
  from cpio_find_correct [OF sample_archive_at this] obtain r where
    "cpio_find sample_archive 0x1000 sample_archive 0x106E = Some r"
    "case r of None \<Rightarrow> map_of [([65 :: u8], [7 :: u8, 9])] [65] = None
     | Some (data, sz) \<Rightarrow> map_of [([65 :: u8], [7, 9])] [65] = Some (mem_bytes sample_archive data (unat sz))"
    by auto
  then show ?thesis
    by (cases r) auto
qed

text \<open>
  \<^verbatim>\<open>cpio_ls\<close> of a well-formed archive prints the names of the entries, one per line, in archive
  order and without the entry for the current directory.
\<close>

theorem cpio_ls_lists_names:
  assumes "archive_at m archive es" and "archive \<noteq> NULL"
  shows "cpio_ls m archive = Some (concat (map (\<lambda>(name, data). if name = [46] then [] else name @ [10]) es))"
  using cpio_ls_loop_eq [OF assms(1)] assms(2) by (simp add: cpio_ls_def)

theorem cpio_ls_lists_names_witness: "cpio_ls sample_archive 0x1000 = Some [65, 10]"
  using cpio_ls_lists_names [OF sample_archive_at] by simp

end
