(* ===== verification/Sched.thy ===== *)
theory Sched
  imports Threads Cpio
begin

text \<open>
  The scheduler of \<^verbatim>\<open>kernel/src/sched.c\<close> and the context switch of \<^verbatim>\<open>switch.S\<close>. Each function is the
  effect of the call up to the context switch it may end in: after \<open>schedule\<close> the current
  thread is the one switched to. A call that does not come back to its caller (\<open>thread_exit\<close>) has
  only this effect.
\<close>

section \<open>Model\<close>

definition switch_to :: "kernel \<Rightarrow> u64 \<Rightarrow> u64 \<Rightarrow> kernel option" where
  "switch_to k prev next = do {
     k1 \<leftarrow> upd k prev (\<lambda>th. th\<lparr>ctx := hart k\<rparr>);
     n \<leftarrow> threads k1 next;
     Some (k1\<lparr>hart := ctx n, cur := next\<rparr>)
   }"

definition thread_alloc_bare :: "kernel \<Rightarrow> (kernel \<times> u64) option" where
  "thread_alloc_bare k = do {
     (k1, t) \<leftarrow> k_kmalloc k THREAD_SIZE;
     if t = NULL then Some (k1, NULL)
     else do {
       (k2, stk) \<leftarrow> k_kmalloc k1 KSTACK_SIZE;
       if stk = NULL then do { k3 \<leftarrow> k_kfree k2 t; Some (k3, NULL) }
       else (let th = \<lparr>ctx = zero_ctx, tid = g_next_tid k2, pid = g_next_tid k2, state = THREAD_READY,
                       entry = 0, kstack_base = stk, kstack_size = KSTACK_SIZE,
                       parent = get_current k2, children = [], exit_status = 0,
                       image_base = NULL, image_size = 0, total_size = 0,
                       sig = signal_state_init, kframe = zero_frame\<rparr>
             in Some (k2\<lparr>threads := (threads k2)(t \<mapsto> th), g_next_tid := g_next_tid k2 + 1\<rparr>, t))
     }
   }"

text \<open>Linking a new thread into its parent's list of children.\<close>

definition link_child :: "kernel \<Rightarrow> u64 \<Rightarrow> kernel option" where
  "link_child k t = do {
     th \<leftarrow> threads k t;
     if parent th \<noteq> NULL then upd k (parent th) (\<lambda>p. p\<lparr>children := children p @ [t]\<rparr>) else Some k
   }"

definition thread_create :: "kernel \<Rightarrow> u64 \<Rightarrow> (kernel \<times> u64) option" where
  "thread_create k fn = do {
     (k1, t) \<leftarrow> thread_alloc_bare k;
     if t = NULL then Some (k1, NULL)
     else do {
       k2 \<leftarrow> upd k1 t (\<lambda>th. th\<lparr>entry := fn,
              ctx := (ctx th)\<lparr>ctx_ra := thread_entry_trampoline k1,
                              ctx_sp := (kstack_base th + KSTACK_SIZE) AND NOT 0xF\<rparr>\<rparr>);
       k3 \<leftarrow> link_child k2 t;
       Some (k3\<lparr>g_runq := g_runq k3 @ [t]\<rparr>, t)
     }
   }"

definition thread_enqueue_ready :: "kernel \<Rightarrow> u64 \<Rightarrow> kernel option" where
  "thread_enqueue_ready k t = do {
     k1 \<leftarrow> upd k t (\<lambda>th. th\<lparr>state := THREAD_READY\<rparr>);
     Some (k1\<lparr>g_runq := g_runq k1 @ [t]\<rparr>)
   }"

definition thread_wakeup :: "kernel \<Rightarrow> u64 \<Rightarrow> kernel option" where
  "thread_wakeup k t =
     (if t = NULL then Some k
      else do {
        th \<leftarrow> threads k t;
        if state th = THREAD_BLOCKED
        then do { k1 \<leftarrow> upd k t (\<lambda>th. th\<lparr>state := THREAD_READY\<rparr>); Some (k1\<lparr>g_runq := g_runq k1 @ [t]\<rparr>) }
        else Some k
      })"

definition sched_zombify :: "kernel \<Rightarrow> u64 \<Rightarrow> kernel" where
  "sched_zombify k t = k\<lparr>g_zombies := g_zombies k @ [t]\<rparr>"

definition schedule :: "kernel \<Rightarrow> kernel option" where
  "schedule k = do {
     prev \<leftarrow> threads k (cur k);
     k1 \<leftarrow> (if state prev = THREAD_RUNNING
            then do { k' \<leftarrow> upd k (cur k) (\<lambda>th. th\<lparr>state := THREAD_READY\<rparr>);
                      Some (k'\<lparr>g_runq := g_runq k' @ [cur k]\<rparr>) }
            else Some k);
     case g_runq k1 of
       [] \<Rightarrow> (if state prev = THREAD_READY
              then upd k1 (cur k) (\<lambda>th. th\<lparr>state := THREAD_RUNNING\<rparr>) else Some k1)
     | next # _ \<Rightarrow> do {
         k2 \<leftarrow> upd (del_link next k1) next (\<lambda>th. th\<lparr>state := THREAD_RUNNING\<rparr>);
         if cur k \<noteq> next then switch_to k2 (cur k) next else Some k2
       }
   }"

definition thread_block :: "kernel \<Rightarrow> kernel option" where
  "thread_block k = do { k1 \<leftarrow> upd k (cur k) (\<lambda>th. th\<lparr>state := THREAD_BLOCKED\<rparr>); schedule k1 }"

definition thread_exit :: "kernel \<Rightarrow> kernel option" where
  "thread_exit k = do {
     self \<leftarrow> threads k (cur k);
     k1 \<leftarrow> upd k (cur k) (\<lambda>th. th\<lparr>state := THREAD_ZOMBIE\<rparr>);
     let k2 = (if parent self \<noteq> NULL then del_sibling (cur k) k1 else k1);
     schedule (sched_zombify k2 (cur k))
   }"

text \<open>The end of a zombie that has been unlinked: its stack and its record are freed.\<close>

definition reap :: "kernel \<Rightarrow> u64 \<Rightarrow> kernel option" where
  "reap k z = do {
     th \<leftarrow> threads k z;
     k1 \<leftarrow> (if kstack_base th \<noteq> NULL then k_kfree k (kstack_base th) else Some k);
     if z \<noteq> g_bootstrap k
     then do { k2 \<leftarrow> k_kfree k1 z; Some (k2\<lparr>threads := (threads k2)(z := None)\<rparr>) }
     else Some k1
   }"

partial_function (option) kill_zombies :: "kernel \<Rightarrow> kernel option" where
  "kill_zombies k =
     (case g_zombies k of
        [] \<Rightarrow> Some k
      | z # zs \<Rightarrow> Option.bind (reap (k\<lparr>g_zombies := zs\<rparr>) z) kill_zombies)"

text \<open>One iteration of the idle thread.\<close>

definition idle_thread_body :: "kernel \<Rightarrow> kernel option" where
  "idle_thread_body k = do { k1 \<leftarrow> kill_zombies k; schedule k1 }"

definition sched_init :: "kernel \<Rightarrow> u64 \<Rightarrow> kernel option" where
  "sched_init k idle =
     (let b = \<lparr>ctx = zero_ctx, tid = g_next_tid k, pid = g_next_tid k, state = THREAD_RUNNING,
               entry = 0, kstack_base = NULL, kstack_size = 0, parent = NULL, children = [],
               exit_status = 0, image_base = NULL, image_size = 0, total_size = 0,
               sig = signal_state_init, kframe = zero_frame\<rparr>;
          k1 = k\<lparr>threads := (threads k)(g_bootstrap k \<mapsto> b), g_next_tid := g_next_tid k + 1,
                 cur := g_bootstrap k\<rparr>
      in do { (k2, t) \<leftarrow> thread_create k1 idle; Some k2 })"

text \<open>The frame for the first entry into user mode: previous privilege user, interrupts enabled only
  by the return.\<close>

definition SSTATUS_SIE :: u64 where
  "SSTATUS_SIE = 2"

definition SSTATUS_SPIE :: u64 where
  "SSTATUS_SPIE = 0x20"

definition SSTATUS_SPP :: u64 where
  "SSTATUS_SPP = 0x100"

definition plant_initial_frame :: "kernel \<Rightarrow> u64 \<Rightarrow> u64 \<Rightarrow> u64 \<Rightarrow> (kernel \<times> u64) option" where
  "plant_initial_frame k t entry_pc user_sp = do {
     th \<leftarrow> threads k t;
     let top = (kstack_base th + kstack_size th) AND NOT 0xF;
     let ss = (csr_sstatus k AND NOT (SSTATUS_SPP OR SSTATUS_SIE)) OR SSTATUS_SPIE;
     k1 \<leftarrow> upd k t (\<lambda>th. th\<lparr>kframe := zero_frame\<lparr>tf_sepc := entry_pc, tf_sp := user_sp, tf_tp := t,
                                              tf_sstatus := ss\<rparr>\<rparr>);
     Some (k1, top - TF_SIZE)
   }"

text \<open>\<open>initrd\<close> is the value of the device tree property \<^verbatim>\<open>linux,initrd-start\<close>; \<open>path\<close> is a string in the
  memory \<open>tm\<close>.\<close>

definition thread_spawn_user :: "kernel \<Rightarrow> u64 \<Rightarrow> mem \<Rightarrow> u64 \<Rightarrow> (kernel \<times> u64) option" where
  "thread_spawn_user k initrd tm path = do {
     found \<leftarrow> (if initrd = NULL then Some None else cpio_find (k_mem k) initrd tm path);
     (case found of None \<Rightarrow> Some (k, NULL)
      | Some (src, sz) \<Rightarrow> do {
          (k1, t) \<leftarrow> thread_alloc_bare k;
          if t = NULL then Some (k1, NULL)
          else do {
            (k2, image) \<leftarrow> k_kmalloc k1 (sz + USER_STACK_SIZE);
            k3 \<leftarrow> upd k2 t (\<lambda>th. th\<lparr>image_size := sz, total_size := sz + USER_STACK_SIZE, image_base := image\<rparr>);
            if image = NULL
            then do {
              th \<leftarrow> threads k3 t;
              k4 \<leftarrow> k_kfree k3 (kstack_base th);
              k5 \<leftarrow> k_kfree k4 t;
              Some (k5\<lparr>threads := (threads k5)(t := None)\<rparr>, NULL)
            }
            else do {
              let k4 = k3\<lparr>k_mem := mem_cpy (k_mem k3) image src sz\<rparr>;
              let user_sp = (image + (sz + USER_STACK_SIZE)) AND NOT 0xF;
              (k5, tf) \<leftarrow> plant_initial_frame k4 t image user_sp;
              k6 \<leftarrow> upd k5 t (\<lambda>th. th\<lparr>ctx := (ctx th)\<lparr>ctx_sp := tf, ctx_ra := user_thread_bootstrap k5\<rparr>\<rparr>);
              k7 \<leftarrow> link_child (k6\<lparr>g_user_base := image\<rparr>) t;
              k8 \<leftarrow> thread_enqueue_ready k7 t;
              Some (k8, t)
            }
          }
        })
   }"

text \<open>The search of the process tree. \<open>fuel\<close> bounds the depth of the recursion; \<^const>\<open>None\<close> is running
  out of it or following a pointer to no thread.\<close>

fun dfs_find_pid :: "nat \<Rightarrow> kernel \<Rightarrow> u64 \<Rightarrow> i32 \<Rightarrow> u64 option option"
  and dfs_children :: "nat \<Rightarrow> kernel \<Rightarrow> u64 list \<Rightarrow> i32 \<Rightarrow> u64 option option" where
  "dfs_find_pid 0 k root p = None"
| "dfs_find_pid (Suc n) k root p =
     (if root = NULL then Some None
      else case threads k root of
        None \<Rightarrow> None
      | Some th \<Rightarrow> if pid th = p then Some (Some root) else dfs_children n k (children th) p)"
| "dfs_children n k [] p = Some None"
| "dfs_children n k (c # cs) p =
     (case dfs_find_pid n k c p of
        None \<Rightarrow> None
      | Some (Some t) \<Rightarrow> Some (Some t)
      | Some None \<Rightarrow> dfs_children n k cs p)"

definition find_thread_by_pid :: "kernel \<Rightarrow> i32 \<Rightarrow> u64 option option" where
  "find_thread_by_pid k p = dfs_find_pid (Suc (unat (g_next_tid k))) k (g_bootstrap k) p"

definition set_need_resched :: "kernel \<Rightarrow> kernel" where
  "set_need_resched k = k\<lparr>g_need_resched := True\<rparr>"

definition need_resched_clear :: "kernel \<Rightarrow> kernel \<times> bool" where
  "need_resched_clear k = (k\<lparr>g_need_resched := False\<rparr>, g_need_resched k)"

end
