(* ===== verification/Sched_Inv.thy ===== *)
theory Sched_Inv
  imports Sched
begin

text \<open>
  Correctness of the scheduler: the queues and the thread states agree (\<open>sched_inv\<close>), every
  operation keeps them so, the ready queue is served round robin, and a context comes back as it
  was saved.
\<close>

section \<open>The invariant\<close>

text \<open>\<open>st k\<close> gives the state of every thread. A thread is in the ready queue exactly when its state says
  so, only the current thread can be running, and the zombie queue holds only zombies.\<close>

definition st :: "kernel \<Rightarrow> u64 \<Rightarrow> thread_state option" where
  "st k t = map_option state (threads k t)"

definition queues_ok :: "(u64 \<Rightarrow> thread_state option) \<Rightarrow> u64 list \<Rightarrow> u64 list \<Rightarrow> u64 \<Rightarrow> bool" where
  "queues_ok s q z c \<longleftrightarrow> distinct q \<and> distinct z \<and> s c \<noteq> None \<and>
     (\<forall>t. t \<in> set q \<longleftrightarrow> s t = Some THREAD_READY) \<and> (\<forall>t\<in>set z. s t = Some THREAD_ZOMBIE) \<and>
     (\<forall>t. s t = Some THREAD_RUNNING \<longrightarrow> t = c)"

definition sched_inv :: "kernel \<Rightarrow> bool" where
  "sched_inv k \<longleftrightarrow> queues_ok (st k) (g_runq k) (g_zombies k) (cur k)"

lemma queues_okD:
  assumes "queues_ok s q z c"
  shows "distinct q" and "distinct z" and "\<exists>x. s c = Some x" and "t \<in> set q \<longleftrightarrow> s t = Some THREAD_READY"
    and "t \<in> set z \<Longrightarrow> s t = Some THREAD_ZOMBIE" and "s t = Some THREAD_RUNNING \<Longrightarrow> t = c"
  using assms unfolding queues_ok_def by blast+

lemma queues_okI:
  assumes "distinct q" and "distinct z" and "\<exists>x. s c = Some x"
    and "\<And>t. t \<in> set q \<Longrightarrow> s t = Some THREAD_READY" and "\<And>t. s t = Some THREAD_READY \<Longrightarrow> t \<in> set q"
    and "\<And>t. t \<in> set z \<Longrightarrow> s t = Some THREAD_ZOMBIE" and "\<And>t. s t = Some THREAD_RUNNING \<Longrightarrow> t = c"
  shows "queues_ok s q z c"
  using assms unfolding queues_ok_def by blast

text \<open>The five ways in which the queues change.\<close>

lemma queues_ok_rotate:
  assumes ok: "queues_ok s (n # r) z c" and c: "s c = Some THREAD_RUNNING"
  shows "queues_ok (s(n \<mapsto> THREAD_RUNNING, c \<mapsto> THREAD_READY)) (r @ [c]) z n"
proof -
  note q = queues_okD [OF ok]
  have nr: "n \<notin> set r" and cn: "c \<notin> set (n # r)"
    using q(1) q(4) [of c] c by auto
  show ?thesis
  proof (rule queues_okI)
    fix t
    show "(s(n \<mapsto> THREAD_RUNNING, c \<mapsto> THREAD_READY)) t = Some THREAD_READY" if "t \<in> set (r @ [c])"
      using that nr cn q(4) [of t] by auto
    show "t \<in> set (r @ [c])" if "(s(n \<mapsto> THREAD_RUNNING, c \<mapsto> THREAD_READY)) t = Some THREAD_READY"
      using that nr cn q(4) [of t] by (auto split: if_splits)
    show "(s(n \<mapsto> THREAD_RUNNING, c \<mapsto> THREAD_READY)) t = Some THREAD_ZOMBIE" if "t \<in> set z"
      using q(5) [OF that] c q(4) [of n] by auto
    show "t = n" if "(s(n \<mapsto> THREAD_RUNNING, c \<mapsto> THREAD_READY)) t = Some THREAD_RUNNING"
      using that q(6) [of t] c by (auto split: if_splits)
  qed (use q(1,2) cn in auto)
qed

lemma queues_ok_away:
  assumes ok: "queues_ok s (n # r) z c" and c: "s c \<noteq> Some THREAD_RUNNING"
  shows "queues_ok (s(n \<mapsto> THREAD_RUNNING)) r z n"
proof -
  note q = queues_okD [OF ok]
  have nr: "n \<notin> set r"
    using q(1) by auto
  show ?thesis
  proof (rule queues_okI)
    fix t
    show "(s(n \<mapsto> THREAD_RUNNING)) t = Some THREAD_READY" if "t \<in> set r"
      using that nr q(4) [of t] by auto
    show "t \<in> set r" if "(s(n \<mapsto> THREAD_RUNNING)) t = Some THREAD_READY"
      using that q(4) [of t] by (auto split: if_splits)
    show "(s(n \<mapsto> THREAD_RUNNING)) t = Some THREAD_ZOMBIE" if "t \<in> set z"
      using q(5) [OF that] q(4) [of n] by auto
    show "t = n" if "(s(n \<mapsto> THREAD_RUNNING)) t = Some THREAD_RUNNING"
      using that q(6) [of t] c by (auto split: if_splits)
  qed (use q(1,2) in auto)
qed

lemma queues_ok_stop:
  assumes ok: "queues_ok s q z c" and c: "s t = Some THREAD_RUNNING \<or> s t = Some THREAD_BLOCKED"
    and x: "x = THREAD_BLOCKED \<or> x = THREAD_ZOMBIE"
  shows "queues_ok (s(t \<mapsto> x)) q z c"
proof -
  note q = queues_okD [OF ok]
  show ?thesis
  proof (rule queues_okI)
    fix u
    show "(s(t \<mapsto> x)) u = Some THREAD_READY" if "u \<in> set q"
      using that q(4) [of u] c by auto
    show "u \<in> set q" if "(s(t \<mapsto> x)) u = Some THREAD_READY"
      using that q(4) [of u] x by (auto split: if_splits)
    show "(s(t \<mapsto> x)) u = Some THREAD_ZOMBIE" if "u \<in> set z"
      using q(5) [OF that] c by auto
    show "u = c" if "(s(t \<mapsto> x)) u = Some THREAD_RUNNING"
      using that q(6) [of u] x by (auto split: if_splits)
  qed (use q(1-3) in auto)
qed

lemma queues_ok_bury:
  assumes ok: "queues_ok s q z c" and t: "s t = Some THREAD_ZOMBIE" "t \<notin> set z"
  shows "queues_ok s q (z @ [t]) c"
  using ok t unfolding queues_ok_def by auto

lemma queues_ok_wake:
  assumes ok: "queues_ok s q z c" and t: "s t \<noteq> Some THREAD_READY" "s t \<noteq> Some THREAD_RUNNING" "s t \<noteq> Some THREAD_ZOMBIE"
  shows "queues_ok (s(t \<mapsto> THREAD_READY)) (q @ [t]) z c"
proof -
  note q = queues_okD [OF ok]
  show ?thesis
  proof (rule queues_okI)
    fix u
    show "(s(t \<mapsto> THREAD_READY)) u = Some THREAD_READY" if "u \<in> set (q @ [t])"
      using that q(4) [of u] by auto
    show "u \<in> set (q @ [t])" if "(s(t \<mapsto> THREAD_READY)) u = Some THREAD_READY"
      using that q(4) [of u] by (auto split: if_splits)
    show "(s(t \<mapsto> THREAD_READY)) u = Some THREAD_ZOMBIE" if "u \<in> set z"
      using q(5) [OF that] t by auto
    show "u = c" if "(s(t \<mapsto> THREAD_READY)) u = Some THREAD_RUNNING"
      using that q(6) [of u] by (auto split: if_splits)
  qed (use q(1-3) q(4) [of t] t in auto)
qed

abbreviation cur_state :: "kernel \<Rightarrow> thread_state option" where
  "cur_state k \<equiv> st k (cur k)"

lemma st_threads [simp]:
  "st (k\<lparr>threads := (threads k)(t \<mapsto> th)\<rparr>) = (st k)(t \<mapsto> state th)"
  by (rule ext) (simp add: st_def)

lemma st_fields [simp]:
  "st (k\<lparr>g_runq := q\<rparr>) = st k" "st (k\<lparr>g_zombies := q\<rparr>) = st k" "st (k\<lparr>cur := c\<rparr>) = st k"
  "st (k\<lparr>hart := r\<rparr>) = st k" "st (k\<lparr>k_heap := h\<rparr>) = st k" "st (k\<lparr>k_mem := m\<rparr>) = st k"
  by (auto simp: st_def fun_eq_iff)

lemma st_Some: "st k t = Some s \<Longrightarrow> \<exists>th. threads k t = Some th \<and> state th = s"
  by (auto simp: st_def)

lemma sched_invD:
  assumes "sched_inv k"
  shows "distinct (g_runq k)" and "distinct (g_zombies k)"
    and "t \<in> set (g_runq k) \<Longrightarrow> st k t = Some THREAD_READY"
    and "t \<in> set (g_zombies k) \<Longrightarrow> st k t = Some THREAD_ZOMBIE"
    and "st k t = Some THREAD_READY \<Longrightarrow> t \<in> set (g_runq k)"
    and "st k t = Some THREAD_RUNNING \<Longrightarrow> t = cur k"
  using assms unfolding sched_inv_def queues_ok_def by blast+

section \<open>Context switches\<close>

text \<open>The effect of \<^verbatim>\<open>schedule\<close> when the caller still runs: it goes to the end of the queue.\<close>

lemma schedule_yield:
  assumes inv: "sched_inv k" and c: "threads k (cur k) = Some c" "state c = THREAD_RUNNING"
    and q: "g_runq k = n # r"
  shows "\<exists>nth. threads k n = Some nth \<and> n \<noteq> cur k \<and> state nth = THREAD_READY \<and>
    schedule k = Some (k\<lparr>threads := (threads k)(n \<mapsto> nth\<lparr>state := THREAD_RUNNING\<rparr>,
                                              cur k \<mapsto> c\<lparr>state := THREAD_READY, ctx := hart k\<rparr>),
                         g_runq := r @ [cur k], hart := ctx nth, cur := n\<rparr>)"
proof -
  have nq: "n \<in> set (g_runq k)"
    using q by simp
  obtain nth where nth: "threads k n = Some nth" "state nth = THREAD_READY"
    using st_Some [OF sched_invD(3) [OF inv nq]] by blast
  have ne: "n \<noteq> cur k"
    using nth c by auto
  have nz: "n \<notin> set (g_zombies k)"
    using sched_invD(4) [OF inv, of n] nth by (auto simp: st_def)
  have "schedule k = Some (k\<lparr>threads := (threads k)(n \<mapsto> nth\<lparr>state := THREAD_RUNNING\<rparr>,
                                              cur k \<mapsto> c\<lparr>state := THREAD_READY, ctx := hart k\<rparr>),
                         g_runq := r @ [cur k], hart := ctx nth, cur := n\<rparr>)"
    using c nth ne nz q
    by (simp add: schedule_def upd_def del_link_def switch_to_def remove1_idem fun_upd_twist)
  with nth ne show ?thesis by blast
qed

lemma schedule_alone:
  assumes "threads k (cur k) = Some c" "state c = THREAD_RUNNING" and "g_runq k = []"
    and "cur k \<notin> set (g_zombies k)"
  shows "schedule k = Some k"
  using assms by (simp add: schedule_def upd_def del_link_def remove1_idem fun_upd_idem)

text \<open>When the caller has blocked or died, the queue moves on without it.\<close>

lemma schedule_away:
  assumes inv: "sched_inv k" and c: "threads k (cur k) = Some c" "state c \<noteq> THREAD_RUNNING" "state c \<noteq> THREAD_READY"
    and q: "g_runq k = n # r"
  shows "\<exists>nth. threads k n = Some nth \<and> n \<noteq> cur k \<and> state nth = THREAD_READY \<and>
    schedule k = Some (k\<lparr>threads := (threads k)(n \<mapsto> nth\<lparr>state := THREAD_RUNNING\<rparr>,
                                              cur k \<mapsto> c\<lparr>ctx := hart k\<rparr>),
                         g_runq := r, hart := ctx nth, cur := n\<rparr>)"
proof -
  have nq: "n \<in> set (g_runq k)"
    using q by simp
  obtain nth where nth: "threads k n = Some nth" "state nth = THREAD_READY"
    using st_Some [OF sched_invD(3) [OF inv nq]] by blast
  have ne: "n \<noteq> cur k"
    using nth c by auto
  have nz: "n \<notin> set (g_zombies k)"
    using sched_invD(4) [OF inv, of n] nth by (auto simp: st_def)
  have "schedule k = Some (k\<lparr>threads := (threads k)(n \<mapsto> nth\<lparr>state := THREAD_RUNNING\<rparr>,
                                              cur k \<mapsto> c\<lparr>ctx := hart k\<rparr>),
                         g_runq := r, hart := ctx nth, cur := n\<rparr>)"
    using c nth ne nz q
    by (simp add: schedule_def upd_def del_link_def switch_to_def remove1_idem fun_upd_twist)
  with nth ne show ?thesis by blast
qed

text \<open>What a context switch leaves alone: everything but states and contexts of threads.\<close>

definition strip :: "thread \<Rightarrow> thread" where
  "strip th = th\<lparr>state := THREAD_READY, ctx := zero_ctx\<rparr>"

definition same_threads :: "kernel \<Rightarrow> kernel \<Rightarrow> bool" where
  "same_threads k k' \<longleftrightarrow> (\<forall>t. map_option strip (threads k' t) = map_option strip (threads k t)) \<and>
     k_heap k' = k_heap k \<and> k_mem k' = k_mem k \<and> g_next_tid k' = g_next_tid k \<and>
     g_bootstrap k' = g_bootstrap k \<and> g_zombies k' = g_zombies k"

lemma same_threads_trans: "same_threads a b \<Longrightarrow> same_threads b c \<Longrightarrow> same_threads a c"
  by (simp add: same_threads_def)

lemma same_threads_dom:
  assumes "same_threads k k'"
  shows "dom (threads k') = dom (threads k)"
proof -
  have "threads k' t = None \<longleftrightarrow> threads k t = None" for t
    using assms unfolding same_threads_def by (metis option.map_disc_iff)
  then show ?thesis
    by (auto simp: dom_def)
qed

lemma schedule_inv:
  assumes inv: "sched_inv k"
    and q: "cur_state k = Some THREAD_RUNNING \<and> q = g_runq k @ [cur k] \<or>
            cur_state k \<in> {Some THREAD_BLOCKED, Some THREAD_ZOMBIE} \<and> q = g_runq k \<and> q \<noteq> []"
  shows "\<exists>k'. schedule k = Some k' \<and> sched_inv k' \<and> cur k' = hd q \<and> g_runq k' = tl q \<and>
    cur_state k' = Some THREAD_RUNNING \<and> same_threads k k'"
proof -
  obtain c where c: "threads k (cur k) = Some c"
    using q by (auto simp: st_def)
  have stc: "st k (cur k) = Some (state c)"
    by (simp add: st_def c)
  note ok = inv [unfolded sched_inv_def]
  show ?thesis
  proof (cases "g_runq k")
    case Nil
    with q have run: "state c = THREAD_RUNNING" "q = [cur k]"
      by (auto simp: stc)
    have "cur k \<notin> set (g_zombies k)"
      using sched_invD(4) [OF inv, of "cur k"] stc run by auto
    with schedule_alone [OF c run(1) Nil] inv Nil run stc show ?thesis
      by (simp add: same_threads_def)
  next
    case (Cons n r)
    show ?thesis
    proof (cases "state c = THREAD_RUNNING")
      case True
      obtain nth where n: "threads k n = Some nth" "n \<noteq> cur k" "state nth = THREAD_READY"
        and run: "schedule k = Some (k\<lparr>threads := (threads k)(n \<mapsto> nth\<lparr>state := THREAD_RUNNING\<rparr>,
               cur k \<mapsto> c\<lparr>state := THREAD_READY, ctx := hart k\<rparr>), g_runq := r @ [cur k], hart := ctx nth, cur := n\<rparr>)"
        (is "_ = Some ?k'")
        using schedule_yield [OF inv c True Cons] by blast
      have st': "st ?k' = (st k)(n \<mapsto> THREAD_RUNNING, cur k \<mapsto> THREAD_READY)"
        by (rule ext) (simp add: st_def)
      have "sched_inv ?k'"
        unfolding sched_inv_def st' using queues_ok_rotate [of "st k" n r] ok Cons stc True by simp
      moreover have "same_threads k ?k'"
        using c n by (auto simp: same_threads_def strip_def)
      moreover have "q = n # r @ [cur k]"
        using q True Cons stc by auto
      ultimately show ?thesis
        using run n st' by simp
    next
      case False
      then have stc': "state c \<noteq> THREAD_READY" "q = n # r"
        using q Cons stc by auto
      obtain nth where n: "threads k n = Some nth" "n \<noteq> cur k" "state nth = THREAD_READY"
        and run: "schedule k = Some (k\<lparr>threads := (threads k)(n \<mapsto> nth\<lparr>state := THREAD_RUNNING\<rparr>,
               cur k \<mapsto> c\<lparr>ctx := hart k\<rparr>), g_runq := r, hart := ctx nth, cur := n\<rparr>)"
        (is "_ = Some ?k'")
        using schedule_away [OF inv c False stc'(1) Cons] by blast
      have st': "st ?k' = (st k)(n \<mapsto> THREAD_RUNNING)"
        using stc n(2) by (intro ext) (simp add: st_def c)
      have "sched_inv ?k'"
        unfolding sched_inv_def st' using queues_ok_away [of "st k" n r] ok Cons stc False by simp
      moreover have "same_threads k ?k'"
        using c n by (auto simp: same_threads_def strip_def)
      ultimately show ?thesis
        using run n stc'(2) st' by simp
    qed
  qed
qed

section \<open>Blocking, exit and wake-up\<close>

lemma set_cur_state_inv:
  assumes "sched_inv k" and "threads k (cur k) = Some c" "state c = THREAD_RUNNING"
    and "s \<in> {THREAD_BLOCKED, THREAD_ZOMBIE}"
  shows "sched_inv (k\<lparr>threads := (threads k)(cur k \<mapsto> c\<lparr>state := s\<rparr>)\<rparr>)"
proof -
  have "st k (cur k) = Some THREAD_RUNNING"
    using assms(2,3) by (simp add: st_def)
  then show ?thesis
    using assms(1,4) queues_ok_stop [of "st k" _ _ "cur k" "cur k" s] by (simp add: sched_inv_def)
qed

lemma thread_block_inv:
  assumes inv: "sched_inv k" and c: "cur_state k = Some THREAD_RUNNING" and q: "g_runq k \<noteq> []"
  shows "\<exists>k'. thread_block k = Some k' \<and> sched_inv k' \<and> cur k' = hd (g_runq k) \<and> g_runq k' = tl (g_runq k) \<and>
    cur_state k' = Some THREAD_RUNNING \<and> same_threads k k'"
proof -
  obtain th where th: "threads k (cur k) = Some th" "state th = THREAD_RUNNING"
    using st_Some [OF c] by blast
  let ?k = "k\<lparr>threads := (threads k)(cur k \<mapsto> th\<lparr>state := THREAD_BLOCKED\<rparr>)\<rparr>"
  have "sched_inv ?k"
    using set_cur_state_inv [OF inv th] by simp
  then obtain k' where k': "schedule ?k = Some k'" "sched_inv k'" "cur k' = hd (g_runq k)"
    "g_runq k' = tl (g_runq k)" "cur_state k' = Some THREAD_RUNNING" "same_threads ?k k'"
    using schedule_inv [of ?k "g_runq k"] q by auto
  have "same_threads k ?k"
    using th by (auto simp: same_threads_def strip_def)
  with k' th show ?thesis
    using same_threads_trans by (auto simp: thread_block_def upd_def)
qed

text \<open>Changes to the process tree do not concern the queues.\<close>

lemma st_del_sibling [simp]: "st (del_sibling t k) = st k"
  by (rule ext) (simp add: st_def del_sibling_def option.map_comp comp_def)

lemma del_sibling_fields [simp]:
  "g_runq (del_sibling t k) = g_runq k" "g_zombies (del_sibling t k) = g_zombies k"
  "cur (del_sibling t k) = cur k" "k_heap (del_sibling t k) = k_heap k"
  "g_bootstrap (del_sibling t k) = g_bootstrap k" "g_next_tid (del_sibling t k) = g_next_tid k"
  by (simp_all add: del_sibling_def)

lemma thread_exit_inv:
  assumes inv: "sched_inv k" and c: "cur_state k = Some THREAD_RUNNING" and q: "g_runq k \<noteq> []"
  shows "\<exists>k'. thread_exit k = Some k' \<and> sched_inv k' \<and> cur k' = hd (g_runq k) \<and> g_runq k' = tl (g_runq k) \<and>
    cur_state k' = Some THREAD_RUNNING \<and> g_zombies k' = g_zombies k @ [cur k] \<and>
    dom (threads k') = dom (threads k)"
proof -
  obtain th where th: "threads k (cur k) = Some th" "state th = THREAD_RUNNING"
    using st_Some [OF c] by blast
  let ?k1 = "k\<lparr>threads := (threads k)(cur k \<mapsto> th\<lparr>state := THREAD_ZOMBIE\<rparr>)\<rparr>"
  let ?k2 = "if parent th \<noteq> NULL then del_sibling (cur k) ?k1 else ?k1"
  let ?k3 = "sched_zombify ?k2 (cur k)"
  have st3: "st ?k3 = (st k)(cur k \<mapsto> THREAD_ZOMBIE)" and f3: "g_runq ?k3 = g_runq k"
    "g_zombies ?k3 = g_zombies k @ [cur k]" "cur ?k3 = cur k"
    by (simp_all add: sched_zombify_def)
  have dom3: "dom (threads ?k3) = dom (threads k)"
    using th by (auto simp: sched_zombify_def del_sibling_def dom_def)
  have inv3: "sched_inv ?k3"
    unfolding sched_inv_def st3 f3 using sched_invD(4) [OF inv, of "cur k"] c
    by (intro queues_ok_bury queues_ok_stop inv [unfolded sched_inv_def]) auto
  obtain k' where k': "schedule ?k3 = Some k'" "sched_inv k'" "cur k' = hd (g_runq k)"
    "g_runq k' = tl (g_runq k)" "cur_state k' = Some THREAD_RUNNING" "same_threads ?k3 k'"
    using schedule_inv [OF inv3, of "g_runq k"] q unfolding st3 f3 by auto
  have "dom (threads k') = dom (threads ?k3)"
    by (rule same_threads_dom [OF k'(6)])
  moreover have "thread_exit k = schedule ?k3"
    using th by (simp add: thread_exit_def upd_def)
  moreover have "g_zombies k' = g_zombies ?k3"
    using k'(6) by (simp add: same_threads_def)
  ultimately show ?thesis
    using k' dom3 f3(2) by simp
qed

lemma thread_wakeup_inv:
  assumes inv: "sched_inv k" and c: "cur_state k = Some THREAD_RUNNING" and t: "t = NULL \<or> t \<in> dom (threads k)"
  shows "\<exists>k'. thread_wakeup k t = Some k' \<and> sched_inv k' \<and> cur k' = cur k \<and>
    cur_state k' = Some THREAD_RUNNING \<and> same_threads k k' \<and>
    g_runq k' = g_runq k @ (if st k t = Some THREAD_BLOCKED \<and> t \<noteq> NULL then [t] else [])"
proof (cases "t \<noteq> NULL \<and> st k t = Some THREAD_BLOCKED")
  case True
  then obtain th where th: "threads k t = Some th" "state th = THREAD_BLOCKED"
    using st_Some by blast
  let ?k = "k\<lparr>threads := (threads k)(t \<mapsto> th\<lparr>state := THREAD_READY\<rparr>), g_runq := g_runq k @ [t]\<rparr>"
  have run: "thread_wakeup k t = Some ?k"
    using True th by (simp add: thread_wakeup_def upd_def)
  have tc: "t \<noteq> cur k"
    using True c by auto
  have st': "st ?k = (st k)(t \<mapsto> THREAD_READY)"
    by (simp add: st_def fun_eq_iff)
  have "sched_inv ?k"
    using queues_ok_wake [OF inv [unfolded sched_inv_def], of t] True by (simp add: sched_inv_def st')
  moreover have "same_threads k ?k"
    using th by (auto simp: same_threads_def strip_def)
  ultimately show ?thesis
    using run tc c True st' by simp
next
  case False
  then have "thread_wakeup k t = Some k"
    using t by (auto simp: thread_wakeup_def st_def)
  with inv c False show ?thesis
    by (auto simp: same_threads_def)
qed

section \<open>Round robin\<close>

fun yields :: "nat \<Rightarrow> kernel \<Rightarrow> kernel option" where
  "yields 0 k = Some k"
| "yields (Suc n) k = do { k1 \<leftarrow> schedule k; yields n k1 }"

lemma yields_rotate:
  assumes "sched_inv k" and "cur_state k = Some THREAD_RUNNING"
  shows "\<exists>k'. yields n k = Some k' \<and> cur k' # g_runq k' = rotate n (cur k # g_runq k) \<and>
    sched_inv k' \<and> cur_state k' = Some THREAD_RUNNING \<and> same_threads k k'"
  using assms
proof (induction n arbitrary: k)
  case 0
  then show ?case by (simp add: same_threads_def)
next
  case (Suc n)
  let ?q = "g_runq k @ [cur k]"
  obtain k1 where k1: "schedule k = Some k1" "sched_inv k1" "cur k1 = hd ?q" "g_runq k1 = tl ?q"
    "cur_state k1 = Some THREAD_RUNNING" "same_threads k k1"
    using schedule_inv [OF Suc.prems(1), of ?q] Suc.prems(2) by auto
  have rot: "cur k1 # g_runq k1 = rotate1 (cur k # g_runq k)"
    using k1(3,4) by (cases "g_runq k") simp_all
  obtain k' where "yields n k1 = Some k'" "cur k' # g_runq k' = rotate n (cur k1 # g_runq k1)"
    "sched_inv k'" "cur_state k' = Some THREAD_RUNNING" "same_threads k1 k'"
    using Suc.IH [OF k1(2,5)] by blast
  then show ?case
    using k1(1,6) same_threads_trans unfolding rot by (auto simp: rotate1_rotate_swap)
qed

section \<open>Bounded waiting\<close>

text \<open>What the running thread may do to the queue: yield, block, exit, or wake another thread.\<close>

datatype sched_event = Yield | Block | Exit | Wake u64

fun sched_do :: "sched_event \<Rightarrow> kernel \<Rightarrow> kernel option" where
  "sched_do Yield k = schedule k"
| "sched_do Block k = thread_block k"
| "sched_do Exit k = thread_exit k"
| "sched_do (Wake t) k = thread_wakeup k t"

fun sched_trace :: "sched_event list \<Rightarrow> kernel \<Rightarrow> kernel list option" where
  "sched_trace [] k = Some [k]"
| "sched_trace (e # es) k = do { k1 \<leftarrow> sched_do e k; ks \<leftarrow> sched_trace es k1; Some (k # ks) }"

definition switches :: "sched_event list \<Rightarrow> nat" where
  "switches es = length (filter (\<lambda>e. \<forall>t. e \<noteq> Wake t) es)"

lemma sched_do_progress:
  assumes inv: "sched_inv k" and c: "cur_state k = Some THREAD_RUNNING"
    and q: "g_runq k = xs @ t # ys" and w: "\<forall>u. e = Wake u \<longrightarrow> u = NULL \<or> u \<in> dom (threads k)"
  shows "\<exists>k1. sched_do e k = Some k1 \<and> sched_inv k1 \<and> cur_state k1 = Some THREAD_RUNNING \<and>
    dom (threads k1) = dom (threads k) \<and>
    (if \<exists>u. e = Wake u then \<exists>zs. g_runq k1 = xs @ t # zs
     else if xs = [] then cur k1 = t else \<exists>zs. g_runq k1 = tl xs @ t # zs)"
proof -
  have ne: "g_runq k \<noteq> []"
    using q by simp
  have shift: "hd q' = (if xs = [] then t else hd xs) \<and> (xs \<noteq> [] \<longrightarrow> (\<exists>zs. tl q' = tl xs @ t # zs))"
    if "\<exists>zs. q' = xs @ t # zs" for q'
    using that by (cases xs) auto
  show ?thesis
  proof (cases e)
    case Yield
    obtain k1 where k1: "schedule k = Some k1" "sched_inv k1" "cur k1 = hd (g_runq k @ [cur k])"
      "g_runq k1 = tl (g_runq k @ [cur k])" "cur_state k1 = Some THREAD_RUNNING" "same_threads k k1"
      using schedule_inv [OF inv, of "g_runq k @ [cur k]"] c by auto
    have "\<exists>zs. g_runq k @ [cur k] = xs @ t # zs"
      using q by simp
    with shift [OF this] k1 same_threads_dom [OF k1(6)] Yield show ?thesis by auto
  next
    case Block
    obtain k1 where k1: "thread_block k = Some k1" "sched_inv k1" "cur k1 = hd (g_runq k)"
      "g_runq k1 = tl (g_runq k)" "cur_state k1 = Some THREAD_RUNNING" "same_threads k k1"
      using thread_block_inv [OF inv c ne] by blast
    with shift [of "g_runq k"] q same_threads_dom [OF k1(6)] Block show ?thesis by auto
  next
    case Exit
    obtain k1 where "thread_exit k = Some k1" "sched_inv k1" "cur k1 = hd (g_runq k)"
      "g_runq k1 = tl (g_runq k)" "cur_state k1 = Some THREAD_RUNNING" "dom (threads k1) = dom (threads k)"
      using thread_exit_inv [OF inv c ne] by blast
    with shift [of "g_runq k"] q Exit show ?thesis by auto
  next
    case (Wake u)
    obtain k1 zs where k1: "thread_wakeup k u = Some k1" "sched_inv k1" "cur_state k1 = Some THREAD_RUNNING"
      "same_threads k k1" "g_runq k1 = g_runq k @ zs"
      using thread_wakeup_inv [OF inv c, of u] w Wake by auto
    with q same_threads_dom [OF k1(4)] Wake show ?thesis by auto
  qed
qed

lemma bounded_waiting:
  assumes "sched_inv k" and "cur_state k = Some THREAD_RUNNING" and "g_runq k = xs @ t # ys"
    and "length xs < switches es" and "\<forall>u. Wake u \<in> set es \<longrightarrow> u = NULL \<or> u \<in> dom (threads k)"
  shows "\<exists>es1 es2 ks k'. es = es1 @ es2 \<and> sched_trace es1 k = Some ks \<and> last ks = k' \<and> cur k' = t \<and>
    sched_inv k' \<and> cur_state k' = Some THREAD_RUNNING"
  using assms
proof (induction es arbitrary: k xs ys)
  case Nil
  then show ?case by (simp add: switches_def)
next
  case (Cons e es)
  obtain k1 where k1: "sched_do e k = Some k1" "sched_inv k1" "cur_state k1 = Some THREAD_RUNNING"
    "dom (threads k1) = dom (threads k)"
    "if \<exists>u. e = Wake u then \<exists>zs. g_runq k1 = xs @ t # zs
     else if xs = [] then cur k1 = t else \<exists>zs. g_runq k1 = tl xs @ t # zs"
    using sched_do_progress [OF Cons.prems(1-3), of e] Cons.prems(5) by auto
  show ?case
  proof (cases "(\<forall>u. e \<noteq> Wake u) \<and> xs = []")
    case True
    then have "sched_trace [e] k = Some [k, k1]" "cur k1 = t"
      using k1 by auto
    then show ?thesis
      using k1(2,3) by (intro exI [of _ "[e]"] exI [of _ es]) auto
  next
    case False
    obtain xs' zs where next_q: "g_runq k1 = xs' @ t # zs" "length xs' < switches es"
    proof (cases "\<exists>u. e = Wake u")
      case True
      with k1(5) Cons.prems(4) that [of xs] show ?thesis
        by (auto simp: switches_def)
    next
      case wake: False
      with k1(5) Cons.prems(4) False that [of "tl xs"] show ?thesis
        by (cases xs) (auto simp: switches_def)
    qed
    have "\<forall>u. Wake u \<in> set es \<longrightarrow> u = NULL \<or> u \<in> dom (threads k1)"
      using Cons.prems(5) k1(4) by auto
    from Cons.IH [OF k1(2,3) next_q this] obtain es1 es2 ks k' where
      "es = es1 @ es2" "sched_trace es1 k1 = Some ks" "last ks = k'" "cur k' = t" "sched_inv k'"
      "cur_state k' = Some THREAD_RUNNING"
      by blast
    moreover have "ks \<noteq> []"
      using \<open>sched_trace es1 k1 = Some ks\<close> by (cases es1) (auto simp: bind_eq_Some_conv)
    ultimately show ?thesis
      using k1(1) by (intro exI [of _ "e # es1"] exI [of _ es2]) auto
  qed
qed

section \<open>Contexts\<close>

text \<open>Between two events the current thread computes: it leaves the registers as it likes. \<open>run_until t\<close>
  runs events up to the first after which \<open>t\<close> is current.\<close>

fun run_until :: "u64 \<Rightarrow> (sched_event \<times> thread_ctx) list \<Rightarrow> kernel \<Rightarrow> kernel option" where
  "run_until t [] k = None"
| "run_until t ((e, r) # es) k =
     do { k1 \<leftarrow> sched_do e (k\<lparr>hart := r\<rparr>); if cur k1 = t then Some k1 else run_until t es k1 }"

definition saved_ctx :: "kernel \<Rightarrow> u64 \<Rightarrow> thread_ctx option" where
  "saved_ctx k t = map_option ctx (threads k t)"

lemma schedule_ctx:
  assumes "schedule k = Some k'"
  shows "t \<noteq> cur k \<Longrightarrow> saved_ctx k' t = saved_ctx k t"
    and "cur k' \<noteq> cur k \<Longrightarrow> saved_ctx k' (cur k) = Some (hart k)"
    and "cur k' \<noteq> cur k \<Longrightarrow> saved_ctx k (cur k') = Some (hart k')"
    and "cur k' = cur k \<Longrightarrow> hart k' = hart k"
  using assms
  by (auto simp: schedule_def switch_to_def upd_def saved_ctx_def del_link_def bind_eq_Some_conv
      split: if_splits option.splits list.splits)

lemma upd_saved_ctx:
  assumes "upd k t f = Some k'" and "\<And>th. ctx (f th) = ctx th"
  shows "saved_ctx k' u = saved_ctx k u" and "cur k' = cur k" and "hart k' = hart k"
  using assms by (auto simp: upd_def saved_ctx_def split: option.splits)

lemma del_sibling_ctx [simp]: "saved_ctx (del_sibling c k) u = saved_ctx k u" "hart (del_sibling c k) = hart k"
  by (auto simp: saved_ctx_def del_sibling_def option.map_comp comp_def)

lemma zombify_ctx [simp]:
  "saved_ctx (sched_zombify k c) u = saved_ctx k u" "cur (sched_zombify k c) = cur k" "hart (sched_zombify k c) = hart k"
  by (simp_all add: saved_ctx_def sched_zombify_def)

text \<open>Every event leaves a context alone unless it switches, and a switch saves and loads whole contexts.\<close>

lemma sched_do_pre:
  assumes "sched_do e k = Some k'"
  obtains (switch) k1 where "schedule k1 = Some k'" "cur k1 = cur k" "hart k1 = hart k" "\<And>u. saved_ctx k1 u = saved_ctx k u"
  | (wake) "cur k' = cur k" "hart k' = hart k" "\<And>u. saved_ctx k' u = saved_ctx k u"
proof (cases e)
  case Yield
  then show ?thesis
    using assms switch [of k] by simp
next
  case Block
  then obtain k1 where k1: "upd k (cur k) (\<lambda>th. th\<lparr>state := THREAD_BLOCKED\<rparr>) = Some k1" "schedule k1 = Some k'"
    using assms by (auto simp: thread_block_def bind_eq_Some_conv)
  show ?thesis
    by (rule switch [OF k1(2)]) (simp_all add: upd_saved_ctx [OF k1(1)])
next
  case Exit
  then obtain k1 and self :: thread where k1: "upd k (cur k) (\<lambda>th. th\<lparr>state := THREAD_ZOMBIE\<rparr>) = Some k1"
    "schedule (sched_zombify (if parent self \<noteq> NULL then del_sibling (cur k) k1 else k1) (cur k)) = Some k'"
    using assms by (simp add: thread_exit_def bind_eq_Some_conv Let_def) blast
  show ?thesis
    by (rule switch [OF k1(2)]) (simp_all add: upd_saved_ctx [OF k1(1)])
next
  case (Wake t)
  show ?thesis
  proof (rule wake)
    fix u
    show "cur k' = cur k" "hart k' = hart k" "saved_ctx k' u = saved_ctx k u"
      using assms Wake by (auto simp: thread_wakeup_def upd_def saved_ctx_def bind_eq_Some_conv
          split: if_splits option.splits)
  qed
qed

lemma sched_do_ctx:
  assumes "sched_do e k = Some k'" and "t \<noteq> cur k"
  shows "saved_ctx k' t = saved_ctx k t" and "cur k' = t \<Longrightarrow> saved_ctx k t = Some (hart k')"
  using assms(1)
  by (rule sched_do_pre; use schedule_ctx(1) [of _ k' t] schedule_ctx(3) [of _ k'] assms(2) in force)+

lemma run_until_ctx:
  "run_until t es k = Some k' \<Longrightarrow> t \<noteq> cur k \<Longrightarrow> saved_ctx k t = Some r \<Longrightarrow> hart k' = r"
proof (induction t es k rule: run_until.induct)
  case (2 t e r' es k)
  from 2(2) obtain k1 where k1: "sched_do e (k\<lparr>hart := r'\<rparr>) = Some k1"
    and rest: "(if cur k1 = t then Some k1 else run_until t es k1) = Some k'"
    by (auto simp: bind_eq_Some_conv)
  have "saved_ctx (k\<lparr>hart := r'\<rparr>) t = Some r" "t \<noteq> cur (k\<lparr>hart := r'\<rparr>)"
    using 2(3,4) by (simp_all add: saved_ctx_def)
  with sched_do_ctx [OF k1] have "saved_ctx k1 t = Some r" "cur k1 = t \<Longrightarrow> hart k1 = r"
    by simp_all
  with 2(1) [OF k1] rest show ?case
    by (auto split: if_splits)
qed simp

section \<open>Properties\<close>

definition sample_thread :: "i32 \<Rightarrow> thread_state \<Rightarrow> u64 list \<Rightarrow> thread" where
  "sample_thread n s cs = \<lparr>ctx = zero_ctx, tid = n, pid = n, state = s, entry = 0, kstack_base = NULL,
     kstack_size = 0, parent = (if n = 0 then NULL else 0x1000), children = cs, exit_status = 0, image_base = NULL,
     image_size = 0, total_size = 0, sig = signal_state_init, kframe = zero_frame\<rparr>"

text \<open>Three threads, the first of which runs.\<close>

definition sample_kernel :: kernel where
  "sample_kernel =
     \<lparr>threads = [0x1000 \<mapsto> sample_thread 0 THREAD_RUNNING [0x2000, 0x3000],
                 0x2000 \<mapsto> sample_thread 1 THREAD_READY [], 0x3000 \<mapsto> sample_thread 2 THREAD_READY []],
      g_runq = [0x2000, 0x3000], g_zombies = [], g_next_tid = 3, g_need_resched = False, g_user_base = 0,
      cur = 0x1000, hart = zero_ctx, csr_sstatus = 0, k_heap = sample_heap, k_mem = (\<lambda>_. 0),
      g_bootstrap = 0x1000, thread_entry_trampoline = 0, user_thread_bootstrap = 0\<rparr>"

lemma sample_kernel_ok: "sched_inv sample_kernel" "cur_state sample_kernel = Some THREAD_RUNNING"
  by (auto simp: sched_inv_def st_def sample_kernel_def sample_thread_def intro!: queues_okI split: if_splits)

text \<open>
  C7: The scheduler is round robin. \<open>n\<close> calls of \<^verbatim>\<open>schedule\<close> from a running thread return, and rotate the
  sequence of the current thread and the ready queue by \<open>n\<close> places; the invariant holds again, and
  apart from states and saved contexts every thread, the heap and the zombie queue are as
  before.
\<close>

theorem schedule_round_robin:
  assumes "sched_inv k" and "cur_state k = Some THREAD_RUNNING"
  shows "\<exists>k'. yields n k = Some k' \<and> cur k' # g_runq k' = rotate n (cur k # g_runq k) \<and>
    sched_inv k' \<and> cur_state k' = Some THREAD_RUNNING \<and> same_threads k k'"
  by (rule yields_rotate [OF assms])

theorem schedule_round_robin_witness:
  "\<exists>k'. yields 4 sample_kernel = Some k' \<and> cur k' # g_runq k' = [0x2000, 0x3000, 0x1000]"
proof -
  have "rotate 4 (cur sample_kernel # g_runq sample_kernel) = [0x2000, 0x3000, 0x1000]"
    by (simp add: sample_kernel_def numeral_eq_Suc)
  with schedule_round_robin [OF sample_kernel_ok, of 4] show ?thesis
    by metis
qed

text \<open>
  C8: No ready thread waits for ever. If \<open>t\<close> has \<open>n\<close> threads before it in the ready queue, then whatever
  the threads do (yield, block, exit, wake one another), the kernel does not get stuck before
  \<open>t\<close> runs, and \<open>t\<close> runs after at most \<open>n + 1\<close> of these actions that give up the processor.
\<close>

theorem ready_thread_runs:
  assumes "sched_inv k" and "cur_state k = Some THREAD_RUNNING" and "g_runq k = xs @ t # ys"
    and "length xs < switches es" and "\<forall>u. Wake u \<in> set es \<longrightarrow> u = NULL \<or> u \<in> dom (threads k)"
  shows "\<exists>es1 es2 ks k'. es = es1 @ es2 \<and> sched_trace es1 k = Some ks \<and> last ks = k' \<and> cur k' = t \<and>
    sched_inv k' \<and> cur_state k' = Some THREAD_RUNNING"
  by (rule bounded_waiting [OF assms])

theorem ready_thread_runs_witness:
  "\<exists>es1 es2 ks k'. [Block, Wake 0x1000, Exit] = es1 @ es2 \<and> sched_trace es1 sample_kernel = Some ks \<and>
    last ks = k' \<and> cur k' = 0x3000"
proof -
  have "g_runq sample_kernel = [0x2000] @ 0x3000 # []" and "length [0x2000::u64] < switches [Block, Wake 0x1000, Exit]"
    and "\<forall>u. Wake u \<in> set [Block, Wake 0x1000, Exit] \<longrightarrow> u = NULL \<or> u \<in> dom (threads sample_kernel)"
    by (simp_all add: sample_kernel_def switches_def)
  from ready_thread_runs [OF sample_kernel_ok this] show ?thesis
    by blast
qed

text \<open>
  C9: A thread gets its registers back. If the current thread gives up the processor with register
  contents \<open>r\<close>, then whatever the other threads do and leave in the registers, when it is current
  again the registers hold \<open>r\<close>.
\<close>

theorem context_restored:
  assumes "sched_do e (k\<lparr>hart := r\<rparr>) = Some k1" and "cur k1 \<noteq> cur k" and "run_until (cur k) es k1 = Some k2"
  shows "cur k2 = cur k \<and> hart k2 = r"
proof
  show "cur k2 = cur k"
    using assms(3) by (induction "cur k" es k1 rule: run_until.induct) (auto simp: bind_eq_Some_conv split: if_splits)
  have "saved_ctx k1 (cur k) = Some r"
    using assms(1) by (rule sched_do_pre) (use assms(2) schedule_ctx(2) [of _ k1] in force)+
  then show "hart k2 = r"
    using run_until_ctx [OF assms(3)] assms(2) by simp
qed

theorem context_restored_witness:
  "\<exists>k1 k2. sched_do Yield (sample_kernel\<lparr>hart := zero_ctx\<lparr>ctx_s0 := 7\<rparr>\<rparr>) = Some k1 \<and>
     run_until 0x1000 [(Yield, zero_ctx\<lparr>ctx_s0 := 8\<rparr>), (Block, zero_ctx)] k1 = Some k2 \<and> hart k2 = zero_ctx\<lparr>ctx_s0 := 7\<rparr>"
proof -
  let ?r = "zero_ctx\<lparr>ctx_s0 := 7\<rparr>" and ?es = "[(Yield, zero_ctx\<lparr>ctx_s0 := 8\<rparr>), (Block, zero_ctx)]"
  obtain k1 where k1: "sched_do Yield (sample_kernel\<lparr>hart := ?r\<rparr>) = Some k1" "cur k1 \<noteq> cur sample_kernel"
    and "\<exists>k2. run_until (cur sample_kernel) ?es k1 = Some k2"
    by (simp add: sample_kernel_def sample_thread_def schedule_def thread_block_def upd_def del_link_def switch_to_def)
  then obtain k2 where k2: "run_until (cur sample_kernel) ?es k1 = Some k2"
    by blast
  with k1 context_restored [OF k1 k2] show ?thesis
    by (auto simp: sample_kernel_def)
qed

end
