(* ===== verification/Memory_Words.thy ===== *)
theory Memory_Words
  imports Utils
begin

text \<open>
  Little-endian words in byte-addressed memory: what the compiled kernel does when it stores or
  loads a 32-bit or a 64-bit object through a pointer.
\<close>

fun store_bytes :: "mem \<Rightarrow> u64 \<Rightarrow> u8 list \<Rightarrow> mem" where
  "store_bytes m a [] = m"
| "store_bytes m a (b # bs) = store_bytes (m(a := b)) (a + 1) bs"

definition le_bytes :: "nat \<Rightarrow> 'w::len word \<Rightarrow> u8 list" where
  "le_bytes n w = map (\<lambda>i. ucast (drop_bit (8 * i) w)) [0..<n]"

definition store32 :: "mem \<Rightarrow> u64 \<Rightarrow> u32 \<Rightarrow> mem" where
  "store32 m a w = store_bytes m a (le_bytes 4 w)"

definition store64 :: "mem \<Rightarrow> u64 \<Rightarrow> u64 \<Rightarrow> mem" where
  "store64 m a w = store_bytes m a (le_bytes 8 w)"

definition load32 :: "mem \<Rightarrow> u64 \<Rightarrow> u32" where
  "load32 m a = foldr (\<lambda>i w. ucast (m (a + of_nat i)) OR push_bit 8 w) [0..<4] 0"

definition load64 :: "mem \<Rightarrow> u64 \<Rightarrow> u64" where
  "load64 m a = foldr (\<lambda>i w. ucast (m (a + of_nat i)) OR push_bit 8 w) [0..<8] 0"

lemma unat_add_small: "unat (a :: u64) + n < 2 ^ 64 \<Longrightarrow> unat (a + of_nat n) = unat a + n"
proof -
  assume n: "unat a + n < 2 ^ 64"
  then have "unat (of_nat n :: u64) = n"
    by (simp add: unat_of_nat)
  with n show ?thesis
    using unat_add_lem [of a "of_nat n"] by simp
qed

lemma store_bytes_other:
  "\<forall>i<length bs. x \<noteq> a + of_nat i \<Longrightarrow> store_bytes m a bs x = m x"
proof (induction bs arbitrary: m a)
  case (Cons b bs)
  have "x \<noteq> a"
    using Cons.prems [rule_format, of 0] by simp
  moreover have "\<forall>i<length bs. x \<noteq> a + 1 + of_nat i"
    using Cons.prems by (auto dest: spec [of _ "Suc _"] simp: algebra_simps)
  ultimately show ?case
    using Cons.IH [of "a + 1"] by simp
qed simp

lemma store_bytes_at:
  "length bs < 2 ^ 64 \<Longrightarrow> i < length bs \<Longrightarrow> store_bytes m a bs (a + of_nat i) = bs ! i"
proof (induction bs arbitrary: m a i)
  case (Cons b bs)
  show ?case
  proof (cases i)
    case 0
    have "a \<noteq> a + 1 + of_nat j" if "j < length bs" for j
    proof
      assume "a = a + 1 + of_nat j"
      then have "(of_nat (Suc j) :: u64) = 0"
        by (simp add: algebra_simps)
      moreover have "unat (of_nat (Suc j) :: u64) = Suc j"
        using that Cons.prems by (simp only: unat_of_nat) simp
      ultimately show False by simp
    qed
    then have "store_bytes (m(a := b)) (a + 1) bs a = (m(a := b)) a"
      by (intro store_bytes_other) blast
    with 0 show ?thesis by simp
  next
    case (Suc j)
    with Cons.prems Cons.IH [of j _ "a + 1"] show ?thesis
      by (simp add: algebra_simps)
  qed
qed simp

lemma bytes_join:
  fixes x :: "'w::len word"
  shows "ucast (ucast x :: u8) OR push_bit 8 (take_bit n (drop_bit 8 x)) = take_bit (n + 8) x"
  by (rule bit_word_eqI) (auto simp: bit_simps)

lemma le_bytes_join:
  fixes w :: "'w::len word"
  shows "foldr (\<lambda>i v. ucast (ucast (drop_bit (8 * i) w) :: u8) OR push_bit 8 v) [k..<k + n] 0 =
    take_bit (8 * n) (drop_bit (8 * k) w)"
proof (induction n arbitrary: k)
  case (Suc n)
  have "[k..<k + Suc n] = k # [Suc k..<Suc k + n]"
    by (simp add: upt_conv_Cons)
  moreover have "drop_bit (8 * Suc k) w = drop_bit 8 (drop_bit (8 * k) w)"
    by (simp add: drop_bit_drop_bit add.commute)
  ultimately show ?case
    using Suc.IH [of "Suc k"] bytes_join [of "drop_bit (8 * k) w" "8 * n"] by (simp add: add.commute)
qed simp

lemma load64_store64 [simp]: "load64 (store64 m a w) a = w"
proof -
  have byte: "store64 m a w (a + of_nat i) = ucast (drop_bit (8 * i) w)" if "i \<in> set [0..<8]" for i
    using store_bytes_at [of "le_bytes 8 w" i m a] that by (simp add: store64_def le_bytes_def)
  have "load64 (store64 m a w) a =
      foldr (\<lambda>i v. ucast (ucast (drop_bit (8 * i) w) :: u8) OR push_bit 8 v) [0..<0 + 8] 0"
    unfolding load64_def by (rule foldr_cong) (auto simp: byte)
  then show ?thesis
    unfolding le_bytes_join by (simp add: take_bit_word_eq_self)
qed

lemma load32_store32 [simp]: "load32 (store32 m a w) a = w"
proof -
  have byte: "store32 m a w (a + of_nat i) = ucast (drop_bit (8 * i) w)" if "i \<in> set [0..<4]" for i
    using store_bytes_at [of "le_bytes 4 w" i m a] that by (simp add: store32_def le_bytes_def)
  have "load32 (store32 m a w) a =
      foldr (\<lambda>i v. ucast (ucast (drop_bit (8 * i) w) :: u8) OR push_bit 8 v) [0..<0 + 4] 0"
    unfolding load32_def by (rule foldr_cong) (auto simp: byte)
  then show ?thesis
    unfolding le_bytes_join by (simp add: take_bit_word_eq_self)
qed

end
