(* ===== verification/Signal.thy ===== *)
theory Signal
  imports Sched_Inv Memory_Words
begin

text \<open>
  Signals (\<^verbatim>\<open>kernel/src/signal.c\<close>): posting, delivery on the way back to user mode, the return from a
  handler and the default action. The trap frame that the code reaches through \<^verbatim>\<open>tf\<close> is the frame at
  the top of the current thread's kernel stack, \<open>kframe\<close> of the current thread.
\<close>

section \<open>Model\<close>

definition TRAMPOLINE_INST0 :: u32 where
  "TRAMPOLINE_INST0 = 0x00b00893"

definition TRAMPOLINE_INST1 :: u32 where
  "TRAMPOLINE_INST1 = 0x00000073"

text \<open>\<^const>\<open>None\<close> is the endless loop on 0.\<close>

partial_function (option) lowest_bit_loop :: "u64 \<Rightarrow> nat \<Rightarrow> nat option" where
  "lowest_bit_loop x idx = (if x AND 1 = 0 then lowest_bit_loop (drop_bit 1 x) (idx + 1) else Some idx)"

definition lowest_bit_index :: "u64 \<Rightarrow> nat option" where
  "lowest_bit_index x = lowest_bit_loop x 0"

definition signal_post :: "kernel \<Rightarrow> u64 \<Rightarrow> i32 \<Rightarrow> kernel option" where
  "signal_post k t signum =
     (if t = NULL \<or> sint signum \<le> 0 \<or> int NSIG \<le> sint signum then Some k
      else upd k t (\<lambda>th. th\<lparr>sig := (sig th)\<lparr>sig_pending := sig_pending (sig th) OR push_bit (unat signum) 1\<rparr>\<rparr>))"

definition signal_release :: "kernel \<Rightarrow> u64 \<Rightarrow> kernel option" where
  "signal_release k t =
     (if t = NULL then Some k
      else do {
        th \<leftarrow> threads k t;
        k1 \<leftarrow> (if sigstack_base (sig th) \<noteq> NULL
               then do {
                 k' \<leftarrow> k_kfree k (sigstack_base (sig th));
                 upd k' t (\<lambda>th. th\<lparr>sig := (sig th)\<lparr>sigstack_base := NULL\<rparr>\<rparr>)
               }
               else Some k);
        upd k1 t (\<lambda>th. th\<lparr>sig := (sig th)\<lparr>sig_in_handler := False\<rparr>\<rparr>)
      })"

text \<open>\<open>free_image\<close> is the step that the three ways of ending a process share.\<close>

definition free_image :: "kernel \<Rightarrow> u64 \<Rightarrow> kernel option" where
  "free_image k t = do {
     th \<leftarrow> threads k t;
     if image_base th \<noteq> NULL
     then do { k' \<leftarrow> k_kfree k (image_base th); upd k' t (\<lambda>th. th\<lparr>image_base := NULL\<rparr>) }
     else Some k
   }"

definition signal_default_terminate :: "kernel \<Rightarrow> u64 \<Rightarrow> kernel option" where
  "signal_default_terminate k t =
     (if t = NULL then Some k
      else do {
        th \<leftarrow> threads k t;
        let k1 = (if state th = THREAD_READY then del_link t k else k);
        k2 \<leftarrow> upd k1 t (\<lambda>th. th\<lparr>exit_status := -1, state := THREAD_ZOMBIE\<rparr>);
        k3 \<leftarrow> free_image k2 t;
        k4 \<leftarrow> signal_release k3 t;
        if parent th \<noteq> NULL then thread_wakeup k4 (parent th) else Some k4
      })"

definition plant_sigreturn_trampoline :: "mem \<Rightarrow> u64 \<Rightarrow> mem" where
  "plant_sigreturn_trampoline m stack_base =
     store32 (store32 m stack_base TRAMPOLINE_INST0) (stack_base + 4) TRAMPOLINE_INST1"

text \<open>The frame with which the handler starts.\<close>

definition handler_frame :: "trap_frame \<Rightarrow> u64 \<Rightarrow> u64 \<Rightarrow> nat \<Rightarrow> trap_frame" where
  "handler_frame tf h stk signum =
     tf\<lparr>tf_sepc := h, tf_sp := (stk + SIGSTACK_SIZE) AND NOT 0xF, tf_a0 := of_nat signum, tf_ra := stk\<rparr>"

definition signal_check_and_dispatch :: "kernel \<Rightarrow> kernel option" where
  "signal_check_and_dispatch k =
     (if get_current k = NULL then Some k
      else do {
        self \<leftarrow> threads k (cur k);
        if image_base self = NULL \<or> sig_in_handler (sig self) \<or> sig_pending (sig self) = 0 then Some k
        else do {
          signum \<leftarrow> lowest_bit_index (sig_pending (sig self));
          k1 \<leftarrow> upd k (cur k) (\<lambda>th. th\<lparr>sig := (sig th)\<lparr>sig_pending := sig_pending (sig th) AND NOT (push_bit signum 1)\<rparr>\<rparr>);
          h \<leftarrow> (if signum < length (sig_handlers (sig self)) then Some (sig_handlers (sig self) ! signum) else None);
          if h = SIG_IGN then Some k1
          else if h = SIG_DFL then signal_default_terminate k1 (cur k)
          else do {
            k2 \<leftarrow> upd k1 (cur k) (\<lambda>th. th\<lparr>sig := (sig th)\<lparr>sig_saved := kframe th\<rparr>\<rparr>);
            (k3, stk) \<leftarrow> k_kmalloc k2 SIGSTACK_SIZE;
            if stk = NULL then signal_default_terminate k3 (cur k)
            else do {
              k4 \<leftarrow> upd k3 (cur k) (\<lambda>th. th\<lparr>sig := (sig th)\<lparr>sigstack_base := stk, sig_in_handler := True\<rparr>\<rparr>);
              let k5 = k4\<lparr>k_mem := plant_sigreturn_trampoline (k_mem k4) stk\<rparr>;
              upd k5 (cur k) (\<lambda>th. th\<lparr>kframe := handler_frame (kframe th) h stk signum\<rparr>)
            }
          }
        }
      })"

definition signal_return :: "kernel \<Rightarrow> (kernel \<times> u64) option" where
  "signal_return k = do {
     self \<leftarrow> threads k (cur k);
     if \<not> sig_in_handler (sig self) then Some (k, -1)
     else do {
       k1 \<leftarrow> upd k (cur k) (\<lambda>th. th\<lparr>kframe := sig_saved (sig th)\<rparr>);
       k2 \<leftarrow> signal_release k1 (cur k);
       Some (k2, tf_a0 (sig_saved (sig self)))
     }
   }"

end
