(* ===== verification/Ordered_Queue.thy ===== *)
theory Ordered_Queue
  imports OSC_Prelude
begin

text \<open>
  The two queues that the kernel keeps sorted by walking to the insertion point: the bottom-half
  tasks (\<^verbatim>\<open>add_task\<close>) and the timers (\<^verbatim>\<open>add_timer_ticks\<close>). The walk stops at the first entry with a
  strictly greater key. The locale states that law once; its lemmas give the order of the entries
  and that entries with equal keys stay first in, first out.
\<close>

locale ordered_queue =
  fixes key :: "'a \<Rightarrow> 'k::linorder"
    and ins :: "'a \<Rightarrow> 'a list \<Rightarrow> 'a list"
  assumes ins_empty: "ins x [] = [x]"
    and ins_step: "ins x (y # q) = (if key x < key y then x # y # q else y # ins x q)"
begin

lemma ins_mset: "mset (ins x q) = add_mset x (mset q)"
  by (induction q) (simp_all add: ins_empty ins_step)

lemma ins_set: "set (ins x q) = insert x (set q)"
  using ins_mset [of x q] by (metis set_mset_add_mset_insert set_mset_mset)

lemma ins_length: "length (ins x q) = Suc (length q)"
  by (induction q) (simp_all add: ins_empty ins_step)

lemma ins_sorted: "sorted (map key q) \<Longrightarrow> sorted (map key (ins x q))"
proof (induction q)
  case (Cons y q)
  then show ?case
    by (auto simp: ins_step ins_set)
qed (simp add: ins_empty)

text \<open>The new entry comes after every entry with the same key.\<close>

lemma ins_fifo:
  "sorted (map key q) \<Longrightarrow>
     filter (\<lambda>y. key y = k) (ins x q) = filter (\<lambda>y. key y = k) q @ (if key x = k then [x] else [])"
proof (induction q)
  case (Cons y q)
  have "filter (\<lambda>z. key z = k) (y # q) = []" if "key x < key y" "key x = k"
    using that Cons.prems by (force simp: filter_empty_conv)
  with Cons show ?case
    by (auto simp: ins_step)
qed (simp add: ins_empty)

lemma ins_split:
  assumes "sorted (map key q)"
  shows "ins x q = filter (\<lambda>y. key y \<le> key x) q @ x # filter (\<lambda>y. key x < key y) q"
  using assms
proof (induction q)
  case (Cons y q)
  show ?case
  proof (cases "key x < key y")
    case True
    then have "\<forall>z\<in>set (y # q). key x < key z"
      using Cons.prems by auto
    then have "filter (\<lambda>y. key y \<le> key x) (y # q) = []" "filter (\<lambda>z. key x < key z) (y # q) = y # q"
      by (auto simp: filter_empty_conv filter_id_conv not_le)
    with True show ?thesis
      by (simp only: ins_step append_Nil if_True)
  next
    case False
    with Cons show ?thesis
      by (simp add: ins_step not_less)
  qed
qed (simp add: ins_empty)

text \<open>Entries added one after the other come out in the order of a stable sort by key.\<close>

lemma fold_ins_sort: "foldl (\<lambda>q x. ins x q) [] xs = sort_key key xs"
proof -
  have "mset (foldl (\<lambda>q x. ins x q) [] xs) = mset xs \<and> sorted (map key (foldl (\<lambda>q x. ins x q) [] xs)) \<and>
    (\<forall>k. filter (\<lambda>y. key y = k) (foldl (\<lambda>q x. ins x q) [] xs) = filter (\<lambda>y. key y = k) xs)"
  proof (induction xs rule: rev_induct)
    case (snoc x xs)
    then show ?case
      using ins_fifo [of "foldl (\<lambda>q x. ins x q) [] xs" _ x] by (simp add: ins_mset ins_sorted)
  qed simp
  then show ?thesis
    by (intro properties_for_sort_key [symmetric]) (auto simp: eq_commute)
qed

text \<open>A scan from the head that stops at the first entry with a larger key removes exactly the
  entries with a key up to the bound.\<close>

lemma takeWhile_due:
  assumes "sorted (map key q)"
  shows "takeWhile (\<lambda>y. key y \<le> b) q = filter (\<lambda>y. key y \<le> b) q"
    and "dropWhile (\<lambda>y. key y \<le> b) q = filter (\<lambda>y. b < key y) q"
  using assms
proof (induction q)
  case (Cons y q)
  {
    case 1
    have "filter (\<lambda>y. key y \<le> b) q = []" if "\<not> key y \<le> b"
      using 1 that by (intro filter_False) (auto intro: order_trans)
    with 1 Cons.IH(1) show ?case by auto
  next
    case 2
    have "filter (\<lambda>y. b < key y) q = q" if "\<not> key y \<le> b"
      using 2 that by (intro filter_True) (auto simp: not_le intro: order_less_le_trans)
    with 2 Cons.IH(2) show ?case by (auto simp: not_le)
  }
qed simp_all

end

end
