(* ===== verification/Tasks.thy ===== *)
theory Tasks
  imports Kmalloc Ordered_Queue
begin

text \<open>
  The bottom-half task queue of \<^verbatim>\<open>kernel/src/task.c\<close> and the critical sections of
  \<^verbatim>\<open>kernel/include/riscv.h\<close>. A queue node is a heap object; its address is kept for \<^verbatim>\<open>kfree\<close>.
  Callbacks are code addresses: what running one does is a parameter of \<open>task_run_pending\<close>.
  The nesting of calls by interrupts is the step relation \<open>bh_step\<close>.
\<close>

section \<open>Model\<close>

definition TASK_PRIO_IDLE :: i32 where
  "TASK_PRIO_IDLE = 0x7FFFFFFF"

record task_node =
  tn_addr :: u64
  tn_cb :: u64
  tn_arg :: u64
  tn_priority :: i32

text \<open>\<open>sstatus_SIE\<close> is the interrupt enable bit of the hart.\<close>

record tasks =
  g_task_queue :: "task_node list"
  g_running_priority :: i32
  sstatus_SIE :: bool

definition sie_save_clear :: "tasks \<Rightarrow> tasks \<times> bool" where
  "sie_save_clear ts = (ts\<lparr>sstatus_SIE := False\<rparr>, sstatus_SIE ts)"

definition sie_restore :: "bool \<Rightarrow> tasks \<Rightarrow> tasks" where
  "sie_restore flags ts = (if flags then ts\<lparr>sstatus_SIE := True\<rparr> else ts)"

text \<open>The walk of \<^verbatim>\<open>add_task\<close> to the first node with a strictly greater priority value.\<close>

fun task_insert :: "task_node \<Rightarrow> task_node list \<Rightarrow> task_node list" where
  "task_insert n [] = [n]"
| "task_insert n (t # q) =
     (if sint (tn_priority n) < sint (tn_priority t) then n # t # q else t # task_insert n q)"

definition TASK_NODE_SIZE :: u64 where
  "TASK_NODE_SIZE = 40"

definition add_task :: "kheap \<Rightarrow> tasks \<Rightarrow> u64 \<Rightarrow> u64 \<Rightarrow> i32 \<Rightarrow> (kheap \<times> tasks \<times> i32) option" where
  "add_task h ts cb arg prio = do {
     (h', n) \<leftarrow> kmalloc h TASK_NODE_SIZE;
     if n = NULL then Some (h', ts, -1)
     else (let node = \<lparr>tn_addr = n, tn_cb = cb, tn_arg = arg, tn_priority = prio\<rparr>;
               (ts1, flags) = sie_save_clear ts;
               ts2 = ts1\<lparr>g_task_queue := task_insert node (g_task_queue ts1)\<rparr>
           in Some (h', sie_restore flags ts2, 0))
   }"

text \<open>The choice at the top of the loop of \<^verbatim>\<open>task_run_pending\<close>: the head of the queue, unlinked, when
  it has a strictly higher priority than the task that runs on this stack.\<close>

definition task_pick :: "tasks \<Rightarrow> (task_node \<times> tasks) option" where
  "task_pick ts =
     (case g_task_queue ts of
        [] \<Rightarrow> None
      | t # q \<Rightarrow> if sint (tn_priority t) < sint (g_running_priority ts)
                 then Some (t, ts\<lparr>g_task_queue := q\<rparr>) else None)"

text \<open>Before and after a callback.\<close>

definition task_begin :: "task_node \<Rightarrow> tasks \<Rightarrow> tasks" where
  "task_begin t ts = ts\<lparr>g_running_priority := tn_priority t, sstatus_SIE := True\<rparr>"

definition task_end :: "i32 \<Rightarrow> tasks \<Rightarrow> tasks" where
  "task_end prev_prio ts =
     (let (ts1, f2) = sie_save_clear ts in sie_restore f2 (ts1\<lparr>g_running_priority := prev_prio\<rparr>))"

partial_function (option) task_run_pending ::
    "(u64 \<Rightarrow> u64 \<Rightarrow> 'w \<times> kheap \<times> tasks \<Rightarrow> ('w \<times> kheap \<times> tasks) option) \<Rightarrow>
     'w \<times> kheap \<times> tasks \<Rightarrow> ('w \<times> kheap \<times> tasks) option" where
  "task_run_pending run s =
     (case s of (w, h, ts) \<Rightarrow>
        (case sie_save_clear ts of (ts0, flags) \<Rightarrow>
           (case task_pick ts0 of
              None \<Rightarrow> Some (w, h, sie_restore flags ts0)
            | Some (t, ts1) \<Rightarrow>
                Option.bind (run (tn_cb t) (tn_arg t) (w, h, task_begin t ts1)) (\<lambda>(w', h', ts2).
                Option.bind (kfree h' (tn_addr t)) (\<lambda>h''.
                  task_run_pending run (w', h'', task_end (g_running_priority ts1) ts2))))))"

section \<open>The queue\<close>

interpretation tq: ordered_queue "\<lambda>t. sint (tn_priority t)" task_insert
  by unfold_locales simp_all

lemma sie_section [simp]: "sie_restore (sstatus_SIE ts) (ts\<lparr>sstatus_SIE := False\<rparr>) = ts"
  by (cases ts) (simp add: sie_restore_def)

lemma add_task_result:
  assumes "kmalloc h TASK_NODE_SIZE = Some (h', n)"
  shows "add_task h ts cb arg prio =
    (if n = NULL then Some (h', ts, -1)
     else Some (h', ts\<lparr>g_task_queue := task_insert
            \<lparr>tn_addr = n, tn_cb = cb, tn_arg = arg, tn_priority = prio\<rparr> (g_task_queue ts)\<rparr>, 0))"
  using assms by (cases ts) (auto simp: add_task_def sie_save_clear_def sie_restore_def Let_def)

text \<open>The nodes of the queue are distinct objects of the heap.\<close>

definition owns_nodes :: "mrange set \<Rightarrow> u64 list \<Rightarrow> bool" where
  "owns_nodes R as \<longleftrightarrow> distinct as \<and> (\<forall>a\<in>set as. (a, 64) \<in> R)"

lemma find_pool_node: "find_pool TASK_NODE_SIZE = Some 2"
  by (simp add: TASK_NODE_SIZE_def find_pool_def find_pool_from.simps NUM_POOLS_def pool_sizes_def)

lemma owns_nodes_insert:
  assumes "owns_nodes R (map tn_addr q)" and "(tn_addr n, 64) \<notin> R"
  shows "owns_nodes (insert (tn_addr n, 64) R) (map tn_addr (task_insert n q))"
proof -
  have "mset (map tn_addr (task_insert n q)) = add_mset (tn_addr n) (mset (map tn_addr q))"
    by (simp add: tq.ins_mset)
  moreover have "tn_addr n \<notin> set (map tn_addr q)"
    using assms by (auto simp: owns_nodes_def)
  ultimately have "distinct (map tn_addr (task_insert n q))"
    using assms(1) unfolding owns_nodes_def
    by (metis distinct.simps(2) mset.simps(2) mset_eq_imp_distinct_iff)
  moreover have "set (map tn_addr (task_insert n q)) = insert (tn_addr n) (set (map tn_addr q))"
    by (simp add: tq.ins_set)
  ultimately show ?thesis
    using assms(1) by (auto simp: owns_nodes_def)
qed

lemma add_task_live:
  assumes live: "heap_live h R" and own: "owns_nodes R (map tn_addr (g_task_queue ts))"
    and srt: "sorted (map (\<lambda>t. sint (tn_priority t)) (g_task_queue ts))"
  shows "\<exists>h' ts' r. add_task h ts cb arg prio = Some (h', ts', r) \<and>
    (r = -1 \<and> ts' = ts \<and> heap_live h' R \<or>
     r = 0 \<and> (\<exists>n. n \<noteq> NULL \<and> (n, 64) \<notin> R \<and> heap_live h' (insert (n, 64) R) \<and>
       ts' = ts\<lparr>g_task_queue := task_insert
            \<lparr>tn_addr = n, tn_cb = cb, tn_arg = arg, tn_priority = prio\<rparr> (g_task_queue ts)\<rparr> \<and>
       owns_nodes (insert (n, 64) R) (map tn_addr (g_task_queue ts')) \<and>
       sorted (map (\<lambda>t. sint (tn_priority t)) (g_task_queue ts'))))"
proof -
  have "TASK_NODE_SIZE \<noteq> 0"
    by (simp add: TASK_NODE_SIZE_def)
  then obtain h' n where run: "kmalloc h TASK_NODE_SIZE = Some (h', n)"
    and out: "n = NULL \<and> heap_live h' R \<or> n \<noteq> NULL \<and> (n, 64) \<notin> R \<and> heap_live h' (insert (n, 64) R)"
    using kmalloc_small_live [OF live _ find_pool_node] by auto
  let ?n = "\<lparr>tn_addr = n, tn_cb = cb, tn_arg = arg, tn_priority = prio\<rparr>"
  from out show ?thesis
  proof (elim disjE conjE)
    assume "n = NULL" "heap_live h' R"
    then show ?thesis
      using add_task_result [OF run, of ts cb arg prio] by simp
  next
    assume n: "n \<noteq> NULL" "(n, 64) \<notin> R" "heap_live h' (insert (n, 64) R)"
    have "owns_nodes (insert (n, 64) R) (map tn_addr (task_insert ?n (g_task_queue ts)))"
      using owns_nodes_insert [OF own, of ?n] n(2) by simp
    then show ?thesis
      using add_task_result [OF run, of ts cb arg prio] n tq.ins_sorted [OF srt, of ?n]
      by simp (rule exI [of _ n], simp)
  qed
qed

section \<open>Callbacks\<close>

text \<open>What the queue says of a task, without the address of its node.\<close>

type_synonym job = "u64 \<times> u64 \<times> i32"

definition job :: "task_node \<Rightarrow> job" where
  "job t = (tn_cb t, tn_arg t, tn_priority t)"

abbreviation jprio :: "job \<Rightarrow> int" where
  "jprio j \<equiv> sint (snd (snd j))"

fun job_insert :: "job \<Rightarrow> job list \<Rightarrow> job list" where
  "job_insert n [] = [n]"
| "job_insert n (j # q) = (if jprio n < jprio j then n # j # q else j # job_insert n q)"

interpretation jq: ordered_queue jprio job_insert
  by unfold_locales simp_all

lemma job_prio [simp]: "jprio (job t) = sint (tn_priority t)"
  by (simp add: job_def)

lemma jobs_insert: "map job (task_insert n q) = job_insert (job n) (map job q)"
  by (induction q) simp_all

definition node_ranges :: "u64 list \<Rightarrow> mrange set" where
  "node_ranges as = (\<lambda>a. (a, 64)) ` set as"

abbreviation queue_ranges :: "tasks \<Rightarrow> mrange set" where
  "queue_ranges ts \<equiv> node_ranges (map tn_addr (g_task_queue ts))"

text \<open>The heap with the blocks \<open>own w\<close> of the callbacks, the nodes of the queue and the other blocks \<open>N\<close>, all apart.\<close>

definition tasks_heap :: "('w \<Rightarrow> mrange set) \<Rightarrow> 'w \<Rightarrow> mrange set \<Rightarrow> kheap \<Rightarrow> tasks \<Rightarrow> bool" where
  "tasks_heap own w N h ts \<longleftrightarrow>
     heap_live h (own w \<union> queue_ranges ts \<union> N) \<and> distinct (map tn_addr (g_task_queue ts)) \<and>
     own w \<inter> queue_ranges ts = {} \<and> N \<inter> (own w \<union> queue_ranges ts) = {} \<and>
     sorted (map (\<lambda>t. sint (tn_priority t)) (g_task_queue ts))"

text \<open>The abstract effect of callbacks: from the state \<open>w\<close> the callback may go to \<open>w'\<close> and post the tasks \<open>js\<close>.
  A callback has no step in a state in which it must not be called.\<close>

type_synonym 'w effect = "u64 \<Rightarrow> u64 \<Rightarrow> 'w \<Rightarrow> 'w \<Rightarrow> job list \<Rightarrow> bool"

text \<open>The contract of callbacks: they return, with one of their abstract effects, allocate and free blocks of
  their own only, post tasks only with \<^verbatim>\<open>add_task\<close> and give the processor back with the running priority they
  found.\<close>

definition callbacks_ok :: "('w \<Rightarrow> mrange set) \<Rightarrow> 'w effect \<Rightarrow>
    (u64 \<Rightarrow> u64 \<Rightarrow> 'w \<times> kheap \<times> tasks \<Rightarrow> ('w \<times> kheap \<times> tasks) option) \<Rightarrow> bool" where
  "callbacks_ok own eff run \<longleftrightarrow> (\<forall>cb arg w N h ts.
     tasks_heap own w N h ts \<and> (\<exists>w' js. eff cb arg w w' js) \<longrightarrow>
     (\<exists>w' h' ts' js. run cb arg (w, h, ts) = Some (w', h', ts') \<and> eff cb arg w w' js \<and>
        tasks_heap own w' N h' ts' \<and> map job (g_task_queue ts') = foldl (\<lambda>q j. job_insert j q) (map job (g_task_queue ts)) js \<and>
        g_running_priority ts' = g_running_priority ts))"

lemma callbacks_okD:
  assumes "callbacks_ok own eff run" and "tasks_heap own w N h ts" and "eff cb arg w w1 js1"
  obtains w' h' ts' js where "run cb arg (w, h, ts) = Some (w', h', ts')" and "eff cb arg w w' js"
    and "tasks_heap own w' N h' ts'" and "map job (g_task_queue ts') = foldl (\<lambda>q j. job_insert j q) (map job (g_task_queue ts)) js"
    and "g_running_priority ts' = g_running_priority ts"
  using assms unfolding callbacks_ok_def by blast

section \<open>Draining the queue\<close>

lemma task_pick_none:
  assumes "task_pick ts = None" and "sorted (map (\<lambda>t. sint (tn_priority t)) (g_task_queue ts))"
  shows "\<forall>t\<in>set (g_task_queue ts). sint (g_running_priority ts) \<le> sint (tn_priority t)"
  using assms by (auto simp: task_pick_def split: list.splits if_splits)

text \<open>The promise of \<^verbatim>\<open>task_run_pending\<close> on abstract queues: while the head has a higher priority than \<open>p\<close>, it leaves
  the queue and its callback takes effect. \<open>drains p (q, w) js (q', w')\<close> lists the executed tasks;
  \<open>drain_ends p (q, w)\<close> says that this ends whichever effects the callbacks choose.\<close>

inductive drains :: "'w effect \<Rightarrow> int \<Rightarrow> job list \<times> 'w \<Rightarrow> job list \<Rightarrow> job list \<times> 'w \<Rightarrow> bool" for eff p where
  stop: "\<forall>j\<in>set q. p \<le> jprio j \<Longrightarrow> drains eff p (q, w) [] (q, w)"
| next_job: "jprio (cb, arg, prio) < p \<Longrightarrow> eff cb arg w w' js \<Longrightarrow>
    drains eff p (foldl (\<lambda>q j. job_insert j q) q js, w') done_jobs s \<Longrightarrow>
    drains eff p ((cb, arg, prio) # q, w) ((cb, arg, prio) # done_jobs) s"

inductive drain_ends :: "'w effect \<Rightarrow> int \<Rightarrow> job list \<times> 'w \<Rightarrow> bool" for eff p where
  stop: "\<forall>j\<in>set q. p \<le> jprio j \<Longrightarrow> drain_ends eff p (q, w)"
| next_job: "jprio (cb, arg, prio) < p \<Longrightarrow> \<exists>w' js. eff cb arg w w' js \<Longrightarrow>
    \<forall>w' js. eff cb arg w w' js \<longrightarrow> drain_ends eff p (foldl (\<lambda>q j. job_insert j q) q js, w') \<Longrightarrow>
    drain_ends eff p ((cb, arg, prio) # q, w)"

text \<open>One round, with the interrupt bit left aside.\<close>

lemma task_run_pending_none:
  assumes "task_pick ts = None"
  shows "task_run_pending run (w, h, ts) = Some (w, h, ts)"
proof -
  have "task_pick (ts\<lparr>sstatus_SIE := False\<rparr>) = None"
    using assms by (auto simp: task_pick_def split: list.splits if_splits)
  then show ?thesis
    by (subst task_run_pending.simps) (simp add: sie_save_clear_def)
qed

lemma task_run_pending_round:
  assumes "g_task_queue ts = t # q" and "sint (tn_priority t) < sint (g_running_priority ts)"
  shows "task_run_pending run (w, h, ts) =
    Option.bind (run (tn_cb t) (tn_arg t) (w, h, task_begin t (ts\<lparr>sstatus_SIE := False, g_task_queue := q\<rparr>)))
      (\<lambda>(w', h', ts'). Option.bind (kfree h' (tn_addr t)) (\<lambda>h''.
         task_run_pending run (w', h'', task_end (g_running_priority ts) ts')))"
  using assms by (subst task_run_pending.simps, cases ts) (simp add: sie_save_clear_def task_pick_def)

lemma task_end_simps [simp]:
  "g_task_queue (task_end p ts) = g_task_queue ts" "g_running_priority (task_end p ts) = p"
  by (simp_all add: task_end_def sie_save_clear_def sie_restore_def)

lemma task_begin_simps [simp]:
  "g_task_queue (task_begin t ts) = g_task_queue ts" "g_running_priority (task_begin t ts) = tn_priority t"
  by (simp_all add: task_begin_def)

text \<open>The node of a task in progress is one of the other blocks, until it is freed.\<close>

lemma tasks_heap_unlink:
  assumes "tasks_heap own w N h ts" and "g_task_queue ts = t # q" and "g_task_queue ts1 = q"
  shows "tasks_heap own w (insert (tn_addr t, 64) N) h ts1" and "(tn_addr t, 64) \<notin> N"
proof -
  have "own w \<union> node_ranges (map tn_addr (t # q)) \<union> N = own w \<union> node_ranges (map tn_addr q) \<union> insert (tn_addr t, 64) N"
    by (auto simp: node_ranges_def)
  with assms show "tasks_heap own w (insert (tn_addr t, 64) N) h ts1"
    unfolding tasks_heap_def by (simp only: assms(2,3)) (auto simp: node_ranges_def)
  show "(tn_addr t, 64) \<notin> N"
    using assms(1,2) by (auto simp: tasks_heap_def node_ranges_def)
qed

lemma tasks_heap_free:
  assumes "tasks_heap own w (insert (a, 64) N) h ts" and "(a, 64) \<notin> N" and "g_task_queue ts1 = g_task_queue ts"
  shows "\<exists>h'. kfree h a = Some h' \<and> tasks_heap own w N h' ts1"
proof -
  let ?R = "own w \<union> queue_ranges ts \<union> insert (a, 64) N"
  have th: "heap_live h ?R" "(a, 64) \<notin> own w \<union> queue_ranges ts"
    using assms(1) by (auto simp: tasks_heap_def)
  obtain h' where "kfree h a = Some h'" "heap_live h' (?R - {(a, 64)})"
    using heap.free_law [OF th(1), of a 64] by blast
  moreover have "?R - {(a, 64)} = own w \<union> queue_ranges ts \<union> N"
    using th(2) assms(2) by blast
  ultimately show ?thesis
    using assms(1,3) by (auto simp: tasks_heap_def)
qed

text \<open>\<^verbatim>\<open>task_run_pending\<close> keeps the promise with every callback that keeps its contract.\<close>

lemma drain_tasks:
  assumes "callbacks_ok own eff run" and "drain_ends eff (sint p) (map job (g_task_queue ts), w)"
    and "g_running_priority ts = p" and "tasks_heap own w N h ts"
  shows "\<exists>w' h' ts' js. task_run_pending run (w, h, ts) = Some (w', h', ts') \<and>
    drains eff (sint p) (map job (g_task_queue ts), w) js (map job (g_task_queue ts'), w') \<and>
    g_running_priority ts' = p \<and> tasks_heap own w' N h' ts'"
  using assms(2-)
proof (induction "(map job (g_task_queue ts), w)" arbitrary: w h ts rule: drain_ends.induct)
  case (stop w)
  then have "task_pick ts = None"
    by (auto simp: task_pick_def split: list.splits)
  moreover have "drains eff (sint p) (map job (g_task_queue ts), w) [] (map job (g_task_queue ts), w)"
    by (rule drains.stop) (rule stop.hyps)
  ultimately show ?case
    using stop.prems by (intro exI [of _ w] exI [of _ h] exI [of _ ts] exI [of _ "[]"] conjI task_run_pending_none)
next
  case (next_job cb arg prio w q)
  obtain t q0 where q: "g_task_queue ts = t # q0" "job t = (cb, arg, prio)" "map job q0 = q"
    using next_job.hyps(4) by (cases "g_task_queue ts") auto
  have t: "tn_cb t = cb" "tn_arg t = arg" "tn_priority t = prio"
    using q(2) by (simp_all add: job_def)
  let ?ts = "task_begin t (ts\<lparr>sstatus_SIE := False, g_task_queue := q0\<rparr>)"
  have heap: "tasks_heap own w (insert (tn_addr t, 64) N) h ?ts" and tN: "(tn_addr t, 64) \<notin> N"
    using tasks_heap_unlink [OF next_job.prems(2) q(1), of ?ts] by simp_all
  obtain w' h' ts' js where run: "run cb arg (w, h, ?ts) = Some (w', h', ts')" and eff: "eff cb arg w w' js"
    and heap': "tasks_heap own w' (insert (tn_addr t, 64) N) h' ts'"
    and q': "map job (g_task_queue ts') = foldl (\<lambda>q j. job_insert j q) (map job (g_task_queue ?ts)) js"
    using next_job.hyps(2) by (elim exE) (rule callbacks_okD [OF assms(1) heap], assumption, rule that)
  let ?te = "task_end p ts'"
  obtain h'' where h'': "kfree h' (tn_addr t) = Some h''" "tasks_heap own w' N h'' ?te"
    using tasks_heap_free [OF heap' tN, of ?te] by auto
  have "foldl (\<lambda>q j. job_insert j q) q js = map job (g_task_queue ?te) \<and> w' = w'"
    using q' q(3) by simp
  from next_job.hyps(3) [rule_format, OF eff, THEN conjunct2, rule_format, OF this _ h''(2)]
  obtain w2 h2 ts2 js2 where ih: "task_run_pending run (w', h'', ?te) = Some (w2, h2, ts2)"
    "drains eff (sint p) (map job (g_task_queue ?te), w') js2 (map job (g_task_queue ts2), w2)"
    "g_running_priority ts2 = p" "tasks_heap own w2 N h2 ts2"
    by auto
  have lt: "sint (tn_priority t) < sint (g_running_priority ts)"
    using next_job.hyps(1) next_job.prems(1) t(3) by simp
  have "task_run_pending run (w, h, ts) = Some (w2, h2, ts2)"
    using run h''(1) ih(1) by (simp add: task_run_pending_round [OF q(1) lt] next_job.prems(1) t)
  moreover have "drains eff (sint p) (map job (g_task_queue ts), w) ((cb, arg, prio) # js2)
      (map job (g_task_queue ts2), w2)"
    using drains.next_job [where eff = eff, OF next_job.hyps(1) eff] ih(2) q q' by simp
  ultimately show ?case
    using ih(3,4) by blast
qed

lemma drains_rest: "drains eff p s js (q', w') \<Longrightarrow> \<forall>j\<in>set q'. p \<le> jprio j"
  by (induction s js "(q', w')" rule: drains.induct) simp_all

text \<open>When no callback posts anything, the tasks of higher priority run in queue order and the others stay.\<close>

lemma drains_without_posts:
  assumes "\<forall>cb arg w w' js. eff cb arg w w' js \<longrightarrow> js = []"
    and "drains eff p (q, w) js (q', w')" and "sorted (map jprio q)"
  shows "js = filter (\<lambda>j. jprio j < p) q \<and> q' = filter (\<lambda>j. p \<le> jprio j) q"
  using assms(2,3)
proof (induction "(q, w)" js "(q', w')" arbitrary: q w rule: drains.induct)
  case stop
  then show ?case by (auto simp: filter_empty_conv filter_id_conv not_less)
next
  case (next_job cb arg prio w w1 js done_jobs q)
  have "js = []" using assms(1) next_job.hyps(2) by blast
  with next_job show ?case by auto
qed

text \<open>\<^verbatim>\<open>add_task\<close> inside a callback keeps the contract: the task is posted, or the heap has no room for its node.\<close>

lemma add_task_in_callback:
  assumes "tasks_heap own w N h ts"
  shows "\<exists>h' ts' r js. add_task h ts cb arg prio = Some (h', ts', r) \<and> (js = [] \<or> js = [(cb, arg, prio)]) \<and>
    tasks_heap own w N h' ts' \<and> map job (g_task_queue ts') = foldl (\<lambda>q j. job_insert j q) (map job (g_task_queue ts)) js \<and>
    g_running_priority ts' = g_running_priority ts"
proof -
  let ?R = "own w \<union> queue_ranges ts \<union> N"
  have live: "heap_live h ?R" and srt: "sorted (map (\<lambda>t. sint (tn_priority t)) (g_task_queue ts))"
    and own: "owns_nodes ?R (map tn_addr (g_task_queue ts))"
    using assms by (auto simp: tasks_heap_def owns_nodes_def node_ranges_def)
  from add_task_live [OF live own srt, of cb arg prio] obtain h' ts' r where
    run: "add_task h ts cb arg prio = Some (h', ts', r)" and out: "ts' = ts \<and> heap_live h' ?R \<or>
      (\<exists>n. (n, 64) \<notin> ?R \<and> heap_live h' (insert (n, 64) ?R) \<and> ts' = ts\<lparr>g_task_queue := task_insert
         \<lparr>tn_addr = n, tn_cb = cb, tn_arg = arg, tn_priority = prio\<rparr> (g_task_queue ts)\<rparr> \<and>
       owns_nodes (insert (n, 64) ?R) (map tn_addr (g_task_queue ts')) \<and>
       sorted (map (\<lambda>t. sint (tn_priority t)) (g_task_queue ts')))"
    by blast
  from out show ?thesis
  proof (elim disjE exE conjE)
    assume "ts' = ts" "heap_live h' ?R"
    with assms run show ?thesis by (auto simp: tasks_heap_def)
  next
    fix n
    let ?n = "\<lparr>tn_addr = n, tn_cb = cb, tn_arg = arg, tn_priority = prio\<rparr>"
    assume n: "(n, 64) \<notin> ?R" "heap_live h' (insert (n, 64) ?R)"
      "ts' = ts\<lparr>g_task_queue := task_insert ?n (g_task_queue ts)\<rparr>"
      "owns_nodes (insert (n, 64) ?R) (map tn_addr (g_task_queue ts'))"
      "sorted (map (\<lambda>t. sint (tn_priority t)) (g_task_queue ts'))"
    have q: "queue_ranges ts' = insert (n, 64) (queue_ranges ts)"
      by (simp add: n(3) node_ranges_def tq.ins_set)
    then have "own w \<union> queue_ranges ts' \<union> N = insert (n, 64) ?R" by blast
    with assms n(1,2,4,5) q have "tasks_heap own w N h' ts'"
      unfolding tasks_heap_def owns_nodes_def by (intro conjI) auto
    with run n(3) show ?thesis
      by (intro exI [of _ h'] exI [of _ ts'] exI [of _ r] exI [of _ "[(cb, arg, prio)]"]) (simp add: jobs_insert job_def)
  qed
qed

section \<open>Preemption\<close>

text \<open>Interrupts nest calls of \<^verbatim>\<open>task_run_pending\<close>. The call stack, innermost frame first, holds the
  calls that are about to look at the queue (\<open>At_Loop\<close>) and the callbacks in progress, each with
  the priority to restore. A trap may enter a new call at every point: when nothing runs, in a callback, which
  runs with interrupts enabled, and at the head of the loop, where they may be enabled too, after
  \<^verbatim>\<open>sie_restore(f2)\<close>. A task may be posted at any time.\<close>

datatype frame = At_Loop | In_Callback i32 task_node

inductive bh_step :: "tasks \<times> frame list \<Rightarrow> tasks \<times> frame list \<Rightarrow> bool" where
  post: "bh_step (ts, fs) (ts\<lparr>g_task_queue := task_insert n (g_task_queue ts)\<rparr>, fs)"
| enter: "bh_step (ts, fs) (ts, At_Loop # fs)"
| dispatch: "task_pick ts = Some (t, ts1) \<Longrightarrow>
    bh_step (ts, At_Loop # fs) (task_begin t ts1, In_Callback (g_running_priority ts1) t # At_Loop # fs)"
| finish: "bh_step (ts, In_Callback p t # fs) (task_end p ts, fs)"
| leave: "task_pick ts = None \<Longrightarrow> bh_step (ts, At_Loop # fs) (ts, fs)"

inductive bh_reach :: "tasks \<times> frame list \<Rightarrow> bool" where
  start: "bh_reach (\<lparr>g_task_queue = [], g_running_priority = TASK_PRIO_IDLE, sstatus_SIE = b\<rparr>, [])"
| step: "bh_reach s \<Longrightarrow> bh_step s s' \<Longrightarrow> bh_reach s'"

inductive_cases bh_stepE: "bh_step (ts, fs) s'"

fun callbacks :: "frame list \<Rightarrow> task_node list" where
  "callbacks [] = []"
| "callbacks (At_Loop # fs) = callbacks fs"
| "callbacks (In_Callback p t # fs) = t # callbacks fs"

definition top_priority :: "frame list \<Rightarrow> i32" where
  "top_priority fs = (case callbacks fs of [] \<Rightarrow> TASK_PRIO_IDLE | t # _ \<Rightarrow> tn_priority t)"

fun saved_ok :: "frame list \<Rightarrow> bool" where
  "saved_ok [] = True"
| "saved_ok (At_Loop # fs) = saved_ok fs"
| "saved_ok (In_Callback p t # fs) = (p = top_priority fs \<and> sint (tn_priority t) < sint p \<and> saved_ok fs)"

definition bh_inv :: "tasks \<times> frame list \<Rightarrow> bool" where
  "bh_inv s \<longleftrightarrow> (case s of (ts, fs) \<Rightarrow>
     sorted (map (\<lambda>t. sint (tn_priority t)) (g_task_queue ts)) \<and>
     g_running_priority ts = top_priority fs \<and> saved_ok fs)"

lemma task_pick_SomeD:
  assumes "task_pick ts = Some (t, ts1)"
  shows "g_task_queue ts = t # g_task_queue ts1" and "g_running_priority ts1 = g_running_priority ts"
    and "sint (tn_priority t) < sint (g_running_priority ts)"
  using assms by (auto simp: task_pick_def split: list.splits if_splits)

lemma top_priority_simps [simp]:
  "top_priority (At_Loop # fs) = top_priority fs" "top_priority (In_Callback p t # fs) = tn_priority t"
  by (simp_all add: top_priority_def)

lemma bh_step_inv:
  assumes "bh_step s s'" and "bh_inv s"
  shows "bh_inv s'"
  using assms
proof (cases rule: bh_step.cases)
  case (post ts fs n)
  with assms(2) tq.ins_sorted show ?thesis
    by (simp add: bh_inv_def)
next
  case (dispatch ts t ts1 fs)
  note pick = task_pick_SomeD [OF dispatch(3)]
  show ?thesis
    using assms(2) pick unfolding dispatch by (simp add: bh_inv_def task_begin_def)
qed (auto simp: bh_inv_def)

lemma bh_reach_inv: "bh_reach s \<Longrightarrow> bh_inv s"
proof (induction rule: bh_reach.induct)
  case (start b)
  then show ?case
    by (simp add: bh_inv_def top_priority_def)
next
  case (step s s')
  then show ?case
    using bh_step_inv by blast
qed

lemma saved_ok_strict:
  assumes "saved_ok fs"
  shows "sorted_wrt (\<lambda>t u. sint (tn_priority t) < sint (tn_priority u)) (callbacks fs)"
proof -
  have "sorted_wrt (\<lambda>t u. sint (tn_priority t) < sint (tn_priority u)) (callbacks fs) \<and>
      (\<forall>t\<in>set (callbacks fs). sint (top_priority fs) \<le> sint (tn_priority t))"
    using assms
  proof (induction fs rule: saved_ok.induct)
    case (3 p t fs)
    then have "sint (tn_priority t) < sint (tn_priority u)" if "u \<in> set (callbacks fs)" for u
      using that by (auto intro: order_less_le_trans)
    with 3 show ?case
      by (auto simp: less_imp_le)
  qed simp_all
  then show ?thesis ..
qed

section \<open>Properties\<close>

text \<open>
  Tasks posted one after the other to an empty queue stand in it in the order of a stable sort by
  priority: higher priorities first, equal priorities first in, first out.
\<close>

theorem task_queue_priority_fifo:
  "foldl (\<lambda>q n. task_insert n q) [] ns = sort_key (\<lambda>t. sint (tn_priority t)) ns"
  by (rule tq.fold_ins_sort)

text \<open>
  C35: As long as no callback gives the processor to another thread: however interrupts nest the calls of
  \<^verbatim>\<open>task_run_pending\<close>, at whatever point of a callback or of the loop they come, a task is preempted only by
  tasks of strictly higher priority, the recorded running priority is that of the innermost task in
  progress, the queue stays sorted, and a call that looks at it and leaves has left only tasks that do not
  run before the one in progress. For callbacks that yield see \<open>yield_keeps_priority_raised\<close>.
\<close>

theorem preemption_strict:
  assumes "bh_reach (ts, fs)"
  shows "sorted_wrt (\<lambda>t u. sint (tn_priority t) < sint (tn_priority u)) (callbacks fs) \<and>
    g_running_priority ts = top_priority fs \<and>
    sorted (map (\<lambda>t. sint (tn_priority t)) (g_task_queue ts)) \<and>
    (task_pick ts = None \<longrightarrow>
      (\<forall>t\<in>set (g_task_queue ts). sint (g_running_priority ts) \<le> sint (tn_priority t)))"
  using bh_reach_inv [OF assms] saved_ok_strict [of fs] task_pick_none [of ts] unfolding bh_inv_def by auto

definition sample_task :: "u64 \<Rightarrow> i32 \<Rightarrow> task_node" where
  "sample_task a p = \<lparr>tn_addr = a, tn_cb = 0, tn_arg = 0, tn_priority = p\<rparr>"

lemma sample_bh_reach:
  "bh_reach (\<lparr>g_task_queue = [sample_task 1 1], g_running_priority = 2, sstatus_SIE = True\<rparr>,
     [At_Loop, In_Callback TASK_PRIO_IDLE (sample_task 0 2), At_Loop])"
proof -
  let ?idle = "\<lparr>g_task_queue = [], g_running_priority = TASK_PRIO_IDLE, sstatus_SIE = True\<rparr>"
  have "bh_reach (?idle, [])"
    by (rule bh_reach.start)
  from bh_reach.step [OF this bh_step.post [of _ _ "sample_task 0 2"]]
  have "bh_reach (?idle\<lparr>g_task_queue := [sample_task 0 2]\<rparr>, [])"
    by simp
  from bh_reach.step [OF this bh_step.enter]
  have loop: "bh_reach (?idle\<lparr>g_task_queue := [sample_task 0 2]\<rparr>, [At_Loop])" .
  have "task_pick (?idle\<lparr>g_task_queue := [sample_task 0 2]\<rparr>) = Some (sample_task 0 2, ?idle)"
    by (simp add: task_pick_def sample_task_def TASK_PRIO_IDLE_def)
  from bh_reach.step [OF loop bh_step.dispatch [OF this]]
  have "bh_reach (?idle\<lparr>g_running_priority := 2\<rparr>, [In_Callback TASK_PRIO_IDLE (sample_task 0 2), At_Loop])"
    by (simp add: task_begin_def sample_task_def)
  from bh_reach.step [OF this bh_step.post [of _ _ "sample_task 1 1"]]
  have "bh_reach (?idle\<lparr>g_running_priority := 2, g_task_queue := [sample_task 1 1]\<rparr>,
      [In_Callback TASK_PRIO_IDLE (sample_task 0 2), At_Loop])"
    by simp
  from bh_reach.step [OF this bh_step.enter] show ?thesis
    by simp
qed

theorem preemption_strict_witness:
  "g_running_priority \<lparr>g_task_queue = [sample_task 1 1], g_running_priority = 2, sstatus_SIE = True\<rparr> =
     top_priority [At_Loop, In_Callback TASK_PRIO_IDLE (sample_task 0 2), At_Loop]"
  using preemption_strict [OF sample_bh_reach] by blast

text \<open>
  The other case. A callback that prints yields when the transmit ring is full (\<^verbatim>\<open>uart_putc\<close> calls \<^verbatim>\<open>schedule\<close>),
  with its calls of \<^verbatim>\<open>task_run_pending\<close> still on its stack and its priority still recorded in the one
  \<^verbatim>\<open>g_running_priority\<close> of the kernel. Here every thread has its own stack of calls, and a callback may pass the
  processor on to the next thread.
\<close>

inductive bh_shared :: "tasks \<times> frame list \<times> frame list list \<Rightarrow> tasks \<times> frame list \<times> frame list list \<Rightarrow> bool" where
  local: "bh_step (ts, fs) (ts', fs') \<Longrightarrow> bh_shared (ts, fs, others) (ts', fs', others)"
| yield: "bh_shared (ts, In_Callback p t # fs, gs # others) (ts, gs, others @ [In_Callback p t # fs])"

text \<open>Then a task stays queued although no task is in progress on the stack of the running thread, and
  \<^verbatim>\<open>task_run_pending\<close> leaves it there.\<close>

lemma yield_keeps_priority_raised:
  fixes ts
  defines "ts \<equiv> \<lparr>g_task_queue = [sample_task 1 5], g_running_priority = 2, sstatus_SIE = True\<rparr>"
  shows "bh_shared\<^sup>*\<^sup>* (\<lparr>g_task_queue = [], g_running_priority = TASK_PRIO_IDLE, sstatus_SIE = True\<rparr>, [], [[]])
      (ts, [], [[In_Callback TASK_PRIO_IDLE (sample_task 0 2), At_Loop]]) \<and>
    g_running_priority ts \<noteq> top_priority [] \<and> task_run_pending run (w, h, ts) = Some (w, h, ts)"
proof -
  let ?i = "\<lparr>g_task_queue = [], g_running_priority = TASK_PRIO_IDLE, sstatus_SIE = True\<rparr>"
  let ?q = "?i\<lparr>g_task_queue := [sample_task 0 2]\<rparr>" and ?r = "?i\<lparr>g_running_priority := 2\<rparr>"
  let ?c = "[In_Callback TASK_PRIO_IDLE (sample_task 0 2), At_Loop]"
  have "bh_step (?i, []) (?q, [])"
    using bh_step.post [of ?i "[]" "sample_task 0 2"] by simp
  moreover have "bh_step (?q, []) (?q, [At_Loop])"
    by (rule bh_step.enter)
  moreover have "bh_step (?q, [At_Loop]) (?r, ?c)"
  proof -
    have "task_pick ?q = Some (sample_task 0 2, ?i)"
      by (simp add: task_pick_def sample_task_def TASK_PRIO_IDLE_def)
    from bh_step.dispatch [OF this, of "[]"] show ?thesis
      by (simp add: task_begin_def sample_task_def)
  qed
  ultimately have "bh_shared\<^sup>*\<^sup>* (?i, [], [[]]) (?r, ?c, [[]])"
    by (meson bh_shared.local rtranclp.rtrancl_into_rtrancl rtranclp.rtrancl_refl)
  moreover have "bh_shared (?r, ?c, [[]]) (?r, [], [?c])"
    using bh_shared.yield [of ?r _ _ _ "[]" "[]"] by simp
  moreover have "bh_shared (?r, [], [?c]) (ts, [], [?c])"
    using bh_step.post [of ?r "[]" "sample_task 1 5"] by (intro bh_shared.local) (simp add: ts_def)
  moreover have "task_pick ts = None"
    by (simp add: ts_def task_pick_def sample_task_def)
  ultimately show ?thesis
    by (simp add: task_run_pending_none) (simp add: ts_def top_priority_def TASK_PRIO_IDLE_def)
qed

text \<open>
  C36: \<^verbatim>\<open>task_run_pending\<close> returns, and does what it promises, with all callbacks that keep the contract: they
  may allocate and free blocks of their own and post tasks with \<^verbatim>\<open>add_task\<close>, but they do not switch threads, and
  they do not post tasks of higher priority for ever. It takes the task at the head of the queue and runs its callback
  as long as that task has a higher priority than the one that was running, the tasks that callbacks post
  included; it restores the running priority and leaves the remaining tasks queued. The node of each executed task, and nothing
  else, has gone back to the heap. When the callbacks post nothing, the executed tasks are all those of higher
  priority, in queue order.
\<close>

theorem task_run_pending_drains:
  assumes "callbacks_ok own eff run"
    and "drain_ends eff (sint (g_running_priority ts)) (map job (g_task_queue ts), w)"
    and "tasks_heap own w N h ts"
  shows "\<exists>w' h' ts' js. task_run_pending run (w, h, ts) = Some (w', h', ts') \<and>
    drains eff (sint (g_running_priority ts)) (map job (g_task_queue ts), w) js (map job (g_task_queue ts'), w') \<and>
    (\<forall>t\<in>set (g_task_queue ts'). sint (g_running_priority ts) \<le> sint (tn_priority t)) \<and>
    g_running_priority ts' = g_running_priority ts \<and> tasks_heap own w' N h' ts' \<and>
    ((\<forall>cb arg w w' js. eff cb arg w w' js \<longrightarrow> js = []) \<longrightarrow>
      js = filter (\<lambda>j. jprio j < sint (g_running_priority ts)) (map job (g_task_queue ts)) \<and>
      map job (g_task_queue ts') = filter (\<lambda>j. sint (g_running_priority ts) \<le> jprio j) (map job (g_task_queue ts)))"
proof -
  obtain w' h' ts' js where run: "task_run_pending run (w, h, ts) = Some (w', h', ts')"
    and drains: "drains eff (sint (g_running_priority ts)) (map job (g_task_queue ts), w) js (map job (g_task_queue ts'), w')"
    and rest: "g_running_priority ts' = g_running_priority ts" "tasks_heap own w' N h' ts'"
    using drain_tasks [OF assms(1,2) refl assms(3)] by blast
  have "sorted (map jprio (map job (g_task_queue ts)))"
    using assms(3) by (simp add: tasks_heap_def comp_def)
  note no_posts = drains_without_posts [OF _ drains this]
  have "\<forall>t\<in>set (g_task_queue ts'). sint (g_running_priority ts) \<le> sint (tn_priority t)"
    using drains_rest [OF drains] by simp
  with run drains rest no_posts show ?thesis
    by (intro exI [of _ w'] exI [of _ h'] exI [of _ ts'] exI [of _ js] conjI impI) simp_all
qed

text \<open>Sample callbacks: number 1 frees the block it is given, as \<^verbatim>\<open>setto_cb\<close> does, and the others post it, as
  \<^verbatim>\<open>demo_task_slow\<close> posts a task.\<close>

definition sample_callback :: "u64 \<Rightarrow> u64 \<Rightarrow> u64 list \<times> kheap \<times> tasks \<Rightarrow> (u64 list \<times> kheap \<times> tasks) option" where
  "sample_callback cb arg s = (case s of (w, h, ts) \<Rightarrow>
     if cb = 1 then do { h' \<leftarrow> kfree h arg; Some (remove1 arg w, h', ts) }
     else do { (h', ts', r) \<leftarrow> add_task h ts 1 arg 1; Some (w, h', ts') })"

definition sample_effect :: "u64 list effect" where
  "sample_effect cb arg w w' js \<longleftrightarrow>
     (if cb = 1 then arg \<in> set w \<and> distinct w \<and> w' = remove1 arg w \<and> js = []
      else w' = w \<and> (js = [] \<or> js = [(1, arg, 1)]))"

lemma sample_callbacks_ok: "callbacks_ok node_ranges sample_effect sample_callback"
  unfolding callbacks_ok_def
proof (intro allI impI, elim conjE exE)
  fix cb arg N h ts w' js and w :: "u64 list"
  assume heap: "tasks_heap node_ranges w N h ts" and eff: "sample_effect cb arg w w' js"
  show "\<exists>w' h' ts' js. sample_callback cb arg (w, h, ts) = Some (w', h', ts') \<and> sample_effect cb arg w w' js \<and>
    tasks_heap node_ranges w' N h' ts' \<and>
    map job (g_task_queue ts') = foldl (\<lambda>q j. job_insert j q) (map job (g_task_queue ts)) js \<and>
    g_running_priority ts' = g_running_priority ts"
  proof (cases "cb = 1")
    case True
    with eff have w: "arg \<in> set w" "distinct w" by (simp_all add: sample_effect_def)
    let ?R = "node_ranges w \<union> queue_ranges ts \<union> N"
    have live: "heap_live h ?R" "(arg, 64) \<in> ?R"
      using heap w(1) by (auto simp: tasks_heap_def node_ranges_def)
    then obtain h' where h': "kfree h arg = Some h'" "heap_live h' (?R - {(arg, 64)})"
      using heap.free_law [OF live] by blast
    have rest: "distinct (map tn_addr (g_task_queue ts))" "node_ranges w \<inter> queue_ranges ts = {}"
        "N \<inter> (node_ranges w \<union> queue_ranges ts) = {}" "sorted (map (\<lambda>t. sint (tn_priority t)) (g_task_queue ts))"
      using heap by (simp_all add: tasks_heap_def)
    have own: "node_ranges (remove1 arg w) = node_ranges w - {(arg, 64)}" "(arg, 64) \<in> node_ranges w"
      using w by (auto simp: node_ranges_def)
    then have "?R - {(arg, 64)} = node_ranges (remove1 arg w) \<union> queue_ranges ts \<union> N"
      using rest(2,3) by blast
    with h'(2) have "heap_live h' (node_ranges (remove1 arg w) \<union> queue_ranges ts \<union> N)" by simp
    then have "tasks_heap node_ranges (remove1 arg w) N h' ts"
      unfolding tasks_heap_def using rest own(1) by (intro conjI) blast+
    with True w h'(1) show ?thesis
      by (intro exI [of _ "remove1 arg w"] exI [of _ h'] exI [of _ ts] exI [of _ "[]"])
        (simp add: sample_callback_def sample_effect_def)
  next
    case False
    obtain h' ts' r js where add: "add_task h ts 1 arg 1 = Some (h', ts', r)" "js = [] \<or> js = [(1, arg, 1)]"
      "tasks_heap node_ranges w N h' ts'"
      "map job (g_task_queue ts') = foldl (\<lambda>q j. job_insert j q) (map job (g_task_queue ts)) js"
      "g_running_priority ts' = g_running_priority ts"
      using add_task_in_callback [OF heap, of 1 arg 1] by (elim exE conjE) (rule that)
    with False show ?thesis
      by (intro exI [of _ w] exI [of _ h'] exI [of _ ts'] exI [of _ js] conjI)
        (simp_all add: sample_callback_def sample_effect_def)
  qed
qed

theorem task_run_pending_drains_witness:
  "\<exists>h p h1 ts h' ts' w' js. kmalloc sample_heap TASK_NODE_SIZE = Some (h, p) \<and>
     add_task h \<lparr>g_task_queue = [], g_running_priority = TASK_PRIO_IDLE, sstatus_SIE = True\<rparr> 2 p 9 = Some (h1, ts, 0) \<and>
     heap_live h1 (insert (p, 64) (queue_ranges ts)) \<and>
     task_run_pending sample_callback ([p], h1, ts) = Some (w', h', ts') \<and>
     drains sample_effect (sint (g_running_priority ts)) ([(2, p, 9)], [p]) js (map job (g_task_queue ts'), w') \<and>
     heap_live h' (node_ranges w' \<union> queue_ranges ts')"
proof -
  let ?ts = "\<lparr>g_task_queue = [], g_running_priority = TASK_PRIO_IDLE, sstatus_SIE = True\<rparr>"
  have "TASK_NODE_SIZE \<noteq> 0" by (simp add: TASK_NODE_SIZE_def)
  from sample_two_chunks [OF find_pool_node find_pool_node this this] obtain h p h1 n where
    h: "kmalloc sample_heap TASK_NODE_SIZE = Some (h, p)"
    and n: "kmalloc h TASK_NODE_SIZE = Some (h1, n)" "n \<noteq> NULL" "n \<noteq> p" "heap_live h1 {(n, 64), (p, 64)}"
    by auto
  let ?n = "\<lparr>tn_addr = n, tn_cb = 2, tn_arg = p, tn_priority = 9\<rparr>"
  let ?ts1 = "?ts\<lparr>g_task_queue := [?n]\<rparr>"
  have add: "add_task h ?ts 2 p 9 = Some (h1, ?ts1, 0)"
    using add_task_result [OF n(1)] n(2) by simp
  have idle: "sint TASK_PRIO_IDLE = 0x7FFFFFFF" by (simp add: TASK_PRIO_IDLE_def)
  have "drain_ends sample_effect 0x7FFFFFFF ([], w)" for w
    by (rule drain_ends.stop) simp
  then have "drain_ends sample_effect 0x7FFFFFFF ([(1, p, 1)], [p])"
    by (intro drain_ends.next_job) (auto simp: sample_effect_def)
  with \<open>\<And>w. drain_ends sample_effect 0x7FFFFFFF ([], w)\<close>
  have "drain_ends sample_effect 0x7FFFFFFF ([(2, p, 9)], [p])"
    by (intro drain_ends.next_job) (auto simp: sample_effect_def)
  then have ends: "drain_ends sample_effect (sint (g_running_priority ?ts1)) (map job (g_task_queue ?ts1), [p])"
    by (simp add: idle job_def)
  have "tasks_heap node_ranges [p] {} h1 ?ts1"
    using n(3,4) by (simp add: tasks_heap_def node_ranges_def insert_commute)
  from task_run_pending_drains [OF sample_callbacks_ok ends this] obtain w' h' ts' js where
    "task_run_pending sample_callback ([p], h1, ?ts1) = Some (w', h', ts')" "tasks_heap node_ranges w' {} h' ts'"
    "drains sample_effect (sint (g_running_priority ?ts1)) (map job (g_task_queue ?ts1), [p]) js
       (map job (g_task_queue ts'), w')"
    by blast
  moreover have "map job (g_task_queue ?ts1) = [(2, p, 9)]" "insert (p, 64) (queue_ranges ?ts1) = {(n, 64), (p, 64)}"
    by (auto simp: job_def node_ranges_def)
  ultimately show ?thesis
    using h add n(4) by (intro exI [of _ h] exI [of _ p] exI [of _ h1] exI [of _ ?ts1] exI [of _ h'] exI [of _ ts']
      exI [of _ w'] exI [of _ js] conjI) (simp_all add: tasks_heap_def)
qed

end
