(* ===== verification/Timer.thy ===== *)
theory Timer
  imports Tasks
begin

text \<open>
  The timers of \<^verbatim>\<open>kernel/src/timer.c\<close>: the queue of one-shot timers sorted by expiry, its insertion,
  and the interrupt handler that hands the expired callbacks to the bottom-half queue and programs
  the next interrupt. The value of the time register, read with \<^verbatim>\<open>rdtime\<close>, is an argument.
\<close>

section \<open>Model\<close>

definition DEFAULT_TIMEBASE_FREQ :: u64 where
  "DEFAULT_TIMEBASE_FREQ = 0x989680"

definition SCHED_TICK_DIV :: u64 where
  "SCHED_TICK_DIV = 32"

definition TIMER_TASK_PRIO :: i32 where
  "TIMER_TASK_PRIO = 2"

record timer_node =
  tm_addr :: u64
  expire_tick :: u64
  register_tick :: u64
  tm_cb :: u64
  tm_arg :: u64

text \<open>\<open>stimer\<close> is the deadline last given to \<^verbatim>\<open>sbi_set_timer\<close>, \<open>resched\<close> the flag that
  \<^verbatim>\<open>set_need_resched\<close> raises.\<close>

record timers =
  g_timer_queue :: "timer_node list"
  g_timebase_freq :: u64
  stimer :: u64
  resched :: bool

definition timer_get_timebase_freq :: "timers \<Rightarrow> u64" where
  "timer_get_timebase_freq tm = g_timebase_freq tm"

text \<open>\<open>freq\<close> is the device tree property; 0 means that it was not found.\<close>

definition timer_init :: "u64 \<Rightarrow> u64 \<Rightarrow> timers \<Rightarrow> timers" where
  "timer_init freq now tm =
     (let f = (if freq = 0 then DEFAULT_TIMEBASE_FREQ else freq)
      in tm\<lparr>g_timebase_freq := f, stimer := now + f div SCHED_TICK_DIV\<rparr>)"

fun timer_insert :: "timer_node \<Rightarrow> timer_node list \<Rightarrow> timer_node list" where
  "timer_insert n [] = [n]"
| "timer_insert n (t # q) =
     (if expire_tick n < expire_tick t then n # t # q else t # timer_insert n q)"

definition TIMER_NODE_SIZE :: u64 where
  "TIMER_NODE_SIZE = 48"

text \<open>The hardware timer is set again when the new node is the first of the queue.\<close>

definition add_timer_ticks ::
    "kheap \<Rightarrow> timers \<Rightarrow> u64 \<Rightarrow> u64 \<Rightarrow> u64 \<Rightarrow> u64 \<Rightarrow> (kheap \<times> timers) option" where
  "add_timer_ticks h tm now cb arg ticks = do {
     (h', n) \<leftarrow> kmalloc h TIMER_NODE_SIZE;
     if n = NULL then Some (h', tm)
     else (let node = \<lparr>tm_addr = n, expire_tick = now + ticks, register_tick = now, tm_cb = cb, tm_arg = arg\<rparr>;
               q = timer_insert node (g_timer_queue tm);
               tm1 = tm\<lparr>g_timer_queue := q\<rparr>
           in Some (h', if tm_addr (hd q) = n then tm1\<lparr>stimer := expire_tick node\<rparr> else tm1))
   }"

text \<open>\<^verbatim>\<open>sec\<close> is an \<^verbatim>\<open>int\<close> cast to 64 bits, so a negative value is sign-extended.\<close>

definition add_timer ::
    "kheap \<Rightarrow> timers \<Rightarrow> u64 \<Rightarrow> u64 \<Rightarrow> u64 \<Rightarrow> i32 \<Rightarrow> (kheap \<times> timers) option" where
  "add_timer h tm now cb arg sec = add_timer_ticks h tm now cb arg (scast sec * g_timebase_freq tm)"

definition add_timer_us ::
    "kheap \<Rightarrow> timers \<Rightarrow> u64 \<Rightarrow> u64 \<Rightarrow> u64 \<Rightarrow> u64 \<Rightarrow> (kheap \<times> timers) option" where
  "add_timer_us h tm now cb arg usec =
     add_timer_ticks h tm now cb arg (g_timebase_freq tm * usec div 1000000)"

text \<open>The loop of \<^verbatim>\<open>timer_top_half\<close>. The queue is read again in every round. \<open>run\<close> is what calling a callback does to the
  state \<open>w\<close> of the callbacks, the heap, the tasks and the timers: the callback of an expired timer is called on the
  spot, before its node is freed, when \<^verbatim>\<open>add_task\<close> fails.\<close>

type_synonym 'w timer_state = "'w \<times> kheap \<times> tasks \<times> timers"

partial_function (option) timer_drain ::
    "(u64 \<Rightarrow> u64 \<Rightarrow> 'w timer_state \<Rightarrow> 'w timer_state option) \<Rightarrow> u64 \<Rightarrow> 'w timer_state \<Rightarrow> 'w timer_state option" where
  "timer_drain run now s =
     (case s of (w, h, ts, tm) \<Rightarrow>
        (case g_timer_queue tm of
           [] \<Rightarrow> Some (w, h, ts, tm)
         | t # q \<Rightarrow>
             if expire_tick t > now then Some (w, h, ts, tm)
             else Option.bind (add_task h ts (tm_cb t) (tm_arg t) TIMER_TASK_PRIO) (\<lambda>(h1, ts1, r).
                  Option.bind
                    (if r \<noteq> 0 then run (tm_cb t) (tm_arg t) (w, h1, ts1, tm\<lparr>g_timer_queue := q\<rparr>)
                     else Some (w, h1, ts1, tm\<lparr>g_timer_queue := q\<rparr>)) (\<lambda>(w', h2, ts2, tm2).
                  Option.bind (kfree h2 (tm_addr t)) (\<lambda>h3.
                    timer_drain run now (w', h3, ts2, tm2))))))"

definition timer_top_half ::
    "(u64 \<Rightarrow> u64 \<Rightarrow> 'w timer_state \<Rightarrow> 'w timer_state option) \<Rightarrow> u64 \<Rightarrow> 'w timer_state \<Rightarrow> 'w timer_state option" where
  "timer_top_half run now s = do {
     (w, h, ts, tm) \<leftarrow> timer_drain run now s;
     let tick = now + g_timebase_freq tm div SCHED_TICK_DIV;
     let q = g_timer_queue tm;
     let next = (if q \<noteq> [] \<and> expire_tick (hd q) < tick then expire_tick (hd q) else tick);
     Some (w, h, ts, tm\<lparr>stimer := next, resched := True\<rparr>)
   }"

section \<open>The queue\<close>

interpretation tmq: ordered_queue expire_tick timer_insert
  by unfold_locales simp_all

lemma find_pool_timer: "find_pool TIMER_NODE_SIZE = Some 2"
  by (simp add: TIMER_NODE_SIZE_def find_pool_def find_pool_from.simps NUM_POOLS_def pool_sizes_def)

text \<open>The heap objects of the two queues are distinct.\<close>

definition timer_nodes_ok :: "mrange set \<Rightarrow> timers \<Rightarrow> tasks \<Rightarrow> bool" where
  "timer_nodes_ok R tm ts \<longleftrightarrow>
     owns_nodes R (map tm_addr (g_timer_queue tm) @ map tn_addr (g_task_queue ts)) \<and>
     sorted (map expire_tick (g_timer_queue tm)) \<and>
     sorted (map (\<lambda>t. sint (tn_priority t)) (g_task_queue ts))"

lemma owns_append_insert:
  assumes "owns_nodes R (a # as @ map tn_addr q)" and "(tn_addr n, 64) \<notin> R"
  shows "owns_nodes (insert (tn_addr n, 64) R - {(a, 64)}) (as @ map tn_addr (task_insert n q))"
proof -
  have d: "distinct (as @ map tn_addr q)" "a \<notin> set (as @ map tn_addr q)" "(a, 64) \<in> R"
    "\<forall>x\<in>set (as @ map tn_addr q). (x, 64) \<in> R"
    using assms(1) by (auto simp: owns_nodes_def)
  have new: "tn_addr n \<notin> set (as @ map tn_addr q)" "tn_addr n \<noteq> a"
    using d(3,4) assms(2) by auto
  have "owns_nodes (insert (tn_addr n, 64) R) (map tn_addr (task_insert n q))"
    using d assms(2) by (intro owns_nodes_insert) (auto simp: owns_nodes_def)
  moreover have "set (map tn_addr (task_insert n q)) = insert (tn_addr n) (set (map tn_addr q))"
    by (simp add: tq.ins_set)
  ultimately show ?thesis
    using d new by (auto simp: owns_nodes_def)
qed

text \<open>The drain loop hands every expired timer over, in order, and keeps the others; the heap objects
  are the old ones without the expired timers and with the posted tasks.\<close>

abbreviation due :: "u64 \<Rightarrow> timer_node list \<Rightarrow> timer_node list" where
  "due now q \<equiv> takeWhile (\<lambda>t. expire_tick t \<le> now) q"

text \<open>The contract of the callbacks that are called on the spot: where \<open>pre\<close> allows the call, the callback returns,
  with the effect \<open>f\<close> on the state, allocates and frees blocks of its own only, and leaves both queues as they are.
  \<open>calls_ok\<close> says that the calls are allowed whichever of the timers in the list get a task node.\<close>

definition timer_callbacks_ok :: "('w \<Rightarrow> mrange set) \<Rightarrow> (u64 \<Rightarrow> u64 \<Rightarrow> 'w \<Rightarrow> bool) \<Rightarrow> (u64 \<Rightarrow> u64 \<Rightarrow> 'w \<Rightarrow> 'w) \<Rightarrow>
    (u64 \<Rightarrow> u64 \<Rightarrow> 'w timer_state \<Rightarrow> 'w timer_state option) \<Rightarrow> bool" where
  "timer_callbacks_ok own pre f run \<longleftrightarrow> (\<forall>cb arg w h ts tm R.
     pre cb arg w \<and> heap_live h (own w \<union> R) \<and> own w \<inter> R = {} \<longrightarrow>
     (\<exists>h'. run cb arg (w, h, ts, tm) = Some (f cb arg w, h', ts, tm) \<and>
        heap_live h' (own (f cb arg w) \<union> R) \<and> own (f cb arg w) \<inter> R = {}))"

fun calls_ok :: "(u64 \<Rightarrow> u64 \<Rightarrow> 'w \<Rightarrow> bool) \<Rightarrow> (u64 \<Rightarrow> u64 \<Rightarrow> 'w \<Rightarrow> 'w) \<Rightarrow> (u64 \<times> u64) list \<Rightarrow> 'w \<Rightarrow> bool" where
  "calls_ok pre f [] w = True"
| "calls_ok pre f ((cb, arg) # cs) w = (pre cb arg w \<and> calls_ok pre f cs w \<and> calls_ok pre f cs (f cb arg w))"

abbreviation timer_call :: "timer_node \<Rightarrow> u64 \<times> u64" where
  "timer_call t \<equiv> (tm_cb t, tm_arg t)"

abbreviation task_call :: "task_node \<Rightarrow> u64 \<times> u64" where
  "task_call n \<equiv> (tn_cb n, tn_arg n)"

abbreviation apply_calls :: "(u64 \<Rightarrow> u64 \<Rightarrow> 'w \<Rightarrow> 'w) \<Rightarrow> (u64 \<times> u64) list \<Rightarrow> 'w \<Rightarrow> 'w" where
  "apply_calls f cs w \<equiv> fold (\<lambda>(cb, arg). f cb arg) cs w"

text \<open>One round: the node of the timer is freed, and there is a task for it, or its callback has been called.\<close>

lemma timer_drain_stop:
  assumes "\<forall>t \<in> set (g_timer_queue tm). now < expire_tick t"
  shows "timer_drain run now (w, h, ts, tm) = Some (w, h, ts, tm)"
  using assms by (subst timer_drain.simps) (auto split: list.splits)

lemma timer_drain_round:
  assumes cbs: "timer_callbacks_ok own pre f run" "pre (tm_cb t) (tm_arg t) w"
    and live: "heap_live h (own w \<union> R)" "own w \<inter> R = {}"
    and own: "owns_nodes R (tm_addr t # as @ map tn_addr (g_task_queue ts))"
    and srt: "sorted (map (\<lambda>t. sint (tn_priority t)) (g_task_queue ts))"
    and t: "g_timer_queue tm = t # q" "expire_tick t \<le> now"
  shows "(\<exists>h'. timer_drain run now (w, h, ts, tm) =
       timer_drain run now (f (tm_cb t) (tm_arg t) w, h', ts, tm\<lparr>g_timer_queue := q\<rparr>) \<and>
      heap_live h' (own (f (tm_cb t) (tm_arg t) w) \<union> (R - {(tm_addr t, 64)})) \<and>
      own (f (tm_cb t) (tm_arg t) w) \<inter> (R - {(tm_addr t, 64)}) = {} \<and>
      owns_nodes (R - {(tm_addr t, 64)}) (as @ map tn_addr (g_task_queue ts))) \<or>
    (\<exists>h' n. timer_drain run now (w, h, ts, tm) = timer_drain run now (w, h',
        ts\<lparr>g_task_queue := task_insert n (g_task_queue ts)\<rparr>, tm\<lparr>g_timer_queue := q\<rparr>) \<and>
      task_call n = timer_call t \<and> tn_priority n = TIMER_TASK_PRIO \<and> (tn_addr n, 64) \<notin> own w \<union> R \<and>
      heap_live h' (own w \<union> (insert (tn_addr n, 64) R - {(tm_addr t, 64)})) \<and>
      owns_nodes (insert (tn_addr n, 64) R - {(tm_addr t, 64)}) (as @ map tn_addr (task_insert n (g_task_queue ts))) \<and>
      sorted (map (\<lambda>t. sint (tn_priority t)) (task_insert n (g_task_queue ts))))"
proof -
  have round: "timer_drain run now (w, h, ts, tm) =
      Option.bind (add_task h ts (tm_cb t) (tm_arg t) TIMER_TASK_PRIO) (\<lambda>(h1, ts1, r).
      Option.bind (if r \<noteq> 0 then run (tm_cb t) (tm_arg t) (w, h1, ts1, tm\<lparr>g_timer_queue := q\<rparr>)
                   else Some (w, h1, ts1, tm\<lparr>g_timer_queue := q\<rparr>)) (\<lambda>(w', h2, ts2, tm2).
      Option.bind (kfree h2 (tm_addr t)) (\<lambda>h3. timer_drain run now (w', h3, ts2, tm2))))"
    using t leD [OF t(2)] by (subst timer_drain.simps) simp
  have own': "owns_nodes (own w \<union> R) (map tn_addr (g_task_queue ts))"
    using own by (auto simp: owns_nodes_def)
  have tR: "(tm_addr t, 64) \<in> R" "(tm_addr t, 64) \<notin> own w"
    using own live(2) by (auto simp: owns_nodes_def)
  from add_task_live [OF live(1) own' srt, of "tm_cb t" "tm_arg t" TIMER_TASK_PRIO]
  obtain h1 ts1 r where run: "add_task h ts (tm_cb t) (tm_arg t) TIMER_TASK_PRIO = Some (h1, ts1, r)"
    and out: "r = -1 \<and> ts1 = ts \<and> heap_live h1 (own w \<union> R) \<or>
     r = 0 \<and> (\<exists>n. (n, 64) \<notin> own w \<union> R \<and> heap_live h1 (insert (n, 64) (own w \<union> R)) \<and>
       ts1 = ts\<lparr>g_task_queue := task_insert \<lparr>tn_addr = n, tn_cb = tm_cb t, tn_arg = tm_arg t,
            tn_priority = TIMER_TASK_PRIO\<rparr> (g_task_queue ts)\<rparr> \<and>
       sorted (map (\<lambda>t. sint (tn_priority t)) (g_task_queue ts1)))"
    by (elim exE conjE) (rule that, assumption, blast)
  from out show ?thesis
  proof (elim disjE conjE exE)
    assume r: "r = -1" "ts1 = ts" "heap_live h1 (own w \<union> R)"
    let ?w = "f (tm_cb t) (tm_arg t) w"
    obtain h2 where h2: "run (tm_cb t) (tm_arg t) (w, h1, ts, tm\<lparr>g_timer_queue := q\<rparr>) =
        Some (?w, h2, ts, tm\<lparr>g_timer_queue := q\<rparr>)" "heap_live h2 (own ?w \<union> R)" "own ?w \<inter> R = {}"
      using cbs r(3) live(2) unfolding timer_callbacks_ok_def by blast
    obtain h3 where h3: "kfree h2 (tm_addr t) = Some h3" "heap_live h3 (own ?w \<union> R - {(tm_addr t, 64)})"
      using heap.free_law [OF h2(2), of "tm_addr t" 64] tR by blast
    have "own ?w \<union> R - {(tm_addr t, 64)} = own ?w \<union> (R - {(tm_addr t, 64)})"
      using h2(3) tR(1) by blast
    with h3(2) have "heap_live h3 (own ?w \<union> (R - {(tm_addr t, 64)}))" by simp
    moreover have "owns_nodes (R - {(tm_addr t, 64)}) (as @ map tn_addr (g_task_queue ts))"
      using own by (auto simp: owns_nodes_def)
    moreover have "timer_drain run now (w, h, ts, tm) = timer_drain run now (?w, h3, ts, tm\<lparr>g_timer_queue := q\<rparr>)"
      unfolding round run r(1,2) by (simp add: h2(1) h3(1))
    ultimately show ?thesis
      using h2(3) by blast
  next
    fix n
    let ?n = "\<lparr>tn_addr = n, tn_cb = tm_cb t, tn_arg = tm_arg t, tn_priority = TIMER_TASK_PRIO\<rparr>"
    assume r: "r = 0" "(n, 64) \<notin> own w \<union> R" "heap_live h1 (insert (n, 64) (own w \<union> R))"
      "sorted (map (\<lambda>t. sint (tn_priority t)) (g_task_queue ts1))"
      and ts1: "ts1 = ts\<lparr>g_task_queue := task_insert ?n (g_task_queue ts)\<rparr>"
    obtain h3 where h3: "kfree h1 (tm_addr t) = Some h3"
        "heap_live h3 (insert (n, 64) (own w \<union> R) - {(tm_addr t, 64)})"
      using heap.free_law [OF r(3), of "tm_addr t" 64] tR by blast
    have "insert (n, 64) (own w \<union> R) - {(tm_addr t, 64)} = own w \<union> (insert (n, 64) R - {(tm_addr t, 64)})"
      using tR r(2) by blast
    with h3(2) have "heap_live h3 (own w \<union> (insert (n, 64) R - {(tm_addr t, 64)}))" by simp
    moreover have "owns_nodes (insert (n, 64) R - {(tm_addr t, 64)}) (as @ map tn_addr (task_insert ?n (g_task_queue ts)))"
      using owns_append_insert [of R "tm_addr t" as "g_task_queue ts" ?n] own r(2) by simp
    moreover have "timer_drain run now (w, h, ts, tm) = timer_drain run now (w, h3,
        ts\<lparr>g_task_queue := task_insert ?n (g_task_queue ts)\<rparr>, tm\<lparr>g_timer_queue := q\<rparr>)"
      unfolding round run r(1) ts1 by (simp add: h3(1))
    ultimately show ?thesis
      using r(2,4) by (intro disjI2 exI [of _ h3] exI [of _ ?n]) (simp add: ts1)
  qed
qed

lemma timer_drain_hands_over:
  assumes cbs: "timer_callbacks_ok own pre f run"
    and "calls_ok pre f (map timer_call (due now q)) w"
    and "heap_live h (own w \<union> R)" and "own w \<inter> R = {}"
    and "owns_nodes R (map tm_addr q @ map tn_addr (g_task_queue ts))"
    and "sorted (map (\<lambda>t. sint (tn_priority t)) (g_task_queue ts))"
    and "g_timer_queue tm = q" and "sorted (map expire_tick q)"
  shows "\<exists>h' ns called. timer_drain run now (w, h, ts, tm) =
      Some (apply_calls f called w, h', ts\<lparr>g_task_queue := foldl (\<lambda>q n. task_insert n q) (g_task_queue ts) ns\<rparr>,
        tm\<lparr>g_timer_queue := dropWhile (\<lambda>t. expire_tick t \<le> now) q\<rparr>) \<and>
    map timer_call (due now q) \<in> shuffles (map task_call ns) called \<and>
    (\<forall>n\<in>set ns. tn_priority n = TIMER_TASK_PRIO) \<and>
    heap_live h' (own (apply_calls f called w) \<union> (R - node_ranges (map tm_addr (due now q)) \<union> node_ranges (map tn_addr ns)))"
  using assms(2-)
proof (induction q arbitrary: w h R ts tm)
  case Nil
  then have "timer_drain run now (w, h, ts, tm) = Some (w, h, ts, tm)"
    by (intro timer_drain_stop) simp
  with Nil show ?case
    by (intro exI [of _ h] exI [of _ "[]"]) (simp add: node_ranges_def)
next
  case (Cons t q)
  show ?case
  proof (cases "expire_tick t \<le> now")
    case False
    then have "timer_drain run now (w, h, ts, tm) = Some (w, h, ts, tm)"
      using Cons.prems(6,7) by (intro timer_drain_stop) (auto simp: not_le)
    moreover have "due now (t # q) = []" "dropWhile (\<lambda>t. expire_tick t \<le> now) (t # q) = t # q"
      using False by simp_all
    moreover have "tm\<lparr>g_timer_queue := t # q\<rparr> = tm"
      using Cons.prems(6) by (metis timers.surjective timers.update_convs(1))
    ultimately show ?thesis
      using Cons.prems(2) by (intro exI [of _ h] exI [of _ "[]"]) (simp add: node_ranges_def)
  next
    case True
    have pre: "pre (tm_cb t) (tm_arg t) w" and rest: "calls_ok pre f (map timer_call (due now q)) w"
        "calls_ok pre f (map timer_call (due now q)) (f (tm_cb t) (tm_arg t) w)"
      using Cons.prems(1) True by simp_all
    have srt: "sorted (map expire_tick q)" and q: "g_timer_queue (tm\<lparr>g_timer_queue := q\<rparr>) = q"
      using Cons.prems(7) by simp_all
    have own: "owns_nodes R (tm_addr t # map tm_addr q @ map tn_addr (g_task_queue ts))"
      using Cons.prems(4) by simp
    from timer_drain_round [OF cbs pre Cons.prems(2,3) own Cons.prems(5,6) True] show ?thesis
    proof (elim disjE exE conjE)
      fix h2
      let ?w = "f (tm_cb t) (tm_arg t) w"
      assume run: "timer_drain run now (w, h, ts, tm) = timer_drain run now (?w, h2, ts, tm\<lparr>g_timer_queue := q\<rparr>)"
        and h2: "heap_live h2 (own ?w \<union> (R - {(tm_addr t, 64)}))" "own ?w \<inter> (R - {(tm_addr t, 64)}) = {}"
          "owns_nodes (R - {(tm_addr t, 64)}) (map tm_addr q @ map tn_addr (g_task_queue ts))"
      from Cons.IH [OF rest(2) h2 Cons.prems(5) q srt] obtain h' ns called where ih:
        "timer_drain run now (?w, h2, ts, tm\<lparr>g_timer_queue := q\<rparr>) = Some (apply_calls f called ?w, h',
          ts\<lparr>g_task_queue := foldl (\<lambda>q n. task_insert n q) (g_task_queue ts) ns\<rparr>,
          tm\<lparr>g_timer_queue := dropWhile (\<lambda>t. expire_tick t \<le> now) q\<rparr>)"
        "map timer_call (due now q) \<in> shuffles (map task_call ns) called"
        "\<forall>n\<in>set ns. tn_priority n = TIMER_TASK_PRIO"
        "heap_live h' (own (apply_calls f called ?w) \<union> (R - {(tm_addr t, 64)} - node_ranges (map tm_addr (due now q)) \<union>
           node_ranges (map tn_addr ns)))"
        by auto
      have "R - node_ranges (map tm_addr (due now (t # q))) =
          R - {(tm_addr t, 64)} - node_ranges (map tm_addr (due now q))"
        using True by (auto simp: node_ranges_def)
      with run ih True show ?thesis
        by (intro exI [of _ h'] exI [of _ ns] exI [of _ "timer_call t # called"]) (simp add: Cons_in_shuffles_rightI)
    next
      fix h2 and n :: task_node
      let ?R = "insert (tn_addr n, 64) R - {(tm_addr t, 64)}"
      let ?ts = "ts\<lparr>g_task_queue := task_insert n (g_task_queue ts)\<rparr>"
      assume run: "timer_drain run now (w, h, ts, tm) = timer_drain run now (w, h2, ?ts, tm\<lparr>g_timer_queue := q\<rparr>)"
        and n: "task_call n = timer_call t" "tn_priority n = TIMER_TASK_PRIO" "(tn_addr n, 64) \<notin> own w \<union> R"
        and h2: "heap_live h2 (own w \<union> ?R)" "owns_nodes ?R (map tm_addr q @ map tn_addr (task_insert n (g_task_queue ts)))"
        and sq: "sorted (map (\<lambda>t. sint (tn_priority t)) (task_insert n (g_task_queue ts)))"
      have "own w \<inter> ?R = {}" using Cons.prems(3) n(3) by blast
      from Cons.IH [OF rest(1) h2(1) this _ _ q srt, of ?ts] h2(2) sq obtain h' ns called where ih:
        "timer_drain run now (w, h2, ?ts, tm\<lparr>g_timer_queue := q\<rparr>) = Some (apply_calls f called w, h',
          ts\<lparr>g_task_queue := foldl (\<lambda>q n. task_insert n q) (g_task_queue ts) (n # ns)\<rparr>,
          tm\<lparr>g_timer_queue := dropWhile (\<lambda>t. expire_tick t \<le> now) q\<rparr>)"
        "map timer_call (due now q) \<in> shuffles (map task_call ns) called"
        "\<forall>n\<in>set ns. tn_priority n = TIMER_TASK_PRIO"
        "heap_live h' (own (apply_calls f called w) \<union> (?R - node_ranges (map tm_addr (due now q)) \<union>
           node_ranges (map tn_addr ns)))"
        by auto
      have "node_ranges (map tm_addr (due now q)) \<subseteq> R" "(tm_addr t, 64) \<in> R"
        using own by (auto simp: node_ranges_def owns_nodes_def dest: set_takeWhileD)
      then have "R - node_ranges (map tm_addr (due now (t # q))) \<union> node_ranges (map tn_addr (n # ns)) =
          ?R - node_ranges (map tm_addr (due now q)) \<union> node_ranges (map tn_addr ns)"
        using True n(3) by (auto simp: node_ranges_def)
      with run ih True n(1,2) show ?thesis
        by (intro exI [of _ h'] exI [of _ "n # ns"] exI [of _ called]) (simp add: Cons_in_shuffles_leftI)
    qed
  qed
qed

text \<open>The choice at the end of the handler.\<close>

lemma next_deadline:
  assumes "sorted (map expire_tick q)"
  shows "(if q \<noteq> [] \<and> expire_tick (hd q) < tick then expire_tick (hd q) else tick) =
    Min (insert tick (expire_tick ` set q))"
proof (cases q)
  case (Cons t r)
  have "Min (expire_tick ` set q) = expire_tick t"
    using assms unfolding Cons by (intro Min_eqI) auto
  moreover have "Min (insert tick (expire_tick ` set q)) = min tick (Min (expire_tick ` set q))"
    using Cons by (intro Min_insert) auto
  ultimately show ?thesis
    using Cons by (auto simp: min_def)
qed simp

section \<open>Properties\<close>

text \<open>
  Timers registered one after the other stand in the queue in the order of a stable sort by
  expiry time.
\<close>

theorem timer_queue_expiry_fifo:
  "foldl (\<lambda>q n. timer_insert n q) [] ns = sort_key expire_tick ns"
  by (rule tmq.fold_ins_sort)


text \<open>A sample callback: it frees the block it is given.\<close>

definition sample_timer_callback :: "u64 \<Rightarrow> u64 \<Rightarrow> u64 list timer_state \<Rightarrow> u64 list timer_state option" where
  "sample_timer_callback cb arg s =
     (case s of (w, h, ts, tm) \<Rightarrow> do { h' \<leftarrow> kfree h arg; Some (remove1 arg w, h', ts, tm) })"

lemma sample_timer_callbacks_ok:
  "timer_callbacks_ok node_ranges (\<lambda>_ arg w. arg \<in> set w \<and> distinct w) (\<lambda>_ arg w. remove1 arg w) sample_timer_callback"
  unfolding timer_callbacks_ok_def
proof (intro allI impI, elim conjE)
  fix arg R h ts tm and w :: "u64 list"
  assume heap: "heap_live h (node_ranges w \<union> R)" "node_ranges w \<inter> R = {}" and w: "arg \<in> set w" "distinct w"
  have arg: "(arg, 64) \<in> node_ranges w" "node_ranges (remove1 arg w) = node_ranges w - {(arg, 64)}"
    using w by (auto simp: node_ranges_def)
  obtain h' where "kfree h arg = Some h'" "heap_live h' (node_ranges w \<union> R - {(arg, 64)})"
    using heap.free_law [OF heap(1), of arg 64] arg(1) by blast
  moreover have "node_ranges w \<union> R - {(arg, 64)} = node_ranges (remove1 arg w) \<union> R"
    using heap(2) arg by blast
  ultimately show "\<exists>h'. sample_timer_callback cb arg (w, h, ts, tm) = Some (remove1 arg w, h', ts, tm) \<and>
      heap_live h' (node_ranges (remove1 arg w) \<union> R) \<and> node_ranges (remove1 arg w) \<inter> R = {}" for cb
    using heap(2) arg(2) by (auto simp: sample_timer_callback_def)
qed


text \<open>
  Registering a timer keeps the queue sorted and the heap sound. When the new timer is the
  earliest, its expiry becomes the next timer interrupt, even when that is later than the
  scheduler tick that was programmed.
\<close>

theorem add_timer_programs_earliest:
  assumes live: "heap_live h R" and ok: "timer_nodes_ok R tm ts"
  shows "\<exists>h' tm'. add_timer_ticks h tm now cb arg ticks = Some (h', tm') \<and>
    (tm' = tm \<and> heap_live h' R \<or>
     (\<exists>n. n \<noteq> NULL \<and> heap_live h' (insert (n, 64) R) \<and> timer_nodes_ok (insert (n, 64) R) tm' ts \<and>
        g_timer_queue tm' = filter (\<lambda>t. expire_tick t \<le> now + ticks) (g_timer_queue tm) @
          \<lparr>tm_addr = n, expire_tick = now + ticks, register_tick = now, tm_cb = cb, tm_arg = arg\<rparr> #
          filter (\<lambda>t. now + ticks < expire_tick t) (g_timer_queue tm) \<and>
        stimer tm' = (if \<forall>t\<in>set (g_timer_queue tm). now + ticks < expire_tick t
                      then now + ticks else stimer tm)))"
proof -
  let ?q = "g_timer_queue tm"
  have "TIMER_NODE_SIZE \<noteq> 0"
    by (simp add: TIMER_NODE_SIZE_def)
  then obtain h' n where run: "kmalloc h TIMER_NODE_SIZE = Some (h', n)"
    and out: "n = NULL \<and> heap_live h' R \<or> n \<noteq> NULL \<and> (n, 64) \<notin> R \<and> heap_live h' (insert (n, 64) R)"
    using kmalloc_small_live [OF live _ find_pool_timer] by auto
  let ?n = "\<lparr>tm_addr = n, expire_tick = now + ticks, register_tick = now, tm_cb = cb, tm_arg = arg\<rparr>"
  from out show ?thesis
  proof (elim disjE conjE)
    assume "n = NULL" "heap_live h' R"
    then show ?thesis
      using run by (simp add: add_timer_ticks_def)
  next
    assume n: "n \<noteq> NULL" "(n, 64) \<notin> R" "heap_live h' (insert (n, 64) R)"
    have srt: "sorted (map expire_tick ?q)"
      and own: "owns_nodes R (map tm_addr ?q @ map tn_addr (g_task_queue ts))"
      using ok by (simp_all add: timer_nodes_ok_def)
    have fresh: "n \<notin> set (map tm_addr ?q @ map tn_addr (g_task_queue ts))"
      using own n(2) by (auto simp: owns_nodes_def)
    have split: "timer_insert ?n ?q = filter (\<lambda>t. expire_tick t \<le> now + ticks) ?q @
        ?n # filter (\<lambda>t. now + ticks < expire_tick t) ?q"
      using tmq.ins_split [OF srt, of ?n] by simp
    have first: "tm_addr (hd (timer_insert ?n ?q)) = n \<longleftrightarrow> (\<forall>t\<in>set ?q. now + ticks < expire_tick t)"
    proof (cases "filter (\<lambda>t. expire_tick t \<le> now + ticks) ?q")
      case Nil
      then show ?thesis
        using split by (auto simp: filter_empty_conv not_le)
    next
      case (Cons t r)
      then have "t \<in> set (filter (\<lambda>t. expire_tick t \<le> now + ticks) ?q)"
        by (simp only: list.set_intros)
      then have t: "t \<in> set ?q" "expire_tick t \<le> now + ticks"
        by auto
      have "tm_addr t \<noteq> n"
        using fresh t(1) by auto
      then show ?thesis
        using split Cons t by (auto simp: not_less)
    qed
    let ?tm = "tm\<lparr>g_timer_queue := timer_insert ?n ?q\<rparr>"
    let ?tm' = "if \<forall>t\<in>set ?q. now + ticks < expire_tick t then ?tm\<lparr>stimer := now + ticks\<rparr> else ?tm"
    have "add_timer_ticks h tm now cb arg ticks = Some (h', ?tm')"
      using run n(1) first by (simp add: add_timer_ticks_def Let_def)
    moreover have "timer_nodes_ok (insert (n, 64) R) ?tm' ts"
    proof -
      have "owns_nodes (insert (n, 64) R) (map tm_addr (timer_insert ?n ?q) @ map tn_addr (g_task_queue ts))"
      proof -
        have "mset (map tm_addr (timer_insert ?n ?q)) = add_mset n (mset (map tm_addr ?q))"
          by (simp add: tmq.ins_mset)
        then have "mset (map tm_addr (timer_insert ?n ?q) @ map tn_addr (g_task_queue ts)) =
            mset (n # map tm_addr ?q @ map tn_addr (g_task_queue ts))"
          by simp
        then have "distinct (map tm_addr (timer_insert ?n ?q) @ map tn_addr (g_task_queue ts))"
          using own fresh by (metis distinct.simps(2) mset_eq_imp_distinct_iff owns_nodes_def)
        moreover have "set (map tm_addr (timer_insert ?n ?q)) = insert n (set (map tm_addr ?q))"
          by (simp add: tmq.ins_set)
        ultimately show ?thesis
          using own by (auto simp: owns_nodes_def)
      qed
      then show ?thesis
        using ok tmq.ins_sorted [OF srt] by (simp add: timer_nodes_ok_def)
    qed
    ultimately show ?thesis
      using n split by (intro exI [of _ h'] exI [of _ ?tm'] conjI disjI2 exI [of _ n]) simp_all
  qed
qed

theorem add_timer_programs_earliest_witness:
  "\<exists>h' tm'. add_timer_ticks sample_heap \<lparr>g_timer_queue = [], g_timebase_freq = 3200, stimer = 100,
        resched = False\<rparr> 10 7 8 5000 = Some (h', tm') \<and> (stimer tm' = 100 \<or> stimer tm' = 5010)"
proof -
  have "timer_nodes_ok {} \<lparr>g_timer_queue = [], g_timebase_freq = 3200, stimer = 100, resched = False\<rparr>
      \<lparr>g_task_queue = [], g_running_priority = 5, sstatus_SIE = False\<rparr>"
    by (simp add: timer_nodes_ok_def owns_nodes_def)
  from add_timer_programs_earliest [OF sample_heap_live this, of 10 7 8 5000] show ?thesis
    by fastforce
qed

end
