(* ===== verification/Bounded_Queue.thy ===== *)
theory Bounded_Queue
  imports OSC_Prelude
begin

text \<open>
  The interface of a bounded first-in first-out queue that drops what does not fit: an
  implementation gives the list of its elements and the promises below. The lemmas follow from
  these alone, so they hold for every queue that keeps them.
\<close>

datatype 'a qop = Push 'a | Pop

text \<open>The specification: a list of at most \<open>cap\<close> elements. The output lists the result of every \<open>Pop\<close>.\<close>

fun fifo_run :: "nat \<Rightarrow> 'a qop list \<Rightarrow> 'a list \<Rightarrow> 'a list \<times> 'a option list" where
  "fifo_run cap [] q = (q, [])"
| "fifo_run cap (Push c # ops) q = fifo_run cap ops (if length q < cap then q @ [c] else q)"
| "fifo_run cap (Pop # ops) q =
     (case q of
        [] \<Rightarrow> (let (q', out) = fifo_run cap ops [] in (q', None # out))
      | c # q1 \<Rightarrow> (let (q', out) = fifo_run cap ops q1 in (q', Some c # out)))"

locale bounded_queue =
  fixes elems :: "'s \<Rightarrow> 'a list" and ok :: "'s \<Rightarrow> bool" and cap :: nat
    and push :: "'s \<Rightarrow> 'a \<Rightarrow> 's" and pop :: "'s \<Rightarrow> ('a \<times> 's) option"
    and is_empty :: "'s \<Rightarrow> bool" and is_full :: "'s \<Rightarrow> bool"
  assumes push_ok: "ok s \<Longrightarrow> ok (push s c)"
    and push_elems: "ok s \<Longrightarrow> elems (push s c) = (if length (elems s) < cap then elems s @ [c] else elems s)"
    and pop_None: "ok s \<Longrightarrow> pop s = None \<longleftrightarrow> elems s = []"
    and pop_Some: "ok s \<Longrightarrow> pop s = Some (c, s') \<Longrightarrow> ok s' \<and> elems s = c # elems s'"
    and empty: "ok s \<Longrightarrow> is_empty s \<longleftrightarrow> elems s = []"
    and full: "ok s \<Longrightarrow> is_full s \<longleftrightarrow> length (elems s) = cap"
    and bound: "ok s \<Longrightarrow> length (elems s) \<le> cap"
begin

fun run :: "'a qop list \<Rightarrow> 's \<Rightarrow> 's \<times> 'a option list" where
  "run [] s = (s, [])"
| "run (Push c # ops) s = run ops (push s c)"
| "run (Pop # ops) s =
     (case pop s of
        None \<Rightarrow> (let (s', out) = run ops s in (s', None # out))
      | Some (c, s1) \<Rightarrow> (let (s', out) = run ops s1 in (s', Some c # out)))"

lemma run_refines:
  "ok s \<Longrightarrow> ok (fst (run ops s)) \<and> fifo_run cap ops (elems s) = (elems (fst (run ops s)), snd (run ops s))"
proof (induction ops arbitrary: s)
  case (Cons p ops)
  show ?case
  proof (cases p)
    case (Push c)
    then show ?thesis
      using Cons by (simp add: push_ok push_elems [symmetric])
  next
    case Pop
    show ?thesis
    proof (cases "pop s")
      case None
      then have "elems s = []"
        using pop_None Cons.prems by simp
      with None Pop Cons.IH [OF Cons.prems] show ?thesis
        by (auto simp: split_beta)
    next
      case (Some cs)
      obtain c s1 where cs: "cs = (c, s1)"
        by (cases cs)
      with Some Cons.prems pop_Some have "ok s1" "elems s = c # elems s1"
        by blast+
      with Some Pop Cons.IH [of s1] cs show ?thesis
        by (auto simp: split_beta)
    qed
  qed
qed simp

lemma pushes_elems:
  "ok s \<Longrightarrow> ok (foldl push s cs) \<and> elems (foldl push s cs) = elems s @ take (cap - length (elems s)) cs"
proof (induction cs arbitrary: s)
  case (Cons c cs)
  have "elems (foldl push (push s c) cs) = elems (push s c) @ take (cap - length (elems (push s c))) cs"
    and "ok (foldl push (push s c) cs)"
    using Cons.IH [OF push_ok [OF Cons.prems]] by simp_all
  then show ?case
    using bound [OF Cons.prems]
    by (auto simp: push_elems [OF Cons.prems] take_Cons' not_less)
qed simp

end

end
