(* ===== verification/Uart.thy ===== *)
theory Uart
  imports Tasks Bounded_Queue
begin

text \<open>
  The serial port driver of \<^verbatim>\<open>kernel/src/uart.c\<close>: the two ring buffers between the interrupt handler and
  the rest of the kernel, the interrupt handler, and the blocking read and write of one byte. The
  device is what its registers show: the bytes that wait in the receiver, and how often the
  transmitter reports room, are arguments. A byte written to the transmitter is appended to
  \<open>tx_out\<close>.
\<close>

section \<open>Model\<close>

definition UART_BUF_SIZE :: u32 where
  "UART_BUF_SIZE = 256"

definition UART_BUF_MASK :: u32 where
  "UART_BUF_MASK = UART_BUF_SIZE - 1"

record uart_ring =
  rbuf :: "u8 list"
  rhead :: u32
  rtail :: u32

definition ring_empty :: "uart_ring \<Rightarrow> bool" where
  "ring_empty r \<longleftrightarrow> rhead r = rtail r"

definition ring_full :: "uart_ring \<Rightarrow> bool" where
  "ring_full r \<longleftrightarrow> (rhead r + 1) AND UART_BUF_MASK = rtail r"

definition ring_push :: "uart_ring \<Rightarrow> u8 \<Rightarrow> uart_ring" where
  "ring_push r c =
     (let next = (rhead r + 1) AND UART_BUF_MASK
      in if next = rtail r then r else r\<lparr>rbuf := (rbuf r)[unat (rhead r) := c], rhead := next\<rparr>)"

text \<open>\<^const>\<open>None\<close> is the result \<^verbatim>\<open>-1\<close>.\<close>

definition ring_pop :: "uart_ring \<Rightarrow> (u8 \<times> uart_ring) option" where
  "ring_pop r =
     (if rhead r = rtail r then None
      else Some (rbuf r ! unat (rtail r), r\<lparr>rtail := (rtail r + 1) AND UART_BUF_MASK\<rparr>))"

definition IER_RAVIE :: u32 where
  "IER_RAVIE = 1"

definition IER_TIE :: u32 where
  "IER_TIE = 2"

definition MCR_OUT2 :: u32 where
  "MCR_OUT2 = 8"

definition LSR_DR :: u32 where
  "LSR_DR = 1"

definition LSR_ERRORS :: u32 where
  "LSR_ERRORS = 2 OR 4 OR 8 OR 16"

definition UART_TASK_PRIO :: i32 where
  "UART_TASK_PRIO = 1"

record uart =
  rx_buf :: uart_ring
  tx_buf :: uart_ring
  g_uart_irq_mode :: bool
  uart_IER :: u32
  uart_MCR :: u32
  tx_out :: "u8 list"

definition uart_init :: "uart \<Rightarrow> uart" where
  "uart_init u = u\<lparr>uart_MCR := uart_MCR u OR MCR_OUT2, uart_IER := (uart_IER u AND NOT IER_TIE) OR IER_RAVIE\<rparr>"

definition uart_enable_irq_mode :: "uart \<Rightarrow> uart" where
  "uart_enable_irq_mode u = u\<lparr>g_uart_irq_mode := True\<rparr>"

text \<open>The two loops of the interrupt handler. The receiver has the bytes \<open>rx\<close>; the transmitter reports
  room \<open>room\<close> times.\<close>

fun uart_rx_drain :: "u8 list \<Rightarrow> uart \<Rightarrow> uart" where
  "uart_rx_drain [] u = u"
| "uart_rx_drain (ch # rx) u = uart_rx_drain rx (u\<lparr>rx_buf := ring_push (rx_buf u) ch\<rparr>)"

fun uart_tx_drain :: "nat \<Rightarrow> uart \<Rightarrow> uart" where
  "uart_tx_drain 0 u = u"
| "uart_tx_drain (Suc room) u =
     (case ring_pop (tx_buf u) of
        None \<Rightarrow> u
      | Some (c, r) \<Rightarrow> uart_tx_drain room (u\<lparr>tx_buf := r, tx_out := tx_out u @ [c]\<rparr>))"

text \<open>The second component of the result tells whether the interrupt was completed at the controller,
  which otherwise the bottom half \<open>cb\<close> does.\<close>

definition uart_top_half ::
    "u8 list \<Rightarrow> nat \<Rightarrow> u64 \<Rightarrow> kheap \<Rightarrow> tasks \<Rightarrow> uart \<Rightarrow> u32 \<Rightarrow> (kheap \<times> tasks \<times> uart \<times> bool) option" where
  "uart_top_half rx room cb h ts u irq =
     (let u1 = uart_tx_drain room (uart_rx_drain rx u);
          u2 = (if ring_empty (tx_buf u1) \<and> uart_IER u1 AND IER_TIE \<noteq> 0
                then u1\<lparr>uart_IER := uart_IER u1 AND NOT IER_TIE\<rparr> else u1)
      in do {
        (h', ts', r) \<leftarrow> add_task h ts cb (ucast irq) UART_TASK_PRIO;
        Some (h', ts', u2, r \<noteq> 0)
      })"

text \<open>The interrupt source that the bottom half completes.\<close>

definition uart_bottom_half :: "u64 \<Rightarrow> u32" where
  "uart_bottom_half arg = ucast arg"

text \<open>The polled read: the readings of the line status and of the receive buffer, one pair per round.
  \<^const>\<open>None\<close> is still waiting.\<close>

fun uart_getc_raw :: "(u32 \<times> u32) list \<Rightarrow> i32 option" where
  "uart_getc_raw [] = None"
| "uart_getc_raw ((lsr, rbr) # rs) =
     (if lsr AND LSR_DR = 0 then uart_getc_raw rs
      else if lsr AND LSR_ERRORS \<noteq> 0 then Some (-1)
      else Some (rbr AND 0xFF))"

text \<open>One attempt of \<^verbatim>\<open>uart_getc\<close>: \<^const>\<open>None\<close> is an empty buffer, where the code yields and tries again.\<close>

definition uart_getc :: "(u32 \<times> u32) list \<Rightarrow> uart \<Rightarrow> (uart \<times> i32) option" where
  "uart_getc raw u = do {
     (u', c) \<leftarrow> (if g_uart_irq_mode u
                then do { (ch, r) \<leftarrow> ring_pop (rx_buf u); Some (u\<lparr>rx_buf := r\<rparr>, ucast ch) }
                else do { c \<leftarrow> uart_getc_raw raw; Some (u, c) });
     Some (u', if c = 13 then 10 else c)
   }"

text \<open>One attempt of \<^verbatim>\<open>uart_putc\<close> to send a byte other than a line feed: \<^const>\<open>None\<close> is a full buffer, where
  the code yields and tries again. Before the interrupts are on, it waits for the device.\<close>

definition uart_send :: "uart \<Rightarrow> u8 \<Rightarrow> uart option" where
  "uart_send u c =
     (if g_uart_irq_mode u
      then if ring_full (tx_buf u) then None
           else Some (let u1 = u\<lparr>tx_buf := ring_push (tx_buf u) c\<rparr>
                      in if uart_IER u1 AND IER_TIE = 0 then u1\<lparr>uart_IER := uart_IER u1 OR IER_TIE\<rparr> else u1)
      else Some (u\<lparr>tx_out := tx_out u @ [c]\<rparr>))"

text \<open>The bytes that \<^verbatim>\<open>uart_putc\<close> sends for one character: a line feed is preceded by a carriage return.\<close>

definition crlf :: "u8 \<Rightarrow> u8 list" where
  "crlf c = (if c = 10 then [13, 10] else [c])"

text \<open>Sending bytes until the buffer is full; the second component is what has not been sent.\<close>

fun uart_send_all :: "uart \<Rightarrow> u8 list \<Rightarrow> uart \<times> u8 list" where
  "uart_send_all u [] = (u, [])"
| "uart_send_all u (c # cs) = (case uart_send u c of None \<Rightarrow> (u, c # cs) | Some u' \<Rightarrow> uart_send_all u' cs)"

definition uart_putc :: "uart \<Rightarrow> u8 \<Rightarrow> uart \<times> u8 list" where
  "uart_putc u c = uart_send_all u (crlf c)"

section \<open>The ring buffer\<close>

text \<open>The elements are the cells from the tail up to the head, cyclically.\<close>

definition ring_len :: "uart_ring \<Rightarrow> nat" where
  "ring_len r = (unat (rhead r) + 256 - unat (rtail r)) mod 256"

definition ring_list :: "uart_ring \<Rightarrow> u8 list" where
  "ring_list r = map (\<lambda>i. rbuf r ! ((unat (rtail r) + i) mod 256)) [0..<ring_len r]"

definition ring_ok :: "uart_ring \<Rightarrow> bool" where
  "ring_ok r \<longleftrightarrow> length (rbuf r) = 256 \<and> unat (rhead r) < 256 \<and> unat (rtail r) < 256"

lemma unat_next: "unat ((x + 1) AND UART_BUF_MASK) = (unat x + 1) mod 256"
proof -
  have "(x + 1) AND UART_BUF_MASK = take_bit 8 (x + 1)"
    by (simp add: UART_BUF_MASK_def UART_BUF_SIZE_def take_bit_eq_mask mask_eq_exp_minus_1)
  then have "unat ((x + 1) AND UART_BUF_MASK) = unat (x + 1) mod 256"
    by (simp add: take_bit_eq_mod unat_mod)
  also have "\<dots> = (unat x + 1) mod 256"
    by (simp add: unat_word_ariths mod_mod_cancel)
  finally show ?thesis .
qed

lemma next_eq_tail: "ring_ok r \<Longrightarrow> (rhead r + 1) AND UART_BUF_MASK = rtail r \<longleftrightarrow> ring_len r = 255"
  using unat_next [of "rhead r"]
  by (auto simp: ring_ok_def ring_len_def word_unat_eq_iff mod_if split: if_splits)

lemma head_eq_tail: "ring_ok r \<Longrightarrow> rhead r = rtail r \<longleftrightarrow> ring_len r = 0"
  by (auto simp: ring_ok_def ring_len_def word_unat_eq_iff mod_if split: if_splits)

lemma ring_len_le: "ring_len r \<le> 255"
proof -
  have "ring_len r < 256" by (simp add: ring_len_def)
  then show ?thesis by simp
qed

lemma ring_push_list:
  assumes ok: "ring_ok r"
  shows "ring_ok (ring_push r c)"
    and "ring_list (ring_push r c) = (if ring_len r < 255 then ring_list r @ [c] else ring_list r)"
proof -
  let ?r = "ring_push r c"
  show "ring_ok ?r"
    using ok by (simp add: ring_push_def ring_ok_def Let_def unat_next)
  show "ring_list ?r = (if ring_len r < 255 then ring_list r @ [c] else ring_list r)"
  proof (cases "ring_len r < 255")
    case False
    then have "ring_len r = 255"
      using ring_len_le [of r] by simp
    with next_eq_tail [OF ok] show ?thesis
      by (simp add: ring_push_def Let_def)
  next
    case True
    let ?h = "unat (rhead r)" and ?t = "unat (rtail r)" and ?n = "ring_len r"
    have new: "?r = r\<lparr>rbuf := (rbuf r)[?h := c], rhead := (rhead r + 1) AND UART_BUF_MASK\<rparr>"
      using True next_eq_tail [OF ok] by (simp add: ring_push_def Let_def)
    have other: "?h \<noteq> (?t + i) mod 256" if "i < ?n" for i
      using ok True that unfolding ring_ok_def ring_len_def
      by (auto simp: mod_if split: if_splits)
    have "ring_len ?r = Suc ?n" and "(?t + ?n) mod 256 = ?h"
      using ok True unfolding new ring_ok_def ring_len_def
      by (auto simp: unat_next mod_if split: if_splits)
    then show ?thesis
      using ok True by (simp add: ring_list_def) (auto simp: new ring_ok_def nth_list_update other)
  qed
qed

lemma ring_pop_list:
  assumes ok: "ring_ok r"
  shows "ring_pop r = None \<longleftrightarrow> ring_list r = []"
    and "ring_pop r = Some (c, r') \<Longrightarrow> ring_ok r' \<and> ring_list r = c # ring_list r'"
proof -
  show "ring_pop r = None \<longleftrightarrow> ring_list r = []"
    using head_eq_tail [OF ok] by (simp add: ring_pop_def ring_list_def)
  assume pop: "ring_pop r = Some (c, r')"
  let ?t = "unat (rtail r)"
  from pop have ne: "rhead r \<noteq> rtail r" and c: "c = rbuf r ! ?t"
    and r': "r' = r\<lparr>rtail := (rtail r + 1) AND UART_BUF_MASK\<rparr>"
    by (auto simp: ring_pop_def split: if_splits)
  have pos: "0 < ring_len r"
    using ne head_eq_tail [OF ok] by simp
  have len: "ring_len r = Suc (ring_len r')" and t': "unat (rtail r') = (?t + 1) mod 256"
    using ok pos by (auto simp: r' unat_next ring_ok_def ring_len_def mod_if split: if_splits)
  have cell: "(unat (rtail r') + i) mod 256 = (?t + Suc i) mod 256" for i
    by (simp add: t' mod_add_left_eq)
  have "ring_list r = rbuf r ! (?t mod 256) # map (\<lambda>i. rbuf r ! ((?t + Suc i) mod 256)) [0..<ring_len r']"
    unfolding ring_list_def len upt_conv_Cons [OF zero_less_Suc] map_Suc_upt [symmetric] by simp
  also have "\<dots> = c # ring_list r'"
    using ok cell by (simp add: ring_list_def c ring_ok_def) (simp add: r')
  finally show "ring_ok r' \<and> ring_list r = c # ring_list r'"
    using ok by (simp add: ring_ok_def r' unat_next)
qed

lemma length_ring_list [simp]: "length (ring_list r) = ring_len r"
  by (simp add: ring_list_def)

interpretation ring: bounded_queue ring_list ring_ok 255 ring_push ring_pop ring_empty ring_full
proof unfold_locales
  fix s :: uart_ring and c s'
  assume ok: "ring_ok s"
  show "ring_ok (ring_push s c)" and
    "ring_list (ring_push s c) = (if length (ring_list s) < 255 then ring_list s @ [c] else ring_list s)"
    using ring_push_list [OF ok] by simp_all
  show "ring_pop s = None \<longleftrightarrow> ring_list s = []"
    using ring_pop_list(1) [OF ok] .
  show "ring_pop s = Some (c, s') \<Longrightarrow> ring_ok s' \<and> ring_list s = c # ring_list s'"
    using ring_pop_list(2) [OF ok] .
  show "ring_empty s \<longleftrightarrow> ring_list s = []"
    using head_eq_tail [OF ok] by (simp add: ring_empty_def ring_list_def)
  show "ring_full s \<longleftrightarrow> length (ring_list s) = 255"
    using next_eq_tail [OF ok] by (simp add: ring_full_def)
  show "length (ring_list s) \<le> 255"
    using ring_len_le by simp
qed


section \<open>The driver\<close>

text \<open>What happens to the driver once interrupts are on: the kernel sends a byte if there is room, an
  interrupt arrives, or the kernel reads a byte if there is one. The logs are the bytes accepted
  for sending, the bytes accepted from the line and the characters read.\<close>

datatype uart_event = Send u8 | Irq "u8 list" nat | Recv

record uart_log =
  sent :: "u8 list"
  received :: "u8 list"
  chars :: "i32 list"

definition rx_room :: "uart \<Rightarrow> nat" where
  "rx_room u = 255 - length (ring_list (rx_buf u))"

text \<open>The effect of the interrupt on the buffers, without the task that it queues.\<close>

definition uart_irq :: "u8 list \<Rightarrow> nat \<Rightarrow> uart \<Rightarrow> uart" where
  "uart_irq rx room u =
     (let u1 = uart_tx_drain room (uart_rx_drain rx u)
      in if ring_empty (tx_buf u1) \<and> uart_IER u1 AND IER_TIE \<noteq> 0
         then u1\<lparr>uart_IER := uart_IER u1 AND NOT IER_TIE\<rparr> else u1)"

lemma uart_top_half_irq:
  "uart_top_half rx room cb h ts u irq =
     do { (h', ts', r) \<leftarrow> add_task h ts cb (ucast irq) UART_TASK_PRIO; Some (h', ts', uart_irq rx room u, r \<noteq> 0) }"
  by (simp add: uart_top_half_def uart_irq_def Let_def)

fun uart_do :: "uart_event \<Rightarrow> uart \<times> uart_log \<Rightarrow> uart \<times> uart_log" where
  "uart_do (Send c) (u, l) =
     (case uart_send u c of None \<Rightarrow> (u, l) | Some u' \<Rightarrow> (u', l\<lparr>sent := sent l @ [c]\<rparr>))"
| "uart_do (Irq rx room) (u, l) = (uart_irq rx room u, l\<lparr>received := received l @ take (rx_room u) rx\<rparr>)"
| "uart_do Recv (u, l) =
     (case uart_getc [] u of None \<Rightarrow> (u, l) | Some (u', c) \<Rightarrow> (u', l\<lparr>chars := chars l @ [c]\<rparr>))"

definition cooked :: "u8 \<Rightarrow> i32" where
  "cooked c = (if c = 13 then 10 else ucast c)"

text \<open>The invariant: the buffers are well formed, what was accepted for sending is on the line or waits in
  order, what was accepted from the line was read or waits in order, and the transmit interrupt is
  enabled whenever bytes wait.\<close>

definition uart_inv :: "uart \<times> uart_log \<Rightarrow> bool" where
  "uart_inv s \<longleftrightarrow> (case s of (u, l) \<Rightarrow> ring_ok (rx_buf u) \<and> ring_ok (tx_buf u) \<and> g_uart_irq_mode u \<and>
     sent l = tx_out u @ ring_list (tx_buf u) \<and>
     map cooked (received l) = chars l @ map cooked (ring_list (rx_buf u)) \<and>
     (ring_empty (tx_buf u) \<or> uart_IER u AND IER_TIE \<noteq> 0))"

lemma rx_drain_push: "uart_rx_drain rx u = u\<lparr>rx_buf := foldl ring_push (rx_buf u) rx\<rparr>"
  by (induction rx arbitrary: u) simp_all

lemma tx_drain_queue:
  "ring_ok (tx_buf u) \<Longrightarrow> \<exists>r out. uart_tx_drain room u = u\<lparr>tx_buf := r, tx_out := tx_out u @ out\<rparr> \<and>
     ring_ok r \<and> ring_list (tx_buf u) = out @ ring_list r \<and> length out = min room (length (ring_list (tx_buf u)))"
proof (induction room arbitrary: u)
  case 0
  show ?case
    by (rule exI [of _ "tx_buf u"], rule exI [of _ "[]"]) (use 0 in simp)
next
  case (Suc room)
  show ?case
  proof (cases "ring_pop (tx_buf u)")
    case None
    then have "ring_list (tx_buf u) = []"
      using ring.pop_None [OF Suc.prems] by simp
    then show ?thesis
      by (intro exI [of _ "tx_buf u"] exI [of _ "[]"]) (use Suc.prems None in simp)
  next
    case (Some cr)
    obtain c r where cr: "cr = (c, r)"
      by (cases cr)
    with Some ring.pop_Some [OF Suc.prems] have r: "ring_ok r" "ring_list (tx_buf u) = c # ring_list r"
      by blast+
    let ?u = "u\<lparr>tx_buf := r, tx_out := tx_out u @ [c]\<rparr>"
    have "ring_ok (tx_buf ?u)"
      using r(1) by simp
    from Suc.IH [OF this] obtain r' out where
      "uart_tx_drain room ?u = ?u\<lparr>tx_buf := r', tx_out := tx_out ?u @ out\<rparr>" "ring_ok r'"
      "ring_list (tx_buf ?u) = out @ ring_list r'" "length out = min room (length (ring_list (tx_buf ?u)))"
      by blast
    with r(2) Some cr show ?thesis
      by (intro exI [of _ r'] exI [of _ "c # out"]) simp
  qed
qed

lemma IER_TIE_nonzero [simp]: "IER_TIE \<noteq> 0"
  by (simp add: IER_TIE_def)

lemma ucast_u8_inject: "(ucast c = (ucast d :: i32)) = (c = d)" for c d :: u8
proof -
  have "unat (ucast x :: i32) = unat x" for x :: u8
    using unsigned_less [of x, where 'a = nat]
    by (simp add: unsigned_ucast_eq take_bit_nat_eq_self)
  then show ?thesis
    by (metis word_unat_eq_iff)
qed

lemma uart_irq_inv:
  assumes inv: "uart_inv (u, l)"
  shows "uart_inv (uart_do (Irq rx room) (u, l))"
proof -
  let ?r = "foldl ring_push (rx_buf u) rx"
  let ?u = "u\<lparr>rx_buf := ?r\<rparr>"
  have ok: "ring_ok (rx_buf u)" "ring_ok (tx_buf u)" "ring_ok (tx_buf ?u)"
    using inv by (auto simp: uart_inv_def)
  have rx: "ring_ok ?r" "ring_list ?r = ring_list (rx_buf u) @ take (rx_room u) rx"
    using ring.pushes_elems [OF ok(1), of rx] by (simp_all add: rx_room_def)
  obtain r out where drain: "uart_tx_drain room ?u = ?u\<lparr>tx_buf := r, tx_out := tx_out ?u @ out\<rparr>"
    and r: "ring_ok r" "ring_list (tx_buf ?u) = out @ ring_list r"
    using tx_drain_queue [OF ok(3), of room] by blast
  have "ring_list (tx_buf u) \<noteq> []" if "\<not> ring_empty r"
    using that r ring.empty [OF r(1)] by simp
  then have tie: "ring_empty r \<or> uart_IER u AND IER_TIE \<noteq> 0"
    using inv ring.empty [OF ok(2)] by (auto simp: uart_inv_def)
  from inv rx r tie show ?thesis
    by (auto simp: uart_inv_def uart_irq_def Let_def drain rx_drain_push)
qed

lemma uart_send_inv:
  assumes inv: "uart_inv (u, l)"
  shows "uart_inv (uart_do (Send c) (u, l))"
proof (cases "ring_full (tx_buf u)")
  case True
  then show ?thesis
    using inv by (simp add: uart_inv_def uart_send_def)
next
  case False
  have ok: "ring_ok (tx_buf u)" "g_uart_irq_mode u"
    using inv by (simp_all add: uart_inv_def)
  have "length (ring_list (tx_buf u)) < 255"
    using False ring.full [OF ok(1)] ring.bound [OF ok(1)] by simp
  then have "ring_list (ring_push (tx_buf u) c) = ring_list (tx_buf u) @ [c]"
    using ring.push_elems [OF ok(1)] by simp
  then show ?thesis
    using inv False ok ring.push_ok [OF ok(1)] by (auto simp: uart_inv_def uart_send_def Let_def)
qed

lemma uart_recv_inv:
  assumes inv: "uart_inv (u, l)"
  shows "uart_inv (uart_do Recv (u, l))"
proof (cases "ring_pop (rx_buf u)")
  case None
  then show ?thesis
    using inv by (simp add: uart_inv_def uart_getc_def)
next
  case (Some cr)
  obtain c r where cr: "cr = (c, r)"
    by (cases cr)
  have ok: "ring_ok (rx_buf u)" "g_uart_irq_mode u"
    using inv by (simp_all add: uart_inv_def)
  from Some cr ring.pop_Some [OF ok(1)] have "ring_ok r" "ring_list (rx_buf u) = c # ring_list r"
    by blast+
  moreover have "(ucast c = (13 :: i32)) = (c = 13)"
    using ucast_u8_inject [of c 13] by simp
  ultimately show ?thesis
    using inv Some cr ok by (auto simp: uart_inv_def uart_getc_def cooked_def)
qed

section \<open>Properties\<close>

text \<open>
  C39: The ring buffer refines a bounded first-in first-out queue of 255 bytes: any sequence of pushes and
  pops on a well-formed ring gives the results that the list gives, and leaves the ring
  holding that list. The head and tail indices wrap, the 256 cells do not overflow, and a push into
  a full ring is dropped.
\<close>

theorem ring_refines_fifo:
  assumes "ring_ok r" and "(r', out) = ring.run ops r"
  shows "ring_ok r' \<and> fifo_run 255 ops (ring_list r) = (ring_list r', out)"
  using ring.run_refines [OF assms(1), of ops] by (simp add: assms(2) [symmetric])

definition sample_ring :: uart_ring where
  "sample_ring = \<lparr>rbuf = replicate 256 0, rhead = 255, rtail = 255\<rparr>"

lemma sample_ring_ok: "ring_ok sample_ring" "ring_list sample_ring = []"
  by (simp_all add: ring_ok_def ring_list_def ring_len_def sample_ring_def)

theorem ring_refines_fifo_witness:
  "snd (ring.run [Push 7, Push 8, Pop, Pop, Pop] sample_ring) = [Some 7, Some 8, None]"
  using ring_refines_fifo [OF sample_ring_ok(1) prod.collapse, of "[Push 7, Push 8, Pop, Pop, Pop]"]
  by (simp add: sample_ring_ok(2))

text \<open>
  C40: Over any interleaving of sends, interrupts and reads the driver keeps both byte streams in order and
  complete: the bytes accepted for sending are those on the line followed by those in the
  buffer, the bytes accepted from the line are those read, with carriage return read as line
  feed, followed by those in the buffer, and whenever bytes wait the transmit interrupt is enabled.
\<close>

theorem uart_streams_in_order:
  assumes "uart_inv s"
  shows "uart_inv (fold uart_do es s)"
  using assms
proof (induction es arbitrary: s)
  case (Cons e es)
  obtain u l where s: "s = (u, l)"
    by (cases s)
  have "uart_inv (uart_do e (u, l))"
    using Cons.prems s by (cases e) (auto intro: uart_irq_inv uart_send_inv uart_recv_inv simp del: uart_do.simps)
  with Cons.IH s show ?case
    by simp
qed simp

definition sample_uart :: uart where
  "sample_uart = \<lparr>rx_buf = sample_ring, tx_buf = sample_ring, g_uart_irq_mode = True, uart_IER = 1,
     uart_MCR = 8, tx_out = []\<rparr>"

lemma sample_uart_inv: "uart_inv (sample_uart, \<lparr>sent = [], received = [], chars = []\<rparr>)"
  by (simp add: uart_inv_def sample_uart_def sample_ring_ok ring_empty_def) (simp add: sample_ring_def)

theorem uart_streams_in_order_witness:
  "uart_inv (fold uart_do [Send 65, Send 66, Irq [13, 67] 1, Recv]
     (sample_uart, \<lparr>sent = [], received = [], chars = []\<rparr>))"
  by (rule uart_streams_in_order [OF sample_uart_inv])

end
