(* ===== verification/Video.thy ===== *)
theory Video
  imports Utils "HOL-Library.Signed_Division"
begin

text \<open>
  The framebuffer output of \<^verbatim>\<open>kernel/src/video.c\<close>: the centred copy of an image, row by row. The
  framebuffer starts at \<open>fb\<close>, which depends on the board. Cache flushes do not change memory.
\<close>

section \<open>Model\<close>

definition FB_WIDTH :: u32 where
  "FB_WIDTH = 1920"

definition FB_HEIGHT :: u32 where
  "FB_HEIGHT = 1080"

definition FB_BPP :: u32 where
  "FB_BPP = 4"

text \<open>The address of a pixel and the offset of a row of the image, with the \<^verbatim>\<open>int\<close> arithmetic of the
  source widened by the pointer addition.\<close>

definition fb_pixel :: "u64 \<Rightarrow> i32 \<Rightarrow> i32 \<Rightarrow> u64" where
  "fb_pixel fb x y = fb + 4 * scast (y * FB_WIDTH) + 4 * scast x"

fun video_rows :: "nat \<Rightarrow> i32 \<Rightarrow> u64 \<Rightarrow> u64 \<Rightarrow> i32 \<Rightarrow> i32 \<Rightarrow> i32 \<Rightarrow> mem \<Rightarrow> mem" where
  "video_rows 0 y fb bmp width start_x start_y m = m"
| "video_rows (Suc n) y fb bmp width start_x start_y m =
     video_rows n (y + 1) fb bmp width start_x start_y
       (mem_cpy m (fb_pixel fb start_x (start_y + y)) (bmp + 4 * scast (y * width)) (scast width * 4))"

definition video_bmp_display :: "u64 \<Rightarrow> u64 \<Rightarrow> i32 \<Rightarrow> i32 \<Rightarrow> mem \<Rightarrow> mem" where
  "video_bmp_display fb bmp width height m =
     (let start_x = word_of_int (sint (FB_WIDTH - width) sdiv 2);
          start_y = word_of_int (sint (FB_HEIGHT - height) sdiv 2)
      in video_rows (nat (sint height)) 0 fb bmp width start_x start_y m)"

section \<open>Where the rows go\<close>

lemma small_i32:
  assumes "n < 2 ^ 31"
  shows "sint (of_nat n :: i32) = int n" and "(scast (of_nat n :: i32) :: u64) = of_nat n"
proof -
  have u: "uint (of_nat n :: i32) = int n"
    using assms by (simp add: uint_nat unat_of_nat)
  have "\<not> bit (int n) 31"
    using assms by (simp add: bit_iff_odd)
  then show s: "sint (of_nat n :: i32) = int n"
    using assms u by (simp add: sint_uint signed_take_bit_eq_take_bit_minus take_bit_int_eq_self)
  show "(scast (of_nat n :: i32) :: u64) = of_nat n"
    unfolding scast_eq s by simp
qed

definition fb_row :: "u64 \<Rightarrow> nat \<Rightarrow> nat \<Rightarrow> nat" where
  "fb_row fb x y = unat fb + 4 * (y * 1920 + x)"

lemma fb_pixel_row:
  assumes "unat fb + 8294400 \<le> 2 ^ 64" and "x < 1920" and "y < 1080"
  shows "fb_pixel fb (of_nat x) (of_nat y) = of_nat (fb_row fb x y)"
proof -
  have "y * 1920 < 2 ^ 31" "x < 2 ^ 31"
    using assms by simp_all
  then have "(scast (of_nat (y * 1920) :: i32) :: u64) = of_nat (y * 1920)" "(scast (of_nat x :: i32) :: u64) = of_nat x"
    by (simp_all only: small_i32(2))
  then show ?thesis
    by (simp add: fb_pixel_def FB_WIDTH_def fb_row_def algebra_simps)
qed

lemma video_rows_copy:
  fixes bmp fb :: u64
  assumes fb: "unat fb + 8294400 \<le> 2 ^ 64" and bmp: "unat bmp + 4 * (w * h) \<le> 2 ^ 64"
    and apart: "unat bmp + 4 * (w * h) \<le> unat fb \<or> unat fb + 8294400 \<le> unat bmp"
    and w: "0 < w" "sx + w \<le> 1920" and h: "sy + h \<le> 1080" and yn: "y + n = h"
  shows "(\<forall>a. (\<forall>i. y \<le> i \<and> i < h \<longrightarrow> \<not> (fb_row fb sx (sy + i) \<le> unat a \<and> unat a < fb_row fb sx (sy + i) + 4 * w)) \<longrightarrow>
      video_rows n (of_nat y) fb bmp (of_nat w) (of_nat sx) (of_nat sy) m a = m a) \<and>
    (\<forall>i j. y \<le> i \<and> i < h \<and> j < 4 * w \<longrightarrow>
      video_rows n (of_nat y) fb bmp (of_nat w) (of_nat sx) (of_nat sy) m (of_nat (fb_row fb sx (sy + i) + j)) =
      m (of_nat (unat bmp + 4 * (i * w) + j)))"
  using yn
proof (induction n arbitrary: y m)
  case 0
  then show ?case by auto
next
  case (Suc n)
  have y: "y < h" "Suc y + n = h"
    using Suc.prems by simp_all
  let ?row = "\<lambda>i. fb_row fb sx (sy + i)"
  have row: "unat fb \<le> ?row i" "?row i + 4 * w \<le> unat fb + 8294400" if "i < h" for i
    using that h w by (simp_all add: fb_row_def)
  have gap: "?row i + 4 * w \<le> ?row j" if "i < j" for i j
    using that w by (simp add: fb_row_def)
  have src: "4 * (i * w) + 4 * w \<le> 4 * (w * h)" if "i < h" for i
  proof -
    have "Suc i * w \<le> h * w"
      using that by (intro mult_le_mono1) simp
    then show ?thesis by (simp add: mult.commute)
  qed
  have un: "unat (of_nat n :: u64) = n" if "n < 2 ^ 64" for n
    using that by (simp add: unat_of_nat)
  have lt: "?row i + j < 2 ^ 64" "unat bmp + 4 * (i * w) + j < 2 ^ 64" if "i < h" "j < 4 * w" for i j
    using row [OF that(1)] src [OF that(1)] that fb bmp by simp_all
  have yw: "y * w < 2 ^ 31"
  proof -
    have "y * w \<le> 1080 * 1920"
      using y w h by (intro mult_le_mono) simp_all
    then show ?thesis by simp
  qed
  let ?src = "bmp + 4 * scast (of_nat y * of_nat w :: i32)" and ?dst = "fb_pixel fb (of_nat sx) (of_nat sy + of_nat y)"
  let ?len = "scast (of_nat w :: i32) * 4 :: u64"
  define m1 where "m1 = mem_cpy m ?dst ?src ?len"
  have "w < 2 ^ 31"
    using w by simp
  then have len: "unat ?len = 4 * w"
    using w by (simp add: small_i32(2) unat_word_ariths un)
  have "?src = of_nat (unat bmp + 4 * (y * w))"
    using small_i32(2) [OF yw] by simp
  then have s: "unat ?src = unat bmp + 4 * (y * w)"
    using lt(2) [OF y(1), of 0] w(1) by (simp only: un add_0_right)
  have "?dst = of_nat (?row y)"
    using fb_pixel_row [OF fb, of sx "sy + y"] w h y by simp
  then have d: "unat ?dst = ?row y"
    using lt(1) [OF y(1), of 0] w(1) by (simp only: un add_0_right)
  have "unat ?src + unat ?len \<le> 2 ^ 64" "unat ?dst + unat ?len \<le> 2 ^ 64"
    "unat ?dst \<le> unat ?src \<or> unat ?src + unat ?len \<le> unat ?dst"
    unfolding s d len using row [OF y(1)] src [OF y(1)] fb bmp apart by auto
  from mem_cpy_range [OF this] have cpy: "mem_bytes m1 ?dst (4 * w) = mem_bytes m ?src (4 * w)"
    and frame: "\<And>a. \<not> (?row y \<le> unat a \<and> unat a < ?row y + 4 * w) \<Longrightarrow> m1 a = m a"
    unfolding m1_def len d word_le_nat_alt by blast+
  have copied: "m1 (of_nat (?row y + j)) = m (of_nat (unat bmp + 4 * (y * w) + j))" if "j < 4 * w" for j
  proof -
    have "mem_bytes m1 ?dst (4 * w) ! j = mem_bytes m ?src (4 * w) ! j"
      by (simp only: cpy)
    then show ?thesis
      using that \<open>?dst = _\<close> \<open>?src = _\<close> by (simp add: mem_bytes_def)
  qed
  have kept: "m1 (of_nat (unat bmp + 4 * (i * w) + j)) = m (of_nat (unat bmp + 4 * (i * w) + j))" if "i < h" "j < 4 * w" for i j
    using row [OF y(1)] src [OF that(1)] apart that lt(2) [OF that] by (intro frame) (auto simp only: un)
  have step: "video_rows (Suc n) (of_nat y) fb bmp (of_nat w) (of_nat sx) (of_nat sy) m =
      video_rows n (of_nat (Suc y)) fb bmp (of_nat w) (of_nat sx) (of_nat sy) m1"
    by (simp add: m1_def add.commute)
  note IH = Suc.IH [OF y(2), of m1]
  show ?case
    unfolding step
  proof (intro conjI allI impI)
    fix a :: u64
    assume out: "\<forall>i. y \<le> i \<and> i < h \<longrightarrow> \<not> (?row i \<le> unat a \<and> unat a < ?row i + 4 * w)"
    then have "video_rows n (of_nat (Suc y)) fb bmp (of_nat w) (of_nat sx) (of_nat sy) m1 a = m1 a"
      using IH Suc_leD by blast
    then show "video_rows n (of_nat (Suc y)) fb bmp (of_nat w) (of_nat sx) (of_nat sy) m1 a = m a"
      using frame [of a] out y(1) by (metis order_refl)
  next
    fix i j
    assume ij: "y \<le> i \<and> i < h \<and> j < 4 * w"
    show "video_rows n (of_nat (Suc y)) fb bmp (of_nat w) (of_nat sx) (of_nat sy) m1 (of_nat (?row i + j)) =
      m (of_nat (unat bmp + 4 * (i * w) + j))"
    proof (cases "i = y")
      case False
      then have "Suc y \<le> i \<and> i < h \<and> j < 4 * w"
        using ij by simp
      with IH kept [of i j] ij show ?thesis
        by metis
    next
      case True
      have "\<not> (?row i' \<le> ?row y + j \<and> ?row y + j < ?row i' + 4 * w)" if "Suc y \<le> i'" for i'
        using gap [of y i'] that ij by simp
      moreover have "unat (of_nat (?row y + j) :: u64) = ?row y + j"
        using lt(1) ij True by (intro un) blast
      ultimately have "video_rows n (of_nat (Suc y)) fb bmp (of_nat w) (of_nat sx) (of_nat sy) m1 (of_nat (?row y + j)) =
          m1 (of_nat (?row y + j))"
        using IH by metis
      with copied [of j] ij True show ?thesis
        by simp
    qed
  qed
qed

end
