(* ===== verification/Syscall.thy ===== *)
theory Syscall
  imports Signal Timer Uart Video
begin

text \<open>
  The system calls of \<^verbatim>\<open>kernel/src/syscall.c\<close>. A call may yield inside the kernel and go on when its
  thread runs again. So a call is modelled up to the point where it ends or yields: it
  \<open>Returns\<close> a value, it is \<open>Waiting\<close> at a place of the source from which \<open>resume\<close> goes on, or it
  is \<open>Gone\<close> because its process has ended. When a call waits, the state is the one after
  \<^verbatim>\<open>schedule\<close>, where another thread may be current. Arguments are the register values; the results
  of the device tree, the time register and the serial device are parameters.
\<close>

section \<open>Model\<close>

text \<open>The places: the child waited for; sleeping; the buffer, the count and the bytes read; the buffer,
  the count, the bytes taken and what is left to send of the last one.\<close>

datatype syscall_point =
    In_waitpid u64
  | In_usleep
  | In_uart_read u64 u64 u64
  | In_uart_write u64 u64 u64 "u8 list"

datatype outcome = Returns u64 | Waiting syscall_point | Gone

definition in_user_range :: "buddy \<Rightarrow> u64 \<Rightarrow> u64 \<Rightarrow> bool" where
  "in_user_range b p n =
     (let e = p + n;
          dram_base = buddy_get_base b;
          dram_end = dram_base + of_nat (buddy_get_total_pages b) * PAGE_SIZE
      in \<not> e < p \<and> dram_base \<le> p \<and> e \<le> dram_end)"

definition user_range :: "kernel \<Rightarrow> u64 \<Rightarrow> u64 \<Rightarrow> bool" where
  "user_range k p n = in_user_range (heap_buddy (k_heap k)) p n"

definition sys_getpid :: "kernel \<Rightarrow> (kernel \<times> outcome) option" where
  "sys_getpid k = do { self \<leftarrow> threads k (get_current k); Some (k, Returns (scast (pid self))) }"

text \<open>The loop of \<^verbatim>\<open>sys_uart_read\<close> with \<open>n\<close> bytes to go; the last component of the result tells that it
  yields. \<open>raw\<close> are the readings of the device for the polled mode.\<close>

fun uart_read_loop :: "(u32 \<times> u32) list \<Rightarrow> nat \<Rightarrow> mem \<Rightarrow> uart \<Rightarrow> u64 \<Rightarrow> u64 \<Rightarrow> mem \<times> uart \<times> u64 \<times> bool" where
  "uart_read_loop raw 0 m u buf i = (m, u, i, False)"
| "uart_read_loop raw (Suc n) m u buf i =
     (case uart_getc raw u of
        None \<Rightarrow> (m, u, i, True)
      | Some (u', c) \<Rightarrow>
          if sint c < 0 then (m, u', i, i = 0)
          else uart_read_loop raw n (m(buf + i := ucast c)) u' buf (i + 1))"

definition uart_read_on :: "(u32 \<times> u32) list \<Rightarrow> kernel \<Rightarrow> uart \<Rightarrow> u64 \<Rightarrow> u64 \<Rightarrow> u64 \<Rightarrow> (kernel \<times> uart \<times> outcome) option" where
  "uart_read_on raw k u buf cnt i =
     (case uart_read_loop raw (unat (cnt - i)) (k_mem k) u buf i of (m, u', j, waits) \<Rightarrow>
        if waits then do { k' \<leftarrow> schedule (k\<lparr>k_mem := m\<rparr>); Some (k', u', Waiting (In_uart_read buf cnt j)) }
        else Some (k\<lparr>k_mem := m\<rparr>, u', Returns j))"

definition sys_uart_read :: "(u32 \<times> u32) list \<Rightarrow> kernel \<Rightarrow> uart \<Rightarrow> u64 \<Rightarrow> u64 \<Rightarrow> (kernel \<times> uart \<times> outcome) option" where
  "sys_uart_read raw k u buf cnt =
     (if sint cnt \<le> 0 \<or> \<not> user_range k buf cnt then Some (k, u, Returns (-1))
      else uart_read_on raw k u buf cnt 0)"

text \<open>The loop of \<^verbatim>\<open>sys_uart_write\<close> with \<open>n\<close> bytes to go after the current one, of which \<open>rest\<close> is unsent.\<close>

fun uart_write_loop :: "nat \<Rightarrow> mem \<Rightarrow> uart \<Rightarrow> u64 \<Rightarrow> u64 \<Rightarrow> u8 list \<Rightarrow> uart \<times> u64 \<times> u8 list" where
  "uart_write_loop n m u buf i rest =
     (case uart_send_all u rest of
        (u', []) \<Rightarrow> (case n of 0 \<Rightarrow> (u', i, []) | Suc n' \<Rightarrow> uart_write_loop n' m u' buf (i + 1) (crlf (m (buf + i))))
      | (u', c # cs) \<Rightarrow> (u', i, c # cs))"

definition uart_write_on :: "kernel \<Rightarrow> uart \<Rightarrow> u64 \<Rightarrow> u64 \<Rightarrow> u64 \<Rightarrow> u8 list \<Rightarrow> (kernel \<times> uart \<times> outcome) option" where
  "uart_write_on k u buf cnt i rest =
     (case uart_write_loop (unat (cnt - i)) (k_mem k) u buf i rest of
        (u', j, []) \<Rightarrow> Some (k, u', Returns cnt)
      | (u', j, c # cs) \<Rightarrow> do { k' \<leftarrow> schedule k; Some (k', u', Waiting (In_uart_write buf cnt j (c # cs))) })"

definition sys_uart_write :: "kernel \<Rightarrow> uart \<Rightarrow> u64 \<Rightarrow> u64 \<Rightarrow> (kernel \<times> uart \<times> outcome) option" where
  "sys_uart_write k u buf cnt =
     (if sint cnt < 0 \<or> \<not> user_range k buf cnt then Some (k, u, Returns (-1))
      else uart_write_on k u buf cnt 0 [])"

text \<open>The frame that \<^verbatim>\<open>sys_exec\<close> leaves: the general registers cleared, the status kept.\<close>

definition exec_frame :: "trap_frame \<Rightarrow> u64 \<Rightarrow> u64 \<Rightarrow> u64 \<Rightarrow> trap_frame" where
  "exec_frame tf self buf sz = zero_frame\<lparr>tf_sepc := buf, tf_sp := (buf + sz) AND NOT 0xF, tf_tp := self,
     tf_sstatus := tf_sstatus tf, tf_scause := tf_scause tf, tf_stval := tf_stval tf\<rparr>"

definition sys_exec :: "u64 \<Rightarrow> kernel \<Rightarrow> u64 \<Rightarrow> (kernel \<times> outcome) option" where
  "sys_exec initrd k path = do {
     self \<leftarrow> threads k (get_current k);
     if image_base self = NULL then Some (k, Returns (-1))
     else do {
       found \<leftarrow> (if initrd = NULL then Some None else cpio_find (k_mem k) initrd (k_mem k) path);
       case found of
         None \<Rightarrow> Some (k, Returns (-1))
       | Some (src, sz) \<Rightarrow> do {
           (k1, buf) \<leftarrow> k_kmalloc k (sz + USER_STACK_SIZE);
           if buf = NULL then Some (k1, Returns (-1))
           else do {
             let k2 = k1\<lparr>k_mem := mem_cpy (k_mem k1) buf src sz\<rparr>;
             k3 \<leftarrow> upd k2 (cur k) (\<lambda>th. th\<lparr>image_base := buf, image_size := sz, total_size := sz + USER_STACK_SIZE\<rparr>);
             k4 \<leftarrow> k_kfree k3 (image_base self);
             k5 \<leftarrow> upd k4 (cur k) (\<lambda>th. th\<lparr>sig := (sig th)\<lparr>sig_handlers := replicate NSIG SIG_DFL, sig_pending := 0\<rparr>\<rparr>);
             k6 \<leftarrow> signal_release k5 (cur k);
             k7 \<leftarrow> upd k6 (cur k) (\<lambda>th. th\<lparr>kframe := exec_frame (kframe th) (cur k) buf (sz + USER_STACK_SIZE)\<rparr>);
             Some (k7\<lparr>g_user_base := buf\<rparr>, Returns 0)
           }
         }
     }
   }"

text \<open>The frame and the thread record of a forked child.\<close>

definition fork_frame :: "trap_frame \<Rightarrow> u64 \<Rightarrow> u64 \<Rightarrow> u64 \<Rightarrow> trap_frame" where
  "fork_frame tf par_image ch img = tf\<lparr>tf_a0 := 0, tf_sp := img + (tf_sp tf - par_image), tf_tp := ch\<rparr>"

definition fork_child :: "kernel \<Rightarrow> thread \<Rightarrow> u64 \<Rightarrow> u64 \<Rightarrow> thread \<Rightarrow> thread" where
  "fork_child k par ch img c =
     c\<lparr>image_size := image_size par, total_size := total_size par, image_base := img,
       kframe := fork_frame (kframe par) (image_base par) ch img,
       ctx := (ctx c)\<lparr>ctx_sp := ((kstack_base c + kstack_size c) AND NOT 0xF) - TF_SIZE,
                      ctx_ra := user_thread_bootstrap k\<rparr>,
       sig := (sig c)\<lparr>sig_handlers := sig_handlers (sig par), sig_pending := 0, sig_in_handler := False,
                      sigstack_base := NULL\<rparr>,
       parent := cur k\<rparr>"

definition sys_fork :: "kernel \<Rightarrow> (kernel \<times> outcome) option" where
  "sys_fork k = do {
     par \<leftarrow> threads k (get_current k);
     if image_base par = NULL then Some (k, Returns (-1))
     else do {
       (k1, ch) \<leftarrow> thread_alloc_bare k;
       if ch = NULL then Some (k1, Returns (-1))
       else do {
         (k2, img) \<leftarrow> k_kmalloc k1 (total_size par);
         c \<leftarrow> threads k2 ch;
         if img = NULL
         then do {
           k3 \<leftarrow> k_kfree k2 (kstack_base c);
           k4 \<leftarrow> k_kfree k3 ch;
           Some (k4\<lparr>threads := (threads k4)(ch := None)\<rparr>, Returns (-1))
         }
         else do {
           let k3 = k2\<lparr>k_mem := mem_cpy (k_mem k2) img (image_base par) (total_size par)\<rparr>;
           k4 \<leftarrow> upd k3 ch (fork_child k3 par ch img);
           k5 \<leftarrow> upd k4 (cur k) (\<lambda>p. p\<lparr>children := children p @ [ch]\<rparr>);
           k6 \<leftarrow> thread_enqueue_ready k5 ch;
           Some (k6, Returns (scast (pid c)))
         }
       }
     }
   }"

text \<open>The search of \<^verbatim>\<open>sys_waitpid\<close> through the children.\<close>

fun find_child :: "kernel \<Rightarrow> u64 list \<Rightarrow> i32 \<Rightarrow> u64 option option" where
  "find_child k [] p = Some None"
| "find_child k (c # cs) p = do { th \<leftarrow> threads k c; if pid th = p then Some (Some c) else find_child k cs p }"

definition waitpid_on :: "kernel \<Rightarrow> u64 \<Rightarrow> (kernel \<times> outcome) option" where
  "waitpid_on k child = do {
     c \<leftarrow> threads k child;
     if state c \<noteq> THREAD_ZOMBIE then do { k1 \<leftarrow> thread_block k; Some (k1, Waiting (In_waitpid child)) }
     else Some (sched_zombify (del_sibling child k) child, Returns (scast (exit_status c)))
   }"

definition sys_waitpid :: "kernel \<Rightarrow> u64 \<Rightarrow> (kernel \<times> outcome) option" where
  "sys_waitpid k p = do {
     self \<leftarrow> threads k (get_current k);
     child \<leftarrow> find_child k (children self) (ucast p);
     case child of None \<Rightarrow> Some (k, Returns (-1)) | Some c \<Rightarrow> waitpid_on k c
   }"

text \<open>The loop that hands the children of an exiting process to the bootstrap thread.\<close>

partial_function (option) reparent_children :: "u64 \<Rightarrow> kernel \<Rightarrow> kernel option" where
  "reparent_children self k =
     Option.bind (threads k self) (\<lambda>th.
       case children th of
         [] \<Rightarrow> Some k
       | c # cs \<Rightarrow>
           Option.bind (upd (del_sibling c k) c (\<lambda>ch. ch\<lparr>parent := g_bootstrap k\<rparr>)) (\<lambda>k1.
           Option.bind (upd k1 (g_bootstrap k) (\<lambda>b. b\<lparr>children := children b @ [c]\<rparr>)) (\<lambda>k2.
             reparent_children self k2)))"

definition sys_exit :: "kernel \<Rightarrow> u64 \<Rightarrow> (kernel \<times> outcome) option" where
  "sys_exit k status = do {
     let self = get_current k;
     k1 \<leftarrow> upd k self (\<lambda>th. th\<lparr>exit_status := ucast status\<rparr>);
     k2 \<leftarrow> reparent_children self k1;
     th \<leftarrow> threads k2 self;
     k3 \<leftarrow> upd k2 self (\<lambda>th. th\<lparr>state := THREAD_ZOMBIE\<rparr>);
     k4 \<leftarrow> free_image k3 self;
     k5 \<leftarrow> signal_release k4 self;
     k6 \<leftarrow> (if parent th \<noteq> NULL then thread_wakeup k5 (parent th) else Some k5);
     k7 \<leftarrow> schedule k6;
     Some (k7, Gone)
   }"

text \<open>\<^verbatim>\<open>sys_stop\<close> of another process is the same sequence of statements as \<^verbatim>\<open>signal_default_terminate\<close>.\<close>

definition sys_stop :: "kernel \<Rightarrow> u64 \<Rightarrow> (kernel \<times> outcome) option" where
  "sys_stop k p = do {
     self \<leftarrow> threads k (get_current k);
     if ucast p = pid self then sys_exit k (-1)
     else do {
       t \<leftarrow> find_thread_by_pid k (ucast p);
       case t of
         None \<Rightarrow> Some (k, Returns (-1))
       | Some t \<Rightarrow> do {
           th \<leftarrow> threads k t;
           if image_base th = NULL then Some (k, Returns (-1))
           else do { k1 \<leftarrow> signal_default_terminate k t; Some (k1, Returns 0) }
         }
     }
   }"

definition sys_display :: "u64 \<Rightarrow> kernel \<Rightarrow> u64 \<Rightarrow> u32 \<Rightarrow> u32 \<Rightarrow> kernel \<times> outcome" where
  "sys_display fb k bmp w h =
     (if w = 0 \<or> h = 0 \<or> FB_WIDTH < w \<or> FB_HEIGHT < h then (k, Returns (-1))
      else if \<not> user_range k bmp (ucast w * ucast h * 4) then (k, Returns (-1))
      else (k\<lparr>k_mem := video_bmp_display fb bmp w h (k_mem k)\<rparr>, Returns 0))"

text \<open>\<open>cb\<close> is the address of \<^verbatim>\<open>usleep_cb\<close>, \<open>tok\<close> the place of the token on the kernel stack.\<close>

definition usleep_cb :: "kernel \<Rightarrow> u64 \<Rightarrow> kernel option" where
  "usleep_cb k arg = thread_wakeup k (load64 (k_mem k) arg)"

definition sys_usleep :: "u64 \<Rightarrow> u64 \<Rightarrow> u64 \<Rightarrow> kernel \<Rightarrow> timers \<Rightarrow> u32 \<Rightarrow> (kernel \<times> timers \<times> outcome) option" where
  "sys_usleep now cb tok k tm usec =
     (if usec = 0 then Some (k, tm, Returns 0)
      else do {
        let k1 = k\<lparr>k_mem := store64 (k_mem k) tok (get_current k)\<rparr>;
        (h, tm') \<leftarrow> add_timer_us (k_heap k1) tm now cb tok (ucast usec);
        k2 \<leftarrow> thread_block (k1\<lparr>k_heap := h\<rparr>);
        Some (k2, tm', Waiting In_usleep)
      })"

definition sys_signal :: "kernel \<Rightarrow> i32 \<Rightarrow> u64 \<Rightarrow> (kernel \<times> outcome) option" where
  "sys_signal k signum handler =
     (if sint signum \<le> 0 \<or> int NSIG \<le> sint signum then Some (k, Returns (-1))
      else do {
        self \<leftarrow> threads k (get_current k);
        k1 \<leftarrow> upd k (get_current k) (\<lambda>th. th\<lparr>sig := (sig th)\<lparr>sig_handlers := (sig_handlers (sig th))[unat signum := handler]\<rparr>\<rparr>);
        Some (k1, Returns (sig_handlers (sig self) ! unat signum))
      })"

definition sys_kill :: "kernel \<Rightarrow> i32 \<Rightarrow> i32 \<Rightarrow> (kernel \<times> outcome) option" where
  "sys_kill k p signum =
     (if sint signum \<le> 0 \<or> int NSIG \<le> sint signum then Some (k, Returns (-1))
      else do {
        t \<leftarrow> find_thread_by_pid k p;
        case t of
          None \<Rightarrow> Some (k, Returns (-1))
        | Some t \<Rightarrow> do {
            th \<leftarrow> threads k t;
            if image_base th = NULL then Some (k, Returns (-1))
            else do { k1 \<leftarrow> signal_post k t signum; Some (k1, Returns 0) }
          }
      })"

definition sys_sigreturn :: "kernel \<Rightarrow> (kernel \<times> outcome) option" where
  "sys_sigreturn k = do { (k', r) \<leftarrow> signal_return k; Some (k', Returns r) }"

text \<open>What the calls take from outside: the address of the ramdisk and of the framebuffer, the time, the
  address and the token of the sleep callback, the readings of the serial device.\<close>

record sysenv =
  env_initrd :: u64
  env_fb :: u64
  env_now :: u64
  env_usleep_cb :: u64
  env_tok :: u64
  env_raw :: "(u32 \<times> u32) list"

type_synonym sys = "kernel \<times> timers \<times> uart"

text \<open>A call on the threads alone, as a call on the whole state.\<close>

definition on_kernel :: "(kernel \<times> outcome) option \<Rightarrow> timers \<Rightarrow> uart \<Rightarrow> (sys \<times> outcome) option" where
  "on_kernel r tm u = map_option (\<lambda>(k, out). ((k, tm, u), out)) r"

definition on_uart :: "(kernel \<times> uart \<times> outcome) option \<Rightarrow> timers \<Rightarrow> (sys \<times> outcome) option" where
  "on_uart r tm = map_option (\<lambda>(k, u, out). ((k, tm, u), out)) r"

definition do_syscall :: "sysenv \<Rightarrow> sys \<Rightarrow> (sys \<times> outcome) option" where
  "do_syscall env s = (case s of (k, tm, u) \<Rightarrow> do {
     self \<leftarrow> threads k (get_current k);
     let tf = kframe self;
     let nr = tf_a7 tf;
     (if nr = 0 then on_kernel (sys_getpid k) tm u
      else if nr = 1 then on_uart (sys_uart_read (env_raw env) k u (tf_a0 tf) (tf_a1 tf)) tm
      else if nr = 2 then on_uart (sys_uart_write k u (tf_a0 tf) (tf_a1 tf)) tm
      else if nr = 3 then on_kernel (sys_exec (env_initrd env) k (tf_a0 tf)) tm u
      else if nr = 4 then on_kernel (sys_fork k) tm u
      else if nr = 5 then on_kernel (sys_waitpid k (tf_a0 tf)) tm u
      else if nr = 6 then on_kernel (sys_exit k (tf_a0 tf)) tm u
      else if nr = 7 then on_kernel (sys_stop k (tf_a0 tf)) tm u
      else if nr = 8 then on_kernel (Some (sys_display (env_fb env) k (tf_a0 tf) (ucast (tf_a1 tf)) (ucast (tf_a2 tf)))) tm u
      else if nr = 9 then map_option (\<lambda>(k', tm', out). ((k', tm', u), out))
             (sys_usleep (env_now env) (env_usleep_cb env) (env_tok env) k tm (ucast (tf_a0 tf)))
      else if nr = 10 then on_kernel (sys_signal k (ucast (tf_a0 tf)) (tf_a1 tf)) tm u
      else if nr = 11 then on_kernel (sys_sigreturn k) tm u
      else if nr = 12 then on_kernel (sys_kill k (ucast (tf_a0 tf)) (ucast (tf_a1 tf))) tm u
      else Some (s, Returns (-1)))
   })"

text \<open>The rest of a call that waits, once its thread is current again.\<close>

fun resume :: "sysenv \<Rightarrow> sys \<Rightarrow> syscall_point \<Rightarrow> (sys \<times> outcome) option" where
  "resume env (k, tm, u) (In_waitpid child) = on_kernel (waitpid_on k child) tm u"
| "resume env (k, tm, u) In_usleep = Some ((k, tm, u), Returns 0)"
| "resume env (k, tm, u) (In_uart_read buf cnt i) = on_uart (uart_read_on (env_raw env) k u buf cnt i) tm"
| "resume env (k, tm, u) (In_uart_write buf cnt i rest) = on_uart (uart_write_on k u buf cnt i rest) tm"

end
