(* ===== verification/Trap.thy ===== *)
theory Trap
  imports Syscall
begin

text \<open>
  The trap handler of \<^verbatim>\<open>kernel/src/trap.c\<close>, which ties the components together: interrupts run the top
  halves and the bottom-half queue, system calls run with the frame of the current thread, and both
  ways back to user mode pass the preemption and the signal gate. A thread that yields inside the
  handler goes on later from the place noted in \<open>points\<close>.
\<close>

section \<open>Model\<close>

definition trap_set_user_base :: "kernel \<Rightarrow> u64 \<Rightarrow> kernel" where
  "trap_set_user_base k b = k\<lparr>g_user_base := b\<rparr>"

definition deliver_pending_signal :: "kernel \<Rightarrow> kernel option" where
  "deliver_pending_signal k =
     (if get_current k = NULL then Some k
      else do {
        self \<leftarrow> threads k (cur k);
        if image_base self = NULL then Some k
        else do {
          k1 \<leftarrow> signal_check_and_dispatch k;
          self' \<leftarrow> threads k1 (cur k);
          if state self' = THREAD_ZOMBIE then schedule k1 else Some k1
        }
      })"

datatype trap_point = In_syscall syscall_point | Before_deliver

record machine =
  mk :: kernel
  mtimers :: timers
  muart :: uart
  mtasks :: tasks
  plic_done :: "u32 list"
  points :: "u64 \<rightharpoonup> trap_point"

text \<open>What interrupts take from outside, besides what system calls do: the interrupt that the controller
  hands out, the bytes and the room at the serial device, the address of the serial bottom half,
  and the effect of every other callback, which may post tasks.\<close>

record trapenv =
  env_sys :: sysenv
  env_claim :: u32
  env_uart_irq :: u32
  env_rx :: "u8 list"
  env_room :: nat
  env_uart_bh :: u64
  env_other :: "u64 \<Rightarrow> u64 \<Rightarrow> kernel \<times> tasks \<Rightarrow> (kernel \<times> tasks) option"

text \<open>A callback of the bottom-half queue, on the kernel state and the list of completed interrupts.\<close>

definition run_callback :: "trapenv \<Rightarrow> u64 \<Rightarrow> u64 \<Rightarrow> (kernel \<times> u32 list) \<times> kheap \<times> tasks \<Rightarrow>
    ((kernel \<times> u32 list) \<times> kheap \<times> tasks) option" where
  "run_callback env cb arg s = (case s of ((k, plic), h, ts) \<Rightarrow>
     if cb = env_uart_bh env then Some ((k, plic @ [uart_bottom_half arg]), h, ts)
     else if cb = env_usleep_cb (env_sys env)
     then do { k' \<leftarrow> usleep_cb (k\<lparr>k_heap := h\<rparr>) arg; Some ((k', plic), k_heap k', ts) }
     else do { (k', ts') \<leftarrow> env_other env cb arg (k\<lparr>k_heap := h\<rparr>, ts); Some ((k', plic), k_heap k', ts') })"

text \<open>The same on the spot, from the timer interrupt, when no task node can be allocated. No callback of the kernel
  registers a timer.\<close>

definition timer_callback :: "trapenv \<Rightarrow> u64 \<Rightarrow> u64 \<Rightarrow> (kernel \<times> u32 list) timer_state \<Rightarrow>
    (kernel \<times> u32 list) timer_state option" where
  "timer_callback env cb arg s = (case s of (w, h, ts, tm) \<Rightarrow>
     do { (w', h', ts') \<leftarrow> run_callback env cb arg (w, h, ts); Some (w', h', ts', tm) })"

datatype intr = Intr_Timer | Intr_Ext | Intr_Other

text \<open>The top halves.\<close>

definition timer_irq :: "trapenv \<Rightarrow> machine \<Rightarrow> machine option" where
  "timer_irq env m = do {
     ((k, plic), h, ts, tm) \<leftarrow> timer_top_half (timer_callback env) (env_now (env_sys env))
       ((mk m, plic_done m), k_heap (mk m), mtasks m, mtimers m);
     Some (m\<lparr>mk := set_need_resched (k\<lparr>k_heap := h\<rparr>), mtimers := tm, mtasks := ts, plic_done := plic\<rparr>)
   }"

definition ext_irq :: "trapenv \<Rightarrow> machine \<Rightarrow> machine option" where
  "ext_irq env m =
     (if env_claim env = env_uart_irq env \<and> env_claim env \<noteq> 0
      then do {
        (h, ts, u, completed) \<leftarrow>
          uart_top_half (env_rx env) (env_room env) (env_uart_bh env) (k_heap (mk m)) (mtasks m) (muart m) (env_claim env);
        Some (m\<lparr>mk := (mk m)\<lparr>k_heap := h\<rparr>, mtasks := ts, muart := u,
                plic_done := (if completed then plic_done m @ [env_claim env] else plic_done m)\<rparr>)
      }
      else if env_claim env \<noteq> 0 then Some (m\<lparr>plic_done := plic_done m @ [env_claim env]\<rparr>)
      else Some m)"

definition bottom_halves :: "trapenv \<Rightarrow> machine \<Rightarrow> machine option" where
  "bottom_halves env m = do {
     ((k, plic), h, ts) \<leftarrow> task_run_pending (run_callback env) ((mk m, plic_done m), k_heap (mk m), mtasks m);
     Some (m\<lparr>mk := k\<lparr>k_heap := h\<rparr>, mtasks := ts, plic_done := plic\<rparr>)
   }"

text \<open>The end of both paths for the thread that trapped: the signal gate, then user mode.\<close>

definition trap_finish :: "machine \<Rightarrow> machine option" where
  "trap_finish m = do {
     k \<leftarrow> deliver_pending_signal (mk m);
     Some (m\<lparr>mk := k, points := (points m)(cur (mk m) := None)\<rparr>)
   }"

text \<open>The preemption gate: when a reschedule is due, the thread yields before the signal gate.\<close>

definition trap_yield :: "machine \<Rightarrow> machine option" where
  "trap_yield m =
     (case need_resched_clear (mk m) of (k, need) \<Rightarrow>
        if need
        then do { k' \<leftarrow> schedule k; Some (m\<lparr>mk := k', points := (points m)(cur k \<mapsto> Before_deliver)\<rparr>) }
        else trap_finish (m\<lparr>mk := k\<rparr>))"

definition trap_interrupt :: "trapenv \<Rightarrow> intr \<Rightarrow> bool \<Rightarrow> machine \<Rightarrow> machine option" where
  "trap_interrupt env i from_user m = do {
     m1 \<leftarrow> (case i of Intr_Timer \<Rightarrow> timer_irq env m | Intr_Ext \<Rightarrow> ext_irq env m | Intr_Other \<Rightarrow> Some m);
     m2 \<leftarrow> bottom_halves env m1;
     if from_user then trap_yield m2
     else Some (m2\<lparr>mk := fst (need_resched_clear (mk m2))\<rparr>)
   }"

text \<open>What follows a system call of the thread \<open>self\<close>.\<close>

definition after_syscall :: "u64 \<Rightarrow> machine \<Rightarrow> outcome \<Rightarrow> machine option" where
  "after_syscall self m out =
     (case out of
        Returns v \<Rightarrow> do { k \<leftarrow> upd (mk m) self (\<lambda>th. th\<lparr>kframe := (kframe th)\<lparr>tf_a0 := v\<rparr>\<rparr>); trap_yield (m\<lparr>mk := k\<rparr>) }
      | Waiting p \<Rightarrow> Some (m\<lparr>points := (points m)(self \<mapsto> In_syscall p)\<rparr>)
      | Gone \<Rightarrow> Some (m\<lparr>points := (points m)(self := None)\<rparr>))"

definition set_sys :: "sys \<Rightarrow> machine \<Rightarrow> machine" where
  "set_sys s m = (case s of (k, tm, u) \<Rightarrow> m\<lparr>mk := k, mtimers := tm, muart := u\<rparr>)"

definition SCAUSE_INTR_BIT :: u64 where
  "SCAUSE_INTR_BIT = push_bit 63 1"

definition INTR_S_TIMER :: u64 where
  "INTR_S_TIMER = 5"

definition INTR_S_EXT :: u64 where
  "INTR_S_EXT = 9"

definition EXC_ECALL_U :: u64 where
  "EXC_ECALL_U = 8"

definition trap_ecall :: "trapenv \<Rightarrow> machine \<Rightarrow> machine option" where
  "trap_ecall env m = do {
     let self = cur (mk m);
     k \<leftarrow> upd (mk m) self (\<lambda>th. th\<lparr>kframe := (kframe th)\<lparr>tf_sepc := tf_sepc (kframe th) + 4\<rparr>\<rparr>);
     (s, out) \<leftarrow> do_syscall (env_sys env) (k, mtimers m, muart m);
     after_syscall self (set_sys s m) out
   }"

text \<open>The dispatcher. \<open>tf\<close> is the frame of the trap: the frame of the current thread when the trap came
  from user mode, one deeper on the kernel stack otherwise. \<^const>\<open>None\<close> is the halt after an
  exception that is not handled.\<close>

definition trap_handler :: "trapenv \<Rightarrow> trap_frame \<Rightarrow> machine \<Rightarrow> machine option" where
  "trap_handler env tf m =
     (let cause = tf_scause tf in
      if cause AND SCAUSE_INTR_BIT \<noteq> 0
      then (let code = cause AND NOT SCAUSE_INTR_BIT;
                i = (if code = INTR_S_TIMER then Intr_Timer else if code = INTR_S_EXT then Intr_Ext else Intr_Other)
            in trap_interrupt env i (tf_sstatus tf AND SSTATUS_SPP = 0) m)
      else if cause = EXC_ECALL_U then trap_ecall env m
      else None)"

text \<open>A thread that comes back inside the handler.\<close>

definition trap_continue :: "trapenv \<Rightarrow> machine \<Rightarrow> machine option" where
  "trap_continue env m =
     (case points m (cur (mk m)) of
        None \<Rightarrow> Some m
      | Some Before_deliver \<Rightarrow> trap_finish m
      | Some (In_syscall p) \<Rightarrow> do {
          (s, out) \<leftarrow> resume (env_sys env) (mk m, mtimers m, muart m) p;
          after_syscall (cur (mk m)) (set_sys s m) out
        })"

text \<open>The text printed for an exception that is not handled, and for a trap inside the kernel that the
  kernel does not expect.\<close>

definition trap_report :: "u64 \<Rightarrow> trap_frame \<Rightarrow> u8 list" where
  "trap_report user_base tf =
     ascii ''=== S-Mode trap ==='' @ [10] @ ascii ''scause: '' @ print_dec_ulong (tf_scause tf) @ [10] @
     ascii ''sepc: 0x'' @ print_hex_u32 (ucast (tf_sepc tf - user_base)) @ [10] @
     ascii ''stval: '' @ print_dec_ulong (tf_stval tf) @ [10] @
     ascii ''[trap] unhandled exception, halting.'' @ [10]"

definition kernel_trap_panic :: "u64 \<Rightarrow> u64 \<Rightarrow> u64 \<Rightarrow> u8 list" where
  "kernel_trap_panic scause sepc stval =
     ascii ''[trap] kernel-mode trap! scause=0x'' @ print_hex_ulong scause @ ascii '' sepc=0x'' @
     print_hex_ulong sepc @ ascii '' stval=0x'' @ print_hex_ulong stval @ [10]"

end
