(* ===== verification/Proc_Tree.thy ===== *)
theory Proc_Tree
  imports Sched_Inv
begin

text \<open>
  The process tree: the children lists of the threads, rooted at the bootstrap thread, and the search
  for a process id (\<^verbatim>\<open>find_thread_by_pid\<close> in \<^verbatim>\<open>sched.c\<close>).
\<close>

section \<open>The tree\<close>

text \<open>Children point back to their parent and were created after it, so the tree has no cycles; process
  ids are thread ids and below the next one.\<close>

definition tree_ok :: "kernel \<Rightarrow> bool" where
  "tree_ok k \<longleftrightarrow> (\<forall>t th. threads k t = Some th \<longrightarrow>
     t \<noteq> NULL \<and> pid th = tid th \<and> unat (tid th) < unat (g_next_tid k) \<and>
     (\<forall>c\<in>set (children th). \<exists>ch. threads k c = Some ch \<and> parent ch = t \<and> unat (tid th) < unat (tid ch)))"

inductive descends :: "kernel \<Rightarrow> u64 \<Rightarrow> u64 \<Rightarrow> bool" for k where
  self: "descends k t t"
| child: "threads k r = Some th \<Longrightarrow> c \<in> set (children th) \<Longrightarrow> descends k c t \<Longrightarrow> descends k r t"

inductive_cases descendsE: "descends k r t"

definition has_pid :: "kernel \<Rightarrow> i32 \<Rightarrow> u64 \<Rightarrow> bool" where
  "has_pid k p t \<longleftrightarrow> (\<exists>th. threads k t = Some th \<and> pid th = p)"

text \<open>A search result: a thread of the subtrees with that pid, or none has it.\<close>

definition found_in :: "kernel \<Rightarrow> u64 set \<Rightarrow> i32 \<Rightarrow> u64 option \<Rightarrow> bool" where
  "found_in k roots p r \<longleftrightarrow>
     (case r of None \<Rightarrow> \<forall>c\<in>roots. \<forall>t. descends k c t \<longrightarrow> \<not> has_pid k p t
      | Some t \<Rightarrow> has_pid k p t \<and> (\<exists>c\<in>roots. descends k c t))"

lemma descends_iff:
  "threads k r = Some th \<Longrightarrow> descends k r t \<longleftrightarrow> t = r \<or> (\<exists>c\<in>set (children th). descends k c t)"
  by (auto intro: descends.intros elim: descendsE)

lemma found_in_root:
  assumes "threads k root = Some th" and "pid th \<noteq> p" and "found_in k (set (children th)) p r"
  shows "found_in k {root} p r"
  using assms
  by (auto simp: found_in_def has_pid_def descends_iff split: option.splits)

lemma dfs_correct:
  shows "tree_ok k \<Longrightarrow> threads k root = Some th \<Longrightarrow> unat (g_next_tid k) - unat (tid th) < n \<Longrightarrow>
      \<exists>r. dfs_find_pid n k root p = Some r \<and> found_in k {root} p r"
    and "tree_ok k \<Longrightarrow> \<forall>c\<in>set cs. \<exists>ch. threads k c = Some ch \<and> unat (g_next_tid k) - unat (tid ch) < n \<Longrightarrow>
      \<exists>r. dfs_children n k cs p = Some r \<and> found_in k (set cs) p r"
proof (induction n k root p and n k cs p arbitrary: th and rule: dfs_find_pid_dfs_children.induct)
  case (1 k root p)
  then show ?case by simp
next
  case (2 n k root p)
  from 2(2,3) have ok: "root \<noteq> NULL" "unat (tid th) < unat (g_next_tid k)"
    and ch: "\<forall>c\<in>set (children th). \<exists>ch. threads k c = Some ch \<and> unat (tid th) < unat (tid ch)"
    unfolding tree_ok_def by blast+
  show ?case
  proof (cases "pid th = p")
    case True
    with 2(3) ok show ?thesis
      by (auto simp: found_in_def has_pid_def intro: descends.self)
  next
    case False
    have "\<forall>c\<in>set (children th). \<exists>ch. threads k c = Some ch \<and> unat (g_next_tid k) - unat (tid ch) < n"
      using ch 2(4) ok(2) by fastforce
    from 2(1) [OF ok(1) 2(3) False 2(2) this] obtain r where
      "dfs_children n k (children th) p = Some r" and "found_in k (set (children th)) p r"
      by blast
    with found_in_root [OF 2(3) False] 2(3) ok(1) False show ?thesis
      by auto
  qed
next
  case (3 n k p)
  then show ?case by (simp add: found_in_def)
next
  case (4 n k c cs p)
  from 4(4) obtain ch where ch: "threads k c = Some ch" "unat (g_next_tid k) - unat (tid ch) < n"
    by auto
  from 4(1) [OF 4(3) ch] obtain r where r: "dfs_find_pid n k c p = Some r" "found_in k {c} p r"
    by blast
  show ?case
  proof (cases r)
    case None
    from 4(2) [OF r(1) None 4(3)] 4(4) obtain r' where
      "dfs_children n k cs p = Some r'" "found_in k (set cs) p r'"
      by auto
    with r None show ?thesis
      by (auto simp: found_in_def split: option.splits)
  next
    case (Some t)
    with r show ?thesis by (auto simp: found_in_def)
  qed
qed

lemma find_thread_by_pid_correct:
  assumes "tree_ok k" and "g_bootstrap k \<in> dom (threads k)"
  shows "\<exists>r. find_thread_by_pid k p = Some r \<and> found_in k {g_bootstrap k} p r"
proof -
  obtain th where "threads k (g_bootstrap k) = Some th"
    using assms(2) by blast
  from dfs_correct(1) [OF assms(1) this, of "Suc (unat (g_next_tid k))"] show ?thesis
    by (simp add: find_thread_by_pid_def less_Suc_eq_le)
qed

section \<open>Properties\<close>

text \<open>
  C14: \<^verbatim>\<open>find_thread_by_pid\<close> returns, and decides whether the process tree has a thread with the given pid: it
  gives a descendant of the bootstrap thread with that pid, or reports that there is none. The
  recursion depth is bounded, because a child has a greater thread id than its parent.
\<close>

theorem find_thread_by_pid_decides:
  assumes "tree_ok k" and "g_bootstrap k \<in> dom (threads k)"
  shows "\<exists>r. find_thread_by_pid k p = Some r \<and>
    (case r of None \<Rightarrow> \<not> (\<exists>t. descends k (g_bootstrap k) t \<and> has_pid k p t)
     | Some t \<Rightarrow> descends k (g_bootstrap k) t \<and> has_pid k p t)"
  using find_thread_by_pid_correct [OF assms, of p] by (auto simp: found_in_def split: option.splits)

lemma sample_tree: "tree_ok sample_kernel" "g_bootstrap sample_kernel \<in> dom (threads sample_kernel)"
  by (auto simp: tree_ok_def sample_kernel_def sample_thread_def)

theorem find_thread_by_pid_decides_witness:
  "find_thread_by_pid sample_kernel 2 = Some (Some 0x3000) \<and> descends sample_kernel 0x1000 0x3000 \<and>
   has_pid sample_kernel 2 0x3000"
proof -
  have "Suc (unat (g_next_tid sample_kernel)) = Suc (Suc (Suc (Suc 0)))"
    by (simp add: sample_kernel_def)
  then have run: "find_thread_by_pid sample_kernel 2 = Some (Some 0x3000)"
    by (simp only: find_thread_by_pid_def) (simp add: sample_kernel_def sample_thread_def)
  have "g_bootstrap sample_kernel = 0x1000"
    by (simp add: sample_kernel_def)
  with run find_thread_by_pid_decides [OF sample_tree, of 2] show ?thesis
    by simp
qed

end
