(* ===== verification/Kernel_Inv.thy ===== *)
theory Kernel_Inv
  imports Trap Proc_Tree
begin

text \<open>
  The invariant of the kernel's threads and processes, over the components that share them: the
  scheduler's queues (\<^verbatim>\<open>sched.c\<close>), the process tree, the signal state (\<^verbatim>\<open>signal.c\<close>) and the heap memory
  that threads own (\<^verbatim>\<open>kmalloc.c\<close>). The lemmas give the ways of keeping it: a thread changes outside
  of what the invariant reads, only states change, memory is allocated for or freed from one place
  of a thread, a process ends.
\<close>

section \<open>What the invariant looks at\<close>

record tview =
  v_tid :: i32
  v_pid :: i32
  v_state :: thread_state
  v_parent :: u64
  v_children :: "u64 list"
  v_kstack :: u64
  v_image :: u64
  v_total :: u64
  v_sigstack :: u64
  v_handler :: bool
  v_sig_ok :: bool

definition sig_ok :: "signal_state \<Rightarrow> bool" where
  "sig_ok s \<longleftrightarrow> length (sig_handlers s) = NSIG \<and> unat (sig_pending s) < 2 ^ NSIG"

definition view :: "thread \<Rightarrow> tview" where
  "view th = \<lparr>v_tid = tid th, v_pid = pid th, v_state = state th, v_parent = parent th, v_children = children th,
     v_kstack = kstack_base th, v_image = image_base th, v_total = total_size th,
     v_sigstack = sigstack_base (sig th), v_handler = sig_in_handler (sig th), v_sig_ok = sig_ok (sig th)\<rparr>"

lemma view_simps [simp]:
  "v_tid (view th) = tid th" "v_pid (view th) = pid th" "v_state (view th) = state th"
  "v_parent (view th) = parent th" "v_children (view th) = children th" "v_kstack (view th) = kstack_base th"
  "v_image (view th) = image_base th" "v_total (view th) = total_size th"
  "v_sigstack (view th) = sigstack_base (sig th)" "v_handler (view th) = sig_in_handler (sig th)"
  "v_sig_ok (view th) = sig_ok (sig th)"
  by (simp_all add: view_def)

definition views :: "kernel \<Rightarrow> u64 \<Rightarrow> tview option" where
  "views k t = map_option view (threads k t)"

lemma views_upd [simp]: "views (k\<lparr>threads := (threads k)(t \<mapsto> th)\<rparr>) = (views k)(t \<mapsto> view th)"
  by (auto simp: views_def fun_eq_iff)

lemma views_fields [simp]:
  "views (k\<lparr>g_runq := q\<rparr>) = views k" "views (k\<lparr>g_zombies := q\<rparr>) = views k" "views (k\<lparr>cur := c\<rparr>) = views k"
  "views (k\<lparr>hart := r\<rparr>) = views k" "views (k\<lparr>k_heap := h\<rparr>) = views k" "views (k\<lparr>k_mem := m\<rparr>) = views k"
  "views (k\<lparr>g_user_base := u\<rparr>) = views k" "views (k\<lparr>g_need_resched := f\<rparr>) = views k"
  by (auto simp: views_def fun_eq_iff)

lemma st_views: "st k t = map_option v_state (views k t)"
  by (simp add: st_def views_def option.map_comp comp_def)

lemma views_Some: "views k t = Some v \<Longrightarrow> \<exists>th. threads k t = Some th \<and> v = view th"
  by (auto simp: views_def)

section \<open>The invariant\<close>

text \<open>The process tree: every thread except the bootstrap thread is a child of its parent or, after its
  end was collected, waits in the zombie queue; children are younger than their parent.\<close>

record node =
  n_tid :: i32
  n_pid :: i32
  n_parent :: u64
  n_children :: "u64 list"

definition node_of :: "tview \<Rightarrow> node" where
  "node_of v = \<lparr>n_tid = v_tid v, n_pid = v_pid v, n_parent = v_parent v, n_children = v_children v\<rparr>"

definition nodes :: "(u64 \<Rightarrow> tview option) \<Rightarrow> u64 \<Rightarrow> node option" where
  "nodes V t = map_option node_of (V t)"

definition node_ok :: "(u64 \<Rightarrow> node option) \<Rightarrow> u64 list \<Rightarrow> u64 \<Rightarrow> i32 \<Rightarrow> u64 \<Rightarrow> node \<Rightarrow> bool" where
  "node_ok N z b n t v \<longleftrightarrow> t \<noteq> NULL \<and> n_pid v = n_tid v \<and> unat (n_tid v) < unat n \<and> distinct (n_children v) \<and>
     (if t = b then n_parent v = NULL
      else (\<exists>w. N b = Some w \<and> unat (n_tid w) < unat (n_tid v)) \<and>
           (t \<in> set z \<or> (\<exists>p. N (n_parent v) = Some p \<and> t \<in> set (n_children p)))) \<and>
     (\<forall>c\<in>set (n_children v). c \<notin> set z \<and> (\<exists>w. N c = Some w \<and> n_parent w = t \<and> unat (n_tid v) < unat (n_tid w)))"

definition tree_n :: "(u64 \<Rightarrow> node option) \<Rightarrow> u64 list \<Rightarrow> u64 \<Rightarrow> i32 \<Rightarrow> bool" where
  "tree_n N z b n \<longleftrightarrow> b \<in> dom N \<and> (\<forall>t v. N t = Some v \<longrightarrow> node_ok N z b n t v)"

definition heap_limit :: nat where
  "heap_limit = 2 ^ 64 - 4096"

definition thread_ok :: "u64 \<Rightarrow> u64 \<Rightarrow> tview \<Rightarrow> bool" where
  "thread_ok b t v \<longleftrightarrow> v_sig_ok v \<and> (v_handler v \<longleftrightarrow> v_sigstack v \<noteq> NULL) \<and>
     (v_state v = THREAD_ZOMBIE \<longrightarrow> t \<noteq> b \<and> v_image v = NULL \<and> v_sigstack v = NULL \<and> v_children v = []) \<and>
     (v_image v \<noteq> NULL \<longrightarrow> t \<noteq> b \<and> 0 < unat (v_total v) \<and> unat (v_total v) \<le> heap_limit)"

definition threads_v :: "(u64 \<Rightarrow> tview option) \<Rightarrow> u64 \<Rightarrow> bool" where
  "threads_v V b \<longleftrightarrow> (\<forall>t v. V t = Some v \<longrightarrow> thread_ok b t v)"

definition idle_v :: "u64 \<Rightarrow> (u64 \<Rightarrow> tview option) \<Rightarrow> bool" where
  "idle_v idle V \<longleftrightarrow> (\<exists>v. V idle = Some v \<and> v_state v \<in> {THREAD_READY, THREAD_RUNNING} \<and> v_image v = NULL)"

text \<open>The memory a thread owns. \<open>Temp\<close> is a slot for an allocation that is not stored in the thread yet.\<close>

datatype slot = Struct | Stack | Image | Sigstack | Temp

fun slot_ptr :: "u64 \<Rightarrow> u64 \<Rightarrow> tview \<Rightarrow> slot \<Rightarrow> u64" where
  "slot_ptr b t v Struct = (if t = b then NULL else t)"
| "slot_ptr b t v Stack = v_kstack v"
| "slot_ptr b t v Image = v_image v"
| "slot_ptr b t v Sigstack = v_sigstack v"
| "slot_ptr b t v Temp = NULL"

fun slot_need :: "tview \<Rightarrow> slot \<Rightarrow> nat" where
  "slot_need v Struct = 800"
| "slot_need v Stack = 8192"
| "slot_need v Image = unat (v_total v)"
| "slot_need v Sigstack = 8192"
| "slot_need v Temp = 0"

definition ptrs :: "(u64 \<Rightarrow> tview option) \<Rightarrow> u64 \<Rightarrow> u64 \<times> slot \<Rightarrow> u64" where
  "ptrs V b x = (case V (fst x) of None \<Rightarrow> NULL | Some v \<Rightarrow> slot_ptr b (fst x) v (snd x))"

definition needs :: "(u64 \<Rightarrow> tview option) \<Rightarrow> u64 \<times> slot \<Rightarrow> nat" where
  "needs V x = (case V (fst x) of None \<Rightarrow> 0 | Some v \<Rightarrow> slot_need v (snd x))"

definition mem_v :: "kheap \<Rightarrow> (u64 \<Rightarrow> tview option) \<Rightarrow> u64 \<Rightarrow> u64 set \<Rightarrow> bool" where
  "mem_v h V b E \<longleftrightarrow> heap.owns h (ptrs V b) (needs V) E \<and> unat b \<in> off_limits (heap_buddy h)"

definition kinv :: "u64 \<Rightarrow> u64 set \<Rightarrow> kernel \<Rightarrow> bool" where
  "kinv idle E k \<longleftrightarrow> sched_inv k \<and> tree_n (nodes (views k)) (g_zombies k) (g_bootstrap k) (g_next_tid k) \<and>
     threads_v (views k) (g_bootstrap k) \<and> idle_v idle (views k) \<and> mem_v (k_heap k) (views k) (g_bootstrap k) E"

lemma kinv_cong:
  assumes "kinv idle E k" and "views k' = views k" and "g_runq k' = g_runq k" and "g_zombies k' = g_zombies k"
    and "cur k' = cur k" and "g_bootstrap k' = g_bootstrap k" and "g_next_tid k' = g_next_tid k" and "k_heap k' = k_heap k"
  shows "kinv idle E k'"
proof -
  have "st k' = st k"
    by (rule ext) (simp add: st_views assms(2))
  with assms show ?thesis
    by (simp add: kinv_def sched_inv_def)
qed

lemma kinv_upd:
  assumes "kinv idle E k" and "threads k t = Some th" and "view (f th) = view th"
  shows "kinv idle E (k\<lparr>threads := (threads k)(t \<mapsto> f th)\<rparr>)"
  by (rule kinv_cong [OF assms(1)]) (use assms(2,3) in \<open>auto simp: views_def fun_eq_iff\<close>)

text \<open>When only states change, and no thread dies, the tree and the memory stay as they are.\<close>

definition restated :: "(u64 \<Rightarrow> tview option) \<Rightarrow> (u64 \<Rightarrow> tview option) \<Rightarrow> bool" where
  "restated V V' \<longleftrightarrow> (\<exists>s. \<forall>t. V' t = map_option (\<lambda>v. v\<lparr>v_state := s t\<rparr>) (V t) \<and>
     (\<forall>v. V t = Some v \<longrightarrow> s t = THREAD_ZOMBIE \<longleftrightarrow> v_state v = THREAD_ZOMBIE))"

lemma restated_ptrs:
  assumes "restated V V'"
  shows "ptrs V' b = ptrs V b" and "needs V' = needs V"
proof -
  have p: "slot_ptr b t (v\<lparr>v_state := s\<rparr>) x = slot_ptr b t v x" for t v s x
    by (cases x) simp_all
  have n: "slot_need (v\<lparr>v_state := s\<rparr>) x = slot_need v x" for v s x
    by (cases x) simp_all
  obtain s where "\<And>t. V' t = map_option (\<lambda>v. v\<lparr>v_state := s t\<rparr>) (V t)"
    using assms unfolding restated_def by blast
  then show "ptrs V' b = ptrs V b" and "needs V' = needs V"
    by (auto simp: ptrs_def needs_def fun_eq_iff p n split: option.splits)
qed

lemma restated_nodes:
  assumes "restated V V'"
  shows "nodes V' = nodes V"
proof
  fix t
  show "nodes V' t = nodes V t"
    using assms unfolding restated_def by (cases "V t") (auto simp: nodes_def node_of_def)
qed

lemma restated_threads:
  assumes r: "restated V V'" and t: "threads_v V b"
  shows "threads_v V' b"
  unfolding threads_v_def
proof (intro allI impI)
  fix t v'
  assume v': "V' t = Some v'"
  obtain v s where v: "V t = Some v" "v' = v\<lparr>v_state := s\<rparr>" "s = THREAD_ZOMBIE \<longleftrightarrow> v_state v = THREAD_ZOMBIE"
    using r v' unfolding restated_def by fastforce
  have "thread_ok b t v"
    using t v(1) by (simp add: threads_v_def)
  with v(2,3) show "thread_ok b t v'"
    by (simp add: thread_ok_def)
qed

lemma kinv_restated:
  assumes inv: "kinv idle E k" and r: "restated (views k) (views k')" and s: "sched_inv k'"
    and idle: "st k' idle \<in> {Some THREAD_READY, Some THREAD_RUNNING}"
    and eq: "g_zombies k' = g_zombies k" "g_bootstrap k' = g_bootstrap k" "g_next_tid k' = g_next_tid k" "k_heap k' = k_heap k"
  shows "kinv idle E k'"
proof -
  have "idle_v idle (views k')"
  proof -
    obtain v where v: "views k idle = Some v" "v_image v = NULL"
      using inv by (auto simp: kinv_def idle_v_def)
    with r have "\<exists>s. views k' idle = Some (v\<lparr>v_state := s\<rparr>)"
      unfolding restated_def by force
    with idle v(2) show ?thesis
      by (auto simp: idle_v_def st_views)
  qed
  moreover have "mem_v (k_heap k') (views k') (g_bootstrap k') E"
    using inv restated_ptrs [OF r] by (simp add: kinv_def mem_v_def eq)
  ultimately show ?thesis
    using inv s restated_nodes [OF r] restated_threads [OF r] by (simp add: kinv_def eq)
qed

lemma restated_refl: "restated V V"
  unfolding restated_def by (rule exI [of _ "\<lambda>t. case V t of None \<Rightarrow> THREAD_READY | Some v \<Rightarrow> v_state v"])
    (auto split: option.splits)

lemma restated_upd:
  assumes r: "restated V V'" and t: "V' t = Some v" "s = THREAD_ZOMBIE \<longleftrightarrow> v_state v = THREAD_ZOMBIE"
  shows "restated V (V'(t \<mapsto> v\<lparr>v_state := s\<rparr>))"
proof -
  obtain f where f: "\<And>t. V' t = map_option (\<lambda>v. v\<lparr>v_state := f t\<rparr>) (V t)"
    "\<And>t v. V t = Some v \<Longrightarrow> f t = THREAD_ZOMBIE \<longleftrightarrow> v_state v = THREAD_ZOMBIE"
    using r unfolding restated_def by blast
  show ?thesis
    unfolding restated_def
  proof (intro exI [of _ "f(t := s)"] allI)
    fix u
    show "(V'(t \<mapsto> v\<lparr>v_state := s\<rparr>)) u = map_option (\<lambda>v. v\<lparr>v_state := (f(t := s)) u\<rparr>) (V u) \<and>
      (\<forall>v. V u = Some v \<longrightarrow> (f(t := s)) u = THREAD_ZOMBIE \<longleftrightarrow> v_state v = THREAD_ZOMBIE)"
      using f(1) [of u] f(2) [of u] t f(1) [of t] by auto
  qed
qed

lemma restated_trans:
  assumes "restated V V'" and "restated V' V''"
  shows "restated V V''"
proof -
  obtain f g where f: "\<And>t. V' t = map_option (\<lambda>v. v\<lparr>v_state := f t\<rparr>) (V t)"
    "\<And>t v. V t = Some v \<Longrightarrow> f t = THREAD_ZOMBIE \<longleftrightarrow> v_state v = THREAD_ZOMBIE"
    and g: "\<And>t. V'' t = map_option (\<lambda>v. v\<lparr>v_state := g t\<rparr>) (V' t)"
    "\<And>t v. V' t = Some v \<Longrightarrow> g t = THREAD_ZOMBIE \<longleftrightarrow> v_state v = THREAD_ZOMBIE"
    using assms unfolding restated_def by metis
  show ?thesis
    unfolding restated_def
  proof (intro exI [of _ g] allI conjI impI)
    fix t
    show "V'' t = map_option (\<lambda>v. v\<lparr>v_state := g t\<rparr>) (V t)"
      by (simp add: f(1) g(1) option.map_comp comp_def)
    show "g t = THREAD_ZOMBIE \<longleftrightarrow> v_state v = THREAD_ZOMBIE" if "V t = Some v" for v
      using g(2) [of t "v\<lparr>v_state := f t\<rparr>"] f that by simp
  qed
qed

lemma view_state: "view (th\<lparr>state := s\<rparr>) = (view th)\<lparr>v_state := s\<rparr>" "view (th\<lparr>ctx := r\<rparr>) = view th"
  by (simp_all add: view_def)

lemma views_threads: "threads k t = Some th \<Longrightarrow> views k t = Some (view th)"
  by (simp add: views_def)

lemma restated_set_state:
  assumes "threads k t = Some th" and "s = THREAD_ZOMBIE \<longleftrightarrow> state th = THREAD_ZOMBIE"
  shows "restated (views k) ((views k)(t \<mapsto> (view th)\<lparr>v_state := s\<rparr>))"
  by (rule restated_upd) (use assms restated_refl views_threads in simp_all)

lemma kinvD:
  assumes "kinv idle E k"
  shows "sched_inv k" and "st k idle \<in> {Some THREAD_READY, Some THREAD_RUNNING}"
    and "threads k t = Some th \<Longrightarrow> thread_ok (g_bootstrap k) t (view th)"
    and "tree_n (nodes (views k)) (g_zombies k) (g_bootstrap k) (g_next_tid k)"
    and "mem_v (k_heap k) (views k) (g_bootstrap k) E"
    and "idle_v idle (views k)" and "threads_v (views k) (g_bootstrap k)"
  using assms by (auto simp: kinv_def idle_v_def st_views threads_v_def views_def)

lemma kinv_idle_ready:
  assumes "kinv idle E k" and "cur_state k \<noteq> Some THREAD_RUNNING"
  shows "idle \<in> set (g_runq k)"
proof -
  have "st k idle = Some THREAD_READY"
    using kinvD(2) [OF assms(1)] sched_invD(6) [OF kinvD(1) [OF assms(1)], of idle] assms(2) by auto
  then show ?thesis
    using sched_invD(5) [OF kinvD(1) [OF assms(1)]] by simp
qed

text \<open>A change of the state of one thread, none of which is its death.\<close>

lemma kinv_set_state:
  assumes inv: "kinv idle E k" and t: "threads k t = Some th" "state th \<noteq> THREAD_ZOMBIE" "s \<noteq> THREAD_ZOMBIE"
    and k': "views k' = (views k)(t \<mapsto> (view th)\<lparr>v_state := s\<rparr>)" "sched_inv k'" "g_zombies k' = g_zombies k"
      "g_bootstrap k' = g_bootstrap k" "g_next_tid k' = g_next_tid k" "k_heap k' = k_heap k"
    and idle: "t = idle \<Longrightarrow> s \<in> {THREAD_READY, THREAD_RUNNING}"
  shows "kinv idle E k'"
proof (rule kinv_restated [OF inv _ k'(2) _ k'(3-6)])
  show "restated (views k) (views k')"
    unfolding k'(1) by (rule restated_set_state [OF t(1)]) (use t in simp)
  show "st k' idle \<in> {Some THREAD_READY, Some THREAD_RUNNING}"
    using kinvD(2) [OF inv] idle by (auto simp: st_views k'(1))
qed

lemma kinv_schedule:
  assumes inv: "kinv idle E k" and c: "cur_state k \<noteq> Some THREAD_READY"
  shows "\<exists>k'. schedule k = Some k' \<and> kinv idle E k' \<and> cur_state k' = Some THREAD_RUNNING \<and>
    restated (views k) (views k') \<and> same_threads k k'"
proof -
  note si = kinvD(1) [OF inv]
  obtain ct where ct: "threads k (cur k) = Some ct"
    using si unfolding sched_inv_def by (auto simp: st_def dest!: queues_okD(3))
  obtain q where q: "cur_state k = Some THREAD_RUNNING \<and> q = g_runq k @ [cur k] \<or>
      cur_state k \<in> {Some THREAD_BLOCKED, Some THREAD_ZOMBIE} \<and> q = g_runq k \<and> q \<noteq> []"
  proof (cases "cur_state k = Some THREAD_RUNNING")
    case False
    then have "cur_state k \<in> {Some THREAD_BLOCKED, Some THREAD_ZOMBIE}"
      using ct c by (cases "state ct") (auto simp: st_def)
    moreover have "g_runq k \<noteq> []"
      using kinv_idle_ready [OF inv False] by auto
    ultimately show ?thesis
      using that [of "g_runq k"] by blast
  qed (use that in blast)
  obtain k' where k': "schedule k = Some k'" "sched_inv k'" "cur_state k' = Some THREAD_RUNNING" "same_threads k k'"
    using schedule_inv [OF si q] by blast
  have eq: "g_zombies k' = g_zombies k" "g_bootstrap k' = g_bootstrap k" "g_next_tid k' = g_next_tid k" "k_heap k' = k_heap k"
    using k'(4) by (simp_all add: same_threads_def)
  have r: "restated (views k) (views k') \<and> st k' idle \<in> {Some THREAD_READY, Some THREAD_RUNNING}"
  proof (cases "g_runq k")
    case Nil
    then have "state ct = THREAD_RUNNING" "cur k \<notin> set (g_zombies k)"
      using q ct sched_invD(4) [OF si, of "cur k"] by (auto simp: st_def)
    then have "k' = k"
      using schedule_alone [OF ct] Nil k'(1) by simp
    then show ?thesis
      using kinvD(2) [OF inv] restated_refl by simp
  next
    case (Cons n r)
    have V: "\<exists>nth. threads k n = Some nth \<and> n \<noteq> cur k \<and> state nth = THREAD_READY \<and>
      views k' = (views k)(n \<mapsto> (view nth)\<lparr>v_state := THREAD_RUNNING\<rparr>,
        cur k \<mapsto> (view ct)\<lparr>v_state := (if state ct = THREAD_RUNNING then THREAD_READY else state ct)\<rparr>)"
    proof (cases "state ct = THREAD_RUNNING")
      case True
      show ?thesis
        using schedule_yield [OF si ct True Cons] k'(1) True
        by (auto simp: views_def view_def fun_eq_iff)
    next
      case False
      have "state ct \<noteq> THREAD_READY"
        using c ct by (simp add: st_def)
      with False show ?thesis
        using schedule_away [OF si ct False _ Cons] k'(1)
        by (auto simp: views_def view_def fun_eq_iff)
    qed
    then obtain nth where nth: "threads k n = Some nth" "n \<noteq> cur k" "state nth = THREAD_READY"
      and V: "views k' = (views k)(n \<mapsto> (view nth)\<lparr>v_state := THREAD_RUNNING\<rparr>,
        cur k \<mapsto> (view ct)\<lparr>v_state := (if state ct = THREAD_RUNNING then THREAD_READY else state ct)\<rparr>)"
      by blast
    have "restated (views k) (views k')"
      unfolding V
    proof (intro restated_upd restated_refl)
      show "views k n = Some (view nth)"
        using nth(1) by (rule views_threads)
      show "((views k)(n \<mapsto> (view nth)\<lparr>v_state := THREAD_RUNNING\<rparr>)) (cur k) = Some (view ct)"
        using nth(2) views_threads [OF ct] by simp
    qed (use nth(3) in auto)
    moreover have "st k' idle \<in> {Some THREAD_READY, Some THREAD_RUNNING}"
      using kinvD(2) [OF inv] ct by (auto simp: st_views V views_threads)
    ultimately show ?thesis by blast
  qed
  then have "kinv idle E k'"
    using kinv_restated [OF inv _ k'(2) _ eq] by blast
  with k' r show ?thesis by blast
qed

lemma kinv_thread_block:
  assumes inv: "kinv idle E k" and c: "cur_state k = Some THREAD_RUNNING" "cur k \<noteq> idle"
  shows "\<exists>k'. thread_block k = Some k' \<and> kinv idle E k' \<and> cur_state k' = Some THREAD_RUNNING \<and>
    restated (views k) (views k')"
proof -
  obtain ct where ct: "threads k (cur k) = Some ct" "state ct = THREAD_RUNNING"
    using st_Some [OF c(1)] by blast
  let ?k = "k\<lparr>threads := (threads k)(cur k \<mapsto> ct\<lparr>state := THREAD_BLOCKED\<rparr>)\<rparr>"
  have V: "views ?k = (views k)(cur k \<mapsto> (view ct)\<lparr>v_state := THREAD_BLOCKED\<rparr>)"
    by (simp add: view_state)
  have inv': "kinv idle E ?k"
  proof (rule kinv_set_state [OF inv ct(1) _ _ V])
    show "sched_inv ?k"
      by (rule set_cur_state_inv [OF kinvD(1) [OF inv] ct]) simp
  qed (use ct c in simp_all)
  have "cur_state ?k \<noteq> Some THREAD_READY"
    by (simp add: st_def)
  from kinv_schedule [OF inv' this] obtain k' where k': "schedule ?k = Some k'" "kinv idle E k'"
    "cur_state k' = Some THREAD_RUNNING" "restated (views ?k) (views k')"
    by blast
  have "restated (views k) (views ?k)"
    unfolding V by (rule restated_set_state [OF ct(1)]) (use ct in simp)
  moreover have "thread_block k = Some k'"
    using ct(1) k'(1) by (simp add: thread_block_def upd_def)
  ultimately show ?thesis
    using k' restated_trans by blast
qed

lemma kinv_wakeup:
  assumes inv: "kinv idle E k" and t: "t = NULL \<or> t \<in> dom (threads k)" and c: "cur_state k \<noteq> Some THREAD_BLOCKED"
  shows "\<exists>k'. thread_wakeup k t = Some k' \<and> kinv idle E k' \<and> cur k' = cur k \<and> cur_state k' = cur_state k \<and>
    restated (views k) (views k') \<and> same_threads k k' \<and> (t \<noteq> NULL \<longrightarrow> st k' t \<noteq> Some THREAD_BLOCKED)"
proof (cases "t \<noteq> NULL \<and> st k t = Some THREAD_BLOCKED")
  case False
  then have "thread_wakeup k t = Some k"
    using t by (auto simp: thread_wakeup_def st_def)
  then show ?thesis
    using inv restated_refl False by (intro exI [of _ k]) (auto simp: same_threads_def)
next
  case True
  then obtain th where th: "threads k t = Some th" "state th = THREAD_BLOCKED"
    using st_Some by blast
  let ?k = "k\<lparr>threads := (threads k)(t \<mapsto> th\<lparr>state := THREAD_READY\<rparr>), g_runq := g_runq k @ [t]\<rparr>"
  have V: "views ?k = (views k)(t \<mapsto> (view th)\<lparr>v_state := THREAD_READY\<rparr>)"
    by (auto simp: views_def view_def fun_eq_iff)
  have "st ?k = (st k)(t \<mapsto> THREAD_READY)"
    by (auto simp: st_def fun_eq_iff)
  then have si: "sched_inv ?k"
    using queues_ok_wake [OF kinvD(1) [OF inv, unfolded sched_inv_def]] True by (simp add: sched_inv_def)
  have "kinv idle E ?k"
    by (rule kinv_set_state [OF inv th(1) _ _ V si]) (use th in simp_all)
  moreover have "thread_wakeup k t = Some ?k"
    using True th by (simp add: thread_wakeup_def upd_def)
  moreover have "restated (views k) (views ?k)"
    unfolding V by (rule restated_set_state [OF th(1)]) (use th in simp)
  moreover have "cur_state ?k = cur_state k"
    using True c by (auto simp: st_def)
  moreover have "same_threads k ?k"
    using th by (auto simp: same_threads_def strip_def)
  ultimately show ?thesis
    by (intro exI [of _ ?k]) simp
qed

section \<open>Memory of the threads\<close>

lemma ptrs_upd: "ptrs (V(t \<mapsto> v)) b = (\<lambda>x. if fst x = t then slot_ptr b t v (snd x) else ptrs V b x)"
  by (auto simp: ptrs_def fun_eq_iff)

lemma needs_upd: "needs (V(t \<mapsto> v)) = (\<lambda>x. if fst x = t then slot_need v (snd x) else needs V x)"
  by (auto simp: needs_def fun_eq_iff)

text \<open>A thread changes outside its slots, or one of its slots is cleared or filled.\<close>

lemma mem_same:
  assumes "mem_v h V b E" and "V t = Some v"
    and "v_kstack v' = v_kstack v" "v_image v' = v_image v" "v_total v' = v_total v" "v_sigstack v' = v_sigstack v"
  shows "mem_v h (V(t \<mapsto> v')) b E"
proof -
  have "slot_ptr b t v' s = slot_ptr b t v s" "slot_need v' s = slot_need v s" for s
    using assms(3-6) by (cases s; simp)+
  then have "ptrs (V(t \<mapsto> v')) b = ptrs V b" "needs (V(t \<mapsto> v')) = needs V"
    using assms(2) by (auto simp: ptrs_upd needs_upd ptrs_def needs_def fun_eq_iff)
  with assms(1) show ?thesis
    by (simp add: mem_v_def)
qed

lemma mem_free:
  assumes mem: "mem_v h V b E" and v: "V t = Some v" and s: "slot_ptr b t v s \<noteq> NULL"
    and v': "\<And>u. slot_ptr b t v' u = (if u = s then NULL else slot_ptr b t v u)" "v_total v' = v_total v"
  shows "\<exists>h'. kfree h (slot_ptr b t v s) = Some h' \<and> mem_v h' (V(t \<mapsto> v')) b E"
proof -
  have own: "heap.owns h (ptrs V b) (needs V) E" "unat b \<in> off_limits (heap_buddy h)"
    using mem by (simp_all add: mem_v_def)
  have at: "ptrs V b (t, s) = slot_ptr b t v s"
    using v by (simp add: ptrs_def)
  then have "ptrs V b (t, s) \<noteq> NULL"
    using s by simp
  from heap_guarded.owns_free_guarded [OF own(1) this] obtain h' where
    h': "kfree h (slot_ptr b t v s) = Some h'" "heap.owns h' ((ptrs V b)((t, s) := NULL)) (needs V) E"
      "off_limits (heap_buddy h') = off_limits (heap_buddy h)"
    by (auto simp: at)
  have "slot_need v' u = slot_need v u" for u
    using v'(2) by (cases u) simp_all
  then have "(ptrs V b)((t, s) := NULL) = ptrs (V(t \<mapsto> v')) b" "needs V = needs (V(t \<mapsto> v'))"
    using v by (auto simp: ptrs_upd needs_upd ptrs_def needs_def v'(1) fun_eq_iff)
  with h' own(2) show ?thesis
    by (simp add: mem_v_def)
qed

text \<open>The end of a process: its image and its signal stack are freed.\<close>

definition dead :: "thread \<Rightarrow> thread" where
  "dead th = th\<lparr>image_base := NULL, sig := (sig th)\<lparr>sigstack_base := NULL, sig_in_handler := False\<rparr>\<rparr>"

lemma free_image_mem:
  assumes mem: "mem_v (k_heap k) (views k) (g_bootstrap k) E" and th: "threads k t = Some th"
  shows "\<exists>h'. free_image k t = Some (k\<lparr>k_heap := h', threads := (threads k)(t \<mapsto> th\<lparr>image_base := NULL\<rparr>)\<rparr>) \<and>
    mem_v h' ((views k)(t \<mapsto> view (th\<lparr>image_base := NULL\<rparr>))) (g_bootstrap k) E"
proof (cases "image_base th = NULL")
  case True
  then have "th\<lparr>image_base := NULL\<rparr> = th"
    by simp
  with True th mem views_threads [OF th] show ?thesis
    by (intro exI [of _ "k_heap k"]) (simp add: free_image_def fun_upd_idem)
next
  case False
  have s: "slot_ptr (g_bootstrap k) t (view (th\<lparr>image_base := NULL\<rparr>)) u =
      (if u = Image then NULL else slot_ptr (g_bootstrap k) t (view th) u)" for u
    by (cases u) simp_all
  from mem_free [OF mem views_threads [OF th], of Image "view (th\<lparr>image_base := NULL\<rparr>)"] False s
  obtain h' where "kfree (k_heap k) (image_base th) = Some h'"
    "mem_v h' ((views k)(t \<mapsto> view (th\<lparr>image_base := NULL\<rparr>))) (g_bootstrap k) E"
    by auto
  with False th show ?thesis
    by (intro exI [of _ h']) (simp add: free_image_def k_kfree_def upd_def)
qed

lemma signal_release_mem:
  assumes mem: "mem_v (k_heap k) (views k) (g_bootstrap k) E" and th: "threads k t = Some th" and t: "t \<noteq> NULL"
  defines "th' \<equiv> th\<lparr>sig := (sig th)\<lparr>sigstack_base := NULL, sig_in_handler := False\<rparr>\<rparr>"
  shows "\<exists>h'. signal_release k t = Some (k\<lparr>k_heap := h', threads := (threads k)(t \<mapsto> th')\<rparr>) \<and>
    mem_v h' ((views k)(t \<mapsto> view th')) (g_bootstrap k) E"
proof (cases "sigstack_base (sig th) = NULL")
  case True
  then have eq: "th' = th\<lparr>sig := (sig th)\<lparr>sig_in_handler := False\<rparr>\<rparr>"
    by (simp add: th'_def)
  have "mem_v (k_heap k) ((views k)(t \<mapsto> view th')) (g_bootstrap k) E"
    by (rule mem_same [OF mem views_threads [OF th]]) (simp_all add: eq)
  with True th t show ?thesis
    by (intro exI [of _ "k_heap k"]) (simp add: signal_release_def upd_def eq)
next
  case False
  have s: "slot_ptr (g_bootstrap k) t (view th') u =
      (if u = Sigstack then NULL else slot_ptr (g_bootstrap k) t (view th) u)" for u
    by (cases u) (simp_all add: th'_def)
  have "v_total (view th') = v_total (view th)"
    by (simp add: th'_def)
  with mem_free [OF mem views_threads [OF th] _ s] False
  obtain h' where "kfree (k_heap k) (sigstack_base (sig th)) = Some h'"
    "mem_v h' ((views k)(t \<mapsto> view th')) (g_bootstrap k) E"
    by auto
  with False th t show ?thesis
    by (intro exI [of _ h']) (simp add: signal_release_def k_kfree_def upd_def th'_def)
qed

lemma end_process_mem:
  assumes mem: "mem_v (k_heap k) (views k) (g_bootstrap k) E" and th: "threads k t = Some th" and t: "t \<noteq> NULL"
  shows "\<exists>h'. do { k1 \<leftarrow> free_image k t; signal_release k1 t } =
      Some (k\<lparr>k_heap := h', threads := (threads k)(t \<mapsto> dead th)\<rparr>) \<and>
    mem_v h' ((views k)(t \<mapsto> view (dead th))) (g_bootstrap k) E"
proof -
  obtain h1 where h1: "free_image k t = Some (k\<lparr>k_heap := h1, threads := (threads k)(t \<mapsto> th\<lparr>image_base := NULL\<rparr>)\<rparr>)"
    "mem_v h1 ((views k)(t \<mapsto> view (th\<lparr>image_base := NULL\<rparr>))) (g_bootstrap k) E"
    using free_image_mem [OF mem th] by blast
  let ?k = "k\<lparr>k_heap := h1, threads := (threads k)(t \<mapsto> th\<lparr>image_base := NULL\<rparr>)\<rparr>"
  have "views ?k = (views k)(t \<mapsto> view (th\<lparr>image_base := NULL\<rparr>))"
    by (auto simp: views_def fun_eq_iff)
  then have "mem_v (k_heap ?k) (views ?k) (g_bootstrap ?k) E"
    using h1(2) by simp
  from signal_release_mem [OF this, of t "th\<lparr>image_base := NULL\<rparr>"] t obtain h2 where
    "signal_release ?k t = Some (k\<lparr>k_heap := h2, threads := (threads k)(t \<mapsto> dead th)\<rparr>)"
    "mem_v h2 ((views k)(t \<mapsto> view (dead th))) (g_bootstrap k) E"
    by (auto simp: dead_def \<open>views ?k = _\<close>)
  with h1(1) show ?thesis
    by (intro exI [of _ h2]) simp
qed

text \<open>One thread changes, and keeps its place in the tree.\<close>

lemma kinv_thread:
  assumes inv: "kinv idle E k" and v: "views k t = Some v" "views k' = (views k)(t \<mapsto> v')" "node_of v' = node_of v"
    and ok: "thread_ok (g_bootstrap k) t v'" "sched_inv k'" "mem_v (k_heap k') (views k') (g_bootstrap k) E"
    and idle: "t = idle \<Longrightarrow> v_state v' \<in> {THREAD_READY, THREAD_RUNNING} \<and> v_image v' = NULL"
    and eq: "g_zombies k' = g_zombies k" "g_bootstrap k' = g_bootstrap k" "g_next_tid k' = g_next_tid k"
  shows "kinv idle E k'"
proof -
  have "nodes (views k') = nodes (views k)"
    using v by (auto simp: nodes_def fun_eq_iff)
  moreover have "threads_v (views k') (g_bootstrap k)"
    using kinvD(7) [OF inv] ok(1) v(2) by (simp add: threads_v_def)
  moreover have "idle_v idle (views k')"
    using kinvD(6) [OF inv] idle v(2) by (auto simp: idle_v_def)
  ultimately show ?thesis
    using inv ok eq by (simp add: kinv_def)
qed

lemma queues_ok_kill:
  assumes ok: "queues_ok s q z c" and t: "s t = Some THREAD_READY"
  shows "queues_ok (s(t \<mapsto> THREAD_ZOMBIE)) (remove1 t q) z c"
proof -
  note q = queues_okD [OF ok]
  show ?thesis
  proof (rule queues_okI)
    fix u
    show "(s(t \<mapsto> THREAD_ZOMBIE)) u = Some THREAD_READY" if "u \<in> set (remove1 t q)"
      using that q(1) q(4) [of u] by auto
    show "u \<in> set (remove1 t q)" if "(s(t \<mapsto> THREAD_ZOMBIE)) u = Some THREAD_READY"
      using that q(1) q(4) [of u] by (auto split: if_splits)
    show "(s(t \<mapsto> THREAD_ZOMBIE)) u = Some THREAD_ZOMBIE" if "u \<in> set z"
      using q(5) [OF that] by simp
    show "u = c" if "(s(t \<mapsto> THREAD_ZOMBIE)) u = Some THREAD_RUNNING"
      using that q(6) [of u] by (auto split: if_splits)
    show "\<exists>x. (s(t \<mapsto> THREAD_ZOMBIE)) c = Some x"
      using q(3) by auto
  qed (use q(1,2) in auto)
qed

text \<open>Facts about a thread in the tree.\<close>

lemma kinv_node:
  assumes inv: "kinv idle E k" and th: "threads k t = Some th"
  shows "node_ok (nodes (views k)) (g_zombies k) (g_bootstrap k) (g_next_tid k) t (node_of (view th))"
  using kinvD(4) [OF inv] views_threads [OF th] by (simp add: tree_n_def nodes_def)

lemma kinv_nonnull: "kinv idle E k \<Longrightarrow> threads k t = Some th \<Longrightarrow> t \<noteq> NULL"
  using kinv_node by (fastforce simp: node_ok_def)

lemma kinv_not_queued:
  assumes inv: "kinv idle E k" and th: "threads k t = Some th" "state th \<noteq> THREAD_ZOMBIE"
  shows "t \<notin> set (g_zombies k)"
  using sched_invD(4) [OF kinvD(1) [OF inv], of t] th by (auto simp: st_def)

lemma kinv_parent:
  assumes inv: "kinv idle E k" and th: "threads k t = Some th" "t \<notin> set (g_zombies k)" and b: "t \<noteq> g_bootstrap k"
  shows "\<exists>p. threads k (parent th) = Some p \<and> t \<in> set (children p)"
  using kinv_node [OF inv th(1)] th(2) b by (auto simp: node_ok_def nodes_def node_of_def views_def)

lemma kinv_child:
  assumes inv: "kinv idle E k" and th: "threads k t = Some th" "c \<in> set (children th)"
  shows "\<exists>w. threads k c = Some w \<and> parent w = t \<and> unat (tid th) < unat (tid w) \<and> c \<notin> set (g_zombies k)"
  using kinv_node [OF inv th(1)] th(2) by (fastforce simp: node_ok_def nodes_def node_of_def views_def)

section \<open>The end of a process\<close>

lemma kinv_die:
  assumes inv: "kinv idle E k" and th: "threads k t = Some th" "state th \<noteq> THREAD_ZOMBIE" "children th = []"
    and t: "t \<noteq> g_bootstrap k" "t \<noteq> idle"
  defines "k1 \<equiv> (if state th = THREAD_READY then del_link t k else k)"
  shows "\<exists>k2 k'. upd k1 t (\<lambda>th. th\<lparr>exit_status := x, state := THREAD_ZOMBIE\<rparr>) = Some k2 \<and>
    do { k3 \<leftarrow> free_image k2 t; signal_release k3 t } = Some k' \<and> kinv idle E k' \<and> cur k' = cur k \<and>
    st k' = (st k)(t \<mapsto> THREAD_ZOMBIE) \<and> g_bootstrap k' = g_bootstrap k \<and>
    threads k' = (threads k)(t \<mapsto> dead (th\<lparr>exit_status := x, state := THREAD_ZOMBIE\<rparr>))"
proof -
  let ?th = "th\<lparr>exit_status := x, state := THREAD_ZOMBIE\<rparr>"
  let ?k = "k1\<lparr>threads := (threads k1)(t \<mapsto> ?th)\<rparr>"
  have k1: "threads k1 = threads k" "views k1 = views k" "k_heap k1 = k_heap k" "g_bootstrap k1 = g_bootstrap k"
    "g_next_tid k1 = g_next_tid k" "cur k1 = cur k" "st k1 = st k"
    by (auto simp: k1_def del_link_def views_def fun_eq_iff st_def)
  have nz: "t \<notin> set (g_zombies k)"
    using kinv_not_queued [OF inv th(1,2)] .
  then have z: "g_zombies k1 = g_zombies k"
    by (simp add: k1_def del_link_def remove1_idem)
  have stt: "st k t = Some (state th)"
    using th(1) by (simp add: st_def)
  have V1: "views ?k = (views k)(t \<mapsto> view ?th)"
    using k1 by (auto simp: views_def fun_eq_iff)
  have "mem_v (k_heap ?k) (views ?k) (g_bootstrap ?k) E"
    unfolding V1 using mem_same [OF kinvD(5) [OF inv] views_threads [OF th(1)], of "view ?th"] by (simp add: k1)
  from end_process_mem [OF this, of t ?th] kinv_nonnull [OF inv th(1)]
  obtain h where run: "do { k3 \<leftarrow> free_image ?k t; signal_release k3 t } = Some (?k\<lparr>k_heap := h, threads := (threads ?k)(t \<mapsto> dead ?th)\<rparr>)"
    and mem: "mem_v h ((views k)(t \<mapsto> view (dead ?th))) (g_bootstrap k) E"
    unfolding V1 by (auto simp: k1)
  let ?k' = "?k\<lparr>k_heap := h, threads := (threads ?k)(t \<mapsto> dead ?th)\<rparr>"
  have V: "views ?k' = (views k)(t \<mapsto> view (dead ?th))" and S: "st ?k' = (st k)(t \<mapsto> THREAD_ZOMBIE)"
    using k1 by (auto simp: views_def st_def fun_eq_iff dead_def)
  have "sched_inv ?k'"
  proof (cases "state th = THREAD_READY")
    case True
    have "queues_ok ((st k)(t \<mapsto> THREAD_ZOMBIE)) (remove1 t (g_runq k)) (g_zombies k) (cur k)"
      using queues_ok_kill [OF kinvD(1) [OF inv, unfolded sched_inv_def], of t] stt True by simp
    then show ?thesis
      using S z True by (simp add: sched_inv_def k1_def del_link_def)
  next
    case False
    then have "st k t = Some THREAD_RUNNING \<or> st k t = Some THREAD_BLOCKED"
      using stt th(2) by (cases "state th") auto
    then have "queues_ok ((st k)(t \<mapsto> THREAD_ZOMBIE)) (g_runq k) (g_zombies k) (cur k)"
      using queues_ok_stop [OF kinvD(1) [OF inv, unfolded sched_inv_def], of t THREAD_ZOMBIE] by simp
    then show ?thesis
      using S False by (simp add: sched_inv_def k1_def)
  qed
  moreover have "thread_ok (g_bootstrap k) t (view (dead ?th))"
    using kinvD(3) [OF inv th(1)] th(3) t(1) by (simp add: thread_ok_def dead_def sig_ok_def)
  ultimately have "kinv idle E ?k'"
    using V mem z k1 t(2)
    by (intro kinv_thread [OF inv views_threads [OF th(1)]]) (auto simp: node_of_def dead_def)
  moreover have "upd k1 t (\<lambda>th. th\<lparr>exit_status := x, state := THREAD_ZOMBIE\<rparr>) = Some ?k"
    using th(1) k1(1) by (simp add: upd_def)
  ultimately show ?thesis
    using run S k1 by (intro exI [of _ ?k] exI [of _ ?k'] conjI) simp_all
qed

end
