(* ===== verification/Process_End.thy ===== *)
theory Process_End
  imports Kernel_Inv
begin

text \<open>
  The end of processes keeps the invariant: the children of an exiting process move to the bootstrap
  thread, its parent is woken, \<^verbatim>\<open>sys_waitpid\<close> collects it, and the idle thread frees its stack and
  its record.
\<close>

lemma tree_nD:
  assumes "tree_n N z b n" and "N t = Some v"
  shows "t \<noteq> NULL" and "n_pid v = n_tid v" and "unat (n_tid v) < unat n" and "distinct (n_children v)"
    and "t = b \<Longrightarrow> n_parent v = NULL"
    and "t \<noteq> b \<Longrightarrow> \<exists>w. N b = Some w \<and> unat (n_tid w) < unat (n_tid v)"
    and "t \<noteq> b \<Longrightarrow> t \<notin> set z \<Longrightarrow> \<exists>p. N (n_parent v) = Some p \<and> t \<in> set (n_children p)"
    and "c \<in> set (n_children v) \<Longrightarrow> c \<notin> set z"
    and "c \<in> set (n_children v) \<Longrightarrow> \<exists>w. N c = Some w \<and> n_parent w = t \<and> unat (n_tid v) < unat (n_tid w)"
proof -
  have "node_ok N z b n t v"
    using assms by (simp add: tree_n_def)
  note ok = this [unfolded node_ok_def]
  show "t \<noteq> NULL" "n_pid v = n_tid v" "unat (n_tid v) < unat n" "distinct (n_children v)"
    using ok by blast+
  show "t = b \<Longrightarrow> n_parent v = NULL" "t \<noteq> b \<Longrightarrow> \<exists>w. N b = Some w \<and> unat (n_tid w) < unat (n_tid v)"
    "t \<noteq> b \<Longrightarrow> t \<notin> set z \<Longrightarrow> \<exists>p. N (n_parent v) = Some p \<and> t \<in> set (n_children p)"
    using ok by (simp_all split: if_splits)
  show "c \<in> set (n_children v) \<Longrightarrow> c \<notin> set z"
    "c \<in> set (n_children v) \<Longrightarrow> \<exists>w. N c = Some w \<and> n_parent w = t \<and> unat (n_tid v) < unat (n_tid w)"
    using ok by blast+
qed

lemma node_okI:
  assumes "t \<noteq> NULL" and "n_pid v = n_tid v" and "unat (n_tid v) < unat n" and "distinct (n_children v)"
    and "t = b \<Longrightarrow> n_parent v = NULL"
    and "t \<noteq> b \<Longrightarrow> \<exists>w. N b = Some w \<and> unat (n_tid w) < unat (n_tid v)"
    and "t \<noteq> b \<Longrightarrow> t \<notin> set z \<Longrightarrow> \<exists>p. N (n_parent v) = Some p \<and> t \<in> set (n_children p)"
    and "\<And>c. c \<in> set (n_children v) \<Longrightarrow> c \<notin> set z"
    and "\<And>c. c \<in> set (n_children v) \<Longrightarrow> \<exists>w. N c = Some w \<and> n_parent w = t \<and> unat (n_tid v) < unat (n_tid w)"
  shows "node_ok N z b n t v"
  using assms unfolding node_ok_def by auto

lemma tree_only_parent:
  assumes "tree_n N z b n" and "N s = Some vs" "c \<in> set (n_children vs)" and "N t = Some v" "c \<in> set (n_children v)"
  shows "t = s"
  using tree_nD(9) [OF assms(1,2,3)] tree_nD(9) [OF assms(1,4,5)] by auto

text \<open>A child moves from \<open>s\<close> to the root.\<close>

lemma tree_move:
  assumes tree: "tree_n N z b n" and s: "N s = Some vs" "n_children vs = c # cs" "s \<noteq> b"
    and w: "N c = Some w" and vb: "N b = Some vb"
  shows "tree_n (N(s \<mapsto> vs\<lparr>n_children := cs\<rparr>, c \<mapsto> w\<lparr>n_parent := b\<rparr>, b \<mapsto> vb\<lparr>n_children := n_children vb @ [c]\<rparr>)) z b n"
    (is "tree_n ?N z b n")
proof -
  have c: "c \<in> set (n_children vs)" "c \<notin> set cs" "c \<notin> set z"
    using s(2) tree_nD(4,8) [OF tree s(1)] by auto
  have cw: "n_parent w = s" "unat (n_tid vs) < unat (n_tid w)"
    using tree_nD(9) [OF tree s(1) c(1)] w by auto
  have cs: "c \<noteq> s" "c \<noteq> b"
    using cw w s(1) tree_nD(5) [OF tree vb] tree_nD(1) [OF tree s(1)] vb by auto
  have cb: "c \<notin> set (n_children vb)"
    using tree_only_parent [OF tree s(1) c(1) vb] s(3) by auto
  have bt: "unat (n_tid vb) < unat (n_tid w)"
    using tree_nD(6) [OF tree w] cs(2) vb by auto
  have same: "\<exists>v'. ?N t = Some v' \<and> n_tid v' = n_tid v \<and> (t \<noteq> c \<longrightarrow> n_parent v' = n_parent v) \<and>
      (t \<noteq> s \<longrightarrow> set (n_children v) \<subseteq> set (n_children v'))" if "N t = Some v" for t v
    using that s vb w cs by auto
  have kid: "\<exists>x. ?N d = Some x \<and> n_parent x = t \<and> unat (n_tid v) < unat (n_tid x)"
    if "N t = Some v" "d \<in> set (n_children v)" "d \<noteq> c" for t v d
    using same tree_nD(9) [OF tree that(1,2)] that(3) by fastforce
  have parent: "\<exists>p. ?N (n_parent v) = Some p \<and> t \<in> set (n_children p)"
    if t: "N t = Some v" "t \<noteq> b" "t \<notin> set z" "t \<noteq> c" for t v
  proof -
    obtain p where p: "N (n_parent v) = Some p" "t \<in> set (n_children p)"
      using tree_nD(7) [OF tree t(1-3)] by blast
    show ?thesis
    proof (cases "n_parent v = s")
      case True
      then show ?thesis
        using p s t(4) cs by auto
    next
      case False
      then show ?thesis
        using same [OF p(1)] p(2) by blast
    qed
  qed
  have root: "\<exists>x. ?N b = Some x \<and> unat (n_tid x) < unat (n_tid v)" if "N t = Some v" "t \<noteq> b" for t v
    using tree_nD(6) [OF tree that] vb by auto
  show ?thesis
    unfolding tree_n_def
  proof (intro conjI allI impI)
    show "b \<in> dom ?N" by simp
    fix t v'
    assume "?N t = Some v'"
    then consider (root) "t = b" "v' = vb\<lparr>n_children := n_children vb @ [c]\<rparr>" | (child) "t = c" "v' = w\<lparr>n_parent := b\<rparr>"
      | (src) "t = s" "v' = vs\<lparr>n_children := cs\<rparr>" | (other) "t \<noteq> b" "t \<noteq> c" "t \<noteq> s" "N t = Some v'"
      by (auto split: if_splits)
    then show "node_ok ?N z b n t v'"
    proof cases
      case root
      show ?thesis
        unfolding root
      proof (rule node_okI)
        fix d
        assume "d \<in> set (n_children (vb\<lparr>n_children := n_children vb @ [c]\<rparr>))"
        then show "\<exists>x. ?N d = Some x \<and> n_parent x = b \<and> unat (n_tid (vb\<lparr>n_children := n_children vb @ [c]\<rparr>)) < unat (n_tid x)"
          using kid [OF vb, of d] bt cs by (cases "d = c") auto
      qed (use tree_nD [OF tree vb] cb c(3) in auto)
    next
      case child
      show ?thesis
        unfolding child
      proof (rule node_okI)
        fix d
        assume d: "d \<in> set (n_children (w\<lparr>n_parent := b\<rparr>))"
        then have "d \<noteq> c"
          using tree_nD(9) [OF tree w, of d] w by auto
        then show "\<exists>x. ?N d = Some x \<and> n_parent x = c \<and> unat (n_tid (w\<lparr>n_parent := b\<rparr>)) < unat (n_tid x)"
          using kid [OF w, of d] d \<open>d \<noteq> c\<close> by (simp del: fun_upd_apply)
      qed (use tree_nD [OF tree w] root [OF w] cs bt in auto)
    next
      case src
      show ?thesis
        unfolding src
      proof (rule node_okI)
        fix d
        assume "d \<in> set (n_children (vs\<lparr>n_children := cs\<rparr>))"
        then have "d \<in> set (n_children vs)" "d \<noteq> c"
          using c(2) s(2) by auto
        from kid [OF s(1) this]
        show "\<exists>x. ?N d = Some x \<and> n_parent x = s \<and> unat (n_tid (vs\<lparr>n_children := cs\<rparr>)) < unat (n_tid x)"
          by (simp del: fun_upd_apply)
      next
        assume "s \<noteq> b" "s \<notin> set z"
        then show "\<exists>p. ?N (n_parent (vs\<lparr>n_children := cs\<rparr>)) = Some p \<and> s \<in> set (n_children p)"
          using parent [OF s(1)] cs by simp
      qed (use tree_nD [OF tree s(1)] root [OF s(1)] s in auto)
    next
      case other
      show ?thesis
      proof (rule node_okI)
        fix d
        assume d: "d \<in> set (n_children v')"
        then have "d \<noteq> c"
          using tree_only_parent [OF tree s(1) c(1) other(4)] other(3) by auto
        with d show "\<exists>x. ?N d = Some x \<and> n_parent x = t \<and> unat (n_tid v') < unat (n_tid x)"
          using kid [OF other(4)] by blast
      next
        assume "t \<noteq> b" "t \<notin> set z"
        then show "\<exists>p. ?N (n_parent v') = Some p \<and> t \<in> set (n_children p)"
          using parent [OF other(4)] other by blast
      qed (use tree_nD [OF tree other(4)] root [OF other(4)] other in auto)
    qed
  qed
qed

lemma kinv_only_parent:
  assumes inv: "kinv idle E k" and s: "threads k s = Some th" "c \<in> set (children th)"
    and t: "threads k t = Some th'" "c \<in> set (children th')"
  shows "t = s"
  using kinv_child [OF inv s] kinv_child [OF inv t] by auto

lemma del_sibling_child:
  assumes inv: "kinv idle E k" and s: "threads k s = Some th" "c \<in> set (children th)"
  shows "del_sibling c k = k\<lparr>threads := (threads k)(s \<mapsto> th\<lparr>children := remove1 c (children th)\<rparr>)\<rparr>"
proof -
  have "map_option (\<lambda>th. th\<lparr>children := remove1 c (children th)\<rparr>) (threads k a) =
      ((threads k)(s \<mapsto> th\<lparr>children := remove1 c (children th)\<rparr>)) a" for a
  proof (cases "a = s")
    case False
    then have "c \<notin> set (children th')" if "threads k a = Some th'" for th'
      using kinv_only_parent [OF inv s that] by blast
    with False show ?thesis
      by (cases "threads k a") (auto simp: remove1_idem)
  qed (use s in simp)
  then have "(\<lambda>a. map_option (\<lambda>th. th\<lparr>children := remove1 c (children th)\<rparr>) (threads k a)) =
      (threads k)(s \<mapsto> th\<lparr>children := remove1 c (children th)\<rparr>)"
    by (rule ext)
  then show ?thesis
    by (simp only: del_sibling_def)
qed

definition parents :: "kernel \<Rightarrow> u64 \<Rightarrow> u64 option" where
  "parents k t = map_option parent (threads k t)"

lemma kinv_reparent_step:
  assumes inv: "kinv idle E k" and th: "threads k self = Some th" "children th = c # cs" "state th \<noteq> THREAD_ZOMBIE"
    and b: "self \<noteq> g_bootstrap k"
  shows "\<exists>k1 k2. upd (del_sibling c k) c (\<lambda>ch. ch\<lparr>parent := g_bootstrap k\<rparr>) = Some k1 \<and>
    upd k1 (g_bootstrap k) (\<lambda>b. b\<lparr>children := children b @ [c]\<rparr>) = Some k2 \<and> kinv idle E k2 \<and>
    threads k2 self = Some (th\<lparr>children := cs\<rparr>) \<and> cur k2 = cur k \<and> st k2 = st k \<and> g_bootstrap k2 = g_bootstrap k \<and>
    parents k2 = (parents k)(c \<mapsto> g_bootstrap k)"
proof -
  let ?b = "g_bootstrap k"
  have cin: "c \<in> set (children th)"
    using th(2) by simp
  obtain w where w: "threads k c = Some w" "parent w = self" "unat (tid th) < unat (tid w)" "c \<notin> set (g_zombies k)"
    using kinv_child [OF inv th(1) cin] by blast
  obtain bt where bt: "threads k ?b = Some bt"
    using kinvD(4) [OF inv] by (auto simp: tree_n_def nodes_def views_def)
  have "node_ok (nodes (views k)) (g_zombies k) ?b (g_next_tid k) ?b (node_of (view bt))"
    by (rule kinv_node [OF inv bt])
  then have pb: "parent bt = NULL"
    by (simp add: node_ok_def node_of_def)
  have ne: "c \<noteq> self" "c \<noteq> ?b"
    using w th(1) pb bt kinv_nonnull [OF inv th(1)] by auto
  define T where "T = (threads k)(self \<mapsto> th\<lparr>children := cs\<rparr>, c \<mapsto> w\<lparr>parent := ?b\<rparr>, ?b \<mapsto> bt\<lparr>children := children bt @ [c]\<rparr>)"
  let ?k1 = "k\<lparr>threads := (threads k)(self \<mapsto> th\<lparr>children := cs\<rparr>, c \<mapsto> w\<lparr>parent := ?b\<rparr>)\<rparr>" and ?k2 = "k\<lparr>threads := T\<rparr>"
  have k1: "upd (del_sibling c k) c (\<lambda>ch. ch\<lparr>parent := ?b\<rparr>) = Some ?k1"
    using ne w(1) th(2) by (simp add: del_sibling_child [OF inv th(1) cin] upd_def)
  have k2: "upd ?k1 ?b (\<lambda>b. b\<lparr>children := children b @ [c]\<rparr>) = Some ?k2"
    using bt ne b by (simp add: upd_def T_def)
  have S: "st ?k2 = st k"
    using th(1) w(1) bt by (auto simp: st_def T_def fun_eq_iff)
  define V where "V = views ?k2"
  have V: "V = (views k)(self \<mapsto> (view th)\<lparr>v_children := cs\<rparr>, c \<mapsto> (view w)\<lparr>v_parent := ?b\<rparr>,
      ?b \<mapsto> (view bt)\<lparr>v_children := children bt @ [c]\<rparr>)"
    by (auto simp: V_def views_def T_def fun_eq_iff view_def)
  have N: "nodes V = (nodes (views k))(self \<mapsto> (node_of (view th))\<lparr>n_children := cs\<rparr>,
      c \<mapsto> (node_of (view w))\<lparr>n_parent := ?b\<rparr>, ?b \<mapsto> (node_of (view bt))\<lparr>n_children := n_children (node_of (view bt)) @ [c]\<rparr>)"
    by (auto simp: V nodes_def node_of_def fun_eq_iff)
  have "tree_n (nodes V) (g_zombies k) ?b (g_next_tid k)"
    unfolding N by (rule tree_move [OF kinvD(4) [OF inv]])
      (use th w bt b in \<open>simp_all add: nodes_def views_def node_of_def\<close>)
  moreover have "threads_v V ?b"
    using kinvD(7) [OF inv] kinvD(3) [OF inv th(1)] kinvD(3) [OF inv w(1)] kinvD(3) [OF inv bt] th(3)
    by (auto simp: V threads_v_def thread_ok_def)
  moreover have "idle_v idle V"
    using kinvD(6) [OF inv] th(1) w(1) bt by (auto simp: V idle_v_def views_def)
  moreover have "mem_v (k_heap k) V ?b E"
  proof -
    let ?V1 = "(views k)(self \<mapsto> (view th)\<lparr>v_children := cs\<rparr>)"
    let ?V2 = "?V1(c \<mapsto> (view w)\<lparr>v_parent := ?b\<rparr>)"
    have "mem_v (k_heap k) ?V1 ?b E"
      by (rule mem_same [OF kinvD(5) [OF inv] views_threads [OF th(1)]]) simp_all
    then have "mem_v (k_heap k) ?V2 ?b E"
      by (rule mem_same [of _ _ _ _ _ "view w"]) (use w ne in \<open>simp_all add: views_def\<close>)
    then show ?thesis
      unfolding V by (rule mem_same [of _ _ _ _ _ "view bt"]) (use bt ne b in \<open>simp_all add: views_def\<close>)
  qed
  moreover have "sched_inv ?k2"
    using kinvD(1) [OF inv] S by (simp add: sched_inv_def)
  ultimately have "kinv idle E ?k2"
    by (simp add: kinv_def V_def)
  moreover have "threads ?k2 self = Some (th\<lparr>children := cs\<rparr>)"
    using ne b by (simp add: T_def)
  moreover have "parents ?k2 = (parents k)(c \<mapsto> ?b)"
    using ne th(1) bt by (auto simp: parents_def T_def fun_eq_iff)
  ultimately show ?thesis
    using k1 k2 S by (intro exI [of _ ?k1] exI [of _ ?k2]) simp
qed

lemma kinv_reparent:
  assumes "kinv idle E k" and "threads k self = Some th" "children th = cs" "state th \<noteq> THREAD_ZOMBIE"
    and "self \<noteq> g_bootstrap k"
  shows "\<exists>k'. reparent_children self k = Some k' \<and> kinv idle E k' \<and> threads k' self = Some (th\<lparr>children := []\<rparr>) \<and>
    cur k' = cur k \<and> st k' = st k \<and> g_bootstrap k' = g_bootstrap k \<and>
    parents k' = (\<lambda>t. if t \<in> set cs then Some (g_bootstrap k) else parents k t)"
  using assms
proof (induction cs arbitrary: k th)
  case Nil
  have "reparent_children self k = Some k"
    by (subst reparent_children.simps) (simp add: Nil.prems)
  moreover have "th\<lparr>children := []\<rparr> = th"
    using Nil.prems(3) by simp
  ultimately show ?case
    using Nil.prems(1,2) by (intro exI [of _ k]) simp
next
  case (Cons c cs)
  obtain k1 k2 where step: "upd (del_sibling c k) c (\<lambda>ch. ch\<lparr>parent := g_bootstrap k\<rparr>) = Some k1"
    "upd k1 (g_bootstrap k) (\<lambda>b. b\<lparr>children := children b @ [c]\<rparr>) = Some k2" "kinv idle E k2"
    "threads k2 self = Some (th\<lparr>children := cs\<rparr>)" "cur k2 = cur k" "st k2 = st k" "g_bootstrap k2 = g_bootstrap k"
    "parents k2 = (parents k)(c \<mapsto> g_bootstrap k)"
    using kinv_reparent_step [OF Cons.prems(1-5)] by blast
  have "\<exists>k'. reparent_children self k2 = Some k' \<and> kinv idle E k' \<and>
      threads k' self = Some (th\<lparr>children := cs\<rparr>\<lparr>children := []\<rparr>) \<and>
      cur k' = cur k2 \<and> st k' = st k2 \<and> g_bootstrap k' = g_bootstrap k2 \<and>
      parents k' = (\<lambda>t. if t \<in> set cs then Some (g_bootstrap k2) else parents k2 t)"
    by (rule Cons.IH) (use step Cons.prems in simp_all)
  moreover have "reparent_children self k = reparent_children self k2"
    by (subst reparent_children.simps) (simp add: step(1,2) Cons.prems(2,3))
  moreover have "(\<lambda>t. if t \<in> set cs then Some (g_bootstrap k2) else parents k2 t) =
      (\<lambda>t. if t \<in> set (c # cs) then Some (g_bootstrap k) else parents k t)"
    using step(7,8) by auto
  ultimately show ?case
    using step by auto
qed

lemma strip_eqD:
  assumes "strip a = strip b"
  shows "exit_status a = exit_status b" and "parent a = parent b"
proof -
  have "exit_status (strip a) = exit_status (strip b)" "parent (strip a) = parent (strip b)"
    by (simp_all only: assms)
  then show "exit_status a = exit_status b" "parent a = parent b"
    by (simp_all add: strip_def)
qed

lemma same_threadsD:
  assumes "same_threads k k'" and "threads k t = Some a"
  shows "\<exists>b. threads k' t = Some b \<and> strip b = strip a"
proof -
  have "map_option strip (threads k' t) = Some (strip a)"
    using assms by (simp add: same_threads_def)
  then show ?thesis
    by auto
qed

lemma same_threads_parents:
  assumes "same_threads k k'"
  shows "parents k' = parents k"
proof
  fix t
  show "parents k' t = parents k t"
  proof (cases "threads k t")
    case None
    then have "map_option strip (threads k' t) = None"
      using assms by (simp add: same_threads_def)
    with None show ?thesis
      by (simp add: parents_def)
  next
    case (Some a)
    obtain b where b: "threads k' t = Some b" "strip b = strip a"
      using same_threadsD [OF assms Some] by blast
    with Some strip_eqD(2) [OF b(2)] show ?thesis
      by (simp add: parents_def)
  qed
qed

lemma restated_zombie:
  assumes "restated V V'" and "V t = Some v" and "v_state v = THREAD_ZOMBIE" and "V' t = Some v'"
  shows "v_state v' = THREAD_ZOMBIE"
  using assms unfolding restated_def by force

lemma restated_views_zombie:
  assumes "restated (views k) (views k')" and "threads k t = Some a" and "state a = THREAD_ZOMBIE" and "threads k' t = Some b"
  shows "state b = THREAD_ZOMBIE"
  using restated_zombie [where V = "views k" and V' = "views k'" and t = t and v = "view a" and v' = "view b"] assms
  by (simp add: views_def)

lemma schedule_blocks_none:
  assumes inv: "sched_inv k" and c: "threads k (cur k) = Some c" "state c = THREAD_ZOMBIE" and q: "g_runq k \<noteq> []"
    and run: "schedule k = Some k'" and b: "st k' t = Some THREAD_BLOCKED"
  shows "st k t = Some THREAD_BLOCKED"
proof -
  obtain n r where nr: "g_runq k = n # r"
    using q by (cases "g_runq k") auto
  obtain nth where "schedule k = Some (k\<lparr>threads := (threads k)(n \<mapsto> nth\<lparr>state := THREAD_RUNNING\<rparr>, cur k \<mapsto> c\<lparr>ctx := hart k\<rparr>),
      g_runq := r, hart := ctx nth, cur := n\<rparr>)"
    using schedule_away [OF inv c(1) _ _ nr] c(2) by auto
  with run b c show ?thesis
    by (auto simp: st_def split: if_splits)
qed

lemma kinv_tree_ok:
  assumes inv: "kinv idle E k"
  shows "tree_ok k" and "g_bootstrap k \<in> dom (threads k)"
proof -
  show "tree_ok k"
    unfolding tree_ok_def
  proof (intro allI impI)
    fix t th
    assume th: "threads k t = Some th"
    have "node_ok (nodes (views k)) (g_zombies k) (g_bootstrap k) (g_next_tid k) t (node_of (view th))"
      by (rule kinv_node [OF inv th])
    then show "t \<noteq> NULL \<and> pid th = tid th \<and> unat (tid th) < unat (g_next_tid k) \<and>
      (\<forall>c\<in>set (children th). \<exists>ch. threads k c = Some ch \<and> parent ch = t \<and> unat (tid th) < unat (tid ch))"
      using kinv_child [OF inv th] by (auto simp: node_ok_def node_of_def)
  qed
  show "g_bootstrap k \<in> dom (threads k)"
    using kinvD(4) [OF inv] by (auto simp: tree_n_def nodes_def views_def)
qed

lemma kinv_find:
  assumes inv: "kinv idle E k"
  shows "\<exists>r. find_thread_by_pid k p = Some r \<and> (\<forall>t. r = Some t \<longrightarrow> (\<exists>th. threads k t = Some th \<and> pid th = p))"
  using find_thread_by_pid_correct [OF kinv_tree_ok [OF inv], of p]
  by (auto simp: found_in_def has_pid_def split: option.splits)

lemma kinv_terminate:
  assumes inv: "kinv idle E k" and th: "threads k t = Some th" "state th \<noteq> THREAD_ZOMBIE" "children th = []"
    and t: "t \<noteq> g_bootstrap k" "t \<noteq> idle" and c: "cur_state k \<noteq> Some THREAD_BLOCKED"
  shows "\<exists>k'. signal_default_terminate k t = Some k' \<and> kinv idle E k' \<and> cur k' = cur k \<and>
    cur_state k' = (if t = cur k then Some THREAD_ZOMBIE else cur_state k)"
proof -
  define k1 where "k1 = (if state th = THREAD_READY then del_link t k else k)"
  obtain k2 k3 k4 where run: "upd k1 t (\<lambda>th. th\<lparr>exit_status := -1, state := THREAD_ZOMBIE\<rparr>) = Some k2"
    "free_image k2 t = Some k3" "signal_release k3 t = Some k4"
    and inv4: "kinv idle E k4" and k4: "cur k4 = cur k" "st k4 = (st k)(t \<mapsto> THREAD_ZOMBIE)"
    "threads k4 = (threads k)(t \<mapsto> dead (th\<lparr>exit_status := -1, state := THREAD_ZOMBIE\<rparr>))"
    using kinv_die [OF inv th t, of "-1"] unfolding k1_def bind_eq_Some_conv by blast
  have p: "parent th \<in> dom (threads k)"
    using kinv_parent [OF inv th(1) kinv_not_queued [OF inv th(1,2)] t(1)] by blast
  then have "parent th \<noteq> NULL"
    using kinv_nonnull [OF inv] by blast
  then have eq: "signal_default_terminate k t = thread_wakeup k4 (parent th)"
    using kinv_nonnull [OF inv th(1)] th(1) run by (simp add: signal_default_terminate_def k1_def [symmetric])
  have "parent th = NULL \<or> parent th \<in> dom (threads k4)" "cur_state k4 \<noteq> Some THREAD_BLOCKED"
    using p k4 c by auto
  from kinv_wakeup [OF inv4 this] eq k4 show ?thesis
    by auto
qed

lemma kinv_exit:
  assumes inv: "kinv idle E k" and c: "cur_state k = Some THREAD_RUNNING" "cur k \<noteq> g_bootstrap k" "cur k \<noteq> idle"
    and th0: "threads k (cur k) = Some th0"
  shows "\<exists>k' z. sys_exit k status = Some (k', Gone) \<and> kinv idle E k' \<and> cur_state k' = Some THREAD_RUNNING \<and>
    threads k' (cur k) = Some z \<and> state z = THREAD_ZOMBIE \<and> exit_status z = ucast status \<and>
    st k' (parent th0) \<noteq> Some THREAD_BLOCKED \<and>
    parents k' = (\<lambda>t. if t \<in> set (children th0) then Some (g_bootstrap k) else parents k t)"
proof -
  let ?self = "cur k"
  have st0: "state th0 = THREAD_RUNNING"
    using c(1) th0 by (simp add: st_def)
  define th where "th = th0\<lparr>exit_status := ucast status :: i32\<rparr>"
  define k1 where "k1 = k\<lparr>threads := (threads k)(?self \<mapsto> th)\<rparr>"
  have up1: "upd k ?self (\<lambda>th. th\<lparr>exit_status := ucast status\<rparr>) = Some k1"
    using th0 by (simp add: upd_def k1_def th_def)
  have inv1: "kinv idle E k1"
    unfolding k1_def th_def by (rule kinv_upd [OF inv th0]) (simp add: view_def)
  have k1: "threads k1 ?self = Some th" "state th = THREAD_RUNNING" "cur k1 = cur k" "g_bootstrap k1 = g_bootstrap k" "st k1 = st k"
    using th0 st0 by (auto simp: k1_def th_def st_def fun_eq_iff)
  have P1: "parents k1 = parents k" and ch: "children th = children th0" "parent th = parent th0" "exit_status th = ucast status"
    using th0 by (auto simp: k1_def th_def parents_def fun_eq_iff)
  obtain k2 where k2: "reparent_children ?self k1 = Some k2" "kinv idle E k2" "threads k2 ?self = Some (th\<lparr>children := []\<rparr>)"
    "cur k2 = cur k" "st k2 = st k" "g_bootstrap k2 = g_bootstrap k"
    and P: "parents k2 = (\<lambda>t. if t \<in> set (children th) then Some (g_bootstrap k1) else parents k1 t)"
    using kinv_reparent [OF inv1 k1(1) refl] k1 c(2) by auto
  have P2: "parents k2 = (\<lambda>t. if t \<in> set (children th0) then Some (g_bootstrap k) else parents k t)"
    unfolding P P1 ch k1(4) ..
  define th2 where "th2 = th\<lparr>children := []\<rparr>"
  have th2: "threads k2 ?self = Some th2" "state th2 \<noteq> THREAD_ZOMBIE" "state th2 \<noteq> THREAD_READY" "children th2 = []"
    using k2(3) k1(2) by (simp_all add: th2_def)
  obtain k3 k4 k5 where run: "upd k2 ?self (\<lambda>th. th\<lparr>exit_status := exit_status th2, state := THREAD_ZOMBIE\<rparr>) = Some k3"
    "free_image k3 ?self = Some k4" "signal_release k4 ?self = Some k5"
    and inv5: "kinv idle E k5" and k5: "cur k5 = cur k2" "st k5 = (st k2)(?self \<mapsto> THREAD_ZOMBIE)"
    "threads k5 = (threads k2)(?self \<mapsto> dead (th2\<lparr>exit_status := exit_status th2, state := THREAD_ZOMBIE\<rparr>))"
    using kinv_die [OF k2(2) th2(1,2,4), of "exit_status th2"] c(2,3) k2(6) th2(3)
    unfolding bind_eq_Some_conv by auto
  have up3: "upd k2 ?self (\<lambda>th. th\<lparr>state := THREAD_ZOMBIE\<rparr>) = Some k3"
    using run(1) th2(1) by (simp add: upd_def)
  have p: "parent th2 \<in> dom (threads k2)"
    using kinv_parent [OF k2(2) th2(1) kinv_not_queued [OF k2(2) th2(1,2)]] c(2) k2(6) by auto
  then have pn: "parent th2 \<noteq> NULL"
    using kinv_nonnull [OF k2(2)] by blast
  have "parent th2 = NULL \<or> parent th2 \<in> dom (threads k5)" "cur_state k5 \<noteq> Some THREAD_BLOCKED"
    using p k5 k2(4) by auto
  from kinv_wakeup [OF inv5 this] obtain k6 where
    k6: "thread_wakeup k5 (parent th2) = Some k6" "kinv idle E k6" "cur_state k6 = cur_state k5" "same_threads k5 k6"
      "st k6 (parent th2) \<noteq> Some THREAD_BLOCKED" "restated (views k5) (views k6)"
    using pn by blast
  have "cur_state k6 \<noteq> Some THREAD_READY"
    using k6(3) k5 k2(4) by simp
  from kinv_schedule [OF k6(2) this] obtain k7 where
    k7: "schedule k6 = Some k7" "kinv idle E k7" "cur_state k7 = Some THREAD_RUNNING" "same_threads k6 k7" "restated (views k6) (views k7)"
    by blast
  have same: "same_threads k5 k7"
    using k6(4) k7(4) by (rule same_threads_trans)
  have z5: "threads k5 ?self = Some (dead (th2\<lparr>exit_status := exit_status th2, state := THREAD_ZOMBIE\<rparr>))"
    using k5(3) by simp
  then obtain z where z: "threads k7 ?self = Some z" "strip z = strip (dead (th2\<lparr>exit_status := exit_status th2, state := THREAD_ZOMBIE\<rparr>))"
    using same_threadsD [OF same] by blast
  have "exit_status z = ucast status"
    using strip_eqD(1) [OF z(2)] ch(3) by (simp add: dead_def th2_def)
  moreover have "state z = THREAD_ZOMBIE"
  proof -
    have "restated (views k5) (views k7)"
      using k6(6) k7(5) by (rule restated_trans)
    from restated_views_zombie [OF this z5 _ z(1)] show ?thesis
      by (simp add: dead_def)
  qed
  moreover have "parents k7 = parents k2"
    using same_threads_parents [OF same] k5(3) th2(1) by (auto simp: parents_def dead_def fun_eq_iff)
  moreover have "st k7 (parent th0) \<noteq> Some THREAD_BLOCKED"
  proof -
    have "cur_state k6 = Some THREAD_ZOMBIE"
      using k6(3) k5 k2(4) by simp
    then obtain c6 where c6: "threads k6 (cur k6) = Some c6" "state c6 = THREAD_ZOMBIE" and q6: "g_runq k6 \<noteq> []"
      using st_Some kinv_idle_ready [OF k6(2)] by fastforce
    show ?thesis
      using schedule_blocks_none [OF kinvD(1) [OF k6(2)] c6 q6 k7(1)] k6(5) ch(2) by (auto simp: th2_def)
  qed
  ultimately show ?thesis
    using up1 k2(1) th2(1) up3 run(2,3) pn k6(1) k7 z(1) P2 by (auto simp: sys_exit_def get_current_def)
qed

section \<open>Collecting a process\<close>

lemma tree_bury:
  assumes tree: "tree_n N z b n" and s: "N s = Some vs" "c \<in> set (n_children vs)" and w: "N c = Some w" "n_children w = []"
  shows "tree_n (N(s \<mapsto> vs\<lparr>n_children := remove1 c (n_children vs)\<rparr>)) (z @ [c]) b n" (is "tree_n ?N _ _ _")
proof -
  have cw: "n_parent w = s" "c \<noteq> s" "c \<noteq> b"
    using tree_nD(9) [OF tree s] tree_nD(5) [OF tree w(1)] tree_nD(1) [OF tree s(1)] w s by auto
  have d: "distinct (n_children vs)"
    by (rule tree_nD(4) [OF tree s(1)])
  have same: "\<exists>v'. ?N t = Some v' \<and> n_tid v' = n_tid v \<and> n_parent v' = n_parent v \<and> n_pid v' = n_pid v \<and>
      set (n_children v') = set (n_children v) - {c} \<and> distinct (n_children v')" if "N t = Some v" for t v
  proof (cases "t = s")
    case True
    then show ?thesis
      using that s(1) d by (auto simp: set_remove1_eq distinct_remove1)
  next
    case False
    then have "c \<notin> set (n_children v)"
      using tree_only_parent [OF tree s that] by blast
    then show ?thesis
      using that False tree_nD(4) [OF tree that] by auto
  qed
  have old: "\<exists>v. N t = Some v" if "?N t = Some v'" for t v'
    using that s(1) by (auto split: if_splits)
  show ?thesis
    unfolding tree_n_def
  proof (intro conjI allI impI)
    show "b \<in> dom ?N"
      using tree by (auto simp: tree_n_def)
    fix t v'
    assume v': "?N t = Some v'"
    obtain v where v: "N t = Some v"
      using old [OF v'] by blast
    have eq: "n_tid v' = n_tid v" "n_parent v' = n_parent v" "n_pid v' = n_pid v"
      "set (n_children v') = set (n_children v) - {c}" "distinct (n_children v')"
      using same [OF v] v' by auto
    show "node_ok ?N (z @ [c]) b n t v'"
    proof (rule node_okI)
      show "t \<noteq> NULL" "n_pid v' = n_tid v'" "unat (n_tid v') < unat n" "distinct (n_children v')"
        "t = b \<Longrightarrow> n_parent v' = NULL"
        using tree_nD [OF tree v] eq by auto
      show "\<exists>w. ?N b = Some w \<and> unat (n_tid w) < unat (n_tid v')" if "t \<noteq> b"
        using tree_nD(6) [OF tree v that] same eq(1) by fastforce
      show "\<exists>p. ?N (n_parent v') = Some p \<and> t \<in> set (n_children p)" if t: "t \<noteq> b" "t \<notin> set (z @ [c])"
        using tree_nD(7) [OF tree v t(1)] t(2) same eq(2) by fastforce
      fix d
      assume "d \<in> set (n_children v')"
      then have d: "d \<in> set (n_children v)" "d \<noteq> c"
        using eq(4) by auto
      show "d \<notin> set (z @ [c])"
        using tree_nD(8) [OF tree v d(1)] d(2) by simp
      show "\<exists>w. ?N d = Some w \<and> n_parent w = t \<and> unat (n_tid v') < unat (n_tid w)"
        using tree_nD(9) [OF tree v d(1)] same eq(1) by fastforce
    qed
  qed
qed

lemma kinv_collect:
  assumes inv: "kinv idle E k" and s: "threads k s = Some th" "c \<in> set (children th)"
    and w: "threads k c = Some w" "state w = THREAD_ZOMBIE"
  shows "kinv idle E (sched_zombify (del_sibling c k) c)"
proof -
  let ?th = "th\<lparr>children := remove1 c (children th)\<rparr>"
  let ?k = "k\<lparr>threads := (threads k)(s \<mapsto> ?th), g_zombies := g_zombies k @ [c]\<rparr>"
  have k': "sched_zombify (del_sibling c k) c = ?k"
    by (simp add: sched_zombify_def del_sibling_child [OF inv s])
  have ch: "children w = []"
    using kinvD(3) [OF inv w(1)] w(2) by (simp add: thread_ok_def)
  have nz: "c \<notin> set (g_zombies k)"
    using kinv_child [OF inv s] by blast
  have V: "views ?k = (views k)(s \<mapsto> (view th)\<lparr>v_children := remove1 c (children th)\<rparr>)"
    by (auto simp: views_def fun_eq_iff view_def)
  have N: "nodes (views ?k) = (nodes (views k))(s \<mapsto> (node_of (view th))\<lparr>n_children := remove1 c (n_children (node_of (view th)))\<rparr>)"
    by (auto simp: V nodes_def node_of_def fun_eq_iff)
  have "tree_n (nodes (views ?k)) (g_zombies k @ [c]) (g_bootstrap k) (g_next_tid k)"
    unfolding N
    by (rule tree_bury [OF kinvD(4) [OF inv], of _ _ _ "node_of (view w)"])
      (use s w ch in \<open>simp_all add: nodes_def views_def node_of_def\<close>)
  moreover have "threads_v (views ?k) (g_bootstrap k)"
    using kinvD(7) [OF inv] kinvD(3) [OF inv s(1)] unfolding V threads_v_def thread_ok_def by auto
  moreover have "idle_v idle (views ?k)"
    using kinvD(6) [OF inv] s(1) unfolding V by (auto simp: idle_v_def views_def)
  moreover have "mem_v (k_heap k) (views ?k) (g_bootstrap k) E"
    unfolding V by (rule mem_same [OF kinvD(5) [OF inv] views_threads [OF s(1)]]) simp_all
  moreover have "sched_inv ?k"
  proof -
    have "st ?k = st k"
      using s(1) by (auto simp: st_def fun_eq_iff)
    then show ?thesis
      using queues_ok_bury [OF kinvD(1) [OF inv, unfolded sched_inv_def], of c] w nz by (simp add: sched_inv_def st_def)
  qed
  ultimately show ?thesis
    unfolding k' by (simp add: kinv_def)
qed

text \<open>Waiting for a child, from the start or after a wake-up.\<close>

lemma kinv_waitpid_on:
  assumes inv: "kinv idle E k" and c: "cur_state k = Some THREAD_RUNNING" "cur k \<noteq> idle"
    and ch: "threads k (cur k) = Some self" "child \<in> set (children self)"
  shows "\<exists>k' out. waitpid_on k child = Some (k', out) \<and> kinv idle E k' \<and> cur_state k' = Some THREAD_RUNNING"
proof -
  obtain w where w: "threads k child = Some w"
    using kinv_child [OF inv ch] by blast
  show ?thesis
  proof (cases "state w = THREAD_ZOMBIE")
    case True
    have "cur_state (sched_zombify (del_sibling child k) child) = cur_state k"
      by (simp add: sched_zombify_def)
    then show ?thesis
      using kinv_collect [OF inv ch w True] w True c by (simp add: waitpid_on_def)
  next
    case False
    then show ?thesis
      using kinv_thread_block [OF inv c] w by (auto simp: waitpid_on_def)
  qed
qed

lemma find_child_result:
  assumes "\<forall>c\<in>set cs. c \<in> dom (threads k)"
  shows "\<exists>r. find_child k cs p = Some r \<and>
    (case r of None \<Rightarrow> \<forall>c\<in>set cs. \<forall>th. threads k c = Some th \<longrightarrow> pid th \<noteq> p
     | Some c \<Rightarrow> c \<in> set cs \<and> (\<exists>th. threads k c = Some th \<and> pid th = p))"
  using assms
proof (induction cs)
  case (Cons c cs)
  then obtain th where "threads k c = Some th"
    by auto
  with Cons show ?case
    by (cases "pid th = p") (auto split: option.splits)
qed simp

lemma kinv_waitpid:
  assumes inv: "kinv idle E k" and c: "cur_state k = Some THREAD_RUNNING" "cur k \<noteq> idle"
  shows "\<exists>k' out. sys_waitpid k p = Some (k', out) \<and> kinv idle E k' \<and> cur_state k' = Some THREAD_RUNNING"
proof -
  obtain self where self: "threads k (cur k) = Some self"
    using st_Some [OF c(1)] by blast
  have "\<forall>c\<in>set (children self). c \<in> dom (threads k)"
    using kinv_child [OF inv self] by blast
  from find_child_result [OF this, of "ucast p"] obtain r where
    r: "find_child k (children self) (ucast p) = Some r" "\<And>c. r = Some c \<Longrightarrow> c \<in> set (children self)"
    by (auto split: option.splits)
  show ?thesis
  proof (cases r)
    case None
    then show ?thesis
      using self r(1) inv c by (simp add: sys_waitpid_def get_current_def)
  next
    case (Some child)
    then show ?thesis
      using kinv_waitpid_on [OF inv c self r(2) [OF Some]] self r(1) by (simp add: sys_waitpid_def get_current_def)
  qed
qed

section \<open>Reaping\<close>

lemma tree_remove:
  assumes tree: "tree_n N (c # z) b n" and w: "N c = Some w" "n_children w = []" "c \<noteq> b" "c \<notin> set z"
  shows "tree_n (N(c := None)) z b n"
  unfolding tree_n_def
proof (intro conjI allI impI)
  show "b \<in> dom (N(c := None))"
    using tree w(3) by (auto simp: tree_n_def)
  fix t v
  assume "(N(c := None)) t = Some v"
  then have v: "N t = Some v" and t: "t \<noteq> c"
    by (auto split: if_splits)
  show "node_ok (N(c := None)) z b n t v"
  proof (rule node_okI)
    show "\<exists>w. (N(c := None)) b = Some w \<and> unat (n_tid w) < unat (n_tid v)" if "t \<noteq> b"
      using tree_nD(6) [OF tree v that] w(3) by auto
    show "\<exists>p. (N(c := None)) (n_parent v) = Some p \<and> t \<in> set (n_children p)" if tb: "t \<noteq> b" "t \<notin> set z"
    proof -
      obtain p where p: "N (n_parent v) = Some p" "t \<in> set (n_children p)"
        using tree_nD(7) [OF tree v] tb t by auto
      then have "n_parent v \<noteq> c"
        using w(1,2) by auto
      with p show ?thesis by auto
    qed
    fix d
    assume d: "d \<in> set (n_children v)"
    then have "d \<noteq> c" "d \<notin> set z"
      using tree_nD(8) [OF tree v d] by auto
    then show "d \<notin> set z" "\<exists>w. (N(c := None)) d = Some w \<and> n_parent w = t \<and> unat (n_tid v) < unat (n_tid w)"
      using tree_nD(9) [OF tree v d] by auto
  qed (use tree_nD [OF tree v] in auto)
qed

lemma ptrs_None: "ptrs (V(t := None)) b = (\<lambda>x. if fst x = t then NULL else ptrs V b x)"
  by (auto simp: ptrs_def fun_eq_iff)

lemma reap_mem:
  assumes mem: "mem_v (k_heap k) (views k) (g_bootstrap k) E" and th: "threads k z = Some th" "z \<noteq> g_bootstrap k" "z \<noteq> NULL"
    and none: "image_base th = NULL" "sigstack_base (sig th) = NULL"
  shows "\<exists>h. reap k z = Some (k\<lparr>k_heap := h, threads := (threads k)(z := None)\<rparr>) \<and>
    mem_v h ((views k)(z := None)) (g_bootstrap k) E"
proof -
  let ?b = "g_bootstrap k" and ?f = "ptrs (views k) (g_bootstrap k)" and ?n = "needs (views k)"
  have own: "heap.owns (k_heap k) ?f ?n E" "unat ?b \<in> off_limits (heap_buddy (k_heap k))"
    using mem by (simp_all add: mem_v_def)
  have at: "?f (z, Stack) = kstack_base th" "?f (z, Struct) = z" "?f (z, Image) = NULL" "?f (z, Sigstack) = NULL" "?f (z, Temp) = NULL"
    using th none by (simp_all add: ptrs_def views_def)
  have "\<exists>h1. (if kstack_base th \<noteq> NULL then k_kfree k (kstack_base th) else Some k) = Some (k\<lparr>k_heap := h1\<rparr>) \<and>
      heap.owns h1 (?f((z, Stack) := NULL)) ?n E \<and> off_limits (heap_buddy h1) = off_limits (heap_buddy (k_heap k))"
  proof (cases "kstack_base th = NULL")
    case True
    then have "?f((z, Stack) := NULL) = ?f"
      using at(1) by (simp add: fun_upd_idem)
    then show ?thesis
      using own True by (intro exI [of _ "k_heap k"]) simp
  next
    case False
    then show ?thesis
      using heap_guarded.owns_free_guarded [OF own(1), of "(z, Stack)"] by (auto simp: at k_kfree_def)
  qed
  then obtain h1 where h1: "(if kstack_base th \<noteq> NULL then k_kfree k (kstack_base th) else Some k) = Some (k\<lparr>k_heap := h1\<rparr>)"
    "heap.owns h1 (?f((z, Stack) := NULL)) ?n E" "off_limits (heap_buddy h1) = off_limits (heap_buddy (k_heap k))"
    by blast
  have atz: "(?f((z, Stack) := NULL)) (z, Struct) = z"
    using at by simp
  then have "(?f((z, Stack) := NULL)) (z, Struct) \<noteq> NULL"
    using th(3) by simp
  from heap_guarded.owns_free_guarded [OF h1(2) this] obtain h2 where h2: "kfree h1 z = Some h2"
    "heap.owns h2 (?f((z, Stack) := NULL, (z, Struct) := NULL)) ?n E"
    "off_limits (heap_buddy h2) = off_limits (heap_buddy h1)"
    unfolding atz by blast
  have f: "?f((z, Stack) := NULL, (z, Struct) := NULL) = ptrs ((views k)(z := None)) ?b"
  proof
    fix x :: "u64 \<times> slot"
    obtain t s where x: "x = (t, s)" by (cases x)
    show "(?f((z, Stack) := NULL, (z, Struct) := NULL)) x = ptrs ((views k)(z := None)) ?b x"
      using at by (cases s) (auto simp: x ptrs_None)
  qed
  have "heap.owns h2 (ptrs ((views k)(z := None)) ?b) (needs ((views k)(z := None))) E"
    using h2(2) unfolding f by (rule heap.owns_need) (auto simp: ptrs_def needs_def)
  moreover have "reap k z = Some (k\<lparr>k_heap := h2, threads := (threads k)(z := None)\<rparr>)"
    using th h1(1) h2(1) by (simp add: reap_def k_kfree_def)
  ultimately show ?thesis
    using own(2) h1(3) h2(3) by (auto simp: mem_v_def)
qed

lemma kinv_reap:
  assumes inv: "kinv idle E k" and z: "g_zombies k = z # zs" and c: "cur_state k = Some THREAD_RUNNING"
  shows "\<exists>k'. reap (k\<lparr>g_zombies := zs\<rparr>) z = Some k' \<and> kinv idle E k' \<and> g_zombies k' = zs \<and>
    cur_state k' = Some THREAD_RUNNING"
proof -
  have "st k z = Some THREAD_ZOMBIE" and dz: "z \<notin> set zs"
    using sched_invD(2,4) [OF kinvD(1) [OF inv]] z by auto
  then obtain th where th: "threads k z = Some th" "state th = THREAD_ZOMBIE"
    using st_Some by blast
  have ok: "z \<noteq> g_bootstrap k" "image_base th = NULL" "sigstack_base (sig th) = NULL" "children th = []"
    using kinvD(3) [OF inv th(1)] th(2) by (simp_all add: thread_ok_def)
  have nn: "z \<noteq> NULL"
    by (rule kinv_nonnull [OF inv th(1)])
  let ?k = "k\<lparr>g_zombies := zs\<rparr>"
  from reap_mem [of ?k E z th] kinvD(5) [OF inv] th ok nn obtain h where
    run: "reap ?k z = Some (?k\<lparr>k_heap := h, threads := (threads k)(z := None)\<rparr>)"
    and mem: "mem_v h ((views k)(z := None)) (g_bootstrap k) E"
    by auto
  let ?k' = "?k\<lparr>k_heap := h, threads := (threads k)(z := None)\<rparr>"
  have V: "views ?k' = (views k)(z := None)" and S: "st ?k' = (st k)(z := None)"
    by (auto simp: views_def st_def fun_eq_iff)
  have N: "nodes (views ?k') = (nodes (views k))(z := None)"
    by (auto simp: V nodes_def fun_eq_iff)
  have "tree_n (nodes (views ?k')) zs (g_bootstrap k) (g_next_tid k)"
    unfolding N
    by (rule tree_remove [of _ _ _ _ _ "node_of (view th)"])
      (use kinvD(4) [OF inv] z th ok dz in \<open>simp_all add: nodes_def views_def node_of_def\<close>)
  moreover have "threads_v (views ?k') (g_bootstrap k)"
    using kinvD(7) [OF inv] unfolding V by (auto simp: threads_v_def)
  moreover have "idle_v idle (views ?k')"
    using kinvD(6) [OF inv] th unfolding V by (auto simp: idle_v_def views_def)
  moreover have "sched_inv ?k'"
  proof -
    note q = queues_okD [OF kinvD(1) [OF inv, unfolded sched_inv_def]]
    have "queues_ok ((st k)(z := None)) (g_runq k) zs (cur k)"
    proof (rule queues_okI)
      fix t
      show "((st k)(z := None)) t = Some THREAD_READY" if "t \<in> set (g_runq k)"
        using that q(4) [of t] th by (auto simp: st_def)
      show "t \<in> set (g_runq k)" if "((st k)(z := None)) t = Some THREAD_READY"
        using that q(4) [of t] by (auto split: if_splits)
      show "((st k)(z := None)) t = Some THREAD_ZOMBIE" if "t \<in> set zs"
        using that q(5) [of t] z dz by auto
      show "t = cur k" if "((st k)(z := None)) t = Some THREAD_RUNNING"
        using that q(6) [of t] by (auto split: if_splits)
    qed (use q(1,2) z c th in \<open>auto simp: st_def\<close>)
    then show ?thesis
      using S by (simp add: sched_inv_def)
  qed
  ultimately have "kinv idle E ?k'"
    using mem V by (simp add: kinv_def)
  moreover have "cur_state ?k' = Some THREAD_RUNNING"
    using c th S by (auto simp: st_def)
  ultimately show ?thesis
    using run by auto
qed

lemma kinv_kill_zombies:
  assumes "kinv idle E k" and "cur_state k = Some THREAD_RUNNING"
  shows "\<exists>k'. kill_zombies k = Some k' \<and> kinv idle E k' \<and> g_zombies k' = [] \<and> cur_state k' = Some THREAD_RUNNING"
  using assms
proof (induction "g_zombies k" arbitrary: k)
  case Nil
  have "kill_zombies k = Some k"
    by (subst kill_zombies.simps) (simp add: Nil(1) [symmetric])
  then show ?case
    using Nil by auto
next
  case (Cons z zs)
  obtain k1 where k1: "reap (k\<lparr>g_zombies := zs\<rparr>) z = Some k1" "kinv idle E k1" "g_zombies k1 = zs"
    "cur_state k1 = Some THREAD_RUNNING"
    using kinv_reap [OF Cons.prems(1) Cons.hyps(2) [symmetric] Cons.prems(2)] by blast
  have "kill_zombies k = kill_zombies k1"
    by (subst kill_zombies.simps) (simp add: Cons.hyps(2) [symmetric] k1(1))
  then show ?case
    using Cons.hyps(1) [OF k1(3) [symmetric] k1(2,4)] by simp
qed

end
