(* ===== verification/Process_Start.thy ===== *)
theory Process_Start
  imports Process_End
begin

text \<open>
  New threads and processes keep the invariant: \<^verbatim>\<open>thread_create\<close>, \<^verbatim>\<open>thread_spawn_user\<close>, \<^verbatim>\<open>sys_fork\<close> and
  \<^verbatim>\<open>sys_exec\<close>, on every path on which the heap runs out too.
\<close>

section \<open>New threads\<close>

lemma tree_add:
  assumes tree: "tree_n N z b n" and s: "N s = Some vs" and c: "N c = None" "c \<noteq> NULL" "c \<notin> set z"
    and w: "n_parent w = s" "n_children w = []" "n_tid w = n" "n_pid w = n" and n: "unat (n + 1) = unat n + 1"
  shows "tree_n (N(s \<mapsto> vs\<lparr>n_children := n_children vs @ [c]\<rparr>, c \<mapsto> w)) z b (n + 1)" (is "tree_n ?N _ _ _")
proof -
  have ne: "c \<noteq> s" "c \<noteq> b"
    using c(1) s tree by (auto simp: tree_n_def)
  have cs: "c \<notin> set (n_children v)" if "N t = Some v" for t v
    using tree_nD(9) [OF tree that] c(1) by fastforce
  have same: "\<exists>v'. ?N t = Some v' \<and> n_tid v' = n_tid v \<and> n_parent v' = n_parent v \<and>
      set (n_children v) \<subseteq> set (n_children v')" if "N t = Some v" for t v
    using that s ne c(1) by (cases "t = s") auto
  have kid: "\<exists>x. ?N d = Some x \<and> n_parent x = t \<and> unat (n_tid v) < unat (n_tid x)"
    if "N t = Some v" "d \<in> set (n_children v)" for t v d
    using same tree_nD(9) [OF tree that] by fastforce
  have up: "\<exists>p. ?N (n_parent v) = Some p \<and> t \<in> set (n_children p)" if "N t = Some v" "t \<noteq> b" "t \<notin> set z" for t v
    using same tree_nD(7) [OF tree that] by blast
  have root: "\<exists>x. ?N b = Some x \<and> unat (n_tid x) < unat (n_tid v)" if "N t = Some v" "t \<noteq> b" for t v
    using same tree_nD(6) [OF tree that] by fastforce
  show ?thesis
    unfolding tree_n_def
  proof (intro conjI allI impI)
    show "b \<in> dom ?N"
      using tree by (auto simp: tree_n_def)
    fix t v'
    assume "?N t = Some v'"
    then consider (new) "t = c" "v' = w" | (par) "t = s" "v' = vs\<lparr>n_children := n_children vs @ [c]\<rparr>" "t \<noteq> c"
      | (other) "t \<noteq> c" "t \<noteq> s" "N t = Some v'"
      by (auto split: if_splits)
    then show "node_ok ?N z b (n + 1) t v'"
    proof cases
      case new
      obtain vb where vb: "N b = Some vb"
        using tree by (auto simp: tree_n_def)
      show ?thesis
        unfolding new
      proof (rule node_okI)
        show "\<exists>x. ?N b = Some x \<and> unat (n_tid x) < unat (n_tid w)"
          using same [OF vb] tree_nD(3) [OF tree vb] w(3) by auto
        show "\<exists>p. ?N (n_parent w) = Some p \<and> c \<in> set (n_children p)"
          using w(1) ne by simp
      qed (use c w n ne in auto)
    next
      case par
      show ?thesis
        unfolding par(2)
      proof (rule node_okI)
        fix d
        assume "d \<in> set (n_children (vs\<lparr>n_children := n_children vs @ [c]\<rparr>))"
        then have d: "d = c \<or> d \<in> set (n_children vs)"
          by auto
        show "d \<notin> set z"
          using d tree_nD(8) [OF tree s] c by auto
        show "\<exists>x. ?N d = Some x \<and> n_parent x = t \<and>
            unat (n_tid (vs\<lparr>n_children := n_children vs @ [c]\<rparr>)) < unat (n_tid x)"
        proof (cases "d = c")
          case True
          with w tree_nD(3) [OF tree s] par(1) show ?thesis
            by simp
        next
          case False
          with kid [OF s] d par(1) show ?thesis
            by (simp del: fun_upd_apply)
        qed
      next
        assume "t \<noteq> b" "t \<notin> set z"
        then show "\<exists>p. ?N (n_parent (vs\<lparr>n_children := n_children vs @ [c]\<rparr>)) = Some p \<and> t \<in> set (n_children p)"
          using up [OF s] par(1) by (simp del: fun_upd_apply)
      qed (use tree_nD [OF tree s] root [OF s] par(1) cs [OF s] n in auto)
    next
      case other
      show ?thesis
      proof (rule node_okI)
        show "\<exists>p. ?N (n_parent v') = Some p \<and> t \<in> set (n_children p)" if "t \<noteq> b" "t \<notin> set z"
          using same tree_nD(7) [OF tree other(3) that] by blast
      qed (use tree_nD [OF tree other(3)] root [OF other(3)] kid [OF other(3)] n in auto)
    qed
  qed
qed

lemma kinv_add:
  assumes inv: "kinv idle E k" and s: "threads k s = Some sth" "state sth \<noteq> THREAD_ZOMBIE"
    and c: "threads k c = None" "c \<noteq> NULL"
    and V: "views k' = (views k)(s \<mapsto> (view sth)\<lparr>v_children := children sth @ [c]\<rparr>, c \<mapsto> v)"
    and v: "v_state v = THREAD_READY" "v_parent v = s" "v_children v = []" "v_tid v = g_next_tid k" "v_pid v = g_next_tid k"
      "thread_ok (g_bootstrap k) c v"
    and mem: "mem_v (k_heap k') (views k') (g_bootstrap k) E"
    and eq: "g_runq k' = g_runq k @ [c]" "g_zombies k' = g_zombies k" "cur k' = cur k" "g_bootstrap k' = g_bootstrap k"
      "g_next_tid k' = g_next_tid k + 1" and n: "unat (g_next_tid k) + 1 < 2 ^ 32"
  shows "kinv idle E k'"
proof -
  have ne: "c \<noteq> s"
    using c(1) s(1) by auto
  have nz: "c \<notin> set (g_zombies k)"
    using sched_invD(4) [OF kinvD(1) [OF inv], of c] c(1) by (auto simp: st_def)
  have N: "nodes (views k') = (nodes (views k))(s \<mapsto> (node_of (view sth))\<lparr>n_children := n_children (node_of (view sth)) @ [c]\<rparr>, c \<mapsto> node_of v)"
    by (auto simp: V nodes_def node_of_def fun_eq_iff)
  have "unat (g_next_tid k + 1) = unat (g_next_tid k) + 1"
    using n by (simp add: unat_word_ariths)
  then have "tree_n (nodes (views k')) (g_zombies k) (g_bootstrap k) (g_next_tid k + 1)"
    unfolding N
    by (intro tree_add [OF kinvD(4) [OF inv]]) (use s c v nz in \<open>simp_all add: nodes_def views_def node_of_def\<close>)
  moreover have "threads_v (views k') (g_bootstrap k)"
    using kinvD(7) [OF inv] kinvD(3) [OF inv s(1)] s(2) v(6) unfolding V threads_v_def by (auto simp: thread_ok_def)
  moreover have "idle_v idle (views k')"
    using kinvD(6) [OF inv] s(1) c(1) unfolding V by (auto simp: idle_v_def views_def)
  moreover have "sched_inv k'"
  proof -
    have "st k' = (st k)(c \<mapsto> THREAD_READY)"
      using s(1) v(1) ne by (auto simp: st_views V fun_eq_iff views_def)
    then show ?thesis
      using queues_ok_wake [OF kinvD(1) [OF inv, unfolded sched_inv_def], of c] c(1) by (simp add: sched_inv_def eq st_def)
  qed
  ultimately show ?thesis
    using mem by (simp add: kinv_def eq)
qed

section \<open>Memory for new threads\<close>

lemma heap_limit_eq: "heap_limit = 2 ^ 64 - 4096"
  by (simp add: heap_limit_def)

text \<open>A free slot of a thread is filled by an allocation; \<open>g p\<close> is the thread with \<open>p\<close> in the slot.\<close>

lemma mem_fill:
  assumes mem: "mem_v h V b E" and v: "V t = Some v" and s: "slot_ptr b t v s = NULL"
    and sz: "0 < unat sz" "unat sz \<le> heap_limit"
    and g: "\<And>p u. slot_ptr b t (g p) u = (if u = s then p else slot_ptr b t v u)"
      "\<And>p u. slot_need (g p) u \<le> (if u = s then unat sz else slot_need v u)"
  obtains (fail) h' where "kmalloc h sz = Some (h', NULL)" "mem_v h' V b E"
  | (fresh) h' p where "kmalloc h sz = Some (h', p)" "p \<noteq> NULL" "mem_v h' (V(t \<mapsto> g p)) b E"
proof -
  have own: "heap.owns h (ptrs V b) (needs V) E" "unat b \<in> off_limits (heap_buddy h)"
    using mem by (simp_all add: mem_v_def)
  have x: "ptrs V b (t, s) = NULL"
    using v s by (simp add: ptrs_def)
  show thesis
  proof (cases rule: heap_guarded.owns_alloc_guarded [OF own(1) sz(1) sz(2) [unfolded heap_limit_eq] x])
    case (1 h')
    with own(2) fail show ?thesis
      by (auto simp: mem_v_def)
  next
    case (2 h' p)
    have f: "(ptrs V b)((t, s) := p) = ptrs (V(t \<mapsto> g p)) b"
    proof
      fix x :: "u64 \<times> slot"
      obtain a u where x: "x = (a, u)" by (cases x)
      show "((ptrs V b)((t, s) := p)) x = ptrs (V(t \<mapsto> g p)) b x"
        using v by (auto simp: x ptrs_upd g(1) ptrs_def)
    qed
    have "heap.owns h' (ptrs (V(t \<mapsto> g p)) b) (needs (V(t \<mapsto> g p))) E"
    proof (rule heap.owns_need [OF 2(7) [OF order_refl, unfolded f]])
      fix x :: "u64 \<times> slot"
      obtain a u where x: "x = (a, u)" by (cases x)
      show "needs (V(t \<mapsto> g p)) x \<le> ((needs V)((t, s) := unat sz)) x"
        using v g(2) [of p u] by (auto simp: x needs_upd needs_def split: if_splits)
    qed
    with 2 own(2) fresh show ?thesis
      by (auto simp: mem_v_def)
  qed
qed

lemma mem_new:
  assumes mem: "mem_v h V b E" and sz: "800 \<le> unat sz" "unat sz \<le> heap_limit"
  obtains (fail) h' where "kmalloc h sz = Some (h', NULL)" "mem_v h' V b E"
  | (fresh) h' t where "kmalloc h sz = Some (h', t)" "t \<noteq> NULL" "t \<noteq> b" "V t = None"
      "heap.owns h' ((ptrs V b)((t, Struct) := t)) ((needs V)((t, Struct) := 800)) E"
      "off_limits (heap_buddy h') = off_limits (heap_buddy h)"
proof -
  have own: "heap.owns h (ptrs V b) (needs V) E" "unat b \<in> off_limits (heap_buddy h)"
    using mem by (simp_all add: mem_v_def)
  have sz': "0 < unat sz" "unat sz \<le> 2 ^ 64 - 4096"
    using sz by (simp_all add: heap_limit_def)
  have free: "ptrs V b (b, Temp) = NULL"
    by (simp add: ptrs_def split: option.splits)
  show thesis
  proof (cases rule: heap_guarded.owns_alloc_guarded [OF own(1) sz' free])
    case (1 h')
    with own(2) fail show ?thesis
      by (auto simp: mem_v_def)
  next
    case (2 h' t)
    have tb: "t \<noteq> b"
      using 2(5) own(2) by auto
    have V: "V t = None"
    proof (rule ccontr)
      assume "V t \<noteq> None"
      with tb have "ptrs V b (t, Struct) = t"
        by (auto simp: ptrs_def)
      with 2(3) show False
        by (metis rangeI)
    qed
    then have "ptrs V b (t, Struct) = NULL"
      by (simp add: ptrs_def)
    from heap_guarded.owns_alloc_guarded [OF own(1) sz' this]
    have "heap.owns h' ((ptrs V b)((t, Struct) := t)) ((needs V)((t, Struct) := 800)) E"
    proof cases
      case (1 s')
      with 2(1,2) show ?thesis by simp
    next
      case fr: (2 h'' p)
      have "h'' = h'" "p = t"
        using fr(1) 2(1) by simp_all
      with fr(7) [OF sz(1)] show ?thesis
        by simp
    qed
    with 2 tb V fresh show ?thesis
      by blast
  qed
qed

text \<open>The thread that \<^const>\<open>thread_alloc_bare\<close> makes.\<close>

definition new_thread :: "kernel \<Rightarrow> u64 \<Rightarrow> thread" where
  "new_thread k stk = \<lparr>ctx = zero_ctx, tid = g_next_tid k, pid = g_next_tid k, state = THREAD_READY,
     entry = 0, kstack_base = stk, kstack_size = KSTACK_SIZE, parent = cur k, children = [], exit_status = 0,
     image_base = NULL, image_size = 0, total_size = 0, sig = signal_state_init, kframe = zero_frame\<rparr>"

lemma sizes: "unat THREAD_SIZE = 800" "unat KSTACK_SIZE = 8192" "unat SIGSTACK_SIZE = 8192" "unat USER_STACK_SIZE = 16384"
  by (simp_all add: THREAD_SIZE_def KSTACK_SIZE_def SIGSTACK_SIZE_def USER_STACK_SIZE_def)

lemma thread_alloc_mem:
  assumes mem: "mem_v (k_heap k) (views k) (g_bootstrap k) E"
  obtains (fail) h where "thread_alloc_bare k = Some (k\<lparr>k_heap := h\<rparr>, NULL)" "mem_v h (views k) (g_bootstrap k) E"
  | (made) h t stk where "thread_alloc_bare k =
        Some (k\<lparr>k_heap := h, threads := (threads k)(t \<mapsto> new_thread k stk), g_next_tid := g_next_tid k + 1\<rparr>, t)"
      "t \<noteq> NULL" "t \<noteq> g_bootstrap k" "threads k t = None" "stk \<noteq> NULL"
      "mem_v h ((views k)(t \<mapsto> view (new_thread k stk))) (g_bootstrap k) E"
proof -
  let ?b = "g_bootstrap k"
  have lim: "800 \<le> unat THREAD_SIZE" "unat THREAD_SIZE \<le> heap_limit"
    by (simp_all add: sizes heap_limit_def)
  show thesis
  proof (cases rule: mem_new [OF mem lim])
    case (1 h)
    then show ?thesis
      using fail by (simp add: thread_alloc_bare_def k_kmalloc_def)
  next
    case new: (2 h1 t)
    let ?f = "(ptrs (views k) ?b)((t, Struct) := t)" and ?n = "(needs (views k))((t, Struct) := 800)"
    have th: "threads k t = None"
      using new(4) by (simp add: views_def)
    have x: "?f (t, Stack) = NULL" "0 < unat KSTACK_SIZE" "unat KSTACK_SIZE \<le> 2 ^ 64 - 4096"
      using new(4) by (simp_all add: ptrs_def sizes)
    have b: "unat ?b \<in> off_limits (heap_buddy h1)"
      using mem new(6) by (simp add: mem_v_def)
    show ?thesis
    proof (cases rule: heap_guarded.owns_alloc_guarded [OF new(5) x(2,3,1)])
      case (1 h2)
      have at: "?f (t, Struct) = t"
        by simp
      then have "?f (t, Struct) \<noteq> NULL"
        using new(2) by simp
      from heap_guarded.owns_free_guarded [OF 1(2) this] obtain h3 where
        h3: "kfree h2 t = Some h3" "heap.owns h3 (?f((t, Struct) := NULL)) ?n E"
          "off_limits (heap_buddy h3) = off_limits (heap_buddy h2)"
        unfolding at by blast
      have f: "?f((t, Struct) := NULL) = ptrs (views k) ?b"
        using new(4) by (auto simp: fun_eq_iff ptrs_def)
      have "heap.owns h3 (ptrs (views k) ?b) (needs (views k)) E"
        using h3(2) unfolding f by (rule heap.owns_need) (use new(4) in \<open>auto simp: needs_def ptrs_def\<close>)
      then have "mem_v h3 (views k) ?b E"
        using b h3(3) 1(3) by (simp add: mem_v_def)
      moreover have "thread_alloc_bare k = Some (k\<lparr>k_heap := h3\<rparr>, NULL)"
        using new(1,2) 1(1) h3(1) by (simp add: thread_alloc_bare_def k_kmalloc_def k_kfree_def)
      ultimately show ?thesis
        using fail by blast
    next
      case (2 h2 stk)
      let ?v = "view (new_thread k stk)"
      have eq: "?f((t, Stack) := stk) = ptrs ((views k)(t \<mapsto> ?v)) ?b"
      proof
        fix x :: "u64 \<times> slot"
        obtain a u where x: "x = (a, u)" by (cases x)
        show "(?f((t, Stack) := stk)) x = ptrs ((views k)(t \<mapsto> ?v)) ?b x"
          using new(3,4) by (cases u) (auto simp: x ptrs_upd ptrs_def new_thread_def signal_state_init_def)
      qed
      have "heap.owns h2 (ptrs ((views k)(t \<mapsto> ?v)) ?b) (needs ((views k)(t \<mapsto> ?v))) E"
      proof (rule heap.owns_need [OF 2(7) [OF order_refl, unfolded eq]])
        fix x :: "u64 \<times> slot"
        obtain a u where x: "x = (a, u)" by (cases x)
        show "needs ((views k)(t \<mapsto> ?v)) x \<le> (?n((t, Stack) := unat KSTACK_SIZE)) x"
          if "ptrs ((views k)(t \<mapsto> ?v)) ?b x \<noteq> NULL"
          using that by (cases u) (auto simp: x needs_upd ptrs_upd sizes new_thread_def signal_state_init_def)
      qed
      then have "mem_v h2 ((views k)(t \<mapsto> ?v)) ?b E"
        using b 2(6) by (simp add: mem_v_def)
      moreover have "thread_alloc_bare k =
          Some (k\<lparr>k_heap := h2, threads := (threads k)(t \<mapsto> new_thread k stk), g_next_tid := g_next_tid k + 1\<rparr>, t)"
        using new(1,2) 2(1,2) by (simp add: thread_alloc_bare_def k_kmalloc_def new_thread_def get_current_def Let_def)
      ultimately show ?thesis
        using made new(2,3) th 2(2) by blast
    qed
  qed
qed

text \<open>A thread \<open>c\<close> whose memory is in place becomes a ready child of the current thread.\<close>

lemma kinv_enter:
  assumes inv: "kinv idle E k" and self: "threads k (cur k) = Some self" "state self \<noteq> THREAD_ZOMBIE"
    and t: "threads k t = None" "t \<noteq> NULL" "t \<noteq> g_bootstrap k"
    and mem: "mem_v (k_heap k') ((views k)(t \<mapsto> v)) (g_bootstrap k) E"
    and thr: "\<And>a. threads k' a = (if a = t then Some c else if a = cur k
      then Some (self\<lparr>children := children self @ [t]\<rparr>) else threads k a)"
    and v: "v_kstack v = kstack_base c" "v_image v = image_base c" "v_total v = total_size c" "v_sigstack v = sigstack_base (sig c)"
    and c: "state c = THREAD_READY" "parent c = cur k" "children c = []" "tid c = g_next_tid k" "pid c = g_next_tid k"
      "sig_ok (sig c)" "sigstack_base (sig c) = NULL" "\<not> sig_in_handler (sig c)"
      "image_base c \<noteq> NULL \<Longrightarrow> 0 < unat (total_size c) \<and> unat (total_size c) \<le> heap_limit"
    and eq: "g_runq k' = g_runq k @ [t]" "g_zombies k' = g_zombies k" "cur k' = cur k" "g_bootstrap k' = g_bootstrap k"
      "g_next_tid k' = g_next_tid k + 1" and n: "unat (g_next_tid k) + 1 < 2 ^ 32"
  shows "kinv idle E k'"
proof (rule kinv_add [OF inv self t(1,2)])
  have ne: "t \<noteq> cur k"
    using t(1) self(1) by auto
  show V: "views k' = (views k)(cur k \<mapsto> (view self)\<lparr>v_children := children self @ [t]\<rparr>, t \<mapsto> view c)"
    by (auto simp: views_def view_def thr fun_eq_iff)
  show "thread_ok (g_bootstrap k) t (view c)"
    using c t(3) by (auto simp: thread_ok_def)
  let ?V = "(views k)(t \<mapsto> v, cur k \<mapsto> (view self)\<lparr>v_children := children self @ [t]\<rparr>)"
  have "((views k)(t \<mapsto> v)) (cur k) = Some (view self)"
    using ne self(1) by (simp add: views_def)
  from mem_same [OF mem this, of "(view self)\<lparr>v_children := children self @ [t]\<rparr>"]
  have "mem_v (k_heap k') ?V (g_bootstrap k) E"
    by (simp del: fun_upd_apply)
  then have "mem_v (k_heap k') (?V(t \<mapsto> view c)) (g_bootstrap k) E"
    by (rule mem_same [where v = v]) (use ne v in simp_all)
  moreover have "?V(t \<mapsto> view c) = views k'"
    using ne by (auto simp: V fun_eq_iff)
  ultimately show "mem_v (k_heap k') (views k') (g_bootstrap k) E"
    by simp
qed (use c eq n in simp_all)

text \<open>Two more ways of keeping the invariant: only the heap changes, or a number is used up.\<close>

lemma kinv_heap:
  assumes "kinv idle E k" and "mem_v h (views k) (g_bootstrap k) E"
  shows "kinv idle E (k\<lparr>k_heap := h\<rparr>)"
proof -
  have "st (k\<lparr>k_heap := h\<rparr>) = st k"
    by (rule ext) (simp add: st_def)
  with assms show ?thesis
    by (simp add: kinv_def sched_inv_def)
qed

lemma kinv_skip_tid:
  assumes inv: "kinv idle E k" and n: "unat (g_next_tid k) + 1 < 2 ^ 32"
  shows "kinv idle E (k\<lparr>g_next_tid := g_next_tid k + 1\<rparr>)"
proof -
  let ?k = "k\<lparr>g_next_tid := g_next_tid k + 1\<rparr>"
  have "st ?k = st k" "views ?k = views k"
    by (rule ext, simp add: st_def views_def)+
  moreover have "unat (g_next_tid k + 1) = unat (g_next_tid k) + 1"
    using n by (simp add: unat_word_ariths)
  then have "tree_n (nodes (views k)) (g_zombies k) (g_bootstrap k) (g_next_tid k + 1)"
    using kinvD(4) [OF inv] by (fastforce simp: tree_n_def node_ok_def)
  ultimately show ?thesis
    using inv by (simp add: kinv_def sched_inv_def)
qed

lemma kinv_thread_create:
  assumes inv: "kinv idle E k" and c: "cur_state k = Some THREAD_RUNNING" and n: "unat (g_next_tid k) + 1 < 2 ^ 32"
  shows "\<exists>k' t. thread_create k fn = Some (k', t) \<and> kinv idle E k' \<and> cur k' = cur k \<and> cur_state k' = Some THREAD_RUNNING \<and>
    (t = NULL \<or> idle_v t (views k')) \<and> g_runq k' = g_runq k @ (if t = NULL then [] else [t])"
proof -
  obtain self where self: "threads k (cur k) = Some self" "state self = THREAD_RUNNING"
    using c st_Some by blast
  have cn: "cur k \<noteq> NULL"
    by (rule kinv_nonnull [OF inv self(1)])
  show ?thesis
  proof (cases rule: thread_alloc_mem [OF kinvD(5) [OF inv]])
    case (1 h)
    then have "thread_create k fn = Some (k\<lparr>k_heap := h\<rparr>, NULL)"
      by (simp add: thread_create_def)
    then show ?thesis
      using kinv_heap [OF inv 1(2)] c by (auto simp: st_def)
  next
    case (2 h t stk)
    let ?c = "(new_thread k stk)\<lparr>entry := fn, ctx := zero_ctx\<lparr>ctx_ra := thread_entry_trampoline k,
                ctx_sp := (stk + KSTACK_SIZE) AND NOT 0xF\<rparr>\<rparr>"
    have ne: "t \<noteq> cur k"
      using 2(4) self(1) by auto
    define k' where "k' = k\<lparr>k_heap := h, threads := (threads k)(t \<mapsto> ?c, cur k \<mapsto> self\<lparr>children := children self @ [t]\<rparr>),
      g_next_tid := g_next_tid k + 1, g_runq := g_runq k @ [t]\<rparr>"
    have "thread_create k fn = Some (k', t)"
      using 2(1,2) self(1) ne cn
      by (simp add: thread_create_def upd_def link_child_def new_thread_def k'_def)
    moreover have "kinv idle E k'"
      by (rule kinv_enter [OF inv self(1) _ 2(4,2,3), where v = "view (new_thread k stk)" and c = ?c])
        (use 2(6) n self(2) ne in \<open>simp_all add: k'_def new_thread_def signal_state_init_def sig_ok_def NSIG_def\<close>)
    moreover have "idle_v t (views k')"
      using ne by (simp add: idle_v_def k'_def views_def new_thread_def)
    ultimately show ?thesis
      using ne self 2(2) by (auto simp: k'_def st_def)
  qed
qed

section \<open>Sizes of files\<close>

lemma hex_digit_less: "unat (hex_digit c) < 16"
proof -
  have sub: "unat (ucast c - numeral w :: u64) = unat c - numeral w" if "numeral w \<le> unat c" for w
  proof -
    have "(ucast c - numeral w :: u64) = of_nat (unat c - numeral w)"
      using that by (simp add: of_nat_diff)
    moreover have "unat c < 2 ^ 8"
      using unsigned_less [of c] by simp
    ultimately show ?thesis
      by (simp add: unat_of_nat)
  qed
  show ?thesis
    using sub [of "num.Bit0 (num.Bit0 (num.Bit0 (num.Bit0 (num.Bit1 num.One))))"]
      sub [of "num.Bit1 (num.Bit1 (num.Bit1 (num.Bit0 (num.Bit1 num.One))))"]
      sub [of "num.Bit1 (num.Bit1 (num.Bit1 (num.Bit0 (num.Bit1 (num.Bit0 num.One)))))"]
    by (auto simp: hex_digit_def word_le_nat_alt)
qed

lemma hex2int_loop_bound:
  assumes "(unat v + 1) * 16 ^ n \<le> 2 ^ 64"
  shows "unat (hex2int_loop n m a v) < (unat v + 1) * 16 ^ n"
  using assms
proof (induction n arbitrary: a v)
  case (Suc n)
  have d: "unat (hex_digit (m a)) < 16"
    by (rule hex_digit_less)
  have le: "(unat v + 1) * 16 \<le> (unat v + 1) * 16 ^ Suc n"
    by (rule mult_le_mono) simp_all
  then have lim: "(unat v + 1) * 16 \<le> 2 ^ 64"
    using Suc.prems by (rule order_trans)
  have eq: "unat (push_bit 4 v + hex_digit (m a)) = unat v * 16 + unat (hex_digit (m a))"
    using lim d by (simp add: push_bit_eq_mult unat_word_ariths)
  then have s: "(unat (push_bit 4 v + hex_digit (m a)) + 1) \<le> (unat v + 1) * 16"
    using d by simp
  then have "(unat (push_bit 4 v + hex_digit (m a)) + 1) * 16 ^ n \<le> (unat v + 1) * 16 * 16 ^ n"
    by (rule mult_right_mono) simp
  then have le2: "(unat (push_bit 4 v + hex_digit (m a)) + 1) * 16 ^ n \<le> (unat v + 1) * 16 ^ Suc n"
    by (simp only: power_Suc mult.assoc)
  then have "unat (hex2int_loop n m (a + 1) (push_bit 4 v + hex_digit (m a))) <
      (unat (push_bit 4 v + hex_digit (m a)) + 1) * 16 ^ n"
    using Suc.prems by (intro Suc.IH) simp
  then show ?case
    using le2 by simp
qed simp

lemma c_filesize_bound: "unat (c_filesize m p) < 2 ^ 32"
  using hex2int_loop_bound [of 0 8 m "p + 54"] by (simp add: c_filesize_def hex2int_def)

lemma cpio_find_bound:
  assumes "cpio_find m a tm target = Some (Some (src, sz))"
  shows "unat sz < 2 ^ 32"
proof -
  have "\<forall>src sz. r = Some (src, sz) \<longrightarrow> unat sz < 2 ^ 32" if "cpio_find_loop m a tm target = Some r" for r
    by (rule cpio_find_loop.raw_induct [OF _ that, where P = "\<lambda>m ptr tm target r. \<forall>src sz. r = Some (src, sz) \<longrightarrow> unat sz < 2 ^ 32"])
      (auto simp: bind_eq_Some_conv c_filesize_bound [simplified] split: if_splits)
  then show ?thesis
    using assms by (auto simp: cpio_find_def split: if_splits)
qed

section \<open>New processes\<close>

lemma image_mem:
  assumes mem: "mem_v h ((views k)(t \<mapsto> view (new_thread k stk))) b E" and sz: "0 < unat sz" "unat sz \<le> heap_limit"
  obtains (fail) h' where "kmalloc h sz = Some (h', NULL)" "mem_v h' ((views k)(t \<mapsto> view (new_thread k stk))) b E"
  | (fresh) h' p where "kmalloc h sz = Some (h', p)" "p \<noteq> NULL"
      "mem_v h' ((views k)(t \<mapsto> view ((new_thread k stk)\<lparr>image_base := p, total_size := sz\<rparr>))) b E"
proof -
  let ?v = "view (new_thread k stk)" and ?g = "\<lambda>p. view ((new_thread k stk)\<lparr>image_base := p, total_size := sz\<rparr>)"
  have g: "slot_ptr b t (?g p) u = (if u = Image then p else slot_ptr b t ?v u)"
    "slot_need (?g p) u \<le> (if u = Image then unat sz else slot_need ?v u)" for p u
    by (cases u; simp)+
  have at: "((views k)(t \<mapsto> ?v)) t = Some ?v" "slot_ptr b t ?v Image = NULL"
    by (simp_all add: new_thread_def)
  show thesis
    by (rule mem_fill [OF mem at sz g]) (use fail fresh in \<open>auto simp del: fun_upd_apply\<close>)
qed

text \<open>A thread that gets no image is taken apart again.\<close>

lemma kinv_abandon:
  assumes inv: "kinv idle E k" and n: "unat (g_next_tid k) + 1 < 2 ^ 32"
    and t: "threads k t = None" "t \<noteq> NULL" "t \<noteq> g_bootstrap k"
    and k2: "k2 = k\<lparr>k_heap := h, threads := (threads k)(t \<mapsto> c), g_next_tid := g_next_tid k + 1\<rparr>"
    and c: "kstack_base c \<noteq> NULL" "image_base c = NULL" "sigstack_base (sig c) = NULL"
    and mem: "mem_v h ((views k)(t \<mapsto> view c)) (g_bootstrap k) E"
  obtains h1 h2 where "kfree h (kstack_base c) = Some h1" "kfree h1 t = Some h2"
    "kinv idle E (k\<lparr>k_heap := h2, g_next_tid := g_next_tid k + 1\<rparr>)"
proof -
  have "views k2 = (views k)(t \<mapsto> view c)" "threads k2 t = Some c"
    by (auto simp: k2 views_def fun_eq_iff)
  then have "\<exists>h2. reap k2 t = Some (k2\<lparr>k_heap := h2, threads := (threads k2)(t := None)\<rparr>) \<and>
      mem_v h2 ((views k2)(t := None)) (g_bootstrap k2) E"
    by (intro reap_mem [where th = c]) (use mem t c in \<open>simp_all add: k2\<close>)
  then obtain h2 where run: "reap k2 t = Some (k2\<lparr>k_heap := h2, threads := (threads k2)(t := None)\<rparr>)"
    and mem2: "mem_v h2 ((views k2)(t := None)) (g_bootstrap k) E"
    by (auto simp: k2)
  have "map_option k_heap (reap k2 t) = Some h2"
    by (simp add: run)
  then obtain h1 where h1: "kfree h (kstack_base c) = Some h1" "kfree h1 t = Some h2"
    using t(3) c(1) \<open>threads k2 t = Some c\<close> by (auto simp: reap_def k2 k_kfree_def bind_eq_Some_conv)
  have "(views k2)(t := None) = views k"
    using \<open>views k2 = _\<close> t(1) by (auto simp: views_def fun_eq_iff)
  with mem2 have "kinv idle E (k\<lparr>k_heap := h2\<rparr>)"
    using kinv_heap [OF inv, of h2] by simp
  from kinv_skip_tid [OF this] n have "kinv idle E (k\<lparr>k_heap := h2, g_next_tid := g_next_tid k + 1\<rparr>)"
    by simp
  with h1 that show thesis
    by blast
qed

text \<open>The state after a successful \<^verbatim>\<open>sys_fork\<close>.\<close>

definition fork_made :: "kernel \<Rightarrow> thread \<Rightarrow> kernel \<Rightarrow> outcome \<Rightarrow> bool" where
  "fork_made k self k' out \<longleftrightarrow> (\<exists>t p stk. out = Returns (scast (g_next_tid k)) \<and> threads k t = None \<and> t \<noteq> NULL \<and> p \<noteq> NULL \<and>
     threads k' = (threads k)(t \<mapsto> fork_child k self t p (new_thread k stk), cur k \<mapsto> self\<lparr>children := children self @ [t]\<rparr>) \<and>
     k_mem k' = mem_cpy (k_mem k) p (image_base self) (total_size self) \<and> g_runq k' = g_runq k @ [t])"

lemma kinv_fork:
  assumes inv: "kinv idle E k" and c: "cur_state k = Some THREAD_RUNNING" and n: "unat (g_next_tid k) + 1 < 2 ^ 32"
    and th: "threads k (cur k) = Some self"
  shows "\<exists>k' out. sys_fork k = Some (k', out) \<and> kinv idle E k' \<and> cur k' = cur k \<and> cur_state k' = Some THREAD_RUNNING \<and>
    (out = Returns (-1) \<and> threads k' = threads k \<and> k_mem k' = k_mem k \<or> image_base self \<noteq> NULL \<and> fork_made k self k' out)"
proof -
  have self: "threads k (cur k) = Some self" "state self = THREAD_RUNNING"
    using c th by (auto simp: st_def)
  show ?thesis
  proof (cases "image_base self = NULL")
    case True
    then have "sys_fork k = Some (k, Returns (-1))"
      using self by (simp add: sys_fork_def get_current_def)
    then show ?thesis
      using inv c by blast
  next
    case False
    let ?sz = "total_size self"
    have ok: "sig_ok (sig self)" and sz: "0 < unat ?sz" "unat ?sz \<le> heap_limit"
      using kinvD(3) [OF inv self(1)] False by (auto simp: thread_ok_def)
    show ?thesis
    proof (cases rule: thread_alloc_mem [OF kinvD(5) [OF inv]])
      case (1 h)
      then have "sys_fork k = Some (k\<lparr>k_heap := h\<rparr>, Returns (-1))"
        using self False by (simp add: sys_fork_def get_current_def)
      then show ?thesis
        using kinv_heap [OF inv 1(2)] c by (auto simp: st_def)
    next
      case (2 h t stk)
      have ne: "t \<noteq> cur k"
        using 2(4) self(1) by auto
      show ?thesis
      proof (cases rule: image_mem [OF 2(6) sz])
        case fail: (1 h')
        let ?c = "new_thread k stk"
        obtain h1 h2 where fr: "kfree h' (kstack_base ?c) = Some h1" "kfree h1 t = Some h2"
          "kinv idle E (k\<lparr>k_heap := h2, g_next_tid := g_next_tid k + 1\<rparr>)"
          by (rule kinv_abandon [OF inv n 2(4,2,3) refl _ _ _ fail(2)])
            (use 2(5) in \<open>simp_all add: new_thread_def signal_state_init_def\<close>)
        have "(threads k)(t := None) = threads k"
          using 2(4) by auto
        then have "sys_fork k = Some (k\<lparr>k_heap := h2, g_next_tid := g_next_tid k + 1\<rparr>, Returns (-1))"
          using self False 2(1,2) fail(1) fr(1,2) by (simp add: sys_fork_def get_current_def k_kmalloc_def k_kfree_def)
        then show ?thesis
          using fr(3) c by (auto simp: st_def)
      next
        case fresh: (2 h' p)
        define k2 where "k2 = k\<lparr>k_heap := h', threads := (threads k)(t \<mapsto> new_thread k stk), g_next_tid := g_next_tid k + 1,
          k_mem := mem_cpy (k_mem k) p (image_base self) ?sz\<rparr>"
        define ch where "ch = fork_child k2 self t p (new_thread k stk)"
        define k' where "k' = k2\<lparr>threads := (threads k)(t \<mapsto> ch\<lparr>state := THREAD_READY\<rparr>, cur k \<mapsto> self\<lparr>children := children self @ [t]\<rparr>),
          g_runq := g_runq k @ [t]\<rparr>"
        have "sys_fork k = Some (k', Returns (scast (g_next_tid k)))"
          using self False 2(1,2) fresh(1,2) ne
          by (simp add: sys_fork_def get_current_def k_kmalloc_def upd_def thread_enqueue_ready_def k'_def k2_def ch_def
              new_thread_def fork_child_def fun_upd_twist)
        moreover have "kinv idle E k'"
          by (rule kinv_enter [OF inv self(1) _ 2(4,2,3), where c = "ch\<lparr>state := THREAD_READY\<rparr>" and
                v = "view ((new_thread k stk)\<lparr>image_base := p, total_size := ?sz\<rparr>)"])
            (use fresh(3) ok sz n self(2) ne in \<open>simp_all add: k'_def k2_def ch_def fork_child_def new_thread_def signal_state_init_def sig_ok_def\<close>)
        moreover have "fork_made k self k' (Returns (scast (g_next_tid k)))"
          unfolding fork_made_def using 2(2,4) fresh(2)
          by (intro exI [of _ t] exI [of _ p] exI [of _ stk])
            (simp add: k'_def k2_def ch_def fork_child_def new_thread_def)
        ultimately show ?thesis
          using ne self False by (auto simp: k'_def k2_def st_def)
      qed
    qed
  qed
qed

lemma user_size:
  assumes "unat sz < 2 ^ 32"
  shows "0 < unat (sz + USER_STACK_SIZE)" and "unat (sz + USER_STACK_SIZE) \<le> heap_limit"
  using assms by (simp_all add: unat_word_ariths sizes heap_limit_def)

lemma mem_total:
  assumes mem: "mem_v h V b E" and v: "V t = Some v" "v_image v = NULL"
    and v': "v_kstack v' = v_kstack v" "v_image v' = v_image v" "v_sigstack v' = v_sigstack v"
  shows "mem_v h (V(t \<mapsto> v')) b E"
proof -
  have "slot_ptr b t v' s = slot_ptr b t v s" for s
    using v' by (cases s) simp_all
  then have f: "ptrs (V(t \<mapsto> v')) b = ptrs V b"
    using v(1) by (auto simp: ptrs_upd ptrs_def fun_eq_iff)
  have "needs (V(t \<mapsto> v')) x \<le> needs V x" if "ptrs V b x \<noteq> NULL" for x
  proof -
    obtain a s where x: "x = (a, s)" by (cases x)
    show ?thesis
      using that v by (cases s) (auto simp: x needs_upd needs_def ptrs_def)
  qed
  then show ?thesis
    using mem f heap.owns_need [of h "ptrs V b" "needs V" E] by (simp add: mem_v_def del: fun_upd_apply)
qed

text \<open>The search of the ramdisk, as \<open>thread_spawn_user\<close> and \<open>sys_exec\<close> make it.\<close>

definition initrd_file :: "u64 \<Rightarrow> mem \<Rightarrow> mem \<Rightarrow> u64 \<Rightarrow> (u64 \<times> u64) option option" where
  "initrd_file initrd m tm path = (if initrd = NULL then Some None else cpio_find m initrd tm path)"

lemma initrd_file_bound: "initrd_file initrd m tm path = Some (Some (src, sz)) \<Longrightarrow> unat sz < 2 ^ 32"
  by (auto simp: initrd_file_def split: if_splits dest: cpio_find_bound)

lemma kinv_spawn:
  assumes inv: "kinv idle E k" and c: "cur_state k = Some THREAD_RUNNING" and n: "unat (g_next_tid k) + 1 < 2 ^ 32"
    and found: "initrd_file initrd (k_mem k) tm path \<noteq> None"
  shows "\<exists>k' t. thread_spawn_user k initrd tm path = Some (k', t) \<and> kinv idle E k' \<and> cur k' = cur k \<and>
    cur_state k' = Some THREAD_RUNNING"
proof -
  obtain self where self: "threads k (cur k) = Some self" "state self = THREAD_RUNNING"
    using c st_Some by blast
  have cn: "cur k \<noteq> NULL"
    by (rule kinv_nonnull [OF inv self(1)])
  obtain f where f: "(if initrd = NULL then Some None else cpio_find (k_mem k) initrd tm path) = Some f"
    using found by (auto simp: initrd_file_def)
  show ?thesis
  proof (cases f)
    case None
    then have "thread_spawn_user k initrd tm path = Some (k, NULL)"
      using f by (simp add: thread_spawn_user_def)
    then show ?thesis
      using inv c by blast
  next
    case (Some r)
    obtain src sz where r: "r = (src, sz)"
      by (cases r)
    let ?sz = "sz + USER_STACK_SIZE"
    have sz: "0 < unat ?sz" "unat ?sz \<le> heap_limit"
      using user_size initrd_file_bound [of initrd "k_mem k" tm path src sz] f Some r by (simp_all add: initrd_file_def)
    show ?thesis
    proof (cases rule: thread_alloc_mem [OF kinvD(5) [OF inv]])
      case (1 h)
      then have "thread_spawn_user k initrd tm path = Some (k\<lparr>k_heap := h\<rparr>, NULL)"
        using f Some r by (simp add: thread_spawn_user_def)
      then show ?thesis
        using kinv_heap [OF inv 1(2)] c by (auto simp: st_def)
    next
      case (2 h t stk)
      have ne: "t \<noteq> cur k"
        using 2(4) self(1) by auto
      show ?thesis
      proof (cases rule: image_mem [OF 2(6) sz])
        case fail: (1 h')
        let ?c = "(new_thread k stk)\<lparr>image_size := sz, total_size := ?sz, image_base := NULL\<rparr>"
        have "mem_v h' ((views k)(t \<mapsto> view ?c)) (g_bootstrap k) E"
          using mem_total [OF fail(2), of t "view (new_thread k stk)" "view ?c"] by (simp add: new_thread_def)
        then obtain h1 h2 where fr: "kfree h' (kstack_base ?c) = Some h1" "kfree h1 t = Some h2"
          "kinv idle E (k\<lparr>k_heap := h2, g_next_tid := g_next_tid k + 1\<rparr>)"
          by (rule kinv_abandon [OF inv n 2(4,2,3) refl, rotated 3])
            (use 2(5) in \<open>simp_all add: new_thread_def signal_state_init_def\<close>)
        have "(threads k)(t := None) = threads k"
          using 2(4) by auto
        then have "thread_spawn_user k initrd tm path = Some (k\<lparr>k_heap := h2, g_next_tid := g_next_tid k + 1\<rparr>, NULL)"
          using f Some r 2(1,2) fail(1) fr(1,2) by (simp add: thread_spawn_user_def k_kmalloc_def k_kfree_def upd_def new_thread_def)
        then show ?thesis
          using fr(3) c by (auto simp: st_def)
      next
        case fresh: (2 h' p)
        define ch where "ch = (new_thread k stk)\<lparr>image_size := sz, total_size := ?sz, image_base := p,
          kframe := zero_frame\<lparr>tf_sepc := p, tf_sp := (p + ?sz) AND NOT 0xF, tf_tp := t,
            tf_sstatus := (csr_sstatus k AND NOT (SSTATUS_SPP OR SSTATUS_SIE)) OR SSTATUS_SPIE\<rparr>,
          ctx := zero_ctx\<lparr>ctx_sp := ((stk + KSTACK_SIZE) AND NOT 0xF) - TF_SIZE, ctx_ra := user_thread_bootstrap k\<rparr>\<rparr>"
        define k' where "k' = k\<lparr>k_heap := h', threads := (threads k)(t \<mapsto> ch, cur k \<mapsto> self\<lparr>children := children self @ [t]\<rparr>),
          g_next_tid := g_next_tid k + 1, k_mem := mem_cpy (k_mem k) p src sz, g_user_base := p, g_runq := g_runq k @ [t]\<rparr>"
        have "thread_spawn_user k initrd tm path = Some (k', t)"
          using self f Some r 2(1,2) fresh(1,2) ne cn
          by (simp add: thread_spawn_user_def k_kmalloc_def upd_def plant_initial_frame_def link_child_def thread_enqueue_ready_def
              k'_def ch_def new_thread_def fun_upd_twist)
        moreover have "kinv idle E k'"
          by (rule kinv_enter [OF inv self(1) _ 2(4,2,3), where c = ch and
                v = "view ((new_thread k stk)\<lparr>image_base := p, total_size := ?sz\<rparr>)"])
            (use fresh(3) sz n self(2) ne in \<open>simp_all add: k'_def ch_def new_thread_def signal_state_init_def sig_ok_def NSIG_def\<close>)
        ultimately show ?thesis
          using ne self by (auto simp: k'_def st_def)
      qed
    qed
  qed
qed

section \<open>Replacing the image\<close>

lemma exec_mem:
  assumes mem: "mem_v h V b E" and v: "V t = Some v" "v_image v \<noteq> NULL" and sz: "0 < unat sz" "unat sz \<le> heap_limit"
  obtains (fail) h' where "kmalloc h sz = Some (h', NULL)" "mem_v h' V b E"
  | (fresh) h1 p h2 where "kmalloc h sz = Some (h1, p)" "p \<noteq> NULL" "kfree h1 (v_image v) = Some h2"
      "mem_v h2 (V(t \<mapsto> v\<lparr>v_image := p, v_total := sz\<rparr>)) b E"
proof -
  let ?f = "ptrs V b" and ?n = "needs V"
  have own: "heap.owns h ?f ?n E" "unat b \<in> off_limits (heap_buddy h)"
    using mem by (simp_all add: mem_v_def)
  have at: "?f (t, Temp) = NULL" "?f (t, Image) = v_image v"
    using v by (simp_all add: ptrs_def)
  show thesis
  proof (cases rule: heap_guarded.owns_alloc_guarded [OF own(1) sz(1) sz(2) [unfolded heap_limit_eq] at(1)])
    case (1 h')
    with own(2) fail show ?thesis
      by (auto simp: mem_v_def)
  next
    case (2 h1 p)
    let ?f1 = "?f((t, Temp) := p)" and ?n1 = "?n((t, Temp) := unat sz)"
    have im: "?f1 (t, Image) = v_image v" "?f1 (t, Image) \<noteq> NULL"
      using at v by simp_all
    from heap_guarded.owns_free_guarded [OF 2(7) [OF order_refl] im(2)] obtain h2 where
      h2: "kfree h1 (v_image v) = Some h2" "heap.owns h2 (?f1((t, Image) := NULL)) ?n1 E"
        "off_limits (heap_buddy h2) = off_limits (heap_buddy h1)"
      unfolding im(1) by blast
    let ?f2 = "?f1((t, Image) := NULL)" and ?v = "v\<lparr>v_image := p, v_total := sz\<rparr>"
    have tp: "?f2 (t, Temp) = p" "?f2 (t, Image) = NULL"
      by simp_all
    then have "?f2 (t, Temp) \<noteq> NULL"
      using 2(2) by simp
    from heap.owns_move [OF h2(2) tp(2) this]
    have own3: "heap.owns h2 (?f2((t, Temp) := NULL, (t, Image) := p)) (?n1((t, Image) := unat sz)) E"
      unfolding tp(1) fun_upd_same .
    have f: "?f2((t, Temp) := NULL, (t, Image) := p) = ptrs (V(t \<mapsto> ?v)) b"
    proof
      fix x :: "u64 \<times> slot"
      obtain a s where x: "x = (a, s)" by (cases x)
      show "(?f2((t, Temp) := NULL, (t, Image) := p)) x = ptrs (V(t \<mapsto> ?v)) b x"
        using v by (cases s) (auto simp: x ptrs_upd ptrs_def)
    qed
    have "heap.owns h2 (ptrs (V(t \<mapsto> ?v)) b) (needs (V(t \<mapsto> ?v))) E"
    proof (rule heap.owns_need [OF own3 [unfolded f]])
      fix x :: "u64 \<times> slot"
      obtain a s where x: "x = (a, s)" by (cases x)
      show "needs (V(t \<mapsto> ?v)) x \<le> (?n1((t, Image) := unat sz)) x"
        using v by (cases s) (auto simp: x needs_upd needs_def)
    qed
    then have "mem_v h2 (V(t \<mapsto> ?v)) b E"
      using own(2) 2(6) h2(3) by (simp add: mem_v_def)
    with 2 h2(1) fresh show ?thesis
      by blast
  qed
qed

lemma kinv_exec:
  assumes inv: "kinv idle E k" and c: "cur_state k = Some THREAD_RUNNING"
    and found: "initrd_file initrd (k_mem k) (k_mem k) path \<noteq> None"
  shows "\<exists>k' out. sys_exec initrd k path = Some (k', out) \<and> kinv idle E k' \<and> cur k' = cur k \<and>
    cur_state k' = Some THREAD_RUNNING"
proof -
  obtain self where self: "threads k (cur k) = Some self" "state self = THREAD_RUNNING"
    using c st_Some by blast
  have cn: "cur k \<noteq> NULL"
    by (rule kinv_nonnull [OF inv self(1)])
  obtain f where f: "(if initrd = NULL then Some None else cpio_find (k_mem k) initrd (k_mem k) path) = Some f"
    using found by (auto simp: initrd_file_def)
  show ?thesis
  proof (cases "image_base self = NULL \<or> f = None")
    case True
    then have "sys_exec initrd k path = Some (k, Returns (-1))"
      using f self by (auto simp: sys_exec_def get_current_def)
    then show ?thesis
      using inv c by blast
  next
    case False
    then obtain src sz where r: "f = Some (src, sz)" and im: "image_base self \<noteq> NULL"
      by auto
    let ?sz = "sz + USER_STACK_SIZE"
    have sz: "0 < unat ?sz" "unat ?sz \<le> heap_limit"
      using user_size initrd_file_bound [of initrd "k_mem k" "k_mem k" path src sz] f r by (simp_all add: initrd_file_def)
    have tb: "cur k \<noteq> g_bootstrap k" and ok: "thread_ok (g_bootstrap k) (cur k) (view self)"
      using kinvD(3) [OF inv self(1)] im by (simp_all add: thread_ok_def)
    have ni: "cur k \<noteq> idle"
      using kinvD(6) [OF inv] self im by (auto simp: idle_v_def views_def)
    have im': "v_image (view self) \<noteq> NULL"
      using im by simp
    show ?thesis
    proof (cases rule: exec_mem [OF kinvD(5) [OF inv] views_threads [OF self(1)] im' sz])
      case (1 h)
      then have "sys_exec initrd k path = Some (k\<lparr>k_heap := h\<rparr>, Returns (-1))"
        using f r im self by (simp add: sys_exec_def get_current_def k_kmalloc_def)
      then show ?thesis
        using kinv_heap [OF inv 1(2)] c by (auto simp: st_def)
    next
      case (2 h1 p h2)
      define th where "th = self\<lparr>image_base := p, image_size := sz, total_size := ?sz,
        sig := (sig self)\<lparr>sig_handlers := replicate NSIG SIG_DFL, sig_pending := 0\<rparr>\<rparr>"
      define k5 where "k5 = k\<lparr>k_mem := mem_cpy (k_mem k) p src sz, k_heap := h2, threads := (threads k)(cur k \<mapsto> th)\<rparr>"
      have "views k5 = (views k)(cur k \<mapsto> view th)"
        by (auto simp: k5_def views_def fun_eq_iff)
      moreover have "mem_v h2 ((views k)(cur k \<mapsto> (view self)\<lparr>v_image := p, v_total := ?sz\<rparr>, cur k \<mapsto> view th)) (g_bootstrap k) E"
        by (rule mem_same [OF 2(4), where v = "(view self)\<lparr>v_image := p, v_total := ?sz\<rparr>"]) (simp_all add: th_def)
      ultimately have mem5: "mem_v (k_heap k5) (views k5) (g_bootstrap k5) E"
        by (simp add: k5_def)
      define th' where "th' = th\<lparr>sig := (sig th)\<lparr>sigstack_base := NULL, sig_in_handler := False\<rparr>\<rparr>"
      from signal_release_mem [OF mem5, of "cur k" th] cn obtain h3 where
        rel: "signal_release k5 (cur k) = Some (k5\<lparr>k_heap := h3, threads := (threads k5)(cur k \<mapsto> th')\<rparr>)"
        and mem6: "mem_v h3 ((views k5)(cur k \<mapsto> view th')) (g_bootstrap k) E"
        by (auto simp: k5_def th'_def)
      let ?th = "th'\<lparr>kframe := exec_frame (kframe th') (cur k) p ?sz\<rparr>"
      define k' where "k' = k5\<lparr>k_heap := h3, threads := (threads k)(cur k \<mapsto> ?th), g_user_base := p\<rparr>"
      have "sys_exec initrd k path = do {
          k6 \<leftarrow> signal_release k5 (cur k);
          k7 \<leftarrow> upd k6 (cur k) (\<lambda>th. th\<lparr>kframe := exec_frame (kframe th) (cur k) p ?sz\<rparr>);
          Some (k7\<lparr>g_user_base := p\<rparr>, Returns 0)
        }"
        using f r im self 2(1,2,3) by (simp add: sys_exec_def get_current_def k_kmalloc_def k_kfree_def upd_def k5_def th_def)
      then have "sys_exec initrd k path = Some (k', Returns 0)"
        unfolding rel by (simp add: upd_def k'_def k5_def)
      moreover have "kinv idle E k'"
      proof (rule kinv_thread [OF inv views_threads [OF self(1)], of _ "view ?th"])
        show V: "views k' = (views k)(cur k \<mapsto> view ?th)"
          by (auto simp: k'_def k5_def views_def fun_eq_iff)
        have eq: "view ?th = view th'" "k_heap k' = h3"
          by (simp_all add: view_def k'_def)
        show "mem_v (k_heap k') (views k') (g_bootstrap k) E"
          using mem6 unfolding V eq \<open>views k5 = _\<close> by simp
        have "st k' = st k"
          using self by (auto simp: k'_def k5_def st_def th'_def th_def fun_eq_iff)
        then show "sched_inv k'"
          using kinvD(1) [OF inv] by (simp add: sched_inv_def k'_def k5_def)
        show "thread_ok (g_bootstrap k) (cur k) (view ?th)"
          using ok tb sz self(2) by (simp add: thread_ok_def th'_def th_def sig_ok_def NSIG_def)
      qed (use ni in \<open>simp_all add: k'_def k5_def th'_def th_def node_of_def\<close>)
      ultimately show ?thesis
        using self by (auto simp: k'_def k5_def st_def th'_def th_def)
    qed
  qed
qed

end
