(* ===== verification/Process_Signals.thy ===== *)
theory Process_Signals
  imports Process_Start
begin

text \<open>
  Signals keep the invariant: posting, dispatch to a handler on a stack of its own, the default action,
  \<^verbatim>\<open>sys_sigreturn\<close>, \<^verbatim>\<open>sys_stop\<close> and the end of kernel threads.
\<close>

section \<open>Signals\<close>

lemma lowest_bit_loop_eq:
  assumes "x \<noteq> 0"
  shows "\<exists>i. lowest_bit_loop x n = Some (n + i) \<and> bit x i \<and> (\<forall>j<i. \<not> bit x j)"
  using assms
proof (induction "unat x" arbitrary: x n rule: less_induct)
  case less
  show ?case
  proof (cases "x AND 1 = 0")
    case False
    then have "bit x 0"
      by (simp add: and_one_eq bit_0 odd_iff_mod_2_eq_one)
    then show ?thesis
      by (subst lowest_bit_loop.simps) (simp add: False)
  next
    case True
    then have even: "\<not> bit x 0"
      by (simp add: and_one_eq bit_0 odd_iff_mod_2_eq_one)
    have ne: "drop_bit 1 x \<noteq> 0"
    proof
      assume "drop_bit 1 x = 0"
      then have "\<not> bit x (Suc m)" for m
        using bit_drop_bit_eq [of 1 x] by (metis bit_0_eq comp_apply plus_1_eq_Suc bot_apply bot_bool_def)
      then have "\<not> bit x m" for m
        using even by (cases m) auto
      then show False
        using less.prems by (simp add: bit_eq_iff)
    qed
    have lt: "unat (drop_bit 1 x) < unat x"
      using less.prems unat_gt_0 [of x] by (simp add: drop_bit_eq_div unat_div)
    obtain i where i: "lowest_bit_loop (drop_bit 1 x) (n + 1) = Some (n + 1 + i)" "bit (drop_bit 1 x) i"
      "\<forall>j<i. \<not> bit (drop_bit 1 x) j"
      using less.hyps [OF lt ne] by blast
    have "lowest_bit_loop x n = Some (n + Suc i)"
      using i(1) by (subst lowest_bit_loop.simps) (simp add: True)
    moreover have "bit x (Suc i)" "\<forall>j<Suc i. \<not> bit x j"
      using i(2,3) even by (auto simp: bit_drop_bit_eq less_Suc_eq_0_disj)
    ultimately show ?thesis
      by blast
  qed
qed

lemma lowest_bit_index_eq:
  "x \<noteq> 0 \<Longrightarrow> \<exists>i. lowest_bit_index x = Some i \<and> bit x i \<and> (\<forall>j<i. \<not> bit x j)"
  using lowest_bit_loop_eq [of x 0] by (simp add: lowest_bit_index_def)

text \<open>Only the low \<^const>\<open>NSIG\<close> bits are ever set.\<close>

lemma low_bits: "unat (x :: u64) < 2 ^ NSIG \<longleftrightarrow> (\<forall>n\<ge>32. \<not> bit x n)"
proof
  assume "unat x < 2 ^ NSIG"
  then have "take_bit 32 x = x"
    by (simp add: NSIG_def word_unat_eq_iff unsigned_take_bit_eq take_bit_nat_eq_self_iff)
  then show "\<forall>n\<ge>32. \<not> bit x n"
    by (metis bit_take_bit_iff not_le)
next
  assume "\<forall>n\<ge>32. \<not> bit x n"
  then have "take_bit 32 x = x"
    by (intro bit_word_eqI) (auto simp: bit_take_bit_iff not_le [symmetric])
  then have "unat x = unat (take_bit 32 x)"
    by simp
  also have "\<dots> < 2 ^ NSIG"
    unfolding unsigned_take_bit_eq NSIG_def by (rule take_bit_nat_less_exp)
  finally show "unat x < 2 ^ NSIG" .
qed

lemma sig_ok_clear: "sig_ok s \<Longrightarrow> sig_ok (s\<lparr>sig_pending := sig_pending s AND NOT m\<rparr>)"
  by (auto simp: sig_ok_def low_bits bit_and_iff)

lemma sig_ok_post: "sig_ok s \<Longrightarrow> i < NSIG \<Longrightarrow> sig_ok (s\<lparr>sig_pending := sig_pending s OR push_bit i 1\<rparr>)"
proof -
  assume s: "sig_ok s" and "i < NSIG"
  then have "\<not> bit (push_bit i 1 :: u64) n" if "32 \<le> n" for n
    using that by (auto simp: bit_push_bit_iff bit_exp_iff NSIG_def)
  with s show ?thesis
    unfolding sig_ok_def low_bits by (simp add: bit_or_iff)
qed

lemma signum_range:
  assumes "\<not> (sint signum \<le> 0 \<or> int NSIG \<le> sint (signum :: i32))"
  shows "unat signum < NSIG"
proof -
  have "sint signum = uint signum - 2 ^ 32 * of_bool (bit (uint signum) 31)" "uint signum < 2 ^ 32"
    using uint_bounded [of signum] by (simp_all add: sint_uint signed_take_bit_eq_take_bit_minus take_bit_int_eq_self)
  with assms have "uint signum < int NSIG"
    by (auto simp: NSIG_def of_bool_def split: if_splits)
  then show ?thesis
    by (simp add: nat_less_iff flip: nat_uint_eq)
qed

lemma view_sig:
  assumes "sig_ok (sig th)" and "sig_ok s" and "sigstack_base s = sigstack_base (sig th)" and "sig_in_handler s = sig_in_handler (sig th)"
  shows "view (th\<lparr>sig := s\<rparr>) = view th"
  using assms by (simp add: view_def)

lemma kinv_sig_ok: "kinv idle E k \<Longrightarrow> threads k t = Some th \<Longrightarrow> sig_ok (sig th)"
  using kinvD(3) by (fastforce simp: thread_ok_def)

lemma kinv_current:
  assumes "kinv idle E k"
  obtains self where "threads k (cur k) = Some self"
  using queues_okD(3) [OF kinvD(1) [OF assms, unfolded sched_inv_def]] that by (auto simp: st_def)

lemma kinv_same:
  assumes "kinv idle E k" and "threads k t = Some th" and "view th' = view th"
  shows "kinv idle E (k\<lparr>threads := (threads k)(t \<mapsto> th')\<rparr>)"
  using kinv_upd [where f = "\<lambda>_. th'", OF assms] .

lemma kinv_signal_post:
  assumes inv: "kinv idle E k" and t: "t = NULL \<or> t \<in> dom (threads k)"
  shows "\<exists>k'. signal_post k t signum = Some k' \<and> kinv idle E k' \<and> cur k' = cur k \<and> st k' = st k"
proof (cases "t = NULL \<or> sint signum \<le> 0 \<or> int NSIG \<le> sint signum")
  case True
  then show ?thesis
    using inv by (simp add: signal_post_def)
next
  case False
  then obtain th where th: "threads k t = Some th"
    using t by auto
  let ?f = "\<lambda>th. th\<lparr>sig := (sig th)\<lparr>sig_pending := sig_pending (sig th) OR push_bit (unat signum) 1\<rparr>\<rparr>"
  have "view (?f th) = view th"
    by (rule view_sig [OF kinv_sig_ok [OF inv th] sig_ok_post [OF kinv_sig_ok [OF inv th] signum_range]]) (use False in simp_all)
  from kinv_same [OF inv th this] False th show ?thesis
    by (auto simp: signal_post_def upd_def st_def fun_eq_iff)
qed

lemma kinv_kill:
  assumes inv: "kinv idle E k"
  shows "\<exists>k' out. sys_kill k p signum = Some (k', out) \<and> kinv idle E k' \<and> cur k' = cur k \<and> st k' = st k"
proof (cases "sint signum \<le> 0 \<or> int NSIG \<le> sint signum")
  case True
  then show ?thesis
    using inv by (auto simp: sys_kill_def)
next
  case False
  obtain r where r: "find_thread_by_pid k p = Some r" "\<And>t. r = Some t \<Longrightarrow> \<exists>th. threads k t = Some th"
    using kinv_find [OF inv, of p] by blast
  show ?thesis
  proof (cases r)
    case None
    with r False inv show ?thesis
      by (auto simp: sys_kill_def)
  next
    case (Some t)
    then obtain th where th: "threads k t = Some th"
      using r by blast
    then have "t \<in> dom (threads k)"
      by auto
    with kinv_signal_post [OF inv, of t signum] obtain k' where "signal_post k t signum = Some k'" "kinv idle E k'" "cur k' = cur k"
      "st k' = st k"
      by blast
    with r Some th False inv show ?thesis
      by (cases "image_base th = NULL") (auto simp: sys_kill_def)
  qed
qed

lemma kinv_signal:
  assumes inv: "kinv idle E k"
  shows "\<exists>k' out. sys_signal k signum handler = Some (k', out) \<and> kinv idle E k' \<and> cur k' = cur k \<and> st k' = st k"
proof (cases "sint signum \<le> 0 \<or> int NSIG \<le> sint signum")
  case True
  then show ?thesis
    using inv by (auto simp: sys_signal_def)
next
  case False
  obtain self where self: "threads k (cur k) = Some self"
    by (rule kinv_current [OF inv])
  let ?f = "\<lambda>th. th\<lparr>sig := (sig th)\<lparr>sig_handlers := (sig_handlers (sig th))[unat signum := handler]\<rparr>\<rparr>"
  have "view (?f self) = view self"
    using kinv_sig_ok [OF inv self] by (intro view_sig) (simp_all add: sig_ok_def)
  from kinv_same [OF inv self this] False self show ?thesis
    by (auto simp: sys_signal_def upd_def get_current_def st_def fun_eq_iff)
qed

text \<open>The signal stack of the current thread goes.\<close>

lemma kinv_release:
  assumes inv: "kinv idle E k" and th: "threads k t = Some th"
  shows "\<exists>h. signal_release k t = Some (k\<lparr>k_heap := h,
      threads := (threads k)(t \<mapsto> th\<lparr>sig := (sig th)\<lparr>sigstack_base := NULL, sig_in_handler := False\<rparr>\<rparr>)\<rparr>) \<and>
    kinv idle E (k\<lparr>k_heap := h, threads := (threads k)(t \<mapsto> th\<lparr>sig := (sig th)\<lparr>sigstack_base := NULL, sig_in_handler := False\<rparr>\<rparr>)\<rparr>)"
proof -
  let ?th = "th\<lparr>sig := (sig th)\<lparr>sigstack_base := NULL, sig_in_handler := False\<rparr>\<rparr>"
  obtain h where h: "signal_release k t = Some (k\<lparr>k_heap := h, threads := (threads k)(t \<mapsto> ?th)\<rparr>)"
    "mem_v h ((views k)(t \<mapsto> view ?th)) (g_bootstrap k) E"
    using signal_release_mem [OF kinvD(5) [OF inv] th kinv_nonnull [OF inv th]] by blast
  let ?k = "k\<lparr>k_heap := h, threads := (threads k)(t \<mapsto> ?th)\<rparr>"
  have "kinv idle E ?k"
  proof (rule kinv_thread [OF inv views_threads [OF th], of _ "view ?th"])
    show V: "views ?k = (views k)(t \<mapsto> view ?th)"
      by (auto simp: views_def fun_eq_iff)
    show "mem_v (k_heap ?k) (views ?k) (g_bootstrap k) E"
      using h(2) unfolding V by simp
    have "st ?k = st k"
      using th by (auto simp: st_def fun_eq_iff)
    then show "sched_inv ?k"
      using kinvD(1) [OF inv] by (simp add: sched_inv_def)
    show "thread_ok (g_bootstrap k) t (view ?th)"
      using kinvD(3) [OF inv th] by (auto simp: thread_ok_def sig_ok_def)
    show "v_state (view ?th) \<in> {THREAD_READY, THREAD_RUNNING} \<and> v_image (view ?th) = NULL" if "t = idle"
      using kinvD(6) [OF inv] th that by (auto simp: idle_v_def views_def)
  qed (simp_all add: node_of_def)
  with h(1) show ?thesis
    by blast
qed

lemma kinv_sigreturn:
  assumes inv: "kinv idle E k"
  shows "\<exists>k' out. sys_sigreturn k = Some (k', out) \<and> kinv idle E k' \<and> cur k' = cur k \<and> st k' = st k"
proof -
  obtain self where self: "threads k (cur k) = Some self"
    by (rule kinv_current [OF inv])
  show ?thesis
  proof (cases "sig_in_handler (sig self)")
    case False
    then show ?thesis
      using self inv by (simp add: sys_sigreturn_def signal_return_def)
  next
    case True
    let ?th = "self\<lparr>kframe := sig_saved (sig self)\<rparr>"
    let ?k = "k\<lparr>threads := (threads k)(cur k \<mapsto> ?th)\<rparr>"
    have "kinv idle E ?k"
      by (rule kinv_upd [OF inv self]) (simp add: view_def)
    from kinv_release [OF this, of "cur k" ?th] obtain h where
      "signal_release ?k (cur k) = Some (?k\<lparr>k_heap := h, threads := (threads k)(cur k \<mapsto> ?th\<lparr>sig := (sig self)\<lparr>sigstack_base := NULL, sig_in_handler := False\<rparr>\<rparr>)\<rparr>)"
      "kinv idle E (?k\<lparr>k_heap := h, threads := (threads k)(cur k \<mapsto> ?th\<lparr>sig := (sig self)\<lparr>sigstack_base := NULL, sig_in_handler := False\<rparr>\<rparr>)\<rparr>)"
      by auto
    with self True show ?thesis
      by (auto simp: sys_sigreturn_def signal_return_def upd_def st_def fun_eq_iff)
  qed
qed

section \<open>Delivery\<close>

text \<open>The start of a handler: the thread gets a signal stack, or ends for want of one.\<close>

definition start_handler :: "kernel \<Rightarrow> u64 \<Rightarrow> u64 \<Rightarrow> nat \<Rightarrow> kernel option" where
  "start_handler k t h signum = do {
     (k3, stk) \<leftarrow> k_kmalloc k SIGSTACK_SIZE;
     if stk = NULL then signal_default_terminate k3 t
     else do {
       k4 \<leftarrow> upd k3 t (\<lambda>th. th\<lparr>sig := (sig th)\<lparr>sigstack_base := stk, sig_in_handler := True\<rparr>\<rparr>);
       let k5 = k4\<lparr>k_mem := plant_sigreturn_trampoline (k_mem k4) stk\<rparr>;
       upd k5 t (\<lambda>th. th\<lparr>kframe := handler_frame (kframe th) h stk signum\<rparr>)
     }
   }"

lemma user_thread:
  assumes inv: "kinv idle E k" and th: "threads k t = Some th" "image_base th \<noteq> NULL"
  shows "t \<noteq> g_bootstrap k" and "t \<noteq> idle" and "state th \<noteq> THREAD_ZOMBIE"
  using kinvD(3) [OF inv th(1)] th kinvD(6) [OF inv] by (auto simp: thread_ok_def idle_v_def views_def)

lemma kinv_start_handler:
  assumes inv: "kinv idle E k" and self: "threads k (cur k) = Some self" "state self = THREAD_RUNNING"
    "children self = [] \<or> (\<exists>h' p. kmalloc (k_heap k) SIGSTACK_SIZE = Some (h', p) \<and> p \<noteq> NULL)"
    "image_base self \<noteq> NULL" "\<not> sig_in_handler (sig self)"
  shows "\<exists>k'. start_handler k (cur k) h signum = Some k' \<and> kinv idle E k' \<and> cur k' = cur k \<and>
    cur_state k' \<in> {Some THREAD_RUNNING, Some THREAD_ZOMBIE}"
proof -
  note u = user_thread [OF inv self(1,4)]
  have ok: "thread_ok (g_bootstrap k) (cur k) (view self)"
    by (rule kinvD(3) [OF inv self(1)])
  then have none: "sigstack_base (sig self) = NULL"
    using self(5) by (simp add: thread_ok_def)
  let ?g = "\<lambda>p. view (self\<lparr>sig := (sig self)\<lparr>sigstack_base := p, sig_in_handler := True\<rparr>\<rparr>)"
  have g: "slot_ptr (g_bootstrap k) (cur k) (?g p) s = (if s = Sigstack then p else slot_ptr (g_bootstrap k) (cur k) (view self) s)"
    "slot_need (?g p) s \<le> (if s = Sigstack then unat SIGSTACK_SIZE else slot_need (view self) s)" for p s
    by (cases s; simp add: sizes)+
  have x: "slot_ptr (g_bootstrap k) (cur k) (view self) Sigstack = NULL" "0 < unat SIGSTACK_SIZE" "unat SIGSTACK_SIZE \<le> heap_limit"
    using none by (simp_all add: sizes heap_limit_def)
  show ?thesis
  proof (cases rule: mem_fill [OF kinvD(5) [OF inv] views_threads [OF self(1)] x g])
    case (1 h')
    let ?k = "k\<lparr>k_heap := h'\<rparr>"
    have inv': "kinv idle E ?k"
      by (rule kinv_heap [OF inv 1(2)])
    have "threads ?k (cur k) = Some self" "cur_state ?k \<noteq> Some THREAD_BLOCKED" "cur k \<noteq> g_bootstrap ?k" "children self = []"
      using self u 1(1) by (simp_all add: st_def)
    from kinv_terminate [OF inv' this(1) u(3) this(4,3) u(2) this(2)] obtain k' where
      "signal_default_terminate ?k (cur k) = Some k'" "kinv idle E k'" "cur k' = cur k" "cur_state k' = Some THREAD_ZOMBIE"
      by auto
    with 1 show ?thesis
      by (simp add: start_handler_def k_kmalloc_def)
  next
    case (2 h' p)
    let ?th = "self\<lparr>sig := (sig self)\<lparr>sigstack_base := p, sig_in_handler := True\<rparr>, kframe := handler_frame (kframe self) h p signum\<rparr>"
    let ?k = "k\<lparr>k_heap := h', threads := (threads k)(cur k \<mapsto> ?th), k_mem := plant_sigreturn_trampoline (k_mem k) p\<rparr>"
    have "start_handler k (cur k) h signum = Some ?k"
      using 2(1,2) self(1) by (simp add: start_handler_def k_kmalloc_def upd_def)
    moreover have "kinv idle E ?k"
    proof (rule kinv_thread [OF inv views_threads [OF self(1)], of _ "view ?th"])
      show V: "views ?k = (views k)(cur k \<mapsto> view ?th)"
        by (auto simp: views_def fun_eq_iff)
      have eq: "view ?th = ?g p"
        by (simp add: view_def)
      show "mem_v (k_heap ?k) (views ?k) (g_bootstrap k) E"
        using 2(3) unfolding V eq by simp
      have "st ?k = st k"
        using self by (auto simp: st_def fun_eq_iff)
      then show "sched_inv ?k"
        using kinvD(1) [OF inv] by (simp add: sched_inv_def)
      show "thread_ok (g_bootstrap k) (cur k) (view ?th)"
        using ok 2(2) self(2) by (auto simp: thread_ok_def sig_ok_def)
    qed (use u in \<open>simp_all add: node_of_def\<close>)
    ultimately show ?thesis
      using self by (simp add: st_def)
  qed
qed

text \<open>The running process gets a signal that ends it: its lowest pending signal has the default action, or a handler
  and no memory for its stack.\<close>

definition ends_by_signal :: "kernel \<Rightarrow> thread \<Rightarrow> bool" where
  "ends_by_signal k self \<longleftrightarrow> image_base self \<noteq> NULL \<and> \<not> sig_in_handler (sig self) \<and> sig_pending (sig self) \<noteq> 0 \<and>
     (case lowest_bit_index (sig_pending (sig self)) of
        None \<Rightarrow> True
      | Some i \<Rightarrow> sig_handlers (sig self) ! i \<noteq> SIG_IGN \<and>
          (sig_handlers (sig self) ! i = SIG_DFL \<or>
           (case kmalloc (k_heap k) SIGSTACK_SIZE of None \<Rightarrow> True | Some (h', stk) \<Rightarrow> stk = NULL)))"

lemma kinv_dispatch:
  assumes inv: "kinv idle E k" and self: "threads k (cur k) = Some self" "state self = THREAD_RUNNING"
    and lasts: "children self = [] \<or> \<not> ends_by_signal k self"
  shows "\<exists>k'. signal_check_and_dispatch k = Some k' \<and> kinv idle E k' \<and> cur k' = cur k \<and>
    cur_state k' \<in> {Some THREAD_RUNNING, Some THREAD_ZOMBIE}"
proof (cases "image_base self = NULL \<or> sig_in_handler (sig self) \<or> sig_pending (sig self) = 0")
  case True
  then have "signal_check_and_dispatch k = Some k"
    using self by (simp add: signal_check_and_dispatch_def)
  then show ?thesis
    using inv self by (simp add: st_def)
next
  case False
  note u = user_thread [OF inv self(1)]
  have ok: "sig_ok (sig self)"
    by (rule kinv_sig_ok [OF inv self(1)])
  obtain i where i: "lowest_bit_index (sig_pending (sig self)) = Some i" "bit (sig_pending (sig self)) i"
    using lowest_bit_index_eq False by blast
  have i32: "i < length (sig_handlers (sig self))"
    using ok i(2) by (metis NSIG_def low_bits not_le sig_ok_def)
  let ?h = "sig_handlers (sig self) ! i"
  define s1 where "s1 = (sig self)\<lparr>sig_pending := sig_pending (sig self) AND NOT (push_bit i 1)\<rparr>"
  define k1 where "k1 = k\<lparr>threads := (threads k)(cur k \<mapsto> self\<lparr>sig := s1\<rparr>)\<rparr>"
  have ok1: "sig_ok s1"
    unfolding s1_def by (rule sig_ok_clear [OF ok])
  have inv1: "kinv idle E k1"
    unfolding k1_def by (rule kinv_same [OF inv self(1)], rule view_sig [OF ok ok1]) (simp_all add: s1_def)
  have k1: "threads k1 (cur k) = Some (self\<lparr>sig := s1\<rparr>)" "cur k1 = cur k" "g_bootstrap k1 = g_bootstrap k" "g_next_tid k1 = g_next_tid k"
    by (simp_all add: k1_def)
  let ?k2 = "k1\<lparr>threads := (threads k1)(cur k \<mapsto> self\<lparr>sig := s1\<lparr>sig_saved := kframe self\<rparr>\<rparr>)\<rparr>"
  have inv2: "kinv idle E ?k2"
    by (rule kinv_same [OF inv1 k1(1)]) (use ok1 in \<open>simp add: view_def sig_ok_def\<close>)
  have eq: "signal_check_and_dispatch k = (if ?h = SIG_IGN then Some k1
      else if ?h = SIG_DFL then signal_default_terminate k1 (cur k) else start_handler ?k2 (cur k) ?h i)"
    using False self i(1) i32 k1(2) kinv_nonnull [OF inv self(1)]
    by (simp add: signal_check_and_dispatch_def get_current_def upd_Some k1_def s1_def start_handler_def)
  have st1: "cur_state k1 = Some THREAD_RUNNING"
    using self k1 by (simp add: st_def)
  have lasts': "children self = [] \<or> ?h = SIG_IGN \<or> ?h \<noteq> SIG_DFL \<and>
      (\<exists>h' p. kmalloc (k_heap k) SIGSTACK_SIZE = Some (h', p) \<and> p \<noteq> NULL)"
    using lasts False i(1) by (auto simp: ends_by_signal_def split: option.splits)
  consider "?h = SIG_IGN" | "?h \<noteq> SIG_IGN" "?h = SIG_DFL" | "?h \<noteq> SIG_IGN" "?h \<noteq> SIG_DFL"
    by blast
  then show ?thesis
  proof cases
    case 1
    then show ?thesis
      using eq inv1 k1 st1 by simp
  next
    case 2
    have "state (self\<lparr>sig := s1\<rparr>) \<noteq> THREAD_ZOMBIE" "children (self\<lparr>sig := s1\<rparr>) = []" "cur k \<noteq> g_bootstrap k1" "cur k \<noteq> idle"
      "cur_state k1 \<noteq> Some THREAD_BLOCKED"
      using self u False k1 st1 2 lasts' by auto
    from kinv_terminate [OF inv1 k1(1) this] show ?thesis
      using 2 eq k1(2,4) by auto
  next
    case 3
    have "\<exists>k'. start_handler ?k2 (cur ?k2) ?h i = Some k' \<and> kinv idle E k' \<and> cur k' = cur ?k2 \<and>
      cur_state k' \<in> {Some THREAD_RUNNING, Some THREAD_ZOMBIE}"
      by (rule kinv_start_handler [OF inv2, where self = "self\<lparr>sig := s1\<lparr>sig_saved := kframe self\<rparr>\<rparr>"])
        (use False self k1 3 lasts' in \<open>auto simp: s1_def k1_def\<close>)
    then show ?thesis
      using 3 eq k1 by simp
  qed
qed

lemma kinv_deliver:
  assumes inv: "kinv idle E k" and self: "threads k (cur k) = Some self" "state self = THREAD_RUNNING"
    and lasts: "children self = [] \<or> \<not> ends_by_signal k self"
  shows "\<exists>k'. deliver_pending_signal k = Some k' \<and> kinv idle E k' \<and> cur_state k' = Some THREAD_RUNNING"
proof -
  have nn: "cur k \<noteq> NULL"
    by (rule kinv_nonnull [OF inv self(1)])
  consider (some) "image_base self \<noteq> NULL" | (kernel) "image_base self = NULL"
    by blast
  then show ?thesis
  proof cases
    case kernel
    then have "deliver_pending_signal k = Some k"
      using self by (simp add: deliver_pending_signal_def)
    then show ?thesis
      using inv self by (simp add: st_def)
  next
    case some
    obtain k1 where k1: "signal_check_and_dispatch k = Some k1" "kinv idle E k1" "cur k1 = cur k"
      "cur_state k1 \<in> {Some THREAD_RUNNING, Some THREAD_ZOMBIE}"
      using kinv_dispatch [OF inv self lasts] by blast
    obtain self' where self': "threads k1 (cur k) = Some self'"
      using kinv_current [OF k1(2)] k1(3) by metis
    have eq: "deliver_pending_signal k = (if state self' = THREAD_ZOMBIE then schedule k1 else Some k1)"
      using self(1) some nn k1(1) self' by (simp add: deliver_pending_signal_def get_current_def)
    show ?thesis
    proof (cases "state self' = THREAD_ZOMBIE")
      case True
      then have "cur_state k1 \<noteq> Some THREAD_READY"
        using self' k1(3) by (simp add: st_def)
      from kinv_schedule [OF k1(2) this] True eq show ?thesis
        by auto
    next
      case False
      then show ?thesis
        using eq k1 self' by (auto simp: st_def)
    qed
  qed
qed

lemma kinv_stop:
  assumes inv: "kinv idle E k" and c: "threads k (cur k) = Some self" "state self = THREAD_RUNNING" "image_base self \<noteq> NULL"
    and leaf: "\<And>t th. find_thread_by_pid k (ucast p) = Some (Some t) \<Longrightarrow> threads k t = Some th \<Longrightarrow> t \<noteq> cur k \<Longrightarrow> children th = []"
  shows "\<exists>k' out. sys_stop k p = Some (k', out) \<and> kinv idle E k' \<and> cur_state k' = Some THREAD_RUNNING"
proof (cases "ucast p = pid self")
  case True
  then have "sys_stop k p = sys_exit k (-1)"
    using c by (simp add: sys_stop_def get_current_def)
  moreover have "cur_state k = Some THREAD_RUNNING"
    using c by (simp add: st_def)
  ultimately show ?thesis
    using kinv_exit [OF inv _ user_thread(1,2) [OF inv c(1,3)] c(1), of "-1"] by auto
next
  case False
  obtain r where r: "find_thread_by_pid k (ucast p) = Some r" "\<And>t. r = Some t \<Longrightarrow> \<exists>th. threads k t = Some th \<and> pid th = ucast p"
    using kinv_find [OF inv, of "ucast p"] by blast
  have run: "cur_state k = Some THREAD_RUNNING"
    using c by (simp add: st_def)
  show ?thesis
  proof (cases r)
    case None
    then have "sys_stop k p = Some (k, Returns (-1))"
      using c False r by (simp add: sys_stop_def get_current_def)
    then show ?thesis
      using inv run by blast
  next
    case (Some t)
    then obtain th where th: "threads k t = Some th" "pid th = ucast p"
      using r by blast
    then have ne: "t \<noteq> cur k"
      using c False by auto
    show ?thesis
    proof (cases "image_base th = NULL")
      case True
      then have "sys_stop k p = Some (k, Returns (-1))"
        using c False r Some th by (simp add: sys_stop_def get_current_def)
      then show ?thesis
        using inv run by blast
    next
      case im: False
      note u = user_thread [OF inv th(1) im]
      have "cur_state k \<noteq> Some THREAD_BLOCKED"
        using run by simp
      from kinv_terminate [OF inv th(1) u(3) leaf [OF r(1) [unfolded Some] th(1) ne] u(1,2) this] obtain k' where
        "signal_default_terminate k t = Some k'" "kinv idle E k'" "cur k' = cur k" "cur_state k' = cur_state k"
        using ne by auto
      then have "sys_stop k p = Some (k', Returns 0)" "kinv idle E k'" "cur_state k' = Some THREAD_RUNNING"
        using c False r Some th im run by (simp_all add: sys_stop_def get_current_def)
      then show ?thesis
        by blast
    qed
  qed
qed

text \<open>The end of a kernel thread.\<close>

lemma kinv_thread_exit:
  assumes inv: "kinv idle E k" and c: "threads k (cur k) = Some self" "state self = THREAD_RUNNING"
    and leaf: "children self = []" "image_base self = NULL" "sigstack_base (sig self) = NULL" "cur k \<noteq> idle" "cur k \<noteq> g_bootstrap k"
  shows "\<exists>k'. thread_exit k = Some k' \<and> kinv idle E k' \<and> cur_state k' = Some THREAD_RUNNING"
proof -
  let ?th = "self\<lparr>state := THREAD_ZOMBIE\<rparr>"
  let ?k = "k\<lparr>threads := (threads k)(cur k \<mapsto> ?th)\<rparr>"
  have inv1: "kinv idle E ?k"
  proof (rule kinv_thread [OF inv views_threads [OF c(1)], of _ "view ?th"])
    show "sched_inv ?k"
      by (rule set_cur_state_inv [OF kinvD(1) [OF inv] c]) simp
    show "mem_v (k_heap ?k) (views ?k) (g_bootstrap k) E"
      unfolding views_upd using mem_same [OF kinvD(5) [OF inv] views_threads [OF c(1)], of "view ?th"] by simp
    show "thread_ok (g_bootstrap k) (cur k) (view ?th)"
      using kinvD(3) [OF inv c(1)] leaf by (simp add: thread_ok_def)
  qed (use leaf in \<open>simp_all add: node_of_def\<close>)
  obtain p where p: "threads k (parent self) = Some p" "cur k \<in> set (children p)"
    using kinv_parent [OF inv c(1) kinv_not_queued [OF inv c(1)] leaf(5)] c(2) by auto
  have pn: "parent self \<noteq> NULL" "parent self \<noteq> cur k"
    using kinv_nonnull [OF inv p(1)] p c(1) leaf(1) by auto
  let ?z = "sched_zombify (del_sibling (cur k) ?k) (cur k)"
  have inv2: "kinv idle E ?z"
    by (rule kinv_collect [OF inv1, of "parent self" p]) (use p pn in auto)
  have "cur_state ?z \<noteq> Some THREAD_READY"
    by (simp add: st_def sched_zombify_def del_sibling_def)
  from kinv_schedule [OF inv2 this] show ?thesis
    using c(1) pn(1) by (auto simp: thread_exit_def upd_def)
qed

end
