(* ===== verification/Boot.thy ===== *)
theory Boot
  imports Kmalloc
begin

text \<open>
  The memory part of the boot sequence in \<^verbatim>\<open>kernel/src/main.c\<close> (steps 4 to 10): the reserved
  regions are registered with the startup allocator, the two metadata arrays are taken from it,
  and the page allocator and the heap are initialised on them.
\<close>

section \<open>Model\<close>

definition reserve_startup_region :: "startup \<Rightarrow> u64 \<Rightarrow> u64 \<Rightarrow> startup" where
  "reserve_startup_region s base sz = buddy_startup_reserve s base (base + sz)"

text \<open>Steps 4 and 5. The arguments are what the device tree and the linker script give: the memory
  region, the device tree blob, the kernel image, the initial ramdisk and the children of
  \<^verbatim>\<open>/reserved-memory\<close> as (base, size).\<close>

definition boot_reserve ::
    "u64 \<Rightarrow> u64 \<Rightarrow> u64 \<Rightarrow> u64 \<Rightarrow> u64 \<Rightarrow> u64 \<Rightarrow> u64 \<Rightarrow> u64 \<Rightarrow> (u64 \<times> u64) list \<Rightarrow> startup" where
  "boot_reserve mem_base mem_size dtb_ptr dtb_size kernel_start kernel_end initrd_start initrd_end regions =
     (let s0 = buddy_startup_init mem_base mem_size;
          s1 = buddy_startup_reserve s0 dtb_ptr (dtb_ptr + dtb_size);
          s2 = buddy_startup_reserve s1 kernel_start kernel_end;
          s3 = (if initrd_start \<noteq> 0 \<and> initrd_end > initrd_start
                then buddy_startup_reserve s2 initrd_start initrd_end else s2)
      in foldl (\<lambda>s (base, sz). reserve_startup_region s base sz) s3 regions)"

text \<open>Steps 6 to 10. The last two arguments are the old contents of the memory that becomes
  \<^verbatim>\<open>frame_array\<close> and \<^verbatim>\<open>page_pool_idx\<close>. The code does not test the two pointers: \<^const>\<open>None\<close> also
  stands for the writes through a null pointer that follow a failed allocation.\<close>

definition boot_memory ::
    "startup \<Rightarrow> u64 \<Rightarrow> u64 \<Rightarrow> i32 list \<Rightarrow> i8 list \<Rightarrow> (startup \<times> u64 \<times> u64 \<times> kheap) option" where
  "boot_memory s mem_base mem_size old_fa old_ppi =
     (let total_pages = mem_size div PAGE_SIZE;
          fa_bytes = total_pages * 4;
          ppi_bytes = total_pages * 1
      in do {
        (s1, fa_ptr) \<leftarrow> buddy_startup_alloc s fa_bytes;
        (s2, ppi_ptr) \<leftarrow> buddy_startup_alloc s1 ppi_bytes;
        if fa_ptr = NULL \<or> ppi_ptr = NULL then None
        else do {
          b0 \<leftarrow> buddy_init mem_base mem_size old_fa (unat total_pages);
          b1 \<leftarrow> buddy_startup_replay_reserves s2 b0;
          b2 \<leftarrow> buddy_build_free_lists b1;
          h \<leftarrow> kmalloc_init b2 old_ppi (unat total_pages);
          Some (s2, fa_ptr, ppi_ptr, h)
        }
      })"

section \<open>Registration\<close>

lemma boot_reserve_ok:
  assumes "unat mem_base + unat mem_size \<le> 2 ^ 63"
  shows "startup_ok (boot_reserve mem_base mem_size dtb dsz ks ke is ie regions)"
    and "g_sa_mem_base (boot_reserve mem_base mem_size dtb dsz ks ke is ie regions) = mem_base"
    and "g_sa_mem_end (boot_reserve mem_base mem_size dtb dsz ks ke is ie regions) = mem_base + mem_size"
proof -
  have bounds: "g_sa_mem_base (buddy_startup_reserve s a e) = g_sa_mem_base s"
    "g_sa_mem_end (buddy_startup_reserve s a e) = g_sa_mem_end s" for s a e
    by (simp_all add: buddy_startup_reserve_def Let_def)
  have fold: "startup_ok (foldl (\<lambda>s (base, sz). reserve_startup_region s base sz) s regions) \<and>
      g_sa_mem_base (foldl (\<lambda>s (base, sz). reserve_startup_region s base sz) s regions) = g_sa_mem_base s \<and>
      g_sa_mem_end (foldl (\<lambda>s (base, sz). reserve_startup_region s base sz) s regions) = g_sa_mem_end s"
    if "startup_ok s" for s
    using that
  proof (induction regions arbitrary: s)
    case (Cons r rs)
    from Cons.IH [of "reserve_startup_region s (fst r) (snd r)"] Cons.prems show ?case
      by (cases r) (simp add: reserve_startup_region_def buddy_startup_reserve_ok bounds)
  qed simp
  have "unat (mem_base + mem_size) = unat mem_base + unat mem_size"
    using assms by (intro word_add_le(2)) simp
  then have init: "startup_ok (buddy_startup_init mem_base mem_size)"
    using assms by (simp add: startup_ok_def buddy_startup_init_def word_le_nat_alt)
  show "startup_ok (boot_reserve mem_base mem_size dtb dsz ks ke is ie regions)"
    and "g_sa_mem_base (boot_reserve mem_base mem_size dtb dsz ks ke is ie regions) = mem_base"
    and "g_sa_mem_end (boot_reserve mem_base mem_size dtb dsz ks ke is ie regions) = mem_base + mem_size"
    unfolding boot_reserve_def Let_def
    by (simp_all add: fold init buddy_startup_reserve_ok bounds)
      (simp_all add: buddy_startup_init_def)
qed

section \<open>Boot\<close>

text \<open>After the page arrays are in place: everything recorded is reserved, every other page is in a
  free list, and nothing is handed out.\<close>

lemma init_replay_build:
  assumes base: "4096 dvd unat mem_base" and fits: "unat mem_base + unat mem_size \<le> 2 ^ 63"
    and n: "n = unat (mem_size div PAGE_SIZE)" and fa: "length old_fa = n"
    and rs: "\<forall>r\<in>set (g_sa_reserves s). unat (snd r) \<le> 2 ^ 63"
  shows "\<exists>b0 b1 b2. buddy_init mem_base mem_size old_fa n = Some b0 \<and>
    buddy_startup_replay_reserves s b0 = Some b1 \<and> buddy_build_free_lists b1 = Some b2 \<and>
    g_total_pages b2 = n \<and> g_buddy_base b2 = mem_base \<and> g_buddy_end b2 = mem_base + mem_size \<and>
    binv b2 {} {} \<and> no_buddies b2 \<and>
    reserved_pages b2 = {p. p < n \<and> (\<exists>r\<in>set (g_sa_reserves s). page_touches b2 r p)} \<and>
    free_pages b2 = {p. p < n \<and> \<not> (\<exists>r\<in>set (g_sa_reserves s). page_touches b2 r p)}"
proof -
  let ?b0 = "\<lparr>g_buddy_base = mem_base, g_buddy_end = mem_base + mem_size, g_total_pages = n,
           frame_array = replicate n FRAME_FREE_PART, free_list = replicate (MAX_ORDER + 1) []\<rparr>"
  have init: "buddy_init mem_base mem_size old_fa n = Some ?b0"
    unfolding buddy_init_def fill_whole [OF fa] by simp
  have ue: "unat (mem_base + mem_size) = unat mem_base + unat mem_size"
    using fits by (intro word_add_le(2)) simp
  have n': "n = unat mem_size div 4096"
    by (simp add: n PAGE_SIZE_def unat_div)
  have reg: "page_region ?b0"
    using base ue n' by (simp add: page_region_def word_le_nat_alt)
  have ends: "\<forall>r\<in>set (g_sa_reserves s). unat (snd r) \<le> 2 ^ 64 - 4096"
  proof
    fix r
    assume "r \<in> set (g_sa_reserves s)"
    with rs have "unat (snd r) \<le> 2 ^ 63" by blast
    then show "unat (snd r) \<le> 2 ^ 64 - 4096" by simp
  qed
  obtain fa1 where fa1: "replay_loop (g_sa_reserves s) ?b0 = Some (?b0\<lparr>frame_array := fa1\<rparr>)"
    "length fa1 = n" "\<forall>p<n. fa1 ! p =
       (if \<exists>r\<in>set (g_sa_reserves s). page_touches ?b0 r p then FRAME_RESERVED else FRAME_FREE_PART)"
    using replay_loop_pages [OF reg ends] by auto
  let ?b1 = "?b0\<lparr>frame_array := fa1\<rparr>"
  have "set fa1 \<subseteq> {FRAME_FREE_PART, FRAME_RESERVED}"
  proof
    fix v
    assume "v \<in> set fa1"
    then obtain p where "p < n" "v = fa1 ! p"
      using fa1(2) by (auto simp: in_set_conv_nth)
    with fa1(3) show "v \<in> {FRAME_FREE_PART, FRAME_RESERVED}"
      by (cases "\<exists>r\<in>set (g_sa_reserves s). page_touches ?b0 r p") simp_all
  qed
  then have unbuilt: "unbuilt ?b1"
    using fa1(2) by (simp add: unbuilt_def)
  obtain b2 where b2: "buddy_build_free_lists ?b1 = Some b2" "binv b2 {} {}" "no_buddies b2"
    "reserved_pages b2 = reserved_pages ?b1" "free_pages b2 = {..<n} - reserved_pages ?b1"
    "changes_in ?b1 b2 {..<n}"
    using build_free_lists_outcome [OF unbuilt] by auto
  have same: "g_total_pages b2 = n" "g_buddy_base b2 = mem_base" "g_buddy_end b2 = mem_base + mem_size"
    using changes_in_same [OF b2(6)] by simp_all
  have touch: "page_touches b2 = page_touches ?b0"
    by (intro ext) (simp add: page_touches_def same)
  have res: "reserved_pages ?b1 = {p. p < n \<and> (\<exists>r\<in>set (g_sa_reserves s). page_touches b2 r p)}"
    unfolding touch using fa1(3) by (auto simp: reserved_pages_def split: if_splits)
  show ?thesis
    using init fa1(1) b2 same res by (auto simp: buddy_startup_replay_reserves_def)
qed

lemma boot_memory_ready:
  assumes ok: "startup_ok s" and nn: "not_nested (g_sa_reserves s)"
    and mem: "g_sa_mem_base s = mem_base" "g_sa_mem_end s = mem_base + mem_size"
    and base: "0 < unat mem_base" "4096 dvd unat mem_base" and size: "4096 \<le> unat mem_size"
    and fits: "unat mem_base + unat mem_size \<le> 2 ^ 63"
    and n: "n = unat (mem_size div PAGE_SIZE)"
    and old: "length old_fa = n" "length old_ppi = n"
    and fa: "buddy_startup_alloc s (mem_size div PAGE_SIZE * 4) = Some (s1, fa_ptr)" "fa_ptr \<noteq> NULL"
    and ppi: "buddy_startup_alloc s1 (mem_size div PAGE_SIZE) = Some (s2, ppi_ptr)" "ppi_ptr \<noteq> NULL"
  shows "\<exists>h. boot_memory s mem_base mem_size old_fa old_ppi = Some (s2, fa_ptr, ppi_ptr, h) \<and>
    heap_live h {} \<and> binv (heap_buddy h) {} {} \<and> no_buddies (heap_buddy h) \<and>
    g_total_pages (heap_buddy h) = n \<and> g_buddy_base (heap_buddy h) = mem_base \<and>
    set (g_sa_reserves s2) = {(fa_ptr, fa_ptr + align_up (mem_size div PAGE_SIZE * 4)),
      (ppi_ptr, ppi_ptr + align_up (mem_size div PAGE_SIZE))} \<union> set (g_sa_reserves s) \<and>
    not_nested (g_sa_reserves s2) \<and>
    reserved_pages (heap_buddy h) =
      {p. p < n \<and> (\<exists>r\<in>set (g_sa_reserves s2). page_touches (heap_buddy h) r p)} \<and>
    free_pages (heap_buddy h) =
      {p. p < n \<and> \<not> (\<exists>r\<in>set (g_sa_reserves s2). page_touches (heap_buddy h) r p)}"
proof -
  have n': "n = unat mem_size div 4096"
    by (simp add: n PAGE_SIZE_def unat_div)
  have n0: "0 < n" and nb: "n < 2 ^ 52"
    using n' size fits unat_lt64 [of mem_size] by (simp_all add: div_greater_zero_iff)
  have u1: "unat (mem_size div PAGE_SIZE) = n"
    by (simp add: n)
  have u4: "unat (mem_size div PAGE_SIZE * 4) = n * 4"
    using nb u1 by (simp add: unat_word_ariths)
  have sz4: "0 < unat (mem_size div PAGE_SIZE * 4)" "unat (mem_size div PAGE_SIZE * 4) \<le> 2 ^ 61"
    and sz1: "0 < unat (mem_size div PAGE_SIZE)" "unat (mem_size div PAGE_SIZE) \<le> 2 ^ 61"
    unfolding u4 u1 using n0 nb by simp_all
  note a1 = buddy_startup_alloc_disjoint [OF ok nn sz4 fa]
  have s1: "startup_ok s1" "not_nested (g_sa_reserves s1)"
    using a1 by blast+
  note a2 = buddy_startup_alloc_disjoint [OF s1 sz1 ppi]
  have "startup_ok s2"
    using a2 by blast
  have bounds: "g_sa_mem_end s2 = mem_base + mem_size"
    using fa(1) ppi(1) mem(2)
    by (auto simp: buddy_startup_alloc_def Let_def sa_sort_reserves_def split: if_splits)
  have ue: "unat (mem_base + mem_size) = unat mem_base + unat mem_size"
    using fits by (intro word_add_le(2)) simp
  have ends: "\<forall>r\<in>set (g_sa_reserves s2). unat (snd r) \<le> 2 ^ 63"
  proof
    fix r
    assume "r \<in> set (g_sa_reserves s2)"
    with \<open>startup_ok s2\<close> bounds have "snd r \<le> mem_base + mem_size"
      by (auto simp: startup_ok_def)
    then show "unat (snd r) \<le> 2 ^ 63"
      using fits ue by (simp add: word_le_nat_alt)
  qed
  obtain b0 b1 b2 where run: "buddy_init mem_base mem_size old_fa n = Some b0"
    "buddy_startup_replay_reserves s2 b0 = Some b1" "buddy_build_free_lists b1 = Some b2"
    and b2: "g_total_pages b2 = n" "g_buddy_base b2 = mem_base" "g_buddy_end b2 = mem_base + mem_size"
      "binv b2 {} {}" "no_buddies b2"
    and pages: "reserved_pages b2 = {p. p < n \<and> (\<exists>r\<in>set (g_sa_reserves s2). page_touches b2 r p)}"
      "free_pages b2 = {p. p < n \<and> \<not> (\<exists>r\<in>set (g_sa_reserves s2). page_touches b2 r p)}"
    using init_replay_build [OF base(2) fits n old(1) ends] by blast
  have "4096 * n \<le> unat mem_size"
    unfolding n' by simp
  then have reg: "region_ok b2"
    unfolding region_ok_def b2(1-3) ue using base(1) by simp
  obtain h where h: "kmalloc_init b2 old_ppi n = Some h" "heap_buddy h = b2" "heap_live h {}"
    using kmalloc_init_live [OF b2(4,5) reg] base(2) b2(1,2) old(2) by metis
  have "boot_memory s mem_base mem_size old_fa old_ppi = Some (s2, fa_ptr, ppi_ptr, h)"
    using fa ppi run h(1) n by (simp add: boot_memory_def Let_def)
  then show ?thesis
    using h(2,3) b2(1,2,4,5) pages a1 a2 by auto
qed


section \<open>Properties\<close>

text \<open>A recorded range has no byte in a page that is not reserved.\<close>

lemma recorded_range_off_limits:
  assumes "reserved_pages b = {p. p < g_total_pages b \<and> (\<exists>r\<in>rs. page_touches b r p)}" and "r \<in> rs"
  shows "{unat (fst r) ..< unat (snd r)} \<subseteq> off_limits b"
proof
  fix a
  assume a: "a \<in> {unat (fst r) ..< unat (snd r)}"
  have "page_touches b r p" if "a \<in> page_bytes b p" for p
    using that a by (auto simp: page_touches_def page_bytes_def)
  then show "a \<in> off_limits b"
    using assms by (auto simp: off_limits_def)
qed

lemma boot_heap_guarded:
  assumes ok: "startup_ok s" and nn: "not_nested (g_sa_reserves s)"
    and mem: "g_sa_mem_base s = mem_base" "g_sa_mem_end s = mem_base + mem_size"
    and base: "0 < unat mem_base" "4096 dvd unat mem_base" and size: "4096 \<le> unat mem_size"
    and fits: "unat mem_base + unat mem_size \<le> 2 ^ 63"
    and old: "length old_fa = unat (mem_size div PAGE_SIZE)" "length old_ppi = unat (mem_size div PAGE_SIZE)"
    and fa: "buddy_startup_alloc s (mem_size div PAGE_SIZE * 4) = Some (s1, fa_ptr)" "fa_ptr \<noteq> NULL"
    and ppi: "buddy_startup_alloc s1 (mem_size div PAGE_SIZE) = Some (s2, ppi_ptr)" "ppi_ptr \<noteq> NULL"
    and requests: "\<forall>r\<in>set rs. request_ok (2 ^ 64 - 4096) r"
  shows "\<exists>h h' held. boot_memory s mem_base mem_size old_fa old_ppi = Some (s2, fa_ptr, ppi_ptr, h) \<and>
    serve kmalloc kfree rs (h, []) = Some (h', held) \<and> ranges_disjoint held \<and>
    (\<forall>x\<in>set held. bytes_of x \<inter> off_limits (heap_buddy h) = {}) \<and>
    g_total_pages (heap_buddy h) = unat (mem_size div PAGE_SIZE) \<and> g_buddy_base (heap_buddy h) = mem_base \<and>
    (\<forall>r\<in>set (g_sa_reserves s) \<union>
         {(fa_ptr, fa_ptr + align_up (mem_size div PAGE_SIZE * 4)),
          (ppi_ptr, ppi_ptr + align_up (mem_size div PAGE_SIZE))}.
       {unat (fst r) ..< unat (snd r)} \<subseteq> off_limits (heap_buddy h))"
proof -
  obtain h where h: "boot_memory s mem_base mem_size old_fa old_ppi = Some (s2, fa_ptr, ppi_ptr, h)"
    "heap_live h {}" "g_total_pages (heap_buddy h) = unat (mem_size div PAGE_SIZE)"
    "g_buddy_base (heap_buddy h) = mem_base"
    "set (g_sa_reserves s2) = {(fa_ptr, fa_ptr + align_up (mem_size div PAGE_SIZE * 4)),
      (ppi_ptr, ppi_ptr + align_up (mem_size div PAGE_SIZE))} \<union> set (g_sa_reserves s)"
    "reserved_pages (heap_buddy h) = {p. p < unat (mem_size div PAGE_SIZE) \<and>
      (\<exists>r\<in>set (g_sa_reserves s2). page_touches (heap_buddy h) r p)}"
    using boot_memory_ready [OF ok nn mem base size fits refl old fa ppi] by blast
  obtain h' held where run: "serve kmalloc kfree rs (h, []) = Some (h', held)" "ranges_disjoint held"
    "\<forall>r\<in>set held. bytes_of r \<inter> off_limits (heap_buddy h) = {}"
    using heap_guarded.serve_guarded [OF heap.holds_nothing [OF h(2)] requests] by blast
  have sub: "\<forall>r\<in>set (g_sa_reserves s2). {unat (fst r) ..< unat (snd r)} \<subseteq> off_limits (heap_buddy h)"
    using recorded_range_off_limits [OF h(6) [folded h(3)]] by blast
  have eq: "set (g_sa_reserves s) \<union> {(fa_ptr, fa_ptr + align_up (mem_size div PAGE_SIZE * 4)),
      (ppi_ptr, ppi_ptr + align_up (mem_size div PAGE_SIZE))} = set (g_sa_reserves s2)"
    unfolding h(5) by (rule Un_commute)
  show ?thesis
    unfolding eq using h(1,3,4) run sub by blast
qed

text \<open>
  C2: After boot the kernel heap is ready for use, and stays safe. When the regions registered with
  the startup allocator are not nested, the memory starts at a page-aligned address that is not 0 and ends below
  \<open>2 ^ 63\<close>, and the two metadata arrays were allocated, the boot
  sequence completes; a client may then make any sequence of \<^verbatim>\<open>kmalloc\<close> and \<^verbatim>\<open>kfree\<close> calls, for sizes that do not wrap when
  they are rounded up (at most \<open>2 ^ 64 - 4096\<close>): every
  call returns, the ranges held never overlap, and none of them has a byte in common with a
  registered region (device tree, kernel image, initial ramdisk, reserved memory) or with the
  metadata arrays.
\<close>

theorem boot_then_heap_safe:
  assumes ok: "startup_ok s" and nn: "not_nested (g_sa_reserves s)"
    and mem: "g_sa_mem_base s = mem_base" "g_sa_mem_end s = mem_base + mem_size"
    and base: "0 < unat mem_base" "4096 dvd unat mem_base" and size: "4096 \<le> unat mem_size"
    and fits: "unat mem_base + unat mem_size \<le> 2 ^ 63"
    and old: "length old_fa = unat (mem_size div PAGE_SIZE)" "length old_ppi = unat (mem_size div PAGE_SIZE)"
    and fa: "buddy_startup_alloc s (mem_size div PAGE_SIZE * 4) = Some (s1, fa_ptr)" "fa_ptr \<noteq> NULL"
    and ppi: "buddy_startup_alloc s1 (mem_size div PAGE_SIZE) = Some (s2, ppi_ptr)" "ppi_ptr \<noteq> NULL"
    and requests: "\<forall>r\<in>set rs. request_ok (2 ^ 64 - 4096) r"
  shows "\<exists>h h' held. boot_memory s mem_base mem_size old_fa old_ppi = Some (s2, fa_ptr, ppi_ptr, h) \<and>
    serve kmalloc kfree rs (h, []) = Some (h', held) \<and> ranges_disjoint held \<and>
    (\<forall>x\<in>set held. \<forall>r\<in>set (g_sa_reserves s) \<union>
         {(fa_ptr, fa_ptr + align_up (mem_size div PAGE_SIZE * 4)),
          (ppi_ptr, ppi_ptr + align_up (mem_size div PAGE_SIZE))}.
       bytes_of x \<inter> {unat (fst r) ..< unat (snd r)} = {})"
  using boot_heap_guarded [OF ok nn mem base size fits old fa ppi requests] by blast

text \<open>The boot of a board with 32 KiB of memory whose first page holds the kernel.\<close>

lemma sample_boot_allocs:
  "buddy_startup_alloc sample_startup (0x8000 div PAGE_SIZE * 4) =
     Some (sample_startup\<lparr>g_sa_reserves := [(0x80000000, 0x80001000), (0x80001000, 0x80002000)]\<rparr>, 0x80001000)"
  "buddy_startup_alloc
     (sample_startup\<lparr>g_sa_reserves := [(0x80000000, 0x80001000), (0x80001000, 0x80002000)]\<rparr>)
     (0x8000 div PAGE_SIZE) =
     Some (sample_startup\<lparr>g_sa_reserves :=
       [(0x80000000, 0x80001000), (0x80001000, 0x80002000), (0x80002000, 0x80003000)]\<rparr>, 0x80002000)"
  by (simp_all add: buddy_startup_alloc_def sample_startup_def sa_sort_reserves_def sa_sort_loop.simps
      sa_find_first_free_def align_up_def PAGE_SIZE_def BUDDY_STARTUP_MAX_RESERVES_def Let_def)

theorem boot_then_heap_safe_witness:
  "\<exists>s2 h h' held. boot_memory sample_startup 0x80000000 0x8000 (replicate 8 0) (replicate 8 0) =
       Some (s2, 0x80001000, 0x80002000, h) \<and>
     serve kmalloc kfree [Get 100, Get 5000, Put 0, Get 16] (h, []) = Some (h', held) \<and> ranges_disjoint held \<and>
     (\<forall>x\<in>set held. bytes_of x \<inter> {unat (0x80000000 :: u64) ..< unat (0x80001000 :: u64)} = {})"
proof -
  have b: "g_sa_mem_base sample_startup = 0x80000000" "g_sa_mem_end sample_startup = 0x80000000 + 0x8000"
    "(0x80000000, 0x80001000) \<in> set (g_sa_reserves sample_startup)"
    by (simp_all add: sample_startup_def)
  have "length (replicate 8 (0::i32)) = unat ((0x8000 :: u64) div PAGE_SIZE)"
    "length (replicate 8 (0::i8)) = unat ((0x8000 :: u64) div PAGE_SIZE)"
    by (simp_all add: PAGE_SIZE_def)
  from boot_then_heap_safe [OF sample_startup_ok b(1,2) _ _ _ _ this sample_boot_allocs(1) _
      sample_boot_allocs(2), of "[Get 100, Get 5000, Put 0, Get 16]"] b(3)
  show ?thesis
    by fastforce
qed

text \<open>
  C31: The boot sequence accounts for every page: a page is reserved exactly when it touches a
  registered region or a metadata array, and every other page of the region is free. This holds for a successful boot, in which
  both metadata arrays found room, of memory that starts at a page-aligned address that is not 0 and ends below \<open>2 ^ 63\<close>, with
  no registered region strictly inside another.
\<close>

theorem boot_accounts_for_pages:
  assumes ok: "startup_ok s" and nn: "not_nested (g_sa_reserves s)"
    and mem: "g_sa_mem_base s = mem_base" "g_sa_mem_end s = mem_base + mem_size"
    and base: "0 < unat mem_base" "4096 dvd unat mem_base" and size: "4096 \<le> unat mem_size"
    and fits: "unat mem_base + unat mem_size \<le> 2 ^ 63"
    and n: "n = unat (mem_size div PAGE_SIZE)"
    and old: "length old_fa = n" "length old_ppi = n"
    and fa: "buddy_startup_alloc s (mem_size div PAGE_SIZE * 4) = Some (s1, fa_ptr)" "fa_ptr \<noteq> NULL"
    and ppi: "buddy_startup_alloc s1 (mem_size div PAGE_SIZE) = Some (s2, ppi_ptr)" "ppi_ptr \<noteq> NULL"
  shows "\<exists>h. boot_memory s mem_base mem_size old_fa old_ppi = Some (s2, fa_ptr, ppi_ptr, h) \<and>
    g_total_pages (heap_buddy h) = n \<and> g_buddy_base (heap_buddy h) = mem_base \<and>
    reserved_pages (heap_buddy h) =
      {p. p < n \<and> (\<exists>r\<in>set (g_sa_reserves s2). page_touches (heap_buddy h) r p)} \<and>
    free_pages (heap_buddy h) = {..<n} - reserved_pages (heap_buddy h) \<and>
    binv (heap_buddy h) {} {} \<and> no_buddies (heap_buddy h)"
proof -
  obtain h where h: "boot_memory s mem_base mem_size old_fa old_ppi = Some (s2, fa_ptr, ppi_ptr, h)"
    "binv (heap_buddy h) {} {}" "no_buddies (heap_buddy h)"
    "g_total_pages (heap_buddy h) = n" "g_buddy_base (heap_buddy h) = mem_base"
    "reserved_pages (heap_buddy h) =
      {p. p < n \<and> (\<exists>r\<in>set (g_sa_reserves s2). page_touches (heap_buddy h) r p)}"
    using boot_memory_ready [OF ok nn mem base size fits n old fa ppi] by blast
  then have "free_pages (heap_buddy h) = {..<n} - reserved_pages (heap_buddy h)"
    using page_partition [OF h(2)] by (simp add: alloc_pages_def)
  with h show ?thesis by blast
qed

theorem boot_accounts_for_pages_witness:
  "\<exists>s2 h. boot_memory sample_startup 0x80000000 0x8000 (replicate 8 0) (replicate 8 0) =
       Some (s2, 0x80001000, 0x80002000, h) \<and>
     free_pages (heap_buddy h) = {..<8} - reserved_pages (heap_buddy h) \<and> binv (heap_buddy h) {} {}"
proof -
  have b: "g_sa_mem_base sample_startup = 0x80000000" "g_sa_mem_end sample_startup = 0x80000000 + 0x8000"
    by (simp_all add: sample_startup_def)
  have "8 = unat ((0x8000 :: u64) div PAGE_SIZE)"
    by (simp add: PAGE_SIZE_def)
  from boot_accounts_for_pages [OF sample_startup_ok b _ _ _ _ this length_replicate length_replicate
      sample_boot_allocs(1) _ sample_boot_allocs(2), of 0 0]
  show ?thesis
    by auto
qed

end
