(* ===== verification/Process_Safety.thy ===== *)
theory Process_Safety
  imports Process_Signals Boot
begin

text \<open>
  The scheduler's start establishes the invariant, and every sequence of process events keeps it.
\<close>

section \<open>Sequences of process events\<close>

text \<open>What the running thread does, or is made to do by the trap handler. \<open>Spawn\<close> and \<open>Create\<close> are the
  calls of the kernel's own threads, \<open>Sleep\<close> and \<open>Wake\<close> the two halves of \<^verbatim>\<open>sys_usleep\<close>, \<open>Collect\<close> is
  the loop of the idle thread.\<close>

datatype kevent =
    Fork | Exec u64 | Exit_process u64 | Stop u64 | Waitpid u64 | Waitpid_again u64
  | Kill i32 i32 | Set_signal i32 u64 | Sigreturn | Deliver
  | Yield_cpu | Sleep | Wake_up u64 | Spawn mem u64 | Create u64 | Exit_thread | Collect

definition drop_result :: "(kernel \<times> 'a) option \<Rightarrow> kernel option" where
  "drop_result r = map_option fst r"

fun do_event :: "u64 \<Rightarrow> kevent \<Rightarrow> kernel \<Rightarrow> kernel option" where
  "do_event initrd Fork k = drop_result (sys_fork k)"
| "do_event initrd (Exec path) k = drop_result (sys_exec initrd k path)"
| "do_event initrd (Exit_process status) k = drop_result (sys_exit k status)"
| "do_event initrd (Stop p) k = drop_result (sys_stop k p)"
| "do_event initrd (Waitpid p) k = drop_result (sys_waitpid k p)"
| "do_event initrd (Waitpid_again c) k = drop_result (waitpid_on k c)"
| "do_event initrd (Kill p s) k = drop_result (sys_kill k p s)"
| "do_event initrd (Set_signal s h) k = drop_result (sys_signal k s h)"
| "do_event initrd Sigreturn k = drop_result (sys_sigreturn k)"
| "do_event initrd Deliver k = deliver_pending_signal k"
| "do_event initrd Yield_cpu k = schedule k"
| "do_event initrd Sleep k = thread_block k"
| "do_event initrd (Wake_up t) k = thread_wakeup k t"
| "do_event initrd (Spawn tm path) k = drop_result (thread_spawn_user k initrd tm path)"
| "do_event initrd (Create fn) k = drop_result (thread_create k fn)"
| "do_event initrd Exit_thread k = thread_exit k"
| "do_event initrd Collect k = kill_zombies k"

text \<open>The events that the theorem below is about. System calls come from a user process, the idle thread neither blocks
  nor ends, a kernel thread that ends has no children and is not the bootstrap thread, a search of the ramdisk ends
  and the thread numbers last. Three events of the real kernel are excluded, because the code then follows or leaves a
  dangling pointer: \<^verbatim>\<open>sys_stop\<close> of another process that has children and the end by a signal of a process that has children (both
  leave the children with a pointer to a parent that will be freed), and the wake-up of a thread that has been
  freed in the meantime.\<close>

definition numbers_left :: "kernel \<Rightarrow> bool" where
  "numbers_left k \<longleftrightarrow> unat (g_next_tid k) + 1 < 2 ^ 31"

definition is_leaf :: "kernel \<Rightarrow> u64 \<Rightarrow> bool" where
  "is_leaf k t = (case threads k t of None \<Rightarrow> True | Some th \<Rightarrow> children th = [])"

fun event_ok :: "u64 \<Rightarrow> u64 \<Rightarrow> kevent \<Rightarrow> kernel \<Rightarrow> bool" where
  "event_ok initrd idle ev k =
     (case threads k (cur k) of None \<Rightarrow> False | Some self \<Rightarrow>
      case ev of
        Fork \<Rightarrow> numbers_left k
      | Exec path \<Rightarrow> initrd_file initrd (k_mem k) (k_mem k) path \<noteq> None
      | Exit_process status \<Rightarrow> image_base self \<noteq> NULL
      | Stop p \<Rightarrow> image_base self \<noteq> NULL \<and> (case find_thread_by_pid k (ucast p) of
            Some (Some t) \<Rightarrow> t = cur k \<or> is_leaf k t | _ \<Rightarrow> True)
      | Waitpid p \<Rightarrow> cur k \<noteq> idle
      | Waitpid_again c \<Rightarrow> cur k \<noteq> idle \<and> c \<in> set (children self)
      | Deliver \<Rightarrow> children self = [] \<or> \<not> ends_by_signal k self
      | Sleep \<Rightarrow> cur k \<noteq> idle
      | Wake_up t \<Rightarrow> t = NULL \<or> threads k t \<noteq> None
      | Spawn tm path \<Rightarrow> numbers_left k \<and> initrd_file initrd (k_mem k) tm path \<noteq> None
      | Create fn \<Rightarrow> numbers_left k
      | Exit_thread \<Rightarrow> children self = [] \<and> image_base self = NULL \<and> sigstack_base (sig self) = NULL \<and>
          cur k \<noteq> idle \<and> cur k \<noteq> g_bootstrap k
      | _ \<Rightarrow> True)"

text \<open>A sequence of events. \<open>events_ok\<close> says that each of them is such an event at its point of the sequence.\<close>

fun run_events :: "u64 \<Rightarrow> kevent list \<Rightarrow> kernel \<Rightarrow> kernel option" where
  "run_events initrd [] k = Some k"
| "run_events initrd (e # es) k = Option.bind (do_event initrd e k) (run_events initrd es)"

fun events_ok :: "u64 \<Rightarrow> u64 \<Rightarrow> kevent list \<Rightarrow> kernel \<Rightarrow> bool" where
  "events_ok initrd idle [] k = True"
| "events_ok initrd idle (e # es) k =
     (event_ok initrd idle e k \<and> (case do_event initrd e k of None \<Rightarrow> True | Some k' \<Rightarrow> events_ok initrd idle es k'))"

lemma kinv_event:
  assumes inv: "kinv idle E k" and c: "cur_state k = Some THREAD_RUNNING" and ok: "event_ok initrd idle e k"
  shows "\<exists>k'. do_event initrd e k = Some k' \<and> kinv idle E k' \<and> cur_state k' = Some THREAD_RUNNING"
proof -
  obtain self where self: "threads k (cur k) = Some self" "state self = THREAD_RUNNING"
    using c st_Some by blast
  have nb: "cur_state k \<noteq> Some THREAD_BLOCKED" "cur_state k \<noteq> Some THREAD_READY"
    using c by simp_all
  show ?thesis
  proof (cases e)
    case Fork
    then have "unat (g_next_tid k) + 1 < 2 ^ 32"
      using ok self by (simp add: numbers_left_def)
    from kinv_fork [OF inv c this self(1)] Fork show ?thesis
      by (auto simp: drop_result_def)
  next
    case (Exec path)
    then have "initrd_file initrd (k_mem k) (k_mem k) path \<noteq> None"
      using ok self by simp
    from kinv_exec [OF inv c this] Exec show ?thesis
      by (auto simp: drop_result_def)
  next
    case (Exit_process status)
    then have "image_base self \<noteq> NULL"
      using ok self by simp
    from kinv_exit [OF inv c user_thread(1,2) [OF inv self(1) this] self(1), of status] Exit_process show ?thesis
      by (auto simp: drop_result_def)
  next
    case (Stop p)
    then have im: "image_base self \<noteq> NULL" and leaf: "\<And>t. find_thread_by_pid k (ucast p) = Some (Some t) \<Longrightarrow> t = cur k \<or> is_leaf k t"
      using ok self by auto
    have "\<exists>k' out. sys_stop k p = Some (k', out) \<and> kinv idle E k' \<and> cur_state k' = Some THREAD_RUNNING"
      by (rule kinv_stop [OF inv self im]) (use leaf in \<open>fastforce simp: is_leaf_def\<close>)
    with Stop show ?thesis
      by (auto simp: drop_result_def)
  next
    case (Waitpid p)
    then have "cur k \<noteq> idle"
      using ok self by simp
    from kinv_waitpid [OF inv c this] Waitpid show ?thesis
      by (fastforce simp: drop_result_def)
  next
    case (Waitpid_again ch)
    then have "cur k \<noteq> idle" "ch \<in> set (children self)"
      using ok self by simp_all
    from kinv_waitpid_on [OF inv c this(1) self(1) this(2)] Waitpid_again show ?thesis
      by (fastforce simp: drop_result_def)
  next
    case (Kill p s)
    with kinv_kill [OF inv, of p s] c show ?thesis
      by (auto simp: drop_result_def)
  next
    case (Set_signal s h)
    with kinv_signal [OF inv, of s h] c show ?thesis
      by (auto simp: drop_result_def)
  next
    case Sigreturn
    with kinv_sigreturn [OF inv] c show ?thesis
      by (auto simp: drop_result_def)
  next
    case Deliver
    then have "children self = [] \<or> \<not> ends_by_signal k self"
      using ok self by simp
    from kinv_deliver [OF inv self this] Deliver show ?thesis
      by simp
  next
    case Yield_cpu
    with kinv_schedule [OF inv nb(2)] show ?thesis
      by auto
  next
    case Sleep
    then have "cur k \<noteq> idle"
      using ok self by simp
    from kinv_thread_block [OF inv c this] Sleep show ?thesis
      by auto
  next
    case (Wake_up t)
    then have "t = NULL \<or> t \<in> dom (threads k)"
      using ok self by auto
    from kinv_wakeup [OF inv this nb(1)] Wake_up c show ?thesis
      by auto
  next
    case (Spawn tm path)
    then have "unat (g_next_tid k) + 1 < 2 ^ 32" "initrd_file initrd (k_mem k) tm path \<noteq> None"
      using ok self by (simp_all add: numbers_left_def)
    from kinv_spawn [OF inv c this] Spawn show ?thesis
      by (auto simp: drop_result_def)
  next
    case (Create fn)
    then have "unat (g_next_tid k) + 1 < 2 ^ 32"
      using ok self by (simp add: numbers_left_def)
    from kinv_thread_create [OF inv c this, of fn] Create show ?thesis
      by (auto simp: drop_result_def)
  next
    case Exit_thread
    then show ?thesis
      using kinv_thread_exit [OF inv self] ok self by auto
  next
    case Collect
    with kinv_kill_zombies [OF inv c] show ?thesis
      by auto
  qed
qed

lemma kinv_run_events:
  assumes "kinv idle E k" and "cur_state k = Some THREAD_RUNNING" and "events_ok initrd idle es k"
  shows "\<exists>k'. run_events initrd es k = Some k' \<and> kinv idle E k' \<and> cur_state k' = Some THREAD_RUNNING"
  using assms
proof (induction es arbitrary: k)
  case (Cons e es)
  obtain k1 where "do_event initrd e k = Some k1" "kinv idle E k1" "cur_state k1 = Some THREAD_RUNNING"
    using kinv_event [OF Cons.prems(1,2), of initrd e] Cons.prems(3) by (auto simp del: event_ok.simps)
  with Cons show ?case
    by (auto simp del: event_ok.simps)
qed simp

text \<open>Events that need nothing besides a running thread.\<close>

fun plain_event :: "kevent \<Rightarrow> bool" where
  "plain_event (Kill p s) = True"
| "plain_event (Set_signal s h) = True"
| "plain_event Sigreturn = True"
| "plain_event Yield_cpu = True"
| "plain_event Collect = True"
| "plain_event _ = False"

lemma plain_events_ok:
  assumes "kinv idle E k" and "cur_state k = Some THREAD_RUNNING" and "\<forall>e\<in>set es. plain_event e"
  shows "events_ok initrd idle es k"
  using assms
proof (induction es arbitrary: k)
  case (Cons e es)
  obtain self where "threads k (cur k) = Some self"
    using Cons.prems(2) st_Some by blast
  then have ok: "event_ok initrd idle e k"
    using Cons.prems(3) by (cases e) simp_all
  obtain k1 where "do_event initrd e k = Some k1" "kinv idle E k1" "cur_state k1 = Some THREAD_RUNNING"
    using kinv_event [OF Cons.prems(1,2) ok] by blast
  with Cons ok show ?case
    by (simp del: event_ok.simps)
qed simp

section \<open>The start of the scheduler\<close>

definition unstarted :: "kernel \<Rightarrow> bool" where
  "unstarted k \<longleftrightarrow> threads k = Map.empty \<and> g_runq k = [] \<and> g_zombies k = [] \<and> g_bootstrap k \<noteq> NULL \<and> g_next_tid k = 0"

lemma owns_nothing:
  assumes "heap_live h R" and "\<forall>r\<in>R. 0 < snd r \<and> fst r \<noteq> NULL"
  shows "heap.owns h (\<lambda>_. NULL) n (fst ` R)"
  unfolding heap.owns_def
  by (intro exI [of _ R]) (use assms in auto)

lemma sched_init_kinv:
  assumes k: "unstarted k" and live: "heap_live (k_heap k) R" "\<forall>r\<in>R. 0 < snd r \<and> fst r \<noteq> NULL"
    and b: "unat (g_bootstrap k) \<in> off_limits (heap_buddy (k_heap k))"
  shows "\<exists>k'. sched_init k fn = Some k' \<and> cur_state k' = Some THREAD_RUNNING \<and> cur k' = g_bootstrap k \<and>
    (g_runq k' = [] \<or> (\<exists>idle. g_runq k' = [idle] \<and> kinv idle (fst ` R) k'))"
proof -
  let ?b = "g_bootstrap k" and ?E = "fst ` R"
  define bt :: thread where "bt = \<lparr>ctx = zero_ctx, tid = g_next_tid k, pid = g_next_tid k, state = THREAD_RUNNING,
    entry = 0, kstack_base = NULL, kstack_size = 0, parent = NULL, children = [], exit_status = 0, image_base = NULL,
    image_size = 0, total_size = 0, sig = signal_state_init, kframe = zero_frame\<rparr>"
  define k1 where "k1 = k\<lparr>threads := (threads k)(?b \<mapsto> bt), g_next_tid := g_next_tid k + 1, cur := ?b\<rparr>"
  note k' = k [unfolded unstarted_def]
  have V: "views k1 = [?b \<mapsto> view bt]" and S: "st k1 = [?b \<mapsto> THREAD_RUNNING]"
    using k' by (auto simp: k1_def views_def st_def bt_def fun_eq_iff)
  have "ptrs (views k1) ?b = (\<lambda>_. NULL)"
  proof
    fix x :: "u64 \<times> slot"
    obtain a s where x: "x = (a, s)" by (cases x)
    show "ptrs (views k1) ?b x = NULL"
      unfolding V by (cases s) (simp_all add: x ptrs_def bt_def signal_state_init_def)
  qed
  then have mem: "mem_v (k_heap k1) (views k1) ?b ?E"
    using owns_nothing [OF live] b by (simp add: mem_v_def k1_def)
  have inv: "kinv ?b ?E k1"
    unfolding kinv_def
  proof (intro conjI)
    show "sched_inv k1"
      using k' unfolding sched_inv_def S by (auto simp: k1_def intro!: queues_okI split: if_splits)
    show "tree_n (nodes (views k1)) (g_zombies k1) (g_bootstrap k1) (g_next_tid k1)"
      using k' unfolding V by (auto simp: tree_n_def nodes_def node_ok_def node_of_def k1_def bt_def split: if_splits)
    show "threads_v (views k1) (g_bootstrap k1)"
      unfolding V by (auto simp: threads_v_def thread_ok_def bt_def signal_state_init_def sig_ok_def NSIG_def split: if_splits)
    show "idle_v ?b (views k1)"
      unfolding V by (simp add: idle_v_def bt_def)
  qed (use mem in \<open>simp add: k1_def\<close>)
  have run: "cur_state k1 = Some THREAD_RUNNING" "unat (g_next_tid k1) + 1 < 2 ^ 32"
    using S k' by (simp_all add: k1_def)
  obtain k2 t where k2: "thread_create k1 fn = Some (k2, t)" "kinv ?b ?E k2" "cur k2 = cur k1"
    "cur_state k2 = Some THREAD_RUNNING" "t = NULL \<or> idle_v t (views k2)" "g_runq k2 = g_runq k1 @ (if t = NULL then [] else [t])"
    using kinv_thread_create [OF inv run] by blast
  have init: "sched_init k fn = Some k2"
    using k2(1) by (simp add: sched_init_def bt_def k1_def Let_def)
  have q: "g_runq k2 = [] \<or> g_runq k2 = [t] \<and> t \<noteq> NULL"
    using k2(6) k' by (simp add: k1_def)
  have "kinv t ?E k2" if "t \<noteq> NULL"
    using k2(2,5) that by (simp add: kinv_def)
  with init k2(3,4) q show ?thesis
    by (auto simp: k1_def)
qed

section \<open>What the invariant gives\<close>

text \<open>No two live processes share memory, and no process owns memory of the kernel image or of the
  device tree.\<close>

definition isolated :: "kernel \<Rightarrow> bool" where
  "isolated k \<longleftrightarrow> (\<forall>t th. threads k t = Some th \<longrightarrow> image_base th \<noteq> NULL \<longrightarrow>
     bytes_of (image_base th, unat (total_size th)) \<inter> off_limits (heap_buddy (k_heap k)) = {} \<and>
     (\<forall>u uh. threads k u = Some uh \<longrightarrow> u \<noteq> t \<longrightarrow> image_base uh \<noteq> NULL \<longrightarrow>
        bytes_of (image_base th, unat (total_size th)) \<inter> bytes_of (image_base uh, unat (total_size uh)) = {}))"

lemma kinv_isolated:
  assumes inv: "kinv idle E k"
  shows "isolated k"
proof -
  let ?f = "ptrs (views k) (g_bootstrap k)" and ?n = "needs (views k)"
  have own: "heap.owns (k_heap k) ?f ?n E"
    using kinvD(5) [OF inv] by (simp add: mem_v_def)
  have at: "?f (t, Image) = image_base th" "?n (t, Image) = unat (total_size th)" if "threads k t = Some th" for t th
    using that by (simp_all add: ptrs_def needs_def views_def)
  show ?thesis
    unfolding isolated_def
  proof (intro allI impI conjI)
    fix t th
    assume th: "threads k t = Some th" "image_base th \<noteq> NULL"
    then have "?f (t, Image) \<noteq> NULL"
      using at by simp
    then obtain A n where A: "heap_live (k_heap k) A" "(?f (t, Image), n) \<in> A" "?n (t, Image) \<le> n"
      by (rule heap.owns_range [OF own])
    have "bytes_of (?f (t, Image), n) \<inter> off_limits (heap_buddy (k_heap k)) = {}"
      by (rule heap_guarded.guarded_law [OF A(1,2)])
    moreover have "bytes_of (image_base th, unat (total_size th)) \<subseteq> bytes_of (?f (t, Image), n)"
      using A(3) at [OF th(1)] by (auto simp: bytes_of_def)
    ultimately show "bytes_of (image_base th, unat (total_size th)) \<inter> off_limits (heap_buddy (k_heap k)) = {}"
      by blast
    show "bytes_of (image_base th, unat (total_size th)) \<inter> bytes_of (image_base uh, unat (total_size uh)) = {}"
      if "threads k u = Some uh" "u \<noteq> t" "image_base uh \<noteq> NULL" for u uh
      using heap.owns_disjoint [OF own, of "(t, Image)" "(u, Image)"] at th that by simp
  qed
qed

text \<open>No memory is lost: the heap's allocations are what the threads own and what others held before.\<close>

definition owned :: "kernel \<Rightarrow> u64 set" where
  "owned k = {p. p \<noteq> NULL \<and> (\<exists>t th. threads k t = Some th \<and> (p = t \<and> t \<noteq> g_bootstrap k \<or>
     p = kstack_base th \<or> p = image_base th \<or> p = sigstack_base (sig th)))}"

definition accounted :: "u64 set \<Rightarrow> kernel \<Rightarrow> bool" where
  "accounted E k \<longleftrightarrow> (\<exists>A. heap_live (k_heap k) A \<and> fst ` A = owned k \<union> E)"

lemma kinv_accounted:
  assumes inv: "kinv idle E k"
  shows "accounted E k"
proof -
  let ?f = "ptrs (views k) (g_bootstrap k)"
  have nn: "NULL \<notin> dom (threads k)"
    using kinv_nonnull [OF inv] by auto
  have "range ?f - {NULL} = owned k"
  proof
    show "range ?f - {NULL} \<subseteq> owned k"
    proof
      fix p
      assume "p \<in> range ?f - {NULL}"
      then obtain t s where p: "p = ?f (t, s)" "p \<noteq> NULL"
        by auto
      then obtain th where th: "threads k t = Some th" "p = slot_ptr (g_bootstrap k) t (view th) s"
        by (auto simp: ptrs_def views_def split: option.splits)
      with p(2) show "p \<in> owned k"
        unfolding owned_def by (cases s) (auto split: if_splits)
    qed
    show "owned k \<subseteq> range ?f - {NULL}"
    proof
      fix p
      assume "p \<in> owned k"
      then obtain t th where th: "threads k t = Some th" "p \<noteq> NULL" and
        p: "p = t \<and> t \<noteq> g_bootstrap k \<or> p = kstack_base th \<or> p = image_base th \<or> p = sigstack_base (sig th)"
        unfolding owned_def by blast
      have "p \<in> {?f (t, Struct), ?f (t, Stack), ?f (t, Image), ?f (t, Sigstack)}"
        using p th(1) by (auto simp: ptrs_def views_def)
      with th(2) show "p \<in> range ?f - {NULL}"
        by blast
    qed
  qed
  moreover have "heap.owns (k_heap k) ?f (needs (views k)) E"
    using kinvD(5) [OF inv] by (simp add: mem_v_def)
  ultimately show ?thesis
    unfolding heap.owns_def accounted_def by metis
qed

section \<open>Processes are safe\<close>

text \<open>
  C3: Once the scheduler is started, with memory for the idle thread, processes cannot break the kernel: for every sequence of
  fork, exec, exit, stop, waitpid, kill, signal, sigreturn, signal delivery, yield, sleep, wake-up, thread
  creation and collection in which no event is one of those that \<open>events_ok\<close> excludes (\<^verbatim>\<open>sys_stop\<close> of another process with
  children, a signal that ends a process with children, the wake-up of a thread that is already freed, and the impossible ones
  listed there), every call returns, which means that it follows no dangling
  pointer and frees nothing twice. The invariant holds again, the images of live processes are
  disjoint from one another and from the reserved memory, and the heap holds exactly what the
  threads own besides what it held before.
\<close>

theorem process_events_safe:
  assumes "unstarted k" and "heap_live (k_heap k) R" and "\<forall>r\<in>R. 0 < snd r \<and> fst r \<noteq> NULL"
    and "unat (g_bootstrap k) \<in> off_limits (heap_buddy (k_heap k))"
    and "sched_init k fn = Some k1" and "g_runq k1 = [idle]" and "events_ok initrd idle es k1"
  shows "\<exists>k'. run_events initrd es k1 = Some k' \<and> kinv idle (fst ` R) k' \<and> cur_state k' = Some THREAD_RUNNING \<and>
    isolated k' \<and> accounted (fst ` R) k'"
proof -
  have k1: "kinv idle (fst ` R) k1" "cur_state k1 = Some THREAD_RUNNING"
    using sched_init_kinv [OF assms(1-4), of fn] assms(5,6) by auto
  obtain k' where k': "run_events initrd es k1 = Some k'" "kinv idle (fst ` R) k'" "cur_state k' = Some THREAD_RUNNING"
    using kinv_run_events [OF k1 assms(7)] by blast
  with kinv_isolated [OF k'(2)] kinv_accounted [OF k'(2)] show ?thesis
    by blast
qed

text \<open>A board with four free pages, whose kernel lies outside the managed memory.\<close>

definition sample_start :: kernel where
  "sample_start = \<lparr>threads = Map.empty, g_runq = [], g_zombies = [], g_next_tid = 0, g_need_resched = False,
     g_user_base = 0, cur = 0, hart = zero_ctx, csr_sstatus = 0, k_heap = sample_heap, k_mem = (\<lambda>_. 0),
     g_bootstrap = 0x1000, thread_entry_trampoline = 0, user_thread_bootstrap = 0\<rparr>"

lemma sample_off_limits: "4096 \<in> off_limits (heap_buddy sample_heap)"
  by (auto simp: off_limits_def sample_heap_def page_bytes_def sample_pages_def)

lemma kmalloc_refill_buddy:
  assumes "find_pool sz = Some j" and "sz \<noteq> 0" and "aget (pools h) j = Some (pools h ! j)" and "free_of h j = []"
    and "buddy_alloc (heap_buddy h) PAGE_SIZE = Some (b, page)" and "page \<noteq> NULL" and "kmalloc h sz = Some (h', p)"
  shows "heap_buddy h' = b"
proof -
  obtain h1 ok where h1: "pool_refill h j = Some (h1, ok)"
    using assms(1,2,7) by (auto simp: kmalloc_def bind_eq_Some_conv)
  then have b: "heap_buddy h1 = b" "ok"
    using assms(3-6) by (auto simp: pool_refill_def bind_eq_Some_conv Let_def)
  then obtain pool where "aget (pools h1) j = Some pool"
    using assms(1,2,7) h1 by (auto simp: kmalloc_def bind_eq_Some_conv)
  with b show ?thesis
    using assms(1,2,7) h1 by (cases "pool_free_list pool") (auto simp: kmalloc_def)
qed

lemma sample_thread_memory:
  obtains h t h' stk where "kmalloc sample_heap THREAD_SIZE = Some (h, t)" and "t \<noteq> NULL"
    and "kmalloc h KSTACK_SIZE = Some (h', stk)" and "stk \<noteq> NULL"
proof -
  have pool: "find_pool THREAD_SIZE = Some 6" "find_pool KSTACK_SIZE = None"
    by (simp_all add: THREAD_SIZE_def KSTACK_SIZE_def find_pool_def find_pool_from.simps NUM_POOLS_def pool_sizes_def)
  have sz: "THREAD_SIZE \<noteq> 0" "KSTACK_SIZE \<noteq> 0" "0 < unat KSTACK_SIZE" "unat KSTACK_SIZE = 8192" "unat KSTACK_SIZE \<le> 2 ^ 64 - 4096"
    by (simp_all add: THREAD_SIZE_def KSTACK_SIZE_def)
  obtain h t where h: "kmalloc sample_heap THREAD_SIZE = Some (h, t)" "t \<noteq> NULL" "heap_live h {(t, 2 ^ (6 + 4))}"
    using kmalloc_small_succeeds [OF sample_heap_live sz(1) pool(1) sample_page] by auto
  have "aget (pools sample_heap) 6 = Some (pools sample_heap ! 6)" "free_of sample_heap 6 = []"
    by (simp_all add: sample_heap_def pool_sizes_def aget_def)
  from kmalloc_refill_buddy [OF pool(1) sz(1) this sample_page _ h(1)] have "heap_buddy h = sample_split" by simp
  then have split: "free_list (heap_buddy h) ! 1 \<noteq> []"
    by (simp add: sample_split_def MAX_ORDER_def)
  obtain A where A: "heap_base_ok h A"
    using h(3) by (auto simp: heap_live_def)
  then have b: "binv (heap_buddy h) A {}" "no_buddies (heap_buddy h)" "region_ok (heap_buddy h)"
    by (simp_all add: heap_base_ok_def)
  obtain b' p where run: "buddy_alloc (heap_buddy h) KSTACK_SIZE = Some (b', p)" and p: "p \<noteq> NULL"
  proof -
    obtain b' p where run: "buddy_alloc (heap_buddy h) KSTACK_SIZE = Some (b', p)" and out:
      "(\<forall>k\<le>MAX_ORDER. unat KSTACK_SIZE \<le> 4096 * 2 ^ k \<longrightarrow> free_list (heap_buddy h) ! k = []) \<or>
       (\<exists>i k. p = idx_to_addr (heap_buddy h) i \<and> blk i k \<subseteq> free_pages (heap_buddy h))"
      using buddy_alloc_outcome [OF b(1,2) sz(2,5)] by blast
    have "\<not> (\<forall>k\<le>MAX_ORDER. unat KSTACK_SIZE \<le> 4096 * 2 ^ k \<longrightarrow> free_list (heap_buddy h) ! k = [])"
      using split sz(4) by (auto simp: MAX_ORDER_def intro!: exI [of _ 1])
    with out obtain i k where ik: "p = idx_to_addr (heap_buddy h) i" "blk i k \<subseteq> free_pages (heap_buddy h)"
      by blast
    then have "i \<in> free_pages (heap_buddy h)" by auto
    then have "p \<noteq> NULL"
      using page_partition [OF b(1)] idx_to_addr_in_region(1) [OF b(3), of i] ik(1) by auto
    with run that show thesis by blast
  qed
  obtain h' p' where run': "kmalloc h KSTACK_SIZE = Some (h', p')"
    using heap.alloc_law [OF h(3) sz(3,5)] by blast
  then have "p' = p"
    using run p pool(2) sz(2) by (auto simp: kmalloc_def bind_eq_Some_conv)
  with h(1,2) run' p that show thesis by blast
qed

lemma thread_create_room:
  assumes "kmalloc (k_heap k) THREAD_SIZE = Some (h, t)" and "t \<noteq> NULL" and "kmalloc h KSTACK_SIZE = Some (h', stk)"
    and "stk \<noteq> NULL" and "thread_create k fn = Some (k', t')"
  shows "t' = t \<and> g_next_tid k' = g_next_tid k + 1"
  using assms
  by (auto simp: thread_create_def thread_alloc_bare_def k_kmalloc_def link_child_def upd_def Let_def split: option.splits bind_splits if_splits)

lemma sample_sched_init:
  obtains k1 idle where "sched_init sample_start fn = Some k1" and "g_runq k1 = [idle]" and "g_next_tid k1 = 2"
    and "cur_state k1 = Some THREAD_RUNNING" and "kinv idle {} k1"
proof -
  have pre: "unstarted sample_start" "heap_live (k_heap sample_start) {}"
    "unat (g_bootstrap sample_start) \<in> off_limits (heap_buddy (k_heap sample_start))"
    using sample_heap_live sample_off_limits by (simp_all add: unstarted_def sample_start_def)
  obtain k1 where k1: "sched_init sample_start fn = Some k1" "cur_state k1 = Some THREAD_RUNNING"
    "g_runq k1 = [] \<or> (\<exists>idle. g_runq k1 = [idle] \<and> kinv idle {} k1)"
    using sched_init_kinv [OF pre(1,2) _ pre(3), of fn] by auto
  obtain h t h' stk where mem: "kmalloc sample_heap THREAD_SIZE = Some (h, t)" "t \<noteq> NULL"
    "kmalloc h KSTACK_SIZE = Some (h', stk)" "stk \<noteq> NULL"
    by (rule sample_thread_memory)
  obtain k0 t' where k0: "thread_create k0 fn = Some (k1, t')" "k_heap k0 = sample_heap" "g_next_tid k0 = 1" "g_runq k0 = []"
    using k1(1) by (auto simp: sched_init_def Let_def bind_eq_Some_conv sample_start_def)
  have "t' = t" "g_next_tid k1 = 2"
    using thread_create_room [of k0] mem k0 by auto
  moreover have "g_runq k1 \<noteq> []"
    using k0(1) mem(2) \<open>t' = t\<close> by (auto simp: thread_create_def split: if_splits bind_splits)
  ultimately show thesis
    using k1 that by blast
qed

theorem process_events_safe_witness:
  "\<exists>k1 idle k'. sched_init sample_start 0x80000200 = Some k1 \<and> g_runq k1 = [idle] \<and>
    run_events 0 [Create 0x80000300, Yield_cpu, Set_signal 5 0x5000, Kill 0 5, Yield_cpu, Sigreturn, Collect] k1 = Some k' \<and>
    isolated k' \<and> accounted {} k'"
proof -
  let ?es = "[Yield_cpu, Set_signal 5 0x5000, Kill 0 5, Yield_cpu, Sigreturn, Collect]"
  obtain k1 idle where k1: "sched_init sample_start 0x80000200 = Some k1" "g_runq k1 = [idle]" "g_next_tid k1 = 2"
    "cur_state k1 = Some THREAD_RUNNING" "kinv idle {} k1"
    by (rule sample_sched_init)
  obtain self where self: "threads k1 (cur k1) = Some self"
    using k1(4) st_Some by blast
  have ok: "event_ok 0 idle (Create 0x80000300) k1"
    using self k1(3) by (simp add: numbers_left_def)
  obtain k2 where k2: "do_event 0 (Create 0x80000300) k1 = Some k2" "kinv idle {} k2" "cur_state k2 = Some THREAD_RUNNING"
    using kinv_event [OF k1(5,4) ok] by blast
  have "events_ok 0 idle (Create 0x80000300 # ?es) k1"
    using ok k2(1) plain_events_ok [OF k2(2,3), of ?es] by (simp del: event_ok.simps do_event.simps)
  moreover have "unstarted sample_start" "heap_live (k_heap sample_start) {}"
    "unat (g_bootstrap sample_start) \<in> off_limits (heap_buddy (k_heap sample_start))"
    using sample_heap_live sample_off_limits by (simp_all add: unstarted_def sample_start_def)
  ultimately obtain k' where "run_events 0 (Create 0x80000300 # ?es) k1 = Some k'" "isolated k'" "accounted {} k'"
    using process_events_safe [OF _ _ _ _ k1(1,2)] by fastforce
  with k1(1,2) show ?thesis
    by blast
qed

end
