(* ===== verification/Syscall_Facts.thy ===== *)
theory Syscall_Facts
  imports Syscall
begin

text \<open>
  Properties of single system calls: what they write, what they refuse, and the order of events that
  \<^verbatim>\<open>sys_usleep\<close> relies on.
\<close>

section \<open>Ranges of user memory\<close>

lemma user_range_no_wrap:
  assumes "in_user_range b p n"
  shows "unat p + unat n < 2 ^ 64" and "unat (buddy_get_base b) \<le> unat p"
    and "unat p + unat n \<le> unat (buddy_get_base b + of_nat (buddy_get_total_pages b) * PAGE_SIZE)"
proof -
  have "\<not> p + n < p" "buddy_get_base b \<le> p" and e: "p + n \<le> buddy_get_base b + of_nat (buddy_get_total_pages b) * PAGE_SIZE"
    using assms by (simp_all add: in_user_range_def Let_def)
  then have "unat (p + n) = unat p + unat n"
    using unat_lt64 [of n] by (simp add: not_less word_le_nat_alt unat_plus_if_size word_size split: if_splits)
  then show "unat p + unat n < 2 ^ 64" "unat p + unat n \<le> unat (buddy_get_base b + of_nat (buddy_get_total_pages b) * PAGE_SIZE)"
    using e unat_lt64 [of "p + n"] by (simp_all add: word_le_nat_alt)
  show "unat (buddy_get_base b) \<le> unat p"
    using \<open>buddy_get_base b \<le> p\<close> by (simp add: word_le_nat_alt)
qed

lemma centre:
  assumes "v \<le> (of_nat n :: u32)" and "n < 2 ^ 31"
  shows "word_of_int (sint (of_nat n - v) sdiv 2) = (of_nat ((n - unat v) div 2) :: i32)"
proof -
  have le: "unat v \<le> n"
    using assms by (simp add: word_le_nat_alt unat_of_nat)
  then have "of_nat n - v = of_nat (n - unat v)"
    by (simp add: of_nat_diff)
  moreover have "sint (of_nat (n - unat v) :: i32) = int (n - unat v)"
    using assms(2) by (intro small_i32) simp
  moreover have "int (n - unat v) sdiv 2 = int ((n - unat v) div 2)"
    by (cases "n - unat v") (simp_all add: signed_divide_int_def zdiv_int)
  ultimately show ?thesis
    by simp
qed

text \<open>
  C15: A successful \<^verbatim>\<open>sys_display\<close> shows the image centred, and writes nothing else: every byte of every
  row of the window in the middle of the framebuffer is the byte of the user's image, every byte outside of the rows of the
  window, in the margins left and right of it too, is as before, and nothing but memory changes. The image must lie apart from
  the framebuffer, which must not wrap around the end of memory.
\<close>

theorem display_centred_in_framebuffer:
  assumes run: "sys_display fb k bmp w h = (k', Returns 0)" and fb: "unat fb + 8294400 \<le> 2 ^ 64"
    and apart: "unat bmp + 4 * (unat w * unat h) \<le> unat fb \<or> unat fb + 8294400 \<le> unat bmp"
    and x: "x = (1920 - unat w) div 2" and y: "y = (1080 - unat h) div 2"
  shows "k' = k\<lparr>k_mem := k_mem k'\<rparr> \<and>
    (\<forall>i<unat h. \<forall>j<4 * unat w. k_mem k' (of_nat (fb_row fb x (y + i) + j)) = k_mem k (of_nat (unat bmp + 4 * (i * unat w) + j))) \<and>
    (\<forall>a. (\<forall>i<unat h. \<not> (fb_row fb x (y + i) \<le> unat a \<and> unat a < fb_row fb x (y + i) + 4 * unat w)) \<longrightarrow> k_mem k' a = k_mem k a)"
proof -
  let ?w = "unat w" and ?h = "unat h"
  have args: "w \<noteq> 0" "h \<noteq> 0" "w \<le> FB_WIDTH" "h \<le> FB_HEIGHT" "user_range k bmp (ucast w * ucast h * 4)"
    and k': "k' = k\<lparr>k_mem := video_bmp_display fb bmp w h (k_mem k)\<rparr>"
    using run by (auto simp: sys_display_def not_less split: if_splits)
  have wh: "0 < ?w" "?w \<le> 1920" "0 < ?h" "?h \<le> 1080"
    using args(1-4) by (simp_all add: unat_gt_0 FB_WIDTH_def FB_HEIGHT_def word_le_nat_alt)
  have wide: "unat (ucast v :: u64) = unat v" for v :: u32
  proof -
    have "unat v < 2 ^ 32"
      using unsigned_less [of v] by simp
    then show ?thesis
      by (simp add: unsigned_ucast_eq take_bit_nat_eq_self)
  qed
  have "?w * ?h \<le> 1920 * 1080"
    using wh by (intro mult_le_mono)
  then have "unat (ucast w * ucast h * 4 :: u64) = 4 * (?w * ?h)"
    by (simp add: unat_word_ariths wide mult.commute)
  then have bmp: "unat bmp + 4 * (?w * ?h) \<le> 2 ^ 64"
    using user_range_no_wrap(1) [OF args(5) [unfolded user_range_def]] by simp
  have "sint h = int ?h"
    using small_i32(1) [of ?h] wh by simp
  then have rows: "video_bmp_display fb bmp w h (k_mem k) = video_rows ?h (of_nat 0) fb bmp (of_nat ?w) (of_nat x) (of_nat y) (k_mem k)"
    using centre [of w 1920] centre [of h 1080] args(3,4)
    by (simp add: video_bmp_display_def FB_WIDTH_def FB_HEIGHT_def x y)
  have xy: "x + ?w \<le> 1920" "y + ?h \<le> 1080"
    using wh by (simp_all add: x y)
  from video_rows_copy [OF fb bmp apart wh(1) xy, of 0 ?h "k_mem k"] show ?thesis
    unfolding k' rows by simp
qed

theorem display_centred_in_framebuffer_witness:
  "\<exists>k'. sys_display 0x1000 sample_kernel 0x80000000 1 1 = (k', Returns 0) \<and> k' = sample_kernel\<lparr>k_mem := k_mem k'\<rparr>"
proof -
  have r: "sys_display 0x1000 sample_kernel 0x80000000 1 1 =
      (sample_kernel\<lparr>k_mem := video_bmp_display 0x1000 0x80000000 1 1 (k_mem sample_kernel)\<rparr>, Returns 0)"
    by (simp add: sys_display_def user_range_def in_user_range_def sample_kernel_def sample_heap_def sample_pages_def
        buddy_get_base_def buddy_get_total_pages_def FB_WIDTH_def FB_HEIGHT_def PAGE_SIZE_def)
  from display_centred_in_framebuffer [OF r _ _ refl refl] show ?thesis
    using r by simp
qed

section \<open>Reading into user memory\<close>

lemma schedule_mem: "schedule k = Some k' \<Longrightarrow> k_mem k' = k_mem k"
  by (auto simp: schedule_def switch_to_def upd_def del_link_def bind_eq_Some_conv split: if_splits option.splits list.splits)

lemma uart_read_loop_writes:
  "uart_read_loop raw n m u buf i = (m', u', j, w) \<Longrightarrow> m' a \<noteq> m a \<Longrightarrow> \<exists>q<n. a = buf + i + of_nat q"
proof (induction raw n m u buf i arbitrary: m' u' j w rule: uart_read_loop.induct)
  case (1 raw m u buf i)
  then show ?case by simp
next
  case (2 raw n m u buf i)
  show ?case
  proof (cases "uart_getc raw u")
    case None
    with 2(2,3) show ?thesis by simp
  next
    case (Some r)
    obtain u1 c where r: "r = (u1, c)" by (cases r)
    show ?thesis
    proof (cases "sint c < 0")
      case True
      with 2(2,3) Some r show ?thesis by simp
    next
      case False
      with 2(2) Some r have run: "uart_read_loop raw n (m(buf + i := ucast c)) u1 buf (i + 1) = (m', u', j, w)"
        by simp
      show ?thesis
      proof (cases "a = buf + i")
        case True
        then show ?thesis by (intro exI [of _ 0]) simp
      next
        case ne: False
        then have "m' a \<noteq> (m(buf + i := ucast c)) a"
          using 2(3) by simp
        from 2(1) [OF Some r [symmetric] False run this] obtain q where "q < n" "a = buf + (i + 1) + of_nat q"
          by auto
        then show ?thesis
          by (intro exI [of _ "Suc q"]) (simp add: algebra_simps)
      qed
    qed
  qed
qed

text \<open>
  C16: \<^verbatim>\<open>sys_uart_read\<close> writes only inside the buffer that the caller passed, and that buffer lies inside the
  DRAM that the page allocator manages, whether the call returns, fails or waits for more input.
\<close>

theorem uart_read_writes_buffer_only:
  assumes run: "sys_uart_read raw k u buf cnt = Some (k', u', out)" and a: "k_mem k' a \<noteq> k_mem k a"
  shows "unat buf \<le> unat a \<and> unat a < unat buf + unat cnt \<and>
    unat (buddy_get_base (heap_buddy (k_heap k))) \<le> unat a \<and>
    unat a < unat (buddy_get_base (heap_buddy (k_heap k)) + of_nat (buddy_get_total_pages (heap_buddy (k_heap k))) * PAGE_SIZE)"
proof -
  obtain m w j where loop: "uart_read_loop raw (unat cnt) (k_mem k) u buf 0 = (m, u', j, w)" and m: "k_mem k' = m"
    and rng: "in_user_range (heap_buddy (k_heap k)) buf cnt"
    using run a schedule_mem by (auto simp: sys_uart_read_def uart_read_on_def user_range_def bind_eq_Some_conv split: if_splits prod.splits)
  obtain q where q: "q < unat cnt" "a = buf + of_nat q"
    using uart_read_loop_writes [OF loop, of a] a m by auto
  note r = user_range_no_wrap [OF rng]
  have "unat (of_nat q :: u64) = q"
    using q(1) unat_lt64 [of cnt] by (simp add: unat_of_nat)
  then have "unat a = unat buf + q"
    using q r(1) unat_add_lem [of buf "of_nat q"] by simp
  with q(1) r(2,3) show ?thesis
    by simp
qed

text \<open>A polled read of one letter.\<close>

definition sample_uart :: uart where
  "sample_uart = \<lparr>rx_buf = \<lparr>rbuf = replicate 256 0, rhead = 0, rtail = 0\<rparr>, tx_buf = \<lparr>rbuf = replicate 256 0, rhead = 0, rtail = 0\<rparr>,
     g_uart_irq_mode = False, uart_IER = 0, uart_MCR = 0, tx_out = []\<rparr>"

theorem uart_read_writes_buffer_only_witness:
  "\<exists>k'. sys_uart_read [(1, 65)] sample_kernel sample_uart 0x80000010 1 = Some (k', sample_uart, Returns 1) \<and>
    k_mem k' 0x80000010 = 65 \<and> unat (0x80000010 :: u64) < unat (0x80000010 :: u64) + unat (1 :: u64)"
proof -
  let ?k = "sample_kernel\<lparr>k_mem := (k_mem sample_kernel)(0x80000010 := 65)\<rparr>"
  have n: "unat (1 - 0 :: u64) = Suc 0"
    by simp
  have rng: "user_range sample_kernel 0x80000010 1"
    by (simp add: user_range_def in_user_range_def sample_kernel_def sample_heap_def sample_pages_def
        buddy_get_base_def buddy_get_total_pages_def PAGE_SIZE_def)
  have get: "uart_getc [(1, 65)] sample_uart = Some (sample_uart, 65)"
    by (simp add: uart_getc_def sample_uart_def LSR_DR_def LSR_ERRORS_def)
  have run: "sys_uart_read [(1, 65)] sample_kernel sample_uart 0x80000010 1 = Some (?k, sample_uart, Returns 1)"
    using rng get unfolding sys_uart_read_def uart_read_on_def n by simp
  have "k_mem ?k 0x80000010 \<noteq> k_mem sample_kernel 0x80000010"
    by (simp add: sample_kernel_def)
  from uart_read_writes_buffer_only [OF run this] run show ?thesis
    by simp
qed

section \<open>Rejected calls\<close>

text \<open>The arguments that a call refuses, in the order of the dispatch table. Process numbers are looked up
  in the process tree.\<close>

definition bad_signal :: "u64 \<Rightarrow> bool" where
  "bad_signal a = (sint (ucast a :: i32) \<le> 0 \<or> int NSIG \<le> sint (ucast a :: i32))"

definition bad_call :: "kernel \<Rightarrow> thread \<Rightarrow> bool" where
  "bad_call k self =
     (let tf = kframe self; nr = tf_a7 tf; a0 = tf_a0 tf; a1 = tf_a1 tf; a2 = tf_a2 tf in
        nr > 12
      \<or> nr = 1 \<and> (sint a1 \<le> 0 \<or> \<not> user_range k a0 a1)
      \<or> nr = 2 \<and> (sint a1 < 0 \<or> \<not> user_range k a0 a1)
      \<or> nr = 3 \<and> image_base self = NULL
      \<or> nr = 4 \<and> image_base self = NULL
      \<or> nr = 5 \<and> find_child k (children self) (ucast a0) = Some None
      \<or> nr = 7 \<and> ucast a0 \<noteq> pid self \<and> find_thread_by_pid k (ucast a0) = Some None
      \<or> nr = 8 \<and> ((ucast a1 :: u32) = 0 \<or> (ucast a2 :: u32) = 0 \<or> FB_WIDTH < ucast a1 \<or> FB_HEIGHT < ucast a2 \<or>
           \<not> user_range k a0 (ucast (ucast a1 :: u32) * ucast (ucast a2 :: u32) * 4))
      \<or> nr = 10 \<and> bad_signal a0
      \<or> nr = 11 \<and> \<not> sig_in_handler (sig self)
      \<or> nr = 12 \<and> (bad_signal a1 \<or> find_thread_by_pid k (ucast a0) = Some None))"

text \<open>
  C17: A system call with arguments that it refuses returns -1 and leaves the kernel, the timers and the
  serial port as they were: unknown numbers, ranges outside of DRAM, exec and fork by a kernel
  thread, a process that is not a child, dimensions that do not fit, bad signal numbers, sigreturn
  outside of a handler, unknown processes.
\<close>

theorem bad_call_changes_nothing:
  assumes self: "threads k (cur k) = Some self" and bad: "bad_call k self"
  shows "do_syscall env (k, tm, u) = Some ((k, tm, u), Returns (-1))"
proof -
  let ?tf = "kframe self"
  consider "tf_a7 ?tf > 12" | "tf_a7 ?tf = 1" | "tf_a7 ?tf = 2" | "tf_a7 ?tf = 3" | "tf_a7 ?tf = 4" | "tf_a7 ?tf = 5"
    | "tf_a7 ?tf = 7" | "tf_a7 ?tf = 8" | "tf_a7 ?tf = 10" | "tf_a7 ?tf = 11" | "tf_a7 ?tf = 12"
    using bad by (auto simp: bad_call_def Let_def)
  then show ?thesis
  proof cases
    case 1
    then have "tf_a7 ?tf \<noteq> 0" "tf_a7 ?tf \<noteq> 1" "tf_a7 ?tf \<noteq> 2" "tf_a7 ?tf \<noteq> 3" "tf_a7 ?tf \<noteq> 4" "tf_a7 ?tf \<noteq> 5" "tf_a7 ?tf \<noteq> 6"
      "tf_a7 ?tf \<noteq> 7" "tf_a7 ?tf \<noteq> 8" "tf_a7 ?tf \<noteq> 9" "tf_a7 ?tf \<noteq> 10" "tf_a7 ?tf \<noteq> 11" "tf_a7 ?tf \<noteq> 12"
      by auto
    then show ?thesis
      using self by (simp add: do_syscall_def get_current_def)
  qed (use self bad in \<open>auto simp: do_syscall_def bad_call_def Let_def bad_signal_def get_current_def on_kernel_def on_uart_def
        sys_uart_read_def sys_uart_write_def sys_exec_def sys_fork_def sys_waitpid_def sys_stop_def sys_display_def
        sys_signal_def sys_sigreturn_def signal_return_def sys_kill_def\<close>)
qed

text \<open>A call with a number that does not exist.\<close>

theorem bad_call_changes_nothing_witness:
  "\<forall>env tm u. do_syscall env (sample_kernel\<lparr>threads := (threads sample_kernel)(0x1000 \<mapsto>
      (sample_thread 0 THREAD_RUNNING [])\<lparr>kframe := zero_frame\<lparr>tf_a7 := 99\<rparr>\<rparr>)\<rparr>, tm, u) =
    Some ((sample_kernel\<lparr>threads := (threads sample_kernel)(0x1000 \<mapsto>
      (sample_thread 0 THREAD_RUNNING [])\<lparr>kframe := zero_frame\<lparr>tf_a7 := 99\<rparr>\<rparr>)\<rparr>, tm, u), Returns (-1))"
  by (intro allI, rule bad_call_changes_nothing [where self = "(sample_thread 0 THREAD_RUNNING [])\<lparr>kframe := zero_frame\<lparr>tf_a7 := 99\<rparr>\<rparr>"])
    (simp_all add: sample_kernel_def bad_call_def Let_def)

section \<open>Sleeping\<close>

text \<open>The first half of \<^verbatim>\<open>sys_usleep\<close>, up to the call of \<^verbatim>\<open>thread_block\<close>: the token on the kernel stack and the timer. Interrupts
  are on here, so the timer may expire and its callback may run before the second half.\<close>

definition usleep_arm :: "u64 \<Rightarrow> u64 \<Rightarrow> u64 \<Rightarrow> kernel \<Rightarrow> timers \<Rightarrow> u32 \<Rightarrow> (kernel \<times> timers) option" where
  "usleep_arm now cb tok k tm usec = do {
     let k1 = k\<lparr>k_mem := store64 (k_mem k) tok (get_current k)\<rparr>;
     (h, tm') \<leftarrow> add_timer_us (k_heap k1) tm now cb tok (ucast usec);
     Some (k1\<lparr>k_heap := h\<rparr>, tm')
   }"

lemma sys_usleep_halves:
  assumes "usec \<noteq> 0"
  shows "sys_usleep now cb tok k tm usec = do {
    (k1, tm') \<leftarrow> usleep_arm now cb tok k tm usec;
    k2 \<leftarrow> thread_block k1;
    Some (k2, tm', Waiting In_usleep)
  }"
  using assms by (simp add: sys_usleep_def usleep_arm_def Let_def bind_assoc split: bind_splits prod.splits)

text \<open>A blocked thread that stands in no queue and is not the current one stays so until it is woken.\<close>

definition parked :: "u64 \<Rightarrow> kernel \<Rightarrow> bool" where
  "parked t k \<longleftrightarrow> st k t = Some THREAD_BLOCKED \<and> t \<notin> set (g_runq k) \<and> cur k \<noteq> t"

lemma parked_upd:
  assumes "parked t k" and "upd k u f = Some k'" and "u \<noteq> t"
  shows "parked t k'"
  using assms by (auto simp: parked_def upd_def st_def split: option.splits)

lemma parked_switch:
  assumes "parked t k" and "switch_to k p n = Some k'" and "p \<noteq> t" and "n \<noteq> t"
  shows "parked t k'"
  using assms by (auto simp: parked_def switch_to_def upd_def st_def bind_eq_Some_conv split: option.splits)

lemma parked_schedule:
  assumes p: "parked t k" and run: "schedule k = Some k'"
  shows "parked t k'"
proof -
  obtain prev k1 where prev: "threads k (cur k) = Some prev" and k1: "(if state prev = THREAD_RUNNING
      then do { k' \<leftarrow> upd k (cur k) (\<lambda>th. th\<lparr>state := THREAD_READY\<rparr>); Some (k'\<lparr>g_runq := g_runq k' @ [cur k]\<rparr>) }
      else Some k) = Some k1"
    and rest: "(case g_runq k1 of
       [] \<Rightarrow> (if state prev = THREAD_READY then upd k1 (cur k) (\<lambda>th. th\<lparr>state := THREAD_RUNNING\<rparr>) else Some k1)
     | next # _ \<Rightarrow> do {
         k2 \<leftarrow> upd (del_link next k1) next (\<lambda>th. th\<lparr>state := THREAD_RUNNING\<rparr>);
         if cur k \<noteq> next then switch_to k2 (cur k) next else Some k2 }) = Some k'"
    using run unfolding schedule_def bind_eq_Some_conv by blast
  have c: "cur k \<noteq> t" using p by (simp add: parked_def)
  have p1: "parked t k1"
    using k1 p c prev by (auto simp: parked_def upd_def st_def split: if_splits)
  show ?thesis
  proof (cases "g_runq k1")
    case Nil
    with rest p1 parked_upd [OF p1 _ c] show ?thesis by (auto split: if_splits)
  next
    case (Cons n r)
    then have n: "n \<noteq> t" using p1 by (auto simp: parked_def)
    have d: "parked t (del_link n k1)"
      using p1 by (auto simp: parked_def del_link_def st_def dest: in_set_remove1 [THEN iffD1, rotated] notin_set_remove1)
    from rest Cons obtain k2 where k2: "upd (del_link n k1) n (\<lambda>th. th\<lparr>state := THREAD_RUNNING\<rparr>) = Some k2"
      and k': "(if cur k \<noteq> n then switch_to k2 (cur k) n else Some k2) = Some k'"
      by (auto simp: bind_eq_Some_conv)
    from k' parked_upd [OF d k2 n] parked_switch [OF parked_upd [OF d k2 n] _ c n] show ?thesis
      by (auto split: if_splits)
  qed
qed

lemma parked_step:
  assumes p: "parked t k" and run: "sched_do e k = Some k'" and e: "e \<noteq> Wake t"
  shows "parked t k'"
proof (cases e)
  case Yield
  then show ?thesis
    using run by (intro parked_schedule [OF p]) simp
next
  case Block
  then obtain k1 where k1: "upd k (cur k) (\<lambda>th. th\<lparr>state := THREAD_BLOCKED\<rparr>) = Some k1" "schedule k1 = Some k'"
    using run by (auto simp: thread_block_def bind_eq_Some_conv)
  have "cur k \<noteq> t" using p by (simp add: parked_def)
  from parked_schedule [OF parked_upd [OF p k1(1) this] k1(2)] show ?thesis .
next
  case Exit
  from run [unfolded this] obtain self :: thread and k1 where k1: "upd k (cur k) (\<lambda>th. th\<lparr>state := THREAD_ZOMBIE\<rparr>) = Some k1"
    "schedule (sched_zombify (if parent self \<noteq> NULL then del_sibling (cur k) k1 else k1) (cur k)) = Some k'"
    unfolding sched_do.simps thread_exit_def Let_def bind_eq_Some_conv by (elim exE conjE) (rule that)
  have "cur k \<noteq> t" using p by (simp add: parked_def)
  from parked_upd [OF p k1(1) this] have "parked t (sched_zombify (if parent self \<noteq> NULL then del_sibling (cur k) k1 else k1) (cur k))"
    by (auto simp: parked_def sched_zombify_def)
  from parked_schedule [OF this k1(2)] show ?thesis .
next
  case (Wake u)
  with p run e show ?thesis
    by (auto simp: parked_def thread_wakeup_def upd_def st_def bind_eq_Some_conv split: if_splits option.splits)
qed

lemma parked_trace:
  "parked t k \<Longrightarrow> sched_trace es k = Some ks \<Longrightarrow> Wake t \<notin> set es \<Longrightarrow> \<forall>k'\<in>set ks. parked t k'"
proof (induction es arbitrary: k ks)
  case (Cons e es)
  then obtain k1 ks1 where k1: "sched_do e k = Some k1" "sched_trace es k1 = Some ks1" "ks = k # ks1"
    by (auto simp: bind_eq_Some_conv)
  have "parked t k1"
    using parked_step [OF Cons.prems(1) k1(1)] Cons.prems(3) by auto
  with Cons.IH [OF _ k1(2)] Cons.prems(1,3) k1(3) show ?case by simp
qed auto

text \<open>
  C18: \<^verbatim>\<open>sys_usleep\<close> arms its timer first and then calls \<^verbatim>\<open>thread_block\<close>, with interrupts on in between. After
  \<^verbatim>\<open>thread_block\<close> the caller is blocked and in no queue, and the callback of the timer makes it ready. If the callback runs
  between the two halves, it changes nothing, and the sleep has lost its wake-up: whatever the
  threads then do, yield, block, exit or wake others, the sleeper stays blocked, stands in no queue and is never
  current, as long as nobody else wakes it (a child that exits would).
\<close>

theorem usleep_needs_block_first:
  assumes inv: "sched_inv k" and c: "cur_state k = Some THREAD_RUNNING" "cur k \<noteq> NULL" and q: "g_runq k \<noteq> []"
    and usec: "usec \<noteq> 0" and arm: "usleep_arm now cb tok k tm usec = Some (k1, tm')"
  shows "\<exists>k2. thread_block k1 = Some k2 \<and> sys_usleep now cb tok k tm usec = Some (k2, tm', Waiting In_usleep) \<and>
    st k2 (cur k) = Some THREAD_BLOCKED \<and> cur k \<notin> set (g_runq k2) \<and>
    (\<exists>k3. usleep_cb k2 tok = Some k3 \<and> st k3 (cur k) = Some THREAD_READY \<and> cur k \<in> set (g_runq k3)) \<and>
    usleep_cb k1 tok = Some k1 \<and>
    (\<forall>es ks. sched_trace es k2 = Some ks \<and> Wake (cur k) \<notin> set es \<longrightarrow>
      (\<forall>k'\<in>set ks. st k' (cur k) = Some THREAD_BLOCKED \<and> cur k \<notin> set (g_runq k') \<and> cur k' \<noteq> cur k))"
proof -
  obtain th where th: "threads k (cur k) = Some th" "state th = THREAD_RUNNING"
    using st_Some [OF c(1)] by blast
  obtain h where k1: "k1 = k\<lparr>k_mem := store64 (k_mem k) tok (cur k), k_heap := h\<rparr>"
    using arm by (auto simp: usleep_arm_def get_current_def bind_eq_Some_conv Let_def)
  have th1: "threads k1 (cur k1) = Some th" and tok: "load64 (k_mem k1) tok = cur k" and cur1: "cur k1 = cur k"
    using th(1) by (simp_all add: k1 load64_store64)
  have inv1: "sched_inv k1" and run1: "cur_state k1 = Some THREAD_RUNNING"
    using inv c(1) by (simp_all add: k1 sched_inv_def)
  let ?k = "k1\<lparr>threads := (threads k1)(cur k1 \<mapsto> th\<lparr>state := THREAD_BLOCKED\<rparr>)\<rparr>"
  have inv': "sched_inv ?k"
    by (rule set_cur_state_inv [OF inv1 th1 th(2)]) simp
  obtain n r where nr: "g_runq k1 = n # r"
    using q by (cases "g_runq k") (auto simp: k1)
  obtain nth where nth: "n \<noteq> cur k1" "schedule ?k = Some (?k\<lparr>threads := (threads ?k)(n \<mapsto> nth\<lparr>state := THREAD_RUNNING\<rparr>,
      cur k1 \<mapsto> th\<lparr>state := THREAD_BLOCKED, ctx := hart k1\<rparr>), g_runq := r, hart := ctx nth, cur := n\<rparr>)"
    using schedule_away [OF inv', of "th\<lparr>state := THREAD_BLOCKED\<rparr>" n r] nr by auto
  let ?k2 = "?k\<lparr>threads := (threads ?k)(n \<mapsto> nth\<lparr>state := THREAD_RUNNING\<rparr>,
      cur k1 \<mapsto> th\<lparr>state := THREAD_BLOCKED, ctx := hart k1\<rparr>), g_runq := r, hart := ctx nth, cur := n\<rparr>"
  have block: "thread_block k1 = Some ?k2"
    using th1 nth(2) by (simp add: thread_block_def upd_def)
  have nq: "cur k \<notin> set (g_runq k1)"
    using sched_invD(3) [OF inv1, of "cur k"] run1 cur1 by auto
  have parked: "parked (cur k) ?k2"
    using nq nr nth(1) by (simp add: parked_def st_def cur1)
  have "\<exists>k3. usleep_cb ?k2 tok = Some k3 \<and> st k3 (cur k) = Some THREAD_READY \<and> cur k \<in> set (g_runq k3)"
    using tok c(2) by (simp add: usleep_cb_def thread_wakeup_def upd_def st_def cur1)
  moreover have "usleep_cb k1 tok = Some k1"
    using tok c(2) th th1 by (simp add: usleep_cb_def thread_wakeup_def cur1)
  moreover have "sys_usleep now cb tok k tm usec = Some (?k2, tm', Waiting In_usleep)"
    unfolding sys_usleep_halves [OF usec] arm by (simp add: block)
  moreover have "\<forall>k'\<in>set ks. st k' (cur k) = Some THREAD_BLOCKED \<and> cur k \<notin> set (g_runq k') \<and> cur k' \<noteq> cur k"
    if "sched_trace es ?k2 = Some ks" "Wake (cur k) \<notin> set es" for es ks
    using parked_trace [OF parked that] by (auto simp: parked_def)
  ultimately show ?thesis
    using block parked unfolding parked_def by blast
qed

theorem usleep_needs_block_first_witness:
  "\<exists>k1 tm' k2 k'. usleep_arm 10 7 0x9000 sample_kernel \<lparr>g_timer_queue = [], g_timebase_freq = 10000000, stimer = 100,
       resched = False\<rparr> 20 = Some (k1, tm') \<and> usleep_cb k1 0x9000 = Some k1 \<and> thread_block k1 = Some k2 \<and>
     sched_trace [Yield] k2 = Some [k2, k'] \<and> st k' 0x1000 = Some THREAD_BLOCKED \<and> 0x1000 \<notin> set (g_runq k')"
proof -
  let ?tm = "\<lparr>g_timer_queue = [], g_timebase_freq = 10000000, stimer = 100, resched = False\<rparr>"
  have sz: "TIMER_NODE_SIZE \<noteq> 0" by (simp add: TIMER_NODE_SIZE_def)
  obtain h p where "kmalloc sample_heap TIMER_NODE_SIZE = Some (h, p)"
    using kmalloc_small_live [OF sample_heap_live sz find_pool_timer] by blast
  then have "\<exists>h' tm'. add_timer_us sample_heap ?tm 10 7 0x9000 (ucast (20 :: u32)) = Some (h', tm')"
    unfolding add_timer_us_def add_timer_ticks_def by (cases "p = NULL") (simp_all add: Let_def)
  then obtain k1 tm' where arm: "usleep_arm 10 7 0x9000 sample_kernel ?tm 20 = Some (k1, tm')"
    by (auto simp: usleep_arm_def sample_kernel_def Let_def)
  have cur: "cur sample_kernel = 0x1000" "cur sample_kernel \<noteq> NULL" "g_runq sample_kernel \<noteq> []"
    by (simp_all add: sample_kernel_def)
  have usec: "(20 :: u32) \<noteq> 0" by simp
  from usleep_needs_block_first [OF sample_kernel_ok cur(2,3) usec arm]
  obtain k2 where k2: "thread_block k1 = Some k2" "usleep_cb k1 0x9000 = Some k1"
    and stays: "\<And>es ks k'. sched_trace es k2 = Some ks \<Longrightarrow> Wake (cur sample_kernel) \<notin> set es \<Longrightarrow> k' \<in> set ks \<Longrightarrow>
      st k' (cur sample_kernel) = Some THREAD_BLOCKED \<and> cur sample_kernel \<notin> set (g_runq k')"
    by blast
  have inv1: "sched_inv k1" "cur_state k1 = Some THREAD_RUNNING" "g_runq k1 \<noteq> []"
    using sample_kernel_ok arm cur(3) by (auto simp: usleep_arm_def bind_eq_Some_conv Let_def sched_inv_def)
  from thread_block_inv [OF inv1(1,2)] inv1(3) k2(1) have "sched_inv k2" "cur_state k2 = Some THREAD_RUNNING"
    by auto
  then obtain k' where "schedule k2 = Some k'"
    using schedule_inv [of k2 "g_runq k2 @ [cur k2]"] by auto
  then have tr: "sched_trace [Yield] k2 = Some [k2, k']" by simp
  from stays [OF tr] have "st k' 0x1000 = Some THREAD_BLOCKED \<and> 0x1000 \<notin> set (g_runq k')"
    by (simp add: cur(1))
  with arm k2 tr show ?thesis by blast
qed

end
