(* ===== verification/Process_Facts.thy ===== *)
theory Process_Facts
  imports Process_Safety Syscall_Facts
begin

text \<open>
  What processes see of signals, exit, waitpid and fork, and a small running system on which these
  properties are applied.
\<close>

section \<open>A handler and its return\<close>

lemma signal_release_run:
  assumes "threads k t = Some th" and "t \<noteq> NULL" and "sigstack_base (sig th) \<noteq> NULL" and "kfree (k_heap k) (sigstack_base (sig th)) = Some h"
  shows "signal_release k t = Some (k\<lparr>k_heap := h,
    threads := (threads k)(t \<mapsto> th\<lparr>sig := (sig th)\<lparr>sigstack_base := NULL, sig_in_handler := False\<rparr>\<rparr>)\<rparr>)"
  using assms by (simp add: signal_release_def k_kfree_def upd_def)

lemma load32_store32_next: "load32 (store32 m (a + 4) w) a = load32 m a"
proof -
  have "store32 m (a + 4) w (a + of_nat i) = m (a + of_nat i)" if "i < 4" for i
    unfolding store32_def
  proof (rule store_bytes_other, intro allI impI)
    fix j
    assume "j < length (le_bytes 4 w)"
    then have j: "j < 4"
      by (simp add: le_bytes_def)
    have "of_nat i \<noteq> (of_nat (4 + j) :: u64)"
    proof
      assume "of_nat i = (of_nat (4 + j) :: u64)"
      then have "unat (of_nat i :: u64) = unat (of_nat (4 + j) :: u64)"
        by (rule arg_cong)
      then show False
        using that j by (simp add: unat_of_nat del: of_nat_add of_nat_numeral)
    qed
    then show "a + of_nat i \<noteq> a + 4 + of_nat j"
      by (simp add: add.assoc)
  qed
  then show ?thesis
    unfolding load32_def by (intro foldr_cong) auto
qed

lemma trampoline_loads:
  "load32 (plant_sigreturn_trampoline m a) a = TRAMPOLINE_INST0"
  "load32 (plant_sigreturn_trampoline m a) (a + 4) = TRAMPOLINE_INST1"
  by (simp_all add: plant_sigreturn_trampoline_def load32_store32_next)

text \<open>
  C6: A signal handler runs and returns without a trace. Dispatch of the lowest pending signal starts the
  handler with the signal's number, on a fresh stack that begins with the two instructions of the
  sigreturn call, and clears the signal; whatever frame the handler leaves, \<^verbatim>\<open>sigreturn\<close> gives back
  the interrupted frame and the rest of the thread exactly, frees the stack, and returns the
  interrupted value of \<^verbatim>\<open>a0\<close>.
\<close>

theorem signal_handler_roundtrip:
  assumes live: "heap_live (k_heap k) R" and self: "threads k (cur k) = Some self" "cur k \<noteq> NULL" "image_base self \<noteq> NULL"
    and sig: "sig_ok (sig self)" "\<not> sig_in_handler (sig self)" "sigstack_base (sig self) = NULL"
    and i: "lowest_bit_index (sig_pending (sig self)) = Some i" "sig_pending (sig self) \<noteq> 0"
    and h: "sig_handlers (sig self) ! i \<noteq> SIG_IGN" "sig_handlers (sig self) ! i \<noteq> SIG_DFL"
    and stk: "kmalloc (k_heap k) SIGSTACK_SIZE = Some (hp, stk)" "stk \<noteq> NULL"
  shows "\<exists>k1 self1. signal_check_and_dispatch k = Some k1 \<and> threads k1 (cur k) = Some self1 \<and> cur k1 = cur k \<and>
    sig_in_handler (sig self1) \<and> sig_pending (sig self1) = sig_pending (sig self) AND NOT (push_bit i 1) \<and>
    tf_sepc (kframe self1) = sig_handlers (sig self) ! i \<and> tf_a0 (kframe self1) = of_nat i \<and>
    tf_sp (kframe self1) = (stk + SIGSTACK_SIZE) AND NOT 0xF \<and> tf_ra (kframe self1) = stk \<and>
    load32 (k_mem k1) stk = TRAMPOLINE_INST0 \<and> load32 (k_mem k1) (stk + 4) = TRAMPOLINE_INST1 \<and>
    (\<forall>f. \<exists>k2. signal_return (k1\<lparr>threads := (threads k1)(cur k \<mapsto> self1\<lparr>kframe := f\<rparr>)\<rparr>) = Some (k2, tf_a0 (kframe self)) \<and>
      threads k2 = (threads k)(cur k \<mapsto> self\<lparr>sig := (sig self)\<lparr>sig_pending := sig_pending (sig self) AND NOT (push_bit i 1),
        sig_saved := kframe self\<rparr>\<rparr>) \<and> heap_live (k_heap k2) R)"
proof -
  let ?p = "sig_pending (sig self) AND NOT (push_bit i 1)" and ?h = "sig_handlers (sig self) ! i"
  define self1 where "self1 = self\<lparr>sig := (sig self)\<lparr>sig_pending := ?p, sig_saved := kframe self, sigstack_base := stk,
    sig_in_handler := True\<rparr>, kframe := handler_frame (kframe self) ?h stk i\<rparr>"
  define k1 where "k1 = k\<lparr>k_heap := hp, threads := (threads k)(cur k \<mapsto> self1), k_mem := plant_sigreturn_trampoline (k_mem k) stk\<rparr>"
  have "bit (sig_pending (sig self)) i"
    using lowest_bit_index_eq [OF i(2)] i(1) by auto
  then have "i < length (sig_handlers (sig self))"
    using sig(1) by (metis NSIG_def low_bits not_le sig_ok_def)
  then have run: "signal_check_and_dispatch k = Some k1"
    using self sig(2) i h stk by (simp add: signal_check_and_dispatch_def get_current_def upd_def k_kmalloc_def k1_def self1_def)
  have sz: "0 < unat SIGSTACK_SIZE" "unat SIGSTACK_SIZE \<le> 2 ^ 64 - 4096"
    by (simp_all add: sizes)
  obtain n where n: "(stk, n) \<notin> R" "heap_live hp (insert (stk, n) R)"
    using heap.alloc_law [OF live sz] stk by auto
  obtain h2 where h2: "kfree hp stk = Some h2" "heap_live h2 R"
    using heap.free_law [OF n(2), of stk n] n(1) by auto
  have ret: "\<exists>k2. signal_return (k1\<lparr>threads := (threads k1)(cur k \<mapsto> self1\<lparr>kframe := f\<rparr>)\<rparr>) = Some (k2, tf_a0 (kframe self)) \<and>
      threads k2 = (threads k)(cur k \<mapsto> self\<lparr>sig := (sig self)\<lparr>sig_pending := ?p, sig_saved := kframe self\<rparr>\<rparr>) \<and>
      heap_live (k_heap k2) R" for f
  proof -
    let ?th = "self1\<lparr>kframe := kframe self\<rparr>"
    let ?k = "k1\<lparr>threads := (threads k)(cur k \<mapsto> ?th)\<rparr>"
    have "signal_release ?k (cur k) = Some (?k\<lparr>k_heap := h2,
        threads := (threads ?k)(cur k \<mapsto> ?th\<lparr>sig := (sig ?th)\<lparr>sigstack_base := NULL, sig_in_handler := False\<rparr>\<rparr>)\<rparr>)"
      by (rule signal_release_run) (use self(2) stk(2) h2(1) in \<open>simp_all add: self1_def k1_def\<close>)
    moreover have "signal_return (k1\<lparr>threads := (threads k1)(cur k \<mapsto> self1\<lparr>kframe := f\<rparr>)\<rparr>) =
        do { k2 \<leftarrow> signal_release ?k (cur k); Some (k2, tf_a0 (kframe self)) }"
      by (simp add: signal_return_def upd_def k1_def self1_def)
    moreover have "?th\<lparr>sig := (sig ?th)\<lparr>sigstack_base := NULL, sig_in_handler := False\<rparr>\<rparr> =
        self\<lparr>sig := (sig self)\<lparr>sig_pending := ?p, sig_saved := kframe self\<rparr>\<rparr>"
      using sig(2,3) by (simp add: self1_def)
    ultimately show ?thesis
      using h2(2) by simp
  qed
  show ?thesis
    by (rule exI [of _ k1], rule exI [of _ self1])
      (use run ret in \<open>simp add: k1_def self1_def handler_frame_def trampoline_loads\<close>)
qed

text \<open>A thread of the sample kernel with a handler for signal 5 and signals 5 and 7 pending.\<close>

definition sample_signalled :: thread where
  "sample_signalled = (sample_thread 0 THREAD_RUNNING [])\<lparr>image_base := 0x5000, sig :=
     signal_state_init\<lparr>sig_pending := 0xA0, sig_handlers := (replicate NSIG 0)[5 := 0x5100]\<rparr>\<rparr>"

lemma sample_sigstack:
  obtains hp stk where "kmalloc sample_heap SIGSTACK_SIZE = Some (hp, stk)" and "stk \<noteq> NULL"
proof -
  have sz: "0 < unat SIGSTACK_SIZE" "unat SIGSTACK_SIZE \<le> 2 ^ 64 - 4096" "SIGSTACK_SIZE \<noteq> 0"
    by (simp_all add: sizes, simp add: SIGSTACK_SIZE_def)
  obtain hp stk where run: "kmalloc sample_heap SIGSTACK_SIZE = Some (hp, stk)"
    using heap.alloc_law [OF sample_heap_live sz(1,2)] by blast
  have pool: "find_pool SIGSTACK_SIZE = None"
    by (simp add: find_pool_def find_pool_from.simps NUM_POOLS_def pool_sizes_def SIGSTACK_SIZE_def)
  obtain b p where b: "buddy_alloc sample_pages SIGSTACK_SIZE = Some (b, p)" and p: "p \<noteq> NULL"
  proof -
    have "free_list sample_pages ! 2 \<noteq> []" "unat SIGSTACK_SIZE \<le> 4096 * 2 ^ 2" "2 \<le> MAX_ORDER"
      using sample_pages_free_list [of 2] by (simp_all add: sizes MAX_ORDER_def)
    moreover have "idx_to_addr sample_pages i \<noteq> NULL" if "blk i k \<subseteq> free_pages sample_pages" for i k
    proof -
      have "i \<in> free_pages sample_pages"
        using that by auto
      then have "i < 5"
        using page_partition [OF sample_pages_ok(1)] by (simp add: sample_pages_def)
      then have "i = 0 \<or> i = 1 \<or> i = 2 \<or> i = 3 \<or> i = 4"
        by linarith
      then show ?thesis
        by (auto simp: idx_to_addr_def sample_pages_def PAGE_SIZE_def)
    qed
    ultimately show thesis
      using buddy_alloc_outcome [OF sample_pages_ok(1,2) sz(3,2)] that by metis
  qed
  have "stk = p"
    using run pool b p sz(3) by (auto simp: kmalloc_def sample_heap_def bind_eq_Some_conv split: if_splits)
  with run p that show thesis
    by blast
qed

theorem signal_handler_roundtrip_witness:
  "\<exists>k1 self1 stk. signal_check_and_dispatch (sample_kernel\<lparr>threads := [0x1000 \<mapsto> sample_signalled]\<rparr>) = Some k1 \<and>
    threads k1 0x1000 = Some self1 \<and> tf_sepc (kframe self1) = 0x5100 \<and> tf_a0 (kframe self1) = 5 \<and> tf_ra (kframe self1) = stk"
proof -
  let ?k = "sample_kernel\<lparr>threads := [0x1000 \<mapsto> sample_signalled]\<rparr>"
  obtain hp stk where stk: "kmalloc sample_heap SIGSTACK_SIZE = Some (hp, stk)" "stk \<noteq> NULL"
    by (rule sample_sigstack)
  have k: "k_heap ?k = sample_heap" "cur ?k = 0x1000" "threads ?k (cur ?k) = Some sample_signalled"
    by (simp_all add: sample_kernel_def)
  have low: "lowest_bit_index (sig_pending (sig sample_signalled)) = Some 5"
    by (simp add: lowest_bit_index_def sample_signalled_def lowest_bit_loop.simps)
  have "heap_live (k_heap ?k) {}" "kmalloc (k_heap ?k) SIGSTACK_SIZE = Some (hp, stk)" "cur ?k \<noteq> NULL"
    using sample_heap_live stk(1) k by simp_all
  moreover have "image_base sample_signalled \<noteq> NULL" "sig_ok (sig sample_signalled)" "\<not> sig_in_handler (sig sample_signalled)"
    "sigstack_base (sig sample_signalled) = NULL" "sig_pending (sig sample_signalled) \<noteq> 0"
    "sig_handlers (sig sample_signalled) ! 5 = 0x5100"
    by (simp_all add: sample_signalled_def signal_state_init_def sig_ok_def NSIG_def)
  ultimately show ?thesis
    using signal_handler_roundtrip [of ?k "{}" sample_signalled 5 hp stk] k(2,3) low stk(2)
    by (auto simp: SIG_IGN_def SIG_DFL_def)
qed

section \<open>A small running system\<close>

text \<open>Page-sized allocations on the sample region succeed while it has free pages.\<close>

lemma find_pool_page: "find_pool 4096 = None"
  by (simp add: find_pool_def find_pool_from.simps NUM_POOLS_def pool_sizes_def)

lemma kmalloc_page:
  assumes live: "heap_live h R" and free: "card (free_pages (heap_buddy h)) = Suc n"
  shows "\<exists>h' p. kmalloc h 4096 = Some (h', p) \<and> p \<noteq> NULL \<and> card (free_pages (heap_buddy h')) = n"
proof -
  obtain A where A: "heap_base_ok h A"
    using live by (auto simp: heap_live_def)
  then have b: "binv (heap_buddy h) A {}" "no_buddies (heap_buddy h)" "region_ok (heap_buddy h)"
    by (simp_all add: heap_base_ok_def)
  let ?b = "heap_buddy h"
  have ne: "free_pages ?b \<noteq> {}"
    using free by auto
  have sz: "(4096 :: u64) \<noteq> 0" "unat (4096 :: u64) \<le> 2 ^ 64 - 4096" "0 < unat (4096 :: u64)"
    by simp_all
  obtain b' p where run: "buddy_alloc ?b 4096 = Some (b', p)" and p: "p \<noteq> NULL" "card (free_pages b') = n"
  proof -
    obtain b' p where run: "buddy_alloc ?b 4096 = Some (b', p)" and out:
      "b' = ?b \<and> p = NULL \<and> (\<forall>k\<le>MAX_ORDER. unat (4096 :: u64) \<le> 4096 * 2 ^ k \<longrightarrow> free_list ?b ! k = []) \<or>
       (\<exists>i k. p = idx_to_addr ?b i \<and> k \<le> MAX_ORDER \<and> unat (4096 :: u64) \<le> 4096 * 2 ^ k \<and>
          (\<forall>j<k. 4096 * 2 ^ j < unat (4096 :: u64)) \<and> blk i k \<subseteq> free_pages ?b \<and>
          binv b' (insert (i, k) A) {} \<and> no_buddies b' \<and>
          reserved_pages b' = reserved_pages ?b \<and> changes_in ?b b' (free_pages ?b))"
      using buddy_alloc_outcome [OF b(1,2) sz(1,2)] by blast
    have "\<not> (\<forall>k\<le>MAX_ORDER. unat (4096 :: u64) \<le> 4096 * 2 ^ k \<longrightarrow> free_list ?b ! k = [])"
      using ne by (auto simp: free_pages_def)
    with out obtain i k where ik: "p = idx_to_addr ?b i" "\<forall>j<k. 4096 * 2 ^ j < unat (4096 :: u64)" "blk i k \<subseteq> free_pages ?b"
      "binv b' (insert (i, k) A) {}" "reserved_pages b' = reserved_pages ?b" "changes_in ?b b' (free_pages ?b)"
      by blast
    have "k = 0"
      using ik(2) by (cases k) auto
    then have i: "i \<in> free_pages ?b" and fp: "free_pages b' = free_pages ?b - {i}"
      using ik(3) alloc_free_pages [OF b(1) ik(4-6)] by auto
    then have "card (free_pages b') = n"
      using free by simp
    moreover have "p \<noteq> NULL"
      using i page_partition [OF b(1)] idx_to_addr_in_region(1) [OF b(3), of i] ik(1) by auto
    ultimately show thesis
      using run that by blast
  qed
  obtain h' p' where run': "kmalloc h 4096 = Some (h', p')"
    using heap.alloc_law [OF live sz(3,2)] by blast
  then have "p' = p" "heap_buddy h' = b'"
    using run p(1) find_pool_page by (auto simp: kmalloc_def bind_eq_Some_conv)
  with run' p show ?thesis
    by blast
qed

lemma owns_page:
  assumes own: "heap.owns h f need E" and free: "card (free_pages (heap_buddy h)) = Suc n" and x0: "f x0 = NULL"
  obtains h' p where "p \<noteq> NULL" "p \<notin> range f" "unat p \<notin> off_limits (heap_buddy h)"
    "off_limits (heap_buddy h') = off_limits (heap_buddy h)" "card (free_pages (heap_buddy h')) = n"
    "\<And>x m. f x = NULL \<Longrightarrow> m \<le> 4096 \<Longrightarrow> heap.owns h' (f(x := p)) (need(x := m)) E"
proof -
  have sz: "0 < unat (4096 :: u64)" "unat (4096 :: u64) \<le> 2 ^ 64 - 4096"
    by simp_all
  obtain R where "heap_live h R"
    using own by (auto simp: heap.owns_def)
  then obtain h' p where run: "kmalloc h 4096 = Some (h', p)" "p \<noteq> NULL" "card (free_pages (heap_buddy h')) = n"
    using kmalloc_page free by blast
  have at: "p \<notin> range f \<and> unat p \<notin> off_limits (heap_buddy h) \<and> off_limits (heap_buddy h') = off_limits (heap_buddy h) \<and>
      (\<forall>m\<le>4096. heap.owns h' (f(x := p)) (need(x := m)) E)" if "f x = NULL" for x
  proof (cases rule: heap_guarded.owns_alloc_guarded [OF own sz that])
    case (1 s')
    with run show ?thesis by simp
  next
    case (2 s' q)
    then have "s' = h'" "q = p"
      using run(1) by simp_all
    with 2 show ?thesis by simp
  qed
  from at [OF x0] at run(2,3) that show thesis
    by blast
qed

text \<open>A process whose parent, the bootstrap thread, waits for it, and the idle thread.\<close>

lemma sample_reserved: "reserved_pages sample_pages = {4}"
proof (rule set_eqI)
  fix p
  show "p \<in> reserved_pages sample_pages \<longleftrightarrow> p \<in> {4}"
  proof (cases "p < 5")
    case True
    then consider "p = 0" | "p = 1" | "p = 2" | "p = 3" | "p = 4"
      by linarith
    then show ?thesis
      by cases (simp_all add: reserved_pages_def sample_pages_def FRAME_RESERVED_def FRAME_FREE_PART_def)
  qed (simp add: reserved_pages_def sample_pages_def)
qed

definition sample_process :: "kheap \<Rightarrow> u64 \<Rightarrow> u64 \<Rightarrow> u64 \<Rightarrow> kernel" where
  "sample_process h idle t img = \<lparr>threads = [0x1000 \<mapsto> sample_thread 0 THREAD_BLOCKED [idle, t],
       idle \<mapsto> sample_thread 1 THREAD_READY [],
       t \<mapsto> (sample_thread 2 THREAD_RUNNING [])\<lparr>image_base := img, total_size := 4096\<rparr>],
     g_runq = [idle], g_zombies = [], g_next_tid = 3, g_need_resched = False, g_user_base = 0,
     cur = t, hart = zero_ctx, csr_sstatus = 0, k_heap = h, k_mem = (\<lambda>_. 0),
     g_bootstrap = 0x1000, thread_entry_trampoline = 0, user_thread_bootstrap = 0\<rparr>"

lemma sample_process_ok:
  obtains h idle t img where "kinv idle {} (sample_process h idle t img)" and "img \<noteq> NULL"
    and "distinct [0x1000, idle, t]"
proof -
  have c0: "card (free_pages (heap_buddy sample_heap)) = Suc 3"
  proof -
    have "free_pages sample_pages = {..<5} - {4}"
      unfolding page_partition [OF sample_pages_ok(1)] sample_reserved by (simp add: sample_pages_def alloc_pages_def)
    then show ?thesis by (simp add: sample_heap_def)
  qed
  have o0: "heap.owns sample_heap (\<lambda>_. NULL) (\<lambda>_ :: u64 \<times> slot. 0) {}"
    using owns_nothing [OF sample_heap_live] by simp
  obtain h1 idle where s1: "idle \<noteq> NULL" "unat idle \<notin> off_limits (heap_buddy sample_heap)"
    "off_limits (heap_buddy h1) = off_limits (heap_buddy sample_heap)" "card (free_pages (heap_buddy h1)) = 3"
    "heap.owns h1 ((\<lambda>_. NULL)((idle, Struct) := idle)) ((\<lambda>_. 0)((idle, Struct) := 800)) {}"
  proof (rule owns_page [OF o0 c0 refl])
    fix h' p
    assume "p \<noteq> NULL" "unat p \<notin> off_limits (heap_buddy sample_heap)" "off_limits (heap_buddy h') = off_limits (heap_buddy sample_heap)"
      "card (free_pages (heap_buddy h')) = 3"
      and own: "\<And>(x :: u64 \<times> slot) m. NULL = NULL \<Longrightarrow> m \<le> 4096 \<Longrightarrow> heap.owns h' ((\<lambda>_. NULL)(x := p)) ((\<lambda>_. 0)(x := m)) {}"
    with own [of 800 "(p, Struct)"] that show thesis
      by simp
  qed
  let ?f1 = "(\<lambda>_. NULL)((idle, Struct) := idle)" and ?n1 = "(\<lambda>_. 0 :: nat)((idle, Struct) := 800)"
  obtain h2 t where s2: "t \<noteq> NULL" "t \<notin> range ?f1" "unat t \<notin> off_limits (heap_buddy h1)"
    "off_limits (heap_buddy h2) = off_limits (heap_buddy h1)" "card (free_pages (heap_buddy h2)) = 2"
    "\<And>x m. ?f1 x = NULL \<Longrightarrow> m \<le> 4096 \<Longrightarrow> heap.owns h2 (?f1(x := t)) (?n1(x := m)) {}"
    by (rule owns_page [OF s1(5), where n = 2 and ?x0.0 = "(idle, Temp)"]) (use s1(4) in simp_all)
  have ne: "t \<noteq> idle"
    using s2(2) by (metis fun_upd_same rangeI)
  let ?f2 = "?f1((t, Struct) := t)" and ?n2 = "?n1((t, Struct) := 800)"
  have own2: "heap.owns h2 ?f2 ?n2 {}"
    using ne by (intro s2(6)) simp_all
  obtain h3 img where s3: "img \<noteq> NULL" "off_limits (heap_buddy h3) = off_limits (heap_buddy h2)"
    "\<And>x m. ?f2 x = NULL \<Longrightarrow> m \<le> 4096 \<Longrightarrow> heap.owns h3 (?f2(x := img)) (?n2(x := m)) {}"
    by (rule owns_page [OF own2, where n = 1 and ?x0.0 = "(t, Temp)"]) (use s2(5) in simp_all)
  let ?f3 = "?f2((t, Image) := img)" and ?n3 = "?n2((t, Image) := 4096)"
  have own3: "heap.owns h3 ?f3 ?n3 {}"
    by (rule s3(3)) simp_all
  have low: "unat (0x1000 :: u64) \<in> off_limits (heap_buddy sample_heap)"
    using sample_off_limits by simp
  have b: "unat (0x1000 :: u64) \<in> off_limits (heap_buddy h3)"
    unfolding s3(2) s2(4) s1(3) by (rule low)
  have apart: "idle \<noteq> 0x1000" "t \<noteq> 0x1000"
    using s1(2) s2(3) [unfolded s1(3)] low by metis+
  let ?k = "sample_process h3 idle t img"
  have V: "views ?k = [0x1000 \<mapsto> view (sample_thread 0 THREAD_BLOCKED [idle, t]), idle \<mapsto> view (sample_thread 1 THREAD_READY []),
      t \<mapsto> view ((sample_thread 2 THREAD_RUNNING [])\<lparr>image_base := img, total_size := 4096\<rparr>)]"
    by (auto simp: views_def sample_process_def fun_eq_iff)
  have S: "st ?k = [0x1000 \<mapsto> THREAD_BLOCKED, idle \<mapsto> THREAD_READY, t \<mapsto> THREAD_RUNNING]"
    by (auto simp: st_def sample_process_def sample_thread_def fun_eq_iff)
  have slots: "slot_ptr b u (view (sample_thread n s cs)) x = (if x = Struct \<and> u \<noteq> b then u else NULL)" for b u n s cs x
    by (cases x) (simp_all add: sample_thread_def signal_state_init_def)
  have slots': "slot_ptr b u (view ((sample_thread n s cs)\<lparr>image_base := img, total_size := 4096\<rparr>)) x =
      (if x = Struct \<and> u \<noteq> b then u else if x = Image then img else NULL)" for b u n s cs x
    by (cases x) (simp_all add: sample_thread_def signal_state_init_def)
  have f: "ptrs (views ?k) 0x1000 = ?f3"
  proof
    fix x :: "u64 \<times> slot"
    obtain u s where x: "x = (u, s)" by (cases x)
    show "ptrs (views ?k) 0x1000 x = ?f3 x"
      unfolding V using apart ne by (auto simp: x ptrs_def slots slots')
  qed
  have "heap.owns h3 (ptrs (views ?k) 0x1000) (needs (views ?k)) {}"
    unfolding f
  proof (rule heap.owns_need [OF own3])
    fix x :: "u64 \<times> slot"
    obtain u s where x: "x = (u, s)" by (cases x)
    assume "?f3 x \<noteq> NULL"
    then show "needs (views ?k) x \<le> ?n3 x"
      unfolding V using ne by (auto simp: x needs_def split: if_splits)
  qed
  then have "mem_v (k_heap ?k) (views ?k) (g_bootstrap ?k) {}"
    using b by (simp add: mem_v_def sample_process_def)
  moreover have "sched_inv ?k"
    unfolding sched_inv_def S using apart ne by (auto simp: sample_process_def intro!: queues_okI split: if_splits)
  moreover have "threads_v (views ?k) (g_bootstrap ?k)"
    unfolding V using apart ne
    by (auto simp: threads_v_def thread_ok_def sample_process_def sample_thread_def signal_state_init_def sig_ok_def NSIG_def heap_limit_def
        split: if_splits)
  moreover have "idle_v idle (views ?k)"
    unfolding V using ne by (simp add: idle_v_def sample_thread_def)
  moreover have "tree_n (nodes (views ?k)) (g_zombies ?k) (g_bootstrap ?k) (g_next_tid ?k)"
    unfolding V using apart ne s1(1) s2(1)
    by (auto simp: tree_n_def nodes_def node_ok_def node_of_def sample_process_def sample_thread_def split: if_splits)
  ultimately have "kinv idle {} ?k"
    by (simp add: kinv_def)
  then show thesis
    using that s3(1) apart ne by auto
qed

section \<open>Exit and waitpid\<close>

text \<open>
  C5: The end of a process reaches its parent. \<^verbatim>\<open>sys_exit\<close> makes the process a zombie, hands its children to
  the bootstrap thread, leaves the parent unblocked and gives the processor to another thread;
  waiting for the process then returns its exit status at once and queues it for the idle thread.
\<close>

theorem exit_hands_over:
  assumes inv: "kinv idle E k" and c: "cur_state k = Some THREAD_RUNNING"
    and self: "threads k (cur k) = Some self" "image_base self \<noteq> NULL"
  shows "\<exists>k' k''. sys_exit k status = Some (k', Gone) \<and> kinv idle E k' \<and> st k' (cur k) = Some THREAD_ZOMBIE \<and>
    cur_state k' = Some THREAD_RUNNING \<and> st k' (parent self) \<noteq> Some THREAD_BLOCKED \<and>
    parents k' = (\<lambda>t. if t \<in> set (children self) then Some (g_bootstrap k) else parents k t) \<and>
    waitpid_on k' (cur k) = Some (k'', Returns (scast (ucast status :: i32))) \<and> cur k \<in> set (g_zombies k'')"
proof -
  obtain k' z where k': "sys_exit k status = Some (k', Gone)" "kinv idle E k'" "cur_state k' = Some THREAD_RUNNING"
    "threads k' (cur k) = Some z" "state z = THREAD_ZOMBIE" "exit_status z = ucast status" "st k' (parent self) \<noteq> Some THREAD_BLOCKED"
    "parents k' = (\<lambda>t. if t \<in> set (children self) then Some (g_bootstrap k) else parents k t)"
    using kinv_exit [OF inv c user_thread(1,2) [OF inv self] self(1), of status] by blast
  moreover have "waitpid_on k' (cur k) = Some (sched_zombify (del_sibling (cur k) k') (cur k), Returns (scast (ucast status :: i32)))"
    using k'(4-6) by (simp add: waitpid_on_def)
  ultimately show ?thesis
    by (auto simp: st_def sched_zombify_def)
qed

theorem exit_hands_over_witness:
  "\<exists>k p k' k''. st k p = Some THREAD_BLOCKED \<and> sys_exit k 7 = Some (k', Gone) \<and> st k' (cur k) = Some THREAD_ZOMBIE \<and>
    st k' p \<noteq> Some THREAD_BLOCKED \<and> waitpid_on k' (cur k) = Some (k'', Returns 7) \<and> cur k \<in> set (g_zombies k'')"
proof -
  obtain h idle t img where k: "kinv idle {} (sample_process h idle t img)" "img \<noteq> NULL" "distinct [0x1000, idle, t]"
    by (rule sample_process_ok)
  let ?k = "sample_process h idle t img" and ?self = "(sample_thread 2 THREAD_RUNNING [])\<lparr>image_base := img, total_size := 4096\<rparr>"
  have "cur_state ?k = Some THREAD_RUNNING" "threads ?k (cur ?k) = Some ?self" "image_base ?self \<noteq> NULL"
    and p: "st ?k 0x1000 = Some THREAD_BLOCKED" "parent ?self = 0x1000"
    using k(2,3) by (simp_all add: st_def sample_process_def sample_thread_def)
  from exit_hands_over [OF k(1) this(1-3), of 7] p show ?thesis
    by (auto simp: ucast_eq scast_eq)
qed

section \<open>Fork\<close>

lemma isolatedD:
  assumes "isolated k" and "threads k t = Some th"
  shows "image_base th \<noteq> NULL \<Longrightarrow> bytes_of (image_base th, unat (total_size th)) \<inter> off_limits (heap_buddy (k_heap k)) = {}"
    and "threads k u = Some uh \<Longrightarrow> t \<noteq> u \<Longrightarrow> image_base th \<noteq> NULL \<Longrightarrow> image_base uh \<noteq> NULL \<Longrightarrow>
      bytes_of (image_base th, unat (total_size th)) \<inter> bytes_of (image_base uh, unat (total_size uh)) = {}"
  using assms unfolding isolated_def by blast+

lemma live_bytes_bound:
  assumes live: "heap_live h A" and clear: "bytes_of (p, n) \<inter> off_limits (heap_buddy h) = {}" and n: "0 < n"
  shows "unat p + n \<le> 2 ^ 64"
proof -
  let ?b = "heap_buddy h"
  have r: "region_ok ?b"
    using live by (auto simp: heap_live_def heap_base_ok_def)
  have "unat p + n - 1 \<in> bytes_of (p, n)"
    using n by (simp add: bytes_of_def)
  with clear have "unat p + n - 1 \<notin> off_limits ?b"
    by blast
  then obtain q where q: "q < g_total_pages ?b" "unat p + n - 1 < unat (g_buddy_base ?b) + 4096 * (q + 1)"
    by (auto simp: off_limits_def page_bytes_def)
  have "4096 * (q + 1) \<le> 4096 * g_total_pages ?b"
    using q(1) by simp
  then have "unat p + n - 1 < unat (g_buddy_end ?b)"
    using q(2) r unfolding region_ok_def by linarith
  with unat_lt64 [of "g_buddy_end ?b"] show ?thesis
    by simp
qed

text \<open>
  C4: \<^verbatim>\<open>sys_fork\<close> either fails and leaves all threads and memory as they were, or makes a ready child with a
  copy of the parent's memory at a different place: its frame is the parent's with result 0 and
  the stack pointer moved to the copy, it has the parent's handlers and no pending signal, the
  parent gets its number, and the parent's own memory is unchanged.
\<close>

theorem fork_copies_process:
  assumes inv: "kinv idle E k" and c: "cur_state k = Some THREAD_RUNNING" and n: "numbers_left k"
    and self: "threads k (cur k) = Some self" "image_base self \<noteq> NULL"
  shows "\<exists>k' out. sys_fork k = Some (k', out) \<and> kinv idle E k' \<and> cur k' = cur k \<and>
    (out = Returns (-1) \<and> threads k' = threads k \<and> k_mem k' = k_mem k \<or>
     (\<exists>t ch. out = Returns (scast (pid ch)) \<and> threads k t = None \<and>
        threads k' = (threads k)(t \<mapsto> ch, cur k \<mapsto> self\<lparr>children := children self @ [t]\<rparr>) \<and>
        state ch = THREAD_READY \<and> t \<in> set (g_runq k') \<and> parent ch = cur k \<and> children ch = [] \<and> pid ch = g_next_tid k \<and>
        kframe ch = (kframe self)\<lparr>tf_a0 := 0, tf_sp := image_base ch + (tf_sp (kframe self) - image_base self), tf_tp := t\<rparr> \<and>
        sig_handlers (sig ch) = sig_handlers (sig self) \<and> sig_pending (sig ch) = 0 \<and>
        image_base ch \<noteq> image_base self \<and> total_size ch = total_size self \<and>
        mem_bytes (k_mem k') (image_base ch) (unat (total_size self)) = mem_bytes (k_mem k) (image_base self) (unat (total_size self)) \<and>
        mem_bytes (k_mem k') (image_base self) (unat (total_size self)) = mem_bytes (k_mem k) (image_base self) (unat (total_size self))))"
proof -
  have "unat (g_next_tid k) + 1 < 2 ^ 32"
    using n by (simp add: numbers_left_def)
  from kinv_fork [OF inv c this self(1)] obtain k' out where k': "sys_fork k = Some (k', out)" "kinv idle E k'" "cur k' = cur k"
    and how: "out = Returns (-1) \<and> threads k' = threads k \<and> k_mem k' = k_mem k \<or> fork_made k self k' out"
    by blast
  show ?thesis
  proof (cases "fork_made k self k' out")
    case False
    with k' how show ?thesis
      by blast
  next
    case True
    then obtain t p stk where t: "out = Returns (scast (g_next_tid k))" "threads k t = None" "t \<noteq> NULL" "p \<noteq> NULL"
      "threads k' = (threads k)(t \<mapsto> fork_child k self t p (new_thread k stk), cur k \<mapsto> self\<lparr>children := children self @ [t]\<rparr>)"
      "k_mem k' = mem_cpy (k_mem k) p (image_base self) (total_size self)" "g_runq k' = g_runq k @ [t]"
      unfolding fork_made_def by blast
    define ch where "ch = fork_child k self t p (new_thread k stk)"
    have ch: "image_base ch = p" "total_size ch = total_size self" "state ch = THREAD_READY" "parent ch = cur k" "children ch = []"
      "pid ch = g_next_tid k" "kframe ch = fork_frame (kframe self) (image_base self) t p"
      "sig_handlers (sig ch) = sig_handlers (sig self)" "sig_pending (sig ch) = 0"
      by (simp_all add: ch_def fork_child_def new_thread_def)
    have ne: "t \<noteq> cur k"
      using t(2) self(1) by auto
    have th: "threads k' t = Some ch" "threads k' (cur k) = Some (self\<lparr>children := children self @ [t]\<rparr>)"
      using t(5) ne by (simp_all add: ch_def)
    let ?n = "unat (total_size self)"
    have pos: "0 < ?n"
      using kinvD(3) [OF inv self(1)] self(2) by (simp add: thread_ok_def)
    obtain A where A: "heap_live (k_heap k') A"
      using kinvD(5) [OF k'(2)] by (auto simp: mem_v_def heap.owns_def)
    have iso: "isolated k'"
      by (rule kinv_isolated [OF k'(2)])
    have clear: "bytes_of (p, ?n) \<inter> off_limits (heap_buddy (k_heap k')) = {}"
      "bytes_of (image_base self, ?n) \<inter> off_limits (heap_buddy (k_heap k')) = {}"
      "bytes_of (p, ?n) \<inter> bytes_of (image_base self, ?n) = {}"
      using isolatedD(1) [OF iso th(1)] isolatedD(1) [OF iso th(2)] isolatedD(2) [OF iso th ne] self(2) t(4) ch(1,2) by simp_all
    have bound: "unat p + ?n \<le> 2 ^ 64" "unat (image_base self) + ?n \<le> 2 ^ 64"
      using live_bytes_bound [OF A _ pos] clear(1,2) by blast+
    have apart: "unat p + ?n \<le> unat (image_base self) \<or> unat (image_base self) + ?n \<le> unat p"
    proof (rule ccontr)
      assume "\<not> ?thesis"
      then have "max (unat p) (unat (image_base self)) \<in> bytes_of (p, ?n) \<inter> bytes_of (image_base self, ?n)"
        by (auto simp: bytes_of_def)
      with clear(3) show False
        by blast
    qed
    then have below: "unat p \<le> unat (image_base self) \<or> unat (image_base self) + ?n \<le> unat p"
      by linarith
    note cpy = mem_cpy_range [OF bound(2,1) below, of "k_mem k"]
    have "image_base self + of_nat i \<notin> {a. p \<le> a \<and> unat a < unat p + ?n}" if "i < ?n" for i
    proof -
      have "unat (image_base self + of_nat i) = unat (image_base self) + i"
        using that bound(2) unat_lt64 [of "total_size self"] unat_add_lem [of "image_base self" "of_nat i"] by (simp add: unat_of_nat)
      with apart that show ?thesis
        by (auto simp: word_le_nat_alt)
    qed
    then have "mem_bytes (k_mem k') (image_base self) ?n = mem_bytes (k_mem k) (image_base self) ?n"
      using cpy by (auto simp: mem_bytes_def t(6))
    moreover have "mem_bytes (k_mem k') p ?n = mem_bytes (k_mem k) (image_base self) ?n"
      using cpy by (simp add: t(6))
    moreover have "p \<noteq> image_base self"
      using apart pos by auto
    moreover have "out = Returns (scast (pid ch))" "t \<in> set (g_runq k')"
      using t(1,7) ch(6) by simp_all
    ultimately show ?thesis
      using k' t(2,5) ch unfolding ch_def [symmetric] fork_frame_def
      by (intro exI [of _ k'] exI [of _ out] conjI disjI2 exI [of _ t] exI [of _ ch]) simp_all
  qed
qed

theorem fork_copies_process_witness:
  "\<exists>k k' out. sys_fork k = Some (k', out) \<and> cur k' = cur k \<and>
    (out = Returns (-1) \<and> threads k' = threads k \<or> (\<exists>t ch. out = Returns (scast (pid ch)) \<and> threads k' t = Some ch \<and> tf_a0 (kframe ch) = 0))"
proof -
  obtain h idle t img where k: "kinv idle {} (sample_process h idle t img)" "img \<noteq> NULL" "distinct [0x1000, idle, t]"
    by (rule sample_process_ok)
  let ?k = "sample_process h idle t img" and ?self = "(sample_thread 2 THREAD_RUNNING [])\<lparr>image_base := img, total_size := 4096\<rparr>"
  have "cur_state ?k = Some THREAD_RUNNING" "numbers_left ?k" "threads ?k (cur ?k) = Some ?self" "image_base ?self \<noteq> NULL"
    using k(2,3) by (simp_all add: st_def sample_process_def sample_thread_def numbers_left_def)
  from fork_copies_process [OF k(1) this] obtain k' out where k': "sys_fork ?k = Some (k', out)" "cur k' = cur ?k" and
    how: "out = Returns (-1) \<and> threads k' = threads ?k \<or> (\<exists>t ch. out = Returns (scast (pid ch)) \<and> threads ?k t = None \<and>
      threads k' = (threads ?k)(t \<mapsto> ch, cur ?k \<mapsto> ?self\<lparr>children := children ?self @ [t]\<rparr>) \<and>
      kframe ch = (kframe ?self)\<lparr>tf_a0 := 0, tf_sp := image_base ch + (tf_sp (kframe ?self) - image_base ?self), tf_tp := t\<rparr>)"
    by blast
  have "threads ?k (cur ?k) \<noteq> None"
    using k(3) by (simp add: sample_process_def)
  then have "out = Returns (-1) \<and> threads k' = threads ?k \<or>
      (\<exists>t ch. out = Returns (scast (pid ch)) \<and> threads k' t = Some ch \<and> tf_a0 (kframe ch) = 0)"
    using how
  proof (elim disjE exE conjE)
    fix u ch
    assume u: "threads ?k u = None" "threads k' = (threads ?k)(u \<mapsto> ch, cur ?k \<mapsto> ?self\<lparr>children := children ?self @ [u]\<rparr>)"
      and frame: "kframe ch = (kframe ?self)\<lparr>tf_a0 := 0, tf_sp := image_base ch + (tf_sp (kframe ?self) - image_base ?self), tf_tp := u\<rparr>"
      and out: "out = Returns (scast (pid ch))"
    have "u \<noteq> cur ?k"
      using u(1) \<open>threads ?k (cur ?k) \<noteq> None\<close> by metis
    then have "threads k' u = Some ch"
      using u(2) by simp
    moreover have "tf_a0 (kframe ch) = 0"
      unfolding frame by simp
    ultimately show ?thesis
      using out by blast
  qed simp
  with k' show ?thesis
    by blast
qed

end
