(* ===== verification/Klist.thy ===== *)
theory Klist
  imports OSC_Prelude
begin

text \<open>
  The circular doubly linked list of \<^verbatim>\<open>kernel/include/list.h\<close>, on a heap that maps the address of a
  \<^verbatim>\<open>struct list_head\<close> to its two pointers, and its refinement to lists: the free lists, the task
  queue, the timer queue and the run queues of the other theories are the lists that a heap of
  such nodes represents.
\<close>

section \<open>Model\<close>

record list_head =
  prev :: u64
  "next" :: u64

type_synonym list_heap = "u64 \<Rightarrow> list_head"

abbreviation set_next :: "u64 \<Rightarrow> u64 \<Rightarrow> list_heap \<Rightarrow> list_heap" where
  "set_next a v h \<equiv> h(a := (h a)\<lparr>next := v\<rparr>)"

abbreviation set_prev :: "u64 \<Rightarrow> u64 \<Rightarrow> list_heap \<Rightarrow> list_heap" where
  "set_prev a v h \<equiv> h(a := (h a)\<lparr>prev := v\<rparr>)"

definition INIT_LIST_HEAD :: "u64 \<Rightarrow> list_heap \<Rightarrow> list_heap" where
  "INIT_LIST_HEAD head h = set_prev head head (set_next head head h)"

definition list_add_between :: "u64 \<Rightarrow> u64 \<Rightarrow> u64 \<Rightarrow> list_heap \<Rightarrow> list_heap" where
  "list_add_between node p n h =
     set_next p node (set_prev node p (set_next node n (set_prev n node h)))"

definition list_del_between :: "u64 \<Rightarrow> u64 \<Rightarrow> list_heap \<Rightarrow> list_heap" where
  "list_del_between p n h = set_next p n (set_prev n p h)"

definition list_add :: "u64 \<Rightarrow> u64 \<Rightarrow> list_heap \<Rightarrow> list_heap" where
  "list_add node head h = list_add_between node head (next (h head)) h"

definition list_add_tail :: "u64 \<Rightarrow> u64 \<Rightarrow> list_heap \<Rightarrow> list_heap" where
  "list_add_tail node head h = list_add_between node (prev (h head)) head h"

definition list_del :: "u64 \<Rightarrow> list_heap \<Rightarrow> list_heap" where
  "list_del node h =
     set_prev node node (set_next node node (list_del_between (prev (h node)) (next (h node)) h))"

definition list_empty :: "u64 \<Rightarrow> list_heap \<Rightarrow> bool" where
  "list_empty head h \<longleftrightarrow> next (h head) = head"

text \<open>The positions that \<^verbatim>\<open>list_for_each\<close> visits, from \<open>pos\<close> on.\<close>

partial_function (option) list_for_each :: "list_heap \<Rightarrow> u64 \<Rightarrow> u64 \<Rightarrow> u64 list option" where
  "list_for_each h head pos =
     (if pos \<noteq> head
      then Option.bind (list_for_each h head (next (h pos))) (\<lambda>ps. Some (pos # ps))
      else Some [])"

section \<open>Rings\<close>

fun chain :: "list_heap \<Rightarrow> u64 list \<Rightarrow> bool" where
  "chain h (x # y # zs) \<longleftrightarrow> next (h x) = y \<and> prev (h y) = x \<and> chain h (y # zs)"
| "chain h _ \<longleftrightarrow> True"

definition ring :: "list_heap \<Rightarrow> u64 \<Rightarrow> u64 list \<Rightarrow> bool" where
  "ring h head xs \<longleftrightarrow> distinct (head # xs) \<and> chain h (head # xs @ [head])"

lemma chain_append:
  "xs \<noteq> [] \<Longrightarrow> ys \<noteq> [] \<Longrightarrow> chain h (xs @ ys) \<longleftrightarrow>
     chain h xs \<and> chain h ys \<and> next (h (last xs)) = hd ys \<and> prev (h (hd ys)) = last xs"
proof (induction xs rule: induct_list012)
  case (2 x)
  then show ?case by (cases ys) auto
qed auto

lemma chain_cong:
  assumes "\<And>x. x \<in> set (butlast xs) \<Longrightarrow> next (h' x) = next (h x)"
    and "\<And>x. x \<in> set (tl xs) \<Longrightarrow> prev (h' x) = prev (h x)"
  shows "chain h' xs = chain h xs"
  using assms by (induction xs rule: induct_list012) auto

lemma ring_split:
  "ring h head (us @ vs) \<longleftrightarrow> distinct (head # us @ vs) \<and> chain h (head # us) \<and> chain h (vs @ [head]) \<and>
     next (h (last (head # us))) = hd (vs @ [head]) \<and> prev (h (hd (vs @ [head]))) = last (head # us)"
  using chain_append [of "head # us" "vs @ [head]" h] by (auto simp: ring_def)

lemma add_fields:
  "next (list_add_between node p n h x) = (if x = p then node else if x = node then n else next (h x))"
  "prev (list_add_between node p n h x) = (if x = node then p else if x = n then node else prev (h x))"
  by (simp_all add: list_add_between_def)

lemma del_fields:
  "next (list_del_between p n h x) = (if x = p then n else next (h x))"
  "prev (list_del_between p n h x) = (if x = n then p else prev (h x))"
  by (simp_all add: list_del_between_def)

lemma ring_ends:
  assumes "distinct (head # us @ vs)"
  defines "p \<equiv> last (head # us)" and "n \<equiv> hd (vs @ [head])"
  shows "p \<in> insert head (set us)" and "n \<in> insert head (set vs)"
    and "p \<notin> set (butlast (head # us))" and "n \<notin> set (tl (vs @ [head]))"
proof -
  show "p \<in> insert head (set us)" and "n \<in> insert head (set vs)"
    unfolding p_def n_def by (simp, cases vs) auto
  have "distinct (butlast (head # us) @ [p])"
    using assms(1) append_butlast_last_id [of "head # us"] unfolding p_def by simp
  then show "p \<notin> set (butlast (head # us))" by simp
  show "n \<notin> set (tl (vs @ [head]))"
    using assms(1) unfolding n_def by (cases vs) auto
qed

text \<open>The links of the two parts of a ring survive any update that touches only the forward link of the
  last node of the first part, the backward link of the first node of the second part, and nodes
  outside the ring.\<close>

lemma parts_cong:
  assumes d: "distinct (head # us @ vs)" and p: "p = last (head # us)" and n: "n = hd (vs @ [head])"
    and nx: "\<And>x. x \<in> set (head # us @ vs) \<Longrightarrow> x \<noteq> p \<Longrightarrow> next (h' x) = next (h x)"
    and pv: "\<And>x. x \<in> set (head # us @ vs) \<Longrightarrow> x \<noteq> n \<Longrightarrow> prev (h' x) = prev (h x)"
  shows "chain h' (head # us) = chain h (head # us)" and "chain h' (vs @ [head]) = chain h (vs @ [head])"
proof -
  note e = ring_ends [OF d, folded p n]
  show "chain h' (head # us) = chain h (head # us)"
  proof (rule chain_cong)
    fix x
    assume x: "x \<in> set (butlast (head # us))"
    then have "x \<in> set (head # us)" by (rule in_set_butlastD)
    with x e(3) show "next (h' x) = next (h x)"
      by (intro nx) auto
  next
    fix x
    assume x: "x \<in> set (tl (head # us))"
    with d e(2) show "prev (h' x) = prev (h x)"
      by (intro pv) auto
  qed
  show "chain h' (vs @ [head]) = chain h (vs @ [head])"
  proof (rule chain_cong)
    fix x
    assume "x \<in> set (butlast (vs @ [head]))"
    with d e(1) show "next (h' x) = next (h x)"
      by (intro nx) auto
  next
    fix x
    assume x: "x \<in> set (tl (vs @ [head]))"
    then have "x \<in> insert head (set vs)" by (cases vs) auto
    with x e(4) show "prev (h' x) = prev (h x)"
      by (intro pv) auto
  qed
qed

text \<open>Cutting the links at one place of a ring and tying them to a new node, or across a node.\<close>

lemma ring_insert:
  assumes "ring h head (us @ vs)" and "node \<notin> set (head # us @ vs)"
    and p: "p = last (head # us)" and n: "n = hd (vs @ [head])"
  shows "ring (list_add_between node p n h) head (us @ node # vs)"
proof -
  let ?h = "list_add_between node p n h"
  from assms(1) have d: "distinct (head # us @ vs)" and c: "chain h (head # us)" "chain h (vs @ [head])"
    unfolding ring_split by simp_all
  have pn: "p \<noteq> node" "n \<noteq> node"
    using ring_ends(1,2) [OF d, folded p n] assms(2) by auto
  have nx: "next (?h y) = next (h y)" if "y \<in> set (head # us @ vs)" "y \<noteq> p" for y
    using that assms(2) by (auto simp: add_fields)
  have pv: "prev (?h y) = prev (h y)" if "y \<in> set (head # us @ vs)" "y \<noteq> n" for y
    using that assms(2) by (auto simp: add_fields)
  have "chain ?h (head # us)" "chain ?h (vs @ [head])"
    using c parts_cong [OF d p n nx pv] by simp_all
  moreover have "chain ?h ([node] @ vs @ [head])"
    using calculation(2) pn chain_append [of "[node]" "vs @ [head]" ?h, folded n] by (simp add: add_fields)
  ultimately show ?thesis
    using d assms(2) pn unfolding ring_split [of _ _ us "node # vs"] p [symmetric] by (auto simp: add_fields)
qed

lemma ring_remove:
  assumes "ring h head (us @ x # vs)"
  shows "ring (list_del x h) head (us @ vs) \<and> ring (list_del x h) x []"
proof -
  define p where "p = last (head # us)"
  define n where "n = hd (vs @ [head])"
  from assms have d: "distinct (head # us @ x # vs)" and c: "chain h (head # us)" "chain h ([x] @ vs @ [head])"
    and x: "prev (h x) = p"
    unfolding ring_split p_def by simp_all
  from c(2) have c2: "chain h (vs @ [head])" and nx: "next (h x) = n"
    using chain_append [of "[x]" "vs @ [head]" h] by (simp_all add: n_def)
  have d': "distinct (head # us @ vs)" using d by auto
  have pn: "p \<noteq> x" "n \<noteq> x"
    using ring_ends(1,2) [OF d', folded p_def n_def] d by auto
  let ?h = "list_del x h"
  have fields: "next (?h y) = (if y = x then x else if y = p then n else next (h y))"
    "prev (?h y) = (if y = x then x else if y = n then p else prev (h y))" for y
    using pn by (auto simp: list_del_def x nx del_fields)
  have nx: "next (?h y) = next (h y)" if "y \<in> set (head # us @ vs)" "y \<noteq> p" for y
    using that d by (auto simp: fields)
  have pv: "prev (?h y) = prev (h y)" if "y \<in> set (head # us @ vs)" "y \<noteq> n" for y
    using that d by (auto simp: fields)
  have "chain ?h (head # us)" "chain ?h (vs @ [head])"
    using c(1) c2 parts_cong [OF d' p_def n_def nx pv] by simp_all
  then have "ring ?h head (us @ vs)"
    using d' pn unfolding ring_split p_def [symmetric] n_def [symmetric] by (simp add: fields)
  moreover have "ring ?h x []"
    by (simp add: ring_def fields)
  ultimately show ?thesis ..
qed

lemma ring_list_add:
  assumes "ring h head xs" and "node \<notin> set (head # xs)"
  shows "ring (list_add node head h) head (node # xs)"
proof -
  have "next (h head) = hd (xs @ [head])"
    using assms(1) ring_split [of h head "[]" xs] by simp
  then show ?thesis
    using ring_insert [of h head "[]" xs node head] assms by (simp add: list_add_def)
qed

lemma ring_list_add_tail:
  assumes "ring h head xs" and "node \<notin> set (head # xs)"
  shows "ring (list_add_tail node head h) head (xs @ [node])"
proof -
  have "prev (h head) = last (head # xs)"
    using assms(1) ring_split [of h head xs "[]"] by simp
  then show ?thesis
    using ring_insert [of h head xs "[]" node] assms by (simp add: list_add_tail_def)
qed

lemma ring_empty: "ring h head xs \<Longrightarrow> list_empty head h \<longleftrightarrow> xs = []"
  by (cases xs) (auto simp: ring_def list_empty_def)

lemma ring_for_each:
  assumes "ring h head xs"
  shows "list_for_each h head (next (h head)) = Some xs"
proof -
  have "list_for_each h head (hd (ys @ [head])) = Some ys"
    if "chain h (ys @ [head])" "head \<notin> set ys" for ys
    using that
  proof (induction ys)
    case Nil
    then show ?case by (subst list_for_each.simps) simp
  next
    case (Cons y ys)
    then have "next (h y) = hd (ys @ [head])" "chain h (ys @ [head])" "y \<noteq> head"
      using chain_append [of "[y]" "ys @ [head]" h] by auto
    with Cons show ?case by (subst list_for_each.simps) simp
  qed
  from this [of xs] assms show ?thesis
    using ring_split [of h head "[]" xs] by simp
qed

text \<open>A ring none of whose nodes is written to is left alone.\<close>

lemma ring_frame: "(\<And>x. x \<in> set (head # xs) \<Longrightarrow> h' x = h x) \<Longrightarrow> ring h' head xs = ring h head xs"
proof -
  assume same: "\<And>x. x \<in> set (head # xs) \<Longrightarrow> h' x = h x"
  have "chain h' (head # xs @ [head]) = chain h (head # xs @ [head])"
    by (rule chain_cong) (auto simp: same dest: in_set_butlastD)
  then show ?thesis by (simp add: ring_def)
qed

section \<open>Refinement\<close>

text \<open>The abstract state is a collection of lists, each with the address of its head. The operations
  name the node and the head they are called with.\<close>

type_synonym lists = "(u64 \<times> u64 list) list"

datatype list_op = Init u64 | Add u64 u64 | Add_tail u64 u64 | Del u64

definition nodes :: "lists \<Rightarrow> u64 list" where
  "nodes L = concat (map (\<lambda>(a, xs). a # xs) L)"

fun op_legal :: "list_op \<Rightarrow> lists \<Rightarrow> bool" where
  "op_legal (Init a) L \<longleftrightarrow> a \<notin> set (nodes L)"
| "op_legal (Add x a) L \<longleftrightarrow> a \<in> fst ` set L \<and> x \<notin> set (nodes L)"
| "op_legal (Add_tail x a) L \<longleftrightarrow> a \<in> fst ` set L \<and> x \<notin> set (nodes L)"
| "op_legal (Del x) L \<longleftrightarrow> (\<exists>(a, xs) \<in> set L. x \<in> set xs)"

definition on_list :: "u64 \<Rightarrow> (u64 list \<Rightarrow> u64 list) \<Rightarrow> lists \<Rightarrow> lists" where
  "on_list a f L = map (\<lambda>(b, xs). if b = a then (b, f xs) else (b, xs)) L"

fun op_lists :: "list_op \<Rightarrow> lists \<Rightarrow> lists" where
  "op_lists (Init a) L = (a, []) # L"
| "op_lists (Add x a) L = on_list a (\<lambda>xs. x # xs) L"
| "op_lists (Add_tail x a) L = on_list a (\<lambda>xs. xs @ [x]) L"
| "op_lists (Del x) L = map (\<lambda>(b, xs). (b, remove1 x xs)) L"

fun op_heap :: "list_op \<Rightarrow> list_heap \<Rightarrow> list_heap" where
  "op_heap (Init a) h = INIT_LIST_HEAD a h"
| "op_heap (Add x a) h = list_add x a h"
| "op_heap (Add_tail x a) h = list_add_tail x a h"
| "op_heap (Del x) h = list_del x h"

definition represents :: "list_heap \<Rightarrow> lists \<Rightarrow> bool" where
  "represents h L \<longleftrightarrow> (\<forall>(a, xs)\<in>set L. ring h a xs) \<and> distinct (nodes L)"

lemma nodes_simps [simp]:
  "nodes [] = []" "nodes ((a, xs) # L) = a # xs @ nodes L" "nodes (L @ M) = nodes L @ nodes M"
  by (simp_all add: nodes_def)

lemma in_nodes: "(a, xs) \<in> set L \<Longrightarrow> set (a # xs) \<subseteq> set (nodes L)"
  by (auto simp: nodes_def)

text \<open>One list of the collection is replaced; the heap changes only at its nodes and at nodes outside
  the collection.\<close>

lemma represents_replace:
  assumes rep: "represents h (L @ (a, xs) # M)" and ring: "ring h' a ys"
    and frame: "\<And>y. y \<notin> set (a # xs) \<Longrightarrow> y \<in> set (nodes (L @ M)) \<Longrightarrow> h' y = h y"
    and new: "set ys \<inter> set (nodes (L @ M)) = {}"
  shows "represents h' (L @ (a, ys) # M)"
proof -
  have d: "distinct (nodes (L @ (a, xs) # M))"
    using rep by (simp add: represents_def)
  have others: "ring h' b zs" if "(b, zs) \<in> set (L @ M)" for b zs
  proof -
    have "ring h b zs"
      using rep that by (auto simp: represents_def)
    moreover have "h' y = h y" if "y \<in> set (b # zs)" for y
    proof (rule frame)
      show "y \<in> set (nodes (L @ M))"
        using in_nodes [OF \<open>(b, zs) \<in> set (L @ M)\<close>] that by blast
      with d show "y \<notin> set (a # xs)" by auto
    qed
    ultimately show ?thesis
      using ring_frame [of b zs h' h] by blast
  qed
  have "distinct (a # ys)"
    using ring by (simp add: ring_def)
  with d new have "distinct (nodes (L @ (a, ys) # M))"
    by auto
  with others ring show ?thesis
    by (auto simp: represents_def)
qed

lemma list_add_frame:
  assumes "ring h a xs" and "y \<notin> set (a # xs)" and "y \<noteq> x"
  shows "list_add x a h y = h y" and "list_add_tail x a h y = h y"
proof -
  have "next (h a) = hd (xs @ [a])" "prev (h a) = last (a # xs)"
    using assms(1) ring_split [of h a "[]" xs] ring_split [of h a xs "[]"] by simp_all
  moreover have "hd (xs @ [a]) \<in> insert a (set xs)" by (cases xs) auto
  moreover have "last (a # xs) \<in> insert a (set xs)" by simp
  ultimately have "y \<noteq> next (h a)" "y \<noteq> prev (h a)"
    using assms(2) by auto
  with assms(2,3) show "list_add x a h y = h y" and "list_add_tail x a h y = h y"
    by (simp_all add: list_add_def list_add_tail_def list_add_between_def)
qed

lemma list_del_frame:
  assumes "ring h a (us @ x # vs)" and "y \<notin> set (a # us @ x # vs)"
  shows "list_del x h y = h y"
proof -
  have "prev (h x) = last (a # us)"
    using assms(1) unfolding ring_split by simp
  moreover have "next (h x) = hd (vs @ [a])"
    using assms(1) chain_append [of "[x]" "vs @ [a]" h] unfolding ring_split by simp
  moreover have "last (a # us) \<in> insert a (set us)" "hd (vs @ [a]) \<in> insert a (set vs)"
    by (simp, cases vs) auto
  ultimately have "y \<noteq> prev (h x)" "y \<noteq> next (h x)"
    using assms(2) by auto
  with assms(2) show ?thesis
    by (simp add: list_del_def list_del_between_def)
qed

lemma on_list_here:
  assumes "distinct (nodes (L @ (a, xs) # M))"
  shows "on_list a f (L @ (a, xs) # M) = L @ (a, f xs) # M"
proof -
  have "\<forall>b ys. (b, ys) \<in> set L \<or> (b, ys) \<in> set M \<longrightarrow> b \<noteq> a"
    using assms in_nodes [of _ _ L] in_nodes [of _ _ M] by fastforce
  then have "map (\<lambda>(b, xs). if b = a then (b, f xs) else (b, xs)) L = L"
    "map (\<lambda>(b, xs). if b = a then (b, f xs) else (b, xs)) M = M"
    by (fastforce intro!: map_idI)+
  then show ?thesis
    by (simp add: on_list_def)
qed

lemma remove_here:
  assumes "distinct (nodes (L @ (a, us @ x # vs) # M))"
  shows "map (\<lambda>(b, xs). (b, remove1 x xs)) (L @ (a, us @ x # vs) # M) = L @ (a, us @ vs) # M"
proof -
  have "\<forall>b ys. (b, ys) \<in> set L \<or> (b, ys) \<in> set M \<longrightarrow> x \<notin> set ys"
    using assms in_nodes [of _ _ L] in_nodes [of _ _ M] by fastforce
  then have "map (\<lambda>(b, xs). (b, remove1 x xs)) L = L" "map (\<lambda>(b, xs). (b, remove1 x xs)) M = M"
    by (fastforce intro!: map_idI simp: remove1_idem)+
  moreover have "x \<notin> set us" using assms by auto
  ultimately show ?thesis
    by (simp add: remove1_append)
qed

lemma op_refines:
  assumes rep: "represents h L" and legal: "op_legal op L"
  shows "represents (op_heap op h) (op_lists op L)"
proof (cases op)
  case (Init a)
  have "ring (INIT_LIST_HEAD a h) a []"
    by (simp add: ring_def INIT_LIST_HEAD_def)
  moreover have "ring (INIT_LIST_HEAD a h) b xs" if "(b, xs) \<in> set L" for b xs
  proof -
    have "ring h b xs" using rep that by (auto simp: represents_def)
    moreover have "a \<notin> set (b # xs)"
      using legal Init in_nodes [OF that] by auto
    ultimately show ?thesis
      using ring_frame [of b xs "INIT_LIST_HEAD a h" h] by (fastforce simp: INIT_LIST_HEAD_def)
  qed
  ultimately show ?thesis
    using rep legal Init by (auto simp: represents_def)
next
  case (Add x a)
  with legal obtain xs where "(a, xs) \<in> set L" and x: "x \<notin> set (nodes L)"
    by auto
  then obtain K M where L: "L = K @ (a, xs) # M"
    by (meson split_list)
  have r: "ring h a xs" using rep by (auto simp: represents_def L)
  have fr: "list_add x a h y = h y" if "y \<notin> set (a # xs)" "y \<in> set (nodes (K @ M))" for y
  proof -
    have "y \<noteq> x" using that(2) x L by auto
    with list_add_frame(1) [OF r that(1)] show ?thesis .
  qed
  have "represents (list_add x a h) (K @ (a, x # xs) # M)"
    by (rule represents_replace [OF rep [unfolded L]])
      (use x L r rep fr in \<open>auto simp: ring_list_add represents_def\<close>)
  with rep show ?thesis
    by (simp add: Add L on_list_here represents_def)
next
  case (Add_tail x a)
  with legal obtain xs where "(a, xs) \<in> set L" and x: "x \<notin> set (nodes L)"
    by auto
  then obtain K M where L: "L = K @ (a, xs) # M"
    by (meson split_list)
  have r: "ring h a xs" using rep by (auto simp: represents_def L)
  have fr: "list_add_tail x a h y = h y" if "y \<notin> set (a # xs)" "y \<in> set (nodes (K @ M))" for y
  proof -
    have "y \<noteq> x" using that(2) x L by auto
    with list_add_frame(2) [OF r that(1)] show ?thesis .
  qed
  have "represents (list_add_tail x a h) (K @ (a, xs @ [x]) # M)"
    by (rule represents_replace [OF rep [unfolded L]])
      (use x L r rep fr in \<open>auto simp: ring_list_add_tail represents_def\<close>)
  with rep show ?thesis
    by (simp add: Add_tail L on_list_here represents_def)
next
  case (Del x)
  with legal obtain a xs where "(a, xs) \<in> set L" "x \<in> set xs"
    by auto
  then obtain us vs K M where L: "L = K @ (a, us @ x # vs) # M"
    by (metis split_list)
  have r: "ring h a (us @ x # vs)" using rep by (auto simp: represents_def L)
  have "represents (list_del x h) (K @ (a, us @ vs) # M)"
    by (rule represents_replace [OF rep [unfolded L]])
      (use L r rep ring_remove [OF r] in \<open>auto simp: list_del_frame represents_def\<close>)
  moreover have "distinct (nodes (K @ (a, us @ x # vs) # M))"
    using rep by (simp add: represents_def L)
  ultimately show ?thesis
    unfolding Del op_heap.simps op_lists.simps L by (simp only: remove_here)
qed

fun ops_legal :: "list_op list \<Rightarrow> lists \<Rightarrow> bool" where
  "ops_legal [] L \<longleftrightarrow> True"
| "ops_legal (op # ops) L \<longleftrightarrow> op_legal op L \<and> ops_legal ops (op_lists op L)"

section \<open>Property\<close>

text \<open>
  C19: The linked lists of \<^verbatim>\<open>list.h\<close> are lists. Any sequence of initialisations, insertions at either
  end and removals, each legal (a node is inserted only while it is in no list, and removed only from
  a list that has it), keeps the heap a representation of the collection of lists that the same
  operations make; \<^verbatim>\<open>list_for_each\<close> then ends and visits exactly the nodes of a list in order, and
  \<^verbatim>\<open>list_empty\<close> tells whether there are any.
\<close>

theorem klist_refines_lists:
  assumes "represents h L" and "ops_legal ops L"
  shows "represents (fold op_heap ops h) (fold op_lists ops L) \<and>
    (\<forall>(a, xs)\<in>set (fold op_lists ops L).
       list_for_each (fold op_heap ops h) a (next (fold op_heap ops h a)) = Some xs \<and>
       (list_empty a (fold op_heap ops h) \<longleftrightarrow> xs = []))"
proof -
  have "represents (fold op_heap ops h) (fold op_lists ops L)"
    using assms by (induction ops arbitrary: h L) (auto intro: op_refines)
  then show ?thesis
    by (auto simp: represents_def ring_for_each ring_empty)
qed

theorem klist_refines_lists_witness:
  "let h = fold op_heap [Init 1, Add_tail 10 1, Add 11 1, Init 2, Add_tail 12 2, Del 10, Add_tail 10 2] (\<lambda>_. \<lparr>prev = 0, next = 0\<rparr>)
   in list_for_each h 1 (next (h 1)) = Some [11] \<and> list_for_each h 2 (next (h 2)) = Some [12, 10]"
proof -
  let ?ops = "[Init 1, Add_tail 10 1, Add 11 1, Init 2, Add_tail 12 2, Del 10, Add_tail 10 2]"
  have "ops_legal ?ops []" by (simp add: on_list_def)
  moreover have "fold op_lists ?ops [] = [(2, [12, 10]), (1, [11])]" by (simp add: on_list_def)
  moreover have "represents (\<lambda>_. \<lparr>prev = 0, next = 0\<rparr>) []" by (simp add: represents_def)
  ultimately show ?thesis
    using klist_refines_lists [of "\<lambda>_. \<lparr>prev = 0, next = 0\<rparr>" "[]" ?ops] by (simp add: Let_def)
qed

end
