(* ===== verification/Shell.thy ===== *)
theory Shell
  imports Syscall
begin

text \<open>
  The interactive shell of \<^verbatim>\<open>kernel/src/shell.c\<close>: the line editor, the recognition of a command, the
  parsing of its arguments, and the commands that change the state of the kernel. A command line is
  a string in a memory of its own, the editor's buffer. Output is the list of the characters given
  to \<^verbatim>\<open>uart_putc\<close>. A command that yields inside the kernel is modelled up to that point, as the system
  calls are.
\<close>

section \<open>Line editor\<close>

definition SHELL_BUF_SIZE :: nat where
  "SHELL_BUF_SIZE = 128"

definition text_line :: "string \<Rightarrow> u8 list" where
  "text_line s = ascii s @ [10]"

definition prompt :: "u8 list" where
  "prompt = ascii ''opi-rv2> ''"

record editor =
  ed_buf :: "u8 list"
  ed_len :: nat

text \<open>One turn of the loop of \<^verbatim>\<open>shell\<close> for the character \<open>c\<close>: the new state, the echo, and the command line
  to run, if the line is complete. \<^const>\<open>None\<close> is an access outside the buffer.\<close>

definition shell_key :: "i32 \<Rightarrow> editor \<Rightarrow> (editor \<times> u8 list \<times> u8 list option) option" where
  "shell_key c s =
     (if sint c < 0 then Some (s, [], None)
      else if c = 10 then do {
        buf \<leftarrow> aset (ed_buf s) (ed_len s) 0;
        Some (\<lparr>ed_buf = buf, ed_len = 0\<rparr>, [10], Some buf)
      }
      else if c = 8 \<or> c = 127 then
        Some (if ed_len s > 0 then (s\<lparr>ed_len := ed_len s - 1\<rparr>, [8, 32, 8], None) else (s, [], None))
      else if ed_len s < SHELL_BUF_SIZE - 1 then do {
        buf \<leftarrow> aset (ed_buf s) (ed_len s) (ucast c);
        Some (\<lparr>ed_buf = buf, ed_len = ed_len s + 1\<rparr>, [ucast c], None)
      }
      else Some (s, [], None))"

text \<open>The characters \<open>cs\<close> come in one after another. A complete line is handed to \<open>handle\<close>, with its
  output between the echo and the next prompt.\<close>

fun shell_keys :: "(mem \<Rightarrow> 's \<Rightarrow> ('s \<times> u8 list) option) \<Rightarrow> i32 list \<Rightarrow> editor \<times> 's \<Rightarrow>
    (editor \<times> 's \<times> u8 list) option" where
  "shell_keys handle [] (ed, s) = Some (ed, s, [])"
| "shell_keys handle (c # cs) (ed, s) = do {
     (ed1, echo, line) \<leftarrow> shell_key c ed;
     (s1, out) \<leftarrow> (case line of None \<Rightarrow> Some (s, []) | Some buf \<Rightarrow> do {
        (s', o') \<leftarrow> handle (lit buf) s; Some (s', o' @ prompt) });
     (ed2, s2, out2) \<leftarrow> shell_keys handle cs (ed1, s1);
     Some (ed2, s2, echo @ out @ out2)
   }"

section \<open>Commands\<close>

partial_function (option) skip_spaces :: "mem \<Rightarrow> u64 \<Rightarrow> u64 option" where
  "skip_spaces m p = (if m p = 32 then skip_spaces m (p + 1) else Some p)"

text \<open>The loop that reads a decimal number: the number, how many digits it has, and where it ends. The
  \<^verbatim>\<open>int\<close> must not overflow, which is undefined behaviour (\<^const>\<open>None\<close>).\<close>

definition is_digit :: "u8 \<Rightarrow> bool" where
  "is_digit c \<longleftrightarrow> 48 \<le> c \<and> c \<le> 57"

partial_function (option) parse_number :: "mem \<Rightarrow> u64 \<Rightarrow> int \<Rightarrow> nat \<Rightarrow> (int \<times> nat \<times> u64) option" where
  "parse_number m p n digits =
     (if is_digit (m p)
      then if n * 10 + (uint (m p) - 48) < 2 ^ 31
        then parse_number m (p + 1) (n * 10 + (uint (m p) - 48)) (digits + 1)
        else None
      else Some (n, digits, p))"

text \<open>What a command line asks for; the addresses are those of the arguments.\<close>

datatype command = Help | Hello | Info | Load | Test | Ls | Cat u64 | Exec u64 | Set_timeout u64
  | Taskdemo | Tasknest | Threadtest | Stop u64 | Kill u64 | Usage string | Unknown | Empty_line

fun first_case :: "(bool option \<times> command option) list \<Rightarrow> command option \<Rightarrow> command option" where
  "first_case [] r = r"
| "first_case ((test, c) # cs) r = Option.bind test (\<lambda>b. if b then c else first_case cs r)"

definition file_argument :: "mem \<Rightarrow> u64 \<Rightarrow> (u64 \<Rightarrow> command) \<Rightarrow> string \<Rightarrow> command option" where
  "file_argument m p c usage = Option.bind (skip_spaces m p) (\<lambda>q. Some (if m q = 0 then Usage usage else c q))"

definition shell_command :: "mem \<Rightarrow> u64 \<Rightarrow> command option" where
  "shell_command m cmd =
     (let is = (\<lambda>s. str_eq m cmd (lit (ascii s)) 0);
          starts = (\<lambda>s. str_startswith m cmd (lit (ascii s)) 0)
      in first_case
        [(is ''help'', Some Help),
         (is ''hello'', Some Hello),
         (is ''info'', Some Info),
         (is ''load'', Some Load),
         (is ''test'', Some Test),
         (is ''ls'', Some Ls),
         (starts ''cat '', file_argument m (cmd + 4) Cat ''cat <filename>''),
         (is ''cat'', Some (Usage ''cat <filename>'')),
         (starts ''exec '', file_argument m (cmd + 5) Exec ''exec <filename>''),
         (is ''exec'', Some (Usage ''exec <filename>'')),
         (starts ''setTimeout '', Some (Set_timeout (cmd + 11))),
         (is ''setTimeout'', Some (Usage ''setTimeout <seconds> <message>'')),
         (is ''taskdemo'', Some Taskdemo),
         (is ''tasknest'', Some Tasknest),
         (is ''threadtest'', Some Threadtest),
         (starts ''stop '', Some (Stop (cmd + 5))),
         (is ''stop'', Some (Usage ''stop <pid>'')),
         (starts ''kill '', Some (Kill (cmd + 5))),
         (is ''kill'', Some (Usage ''kill <pid> <signum>''))]
        (Some (if m cmd \<noteq> 0 then Unknown else Empty_line)))"

definition usage_text :: "string \<Rightarrow> u8 list" where
  "usage_text s = ascii ''usage: '' @ text_line s"

text \<open>The text of a string in memory, as \<^verbatim>\<open>uart_puts\<close> prints it.\<close>

partial_function (option) string_at :: "mem \<Rightarrow> u64 \<Rightarrow> u8 list option" where
  "string_at m p = (if m p = 0 then Some [] else Option.bind (string_at m (p + 1)) (\<lambda>s. Some (m p # s)))"

section \<open>Processes\<close>

definition shell_stop_pid :: "mem \<Rightarrow> u64 \<Rightarrow> kernel \<Rightarrow> (kernel \<times> u8 list) option" where
  "shell_stop_pid m args k = do {
     p \<leftarrow> skip_spaces m args;
     (pid, digits, _) \<leftarrow> parse_number m p 0 0;
     if digits = 0 then Some (k, usage_text ''stop <pid>'')
     else do {
       found \<leftarrow> find_thread_by_pid k (word_of_int pid);
       case found of
         None \<Rightarrow> Some (k, text_line ''stop: pid not found'')
       | Some t \<Rightarrow> do {
           th \<leftarrow> threads k t;
           if image_base th = NULL then Some (k, text_line ''stop: pid not found'')
           else do {
             let k1 = (if state th = THREAD_READY then del_link t k else k);
             k2 \<leftarrow> upd k1 t (\<lambda>th. th\<lparr>exit_status := -1, state := THREAD_ZOMBIE\<rparr>);
             k3 \<leftarrow> free_image k2 t;
             k4 \<leftarrow> (if parent th \<noteq> NULL then thread_wakeup k3 (parent th) else Some k3);
             Some (k4, ascii ''[stop] pid='' @ print_dec_ulong (of_int pid) @ text_line '' terminated'')
           }
         }
     }
   }"

definition shell_kill_pid :: "mem \<Rightarrow> u64 \<Rightarrow> kernel \<Rightarrow> (kernel \<times> u8 list) option" where
  "shell_kill_pid m args k = do {
     p \<leftarrow> skip_spaces m args;
     (pid, digits, q) \<leftarrow> parse_number m p 0 0;
     if digits = 0 \<or> m q \<noteq> 32 then Some (k, usage_text ''kill <pid> <signum>'')
     else do {
       r \<leftarrow> skip_spaces m q;
       (signum, digits', _) \<leftarrow> parse_number m r 0 0;
       if digits' = 0 \<or> signum \<le> 0 \<or> int NSIG \<le> signum then Some (k, usage_text ''kill <pid> <signum>'')
       else do {
         found \<leftarrow> find_thread_by_pid k (word_of_int pid);
         case found of
           None \<Rightarrow> Some (k, text_line ''kill: pid not found'')
         | Some t \<Rightarrow> do {
             th \<leftarrow> threads k t;
             if image_base th = NULL then Some (k, text_line ''kill: pid not found'')
             else do {
               k1 \<leftarrow> signal_post k t (word_of_int signum);
               Some (k1, ascii ''[kill] posted signum='' @ print_dec_ulong (of_int signum) @
                 ascii '' to pid='' @ print_dec_ulong (of_int pid) @ [10])
             }
           }
       }
     }
   }"

text \<open>\<^verbatim>\<open>run_user_program\<close> up to the point where the shell blocks on its child, and its loop from there:
  \<open>Some t\<close> is waiting for \<open>t\<close>.\<close>

definition exec_wait :: "kernel \<Rightarrow> u64 \<Rightarrow> (kernel \<times> u64 option) option" where
  "exec_wait k t = do {
     th \<leftarrow> threads k t;
     if state th \<noteq> THREAD_ZOMBIE then do { k1 \<leftarrow> thread_block k; Some (k1, Some t) }
     else Some (sched_zombify (del_sibling t k) t, None)
   }"

definition run_user_program :: "u64 \<Rightarrow> mem \<Rightarrow> u64 \<Rightarrow> kernel \<Rightarrow> (kernel \<times> u64 option \<times> u8 list) option" where
  "run_user_program initrd m name k = do {
     (k1, t) \<leftarrow> thread_spawn_user k initrd m name;
     if t = NULL then do { s \<leftarrow> string_at m name; Some (k1, None, ascii ''exec: cannot start '' @ s @ [10]) }
     else do { (k2, w) \<leftarrow> exec_wait k1 t; Some (k2, w, []) }
   }"

section \<open>Timers\<close>

definition SETTO_MSG_MAX :: nat where
  "SETTO_MSG_MAX = 96"

definition SETTO_CTX_SIZE :: u64 where
  "SETTO_CTX_SIZE = 8 + 8 + 96"

text \<open>The context at \<open>c\<close>: two tick counts, then the message. The loop copies at most 95 bytes.\<close>

partial_function (option) copy_msg :: "mem \<Rightarrow> u64 \<Rightarrow> nat \<Rightarrow> mem \<Rightarrow> u64 \<Rightarrow> mem option" where
  "copy_msg src p i m c =
     (if src (p + of_nat i) \<noteq> 0 \<and> i < SETTO_MSG_MAX - 1
      then copy_msg src p (i + 1) (m(c + 16 + of_nat i := src (p + of_nat i))) c
      else Some (m(c + 16 + of_nat i := 0)))"

definition shell_set_timeout ::
    "u64 \<Rightarrow> u64 \<Rightarrow> u64 \<Rightarrow> mem \<Rightarrow> u64 \<Rightarrow> kernel \<Rightarrow> timers \<Rightarrow> (kernel \<times> timers \<times> u8 list) option" where
  "shell_set_timeout cb now now' m args k tm = do {
     p \<leftarrow> skip_spaces m args;
     (sec, digits, q) \<leftarrow> parse_number m p 0 0;
     if digits = 0 \<or> sec \<le> 0 \<or> m q \<noteq> 32 then Some (k, tm, usage_text ''setTimeout <seconds> <message>'')
     else do {
       msg \<leftarrow> skip_spaces m q;
       if m msg = 0 then Some (k, tm, usage_text ''setTimeout <seconds> <message>'')
       else do {
         (k1, c) \<leftarrow> k_kmalloc k SETTO_CTX_SIZE;
         if c = NULL then Some (k1, tm, text_line ''setTimeout: out of memory'')
         else do {
           let m1 = store64 (k_mem k1) c now;
           let m2 = store64 m1 (c + 8) (now + of_int sec * timer_get_timebase_freq tm);
           m3 \<leftarrow> copy_msg m msg 0 m2 c;
           (h, tm') \<leftarrow> add_timer (k_heap k1) tm now' cb c (word_of_int sec);
           Some (k1\<lparr>k_mem := m3, k_heap := h\<rparr>, tm', [])
         }
       }
     }
   }"

definition setto_cb :: "u64 \<Rightarrow> timers \<Rightarrow> u64 \<Rightarrow> kernel \<Rightarrow> (kernel \<times> u8 list) option" where
  "setto_cb now tm c k = do {
     let hz = timer_get_timebase_freq tm;
     msg \<leftarrow> string_at (k_mem k) (c + 16);
     k1 \<leftarrow> k_kfree k c;
     Some (k1, [10] @ ascii ''[setTimeout] registered='' @ print_dec_ulong (load64 (k_mem k) c div hz) @
       ascii ''s scheduled='' @ print_dec_ulong (load64 (k_mem k) (c + 8) div hz) @
       ascii ''s fired='' @ print_dec_ulong (now div hz) @ ascii ''s : '' @ msg @ [10])
   }"

section \<open>Kernel loader\<close>

definition BOOT_MAGIC :: u32 where
  "BOOT_MAGIC = 0x544F4F42"

text \<open>The header is read with \<^verbatim>\<open>uart_getc\<close>, the kernel with \<^verbatim>\<open>uart_getc_raw\<close>, which go separate ways to the
  device once interrupts are on: \<open>gs\<close> and \<open>rs\<close> are the results of their calls, and \<^const>\<open>None\<close> is
  waiting for more of them. The operands of the header expressions are evaluated from left to right;
  C leaves their order open.\<close>

definition header_word :: "i32 \<Rightarrow> i32 \<Rightarrow> i32 \<Rightarrow> i32 \<Rightarrow> u32" where
  "header_word b0 b1 b2 b3 = b0 OR push_bit 8 b1 OR push_bit 16 b2 OR push_bit 24 b3"

fun load_bytes :: "nat \<Rightarrow> i32 list \<Rightarrow> u64 \<Rightarrow> mem \<Rightarrow> mem option" where
  "load_bytes 0 rs dst m = Some m"
| "load_bytes (Suc n) [] dst m = None"
| "load_bytes (Suc n) (r # rs) dst m = load_bytes n rs (dst + 1) (m(dst := ucast r))"

text \<open>The result is the memory, whether the kernel is entered, and the output.\<close>

definition shell_load_kernel :: "u64 \<Rightarrow> i32 list \<Rightarrow> i32 list \<Rightarrow> mem \<Rightarrow> (mem \<times> bool \<times> u8 list) option" where
  "shell_load_kernel load_addr gs rs m =
     (case gs of
        b0 # b1 # b2 # b3 # s0 # s1 # s2 # s3 # _ \<Rightarrow>
          let magic = header_word b0 b1 b2 b3; size = header_word s0 s1 s2 s3;
              out = text_line ''Waiting for kernel over UART...''
          in if magic \<noteq> BOOT_MAGIC then Some (m, False, out @ text_line ''Invalid header (bad magic).'')
             else do {
               m' \<leftarrow> load_bytes (unat size) rs load_addr m;
               Some (m', True, out @ ascii ''Loaded '' @ print_dec_ulong (ucast size) @
                 ascii '' bytes, jumping to 0x'' @ print_hex_ulong load_addr @ text_line '' ...'')
             }
      | _ \<Rightarrow> None)"

end
