(* ===== verification/Shell_Commands.thy ===== *)
theory Shell_Commands
  imports Shell
begin

text \<open>
  The execution of a command line in \<^verbatim>\<open>kernel/src/shell.c\<close>, with the commands that exercise the
  kernel: the report on the firmware (through \<^verbatim>\<open>kernel/src/sbi.c\<close>), the test of the memory
  allocator, the demonstrations of tasks and of threads. The firmware is a parameter: a function from
  the extension, the function and the first argument of an environment call to its answer.
\<close>

section \<open>Firmware calls\<close>

record sbiret =
  sbi_error :: u64
  sbi_value :: u64

type_synonym firmware = "u64 \<Rightarrow> u64 \<Rightarrow> u64 \<Rightarrow> sbiret"

definition SBI_EXT_BASE :: u64 where "SBI_EXT_BASE = 0x10"
definition SBI_EXT_TIME :: u64 where "SBI_EXT_TIME = 0x54494D45"
definition SBI_EXT_LEGACY_SET_TIMER :: u64 where "SBI_EXT_LEGACY_SET_TIMER = 0"

definition sbi_get_spec_version :: "firmware \<Rightarrow> sbiret" where
  "sbi_get_spec_version fw = fw SBI_EXT_BASE 0 0"

definition sbi_get_impl_id :: "firmware \<Rightarrow> sbiret" where
  "sbi_get_impl_id fw = fw SBI_EXT_BASE 1 0"

definition sbi_get_impl_version :: "firmware \<Rightarrow> sbiret" where
  "sbi_get_impl_version fw = fw SBI_EXT_BASE 2 0"

definition sbi_set_timer :: "firmware \<Rightarrow> u64 \<Rightarrow> sbiret" where
  "sbi_set_timer fw stime_value =
     (let r = fw SBI_EXT_TIME 0 stime_value
      in if sbi_error r = 0 then r else fw SBI_EXT_LEGACY_SET_TIMER 0 stime_value)"

section \<open>Output commands\<close>

definition shell_print_help :: "u8 list" where
  "shell_print_help =
     text_line ''  help  - show all commands.'' @
     text_line ''  hello - print Hello world.'' @
     text_line ''  info  - print system info.'' @
     text_line ''  load  - receive kernel over UART and boot.'' @
     text_line ''  ls    - list files in the initial ramdisk.'' @
     text_line ''  cat   - print content of a file in the initial ramdisk.'' @
     text_line ''  exec  - load a user program from initrd and run it in U-mode.'' @
     text_line ''  test  - run memory allocator test.'' @
     text_line ''  setTimeout <sec> <msg> - print msg after sec seconds.'' @
     text_line ''  taskdemo - enqueue 3 tasks out of priority order.'' @
     text_line ''  tasknest - nested priority dispatch demo (start -> inner -> end).'' @
     text_line ''  threadtest - spawn 3 cooperative threads (Lab5 Basic Ex1).'' @
     text_line ''  stop <pid> - forcibly terminate a user process (Lab5 Basic Ex2).'' @
     text_line ''  kill <pid> <signum> - post a POSIX signal to a user process.''"

definition info_line :: "string \<Rightarrow> sbiret \<Rightarrow> u8 list" where
  "info_line what ret =
     (if sbi_error ret = 0 then ascii what @ ascii '': 0x'' @ print_hex_ulong (sbi_value ret) @ [10]
      else ascii what @ ascii '': error '' @ print_dec_ulong (sbi_error ret) @ [10])"

definition shell_print_info :: "firmware \<Rightarrow> u8 list" where
  "shell_print_info fw =
     info_line ''OpenSBI spec version'' (sbi_get_spec_version fw) @
     info_line ''Implementation ID'' (sbi_get_impl_id fw) @
     info_line ''Implementation version'' (sbi_get_impl_version fw)"

section \<open>Memory test\<close>

text \<open>Requests one after another, and the release of their results in the same order.\<close>

fun grab :: "u64 list \<Rightarrow> kheap \<Rightarrow> (kheap \<times> u64 list) option" where
  "grab [] h = Some (h, [])"
| "grab (sz # szs) h = do { (h1, p) \<leftarrow> kmalloc h sz; (h2, ps) \<leftarrow> grab szs h1; Some (h2, p # ps) }"

fun release :: "u64 list \<Rightarrow> kheap \<Rightarrow> kheap option" where
  "release [] h = Some h"
| "release (p # ps) h = do { h1 \<leftarrow> kfree h p; release ps h1 }"

definition test_pages_text :: "u8 list \<times> u8 list" where
  "test_pages_text =
     (text_line ''Testing memory allocation...'' @ text_line ''Allocating 4000 bytes...'' @
      text_line ''Allocating 8000 bytes...'' @ text_line ''Allocating another 4000 bytes...'' @
      text_line ''Allocating 4000 bytes again...'',
      text_line ''Freeing the 4000-byte block...'' @ text_line ''Freeing the 8000-byte block...'' @
      text_line ''Freeing the last two 4000-byte blocks...'' @ text_line ''Freeing the last 4000-byte block...'')"

definition test_chunks_text :: "u8 list \<times> u8 list" where
  "test_chunks_text =
     (text_line ''Testing dynamic allocator...'' @
      text_line ''Allocating chunks of sizes 16, 32, 64, 128, 16, 32 bytes...'',
      text_line ''Freeing the 6 allocated chunks...'' @ text_line ''Testing chunk pool refill...'')"

definition test_alloc_1 :: "kheap \<Rightarrow> (kheap \<times> u8 list) option" where
  "test_alloc_1 h = do {
     (h1, ps) \<leftarrow> grab [4000, 8000, 4000, 4000] h;
     h2 \<leftarrow> release ps h1;
     (h3, qs) \<leftarrow> grab [16, 32, 64, 128, 16, 32] h2;
     h4 \<leftarrow> release qs h3;
     (h5, rs) \<leftarrow> grab (replicate 100 128) h4;
     h6 \<leftarrow> release rs h5;
     (h7, p) \<leftarrow> kmalloc h6 (of_nat (buddy_get_total_pages (heap_buddy h6)) * PAGE_SIZE + 1);
     let out = fst test_pages_text @ snd test_pages_text @ fst test_chunks_text @ snd test_chunks_text @
       text_line ''Testing allocation exceeding maximum size...'';
     if p = NULL
     then Some (h7, out @ text_line ''Allocation failed as expected for size > MAX_ALLOC_SIZE'' @
       text_line ''=== Memory allocation test done ==='')
     else do {
       h8 \<leftarrow> kfree h7 p;
       Some (h8, out @ text_line ''Unexpected allocation success for size > MAX_ALLOC_SIZE'' @
         text_line ''=== Memory allocation test done ==='')
     }
   }"

section \<open>Task demonstrations\<close>

definition demo_task_short :: "u64 \<Rightarrow> u8 list" where
  "demo_task_short arg = ascii ''[task pri='' @ print_dec_ulong (scast (ucast arg :: i32)) @ text_line ''] hello''"

text \<open>The callbacks that may run while a demonstration does: its own two, at the addresses \<open>short\<close> and
  \<open>slow\<close>, and those of the drivers. The dispatcher inside \<^verbatim>\<open>demo_task_slow\<close> runs only tasks more
  urgent than 9, so not \<^verbatim>\<open>demo_task_slow\<close> again.\<close>

type_synonym task_world = "u8 list \<times> kheap \<times> tasks"

definition demo_inner :: "(u64 \<Rightarrow> u64 \<Rightarrow> task_world \<Rightarrow> task_world option) \<Rightarrow> u64 \<Rightarrow>
    u64 \<Rightarrow> u64 \<Rightarrow> task_world \<Rightarrow> task_world option" where
  "demo_inner driver short cb arg s =
     (if cb = short then (case s of (out, h, ts) \<Rightarrow> Some (out @ demo_task_short arg, h, ts))
      else driver cb arg s)"

definition demo_task_slow :: "(u64 \<Rightarrow> u64 \<Rightarrow> task_world \<Rightarrow> task_world option) \<Rightarrow> u64 \<Rightarrow>
    task_world \<Rightarrow> task_world option" where
  "demo_task_slow driver short s = (case s of (out, h, ts) \<Rightarrow> do {
     (h1, ts1, r) \<leftarrow> add_task h ts short 123 5;
     (out2, h2, ts2) \<leftarrow> task_run_pending (demo_inner driver short)
       (out @ text_line ''[slow pri=9] start'', h1, ts1);
     Some (out2 @ text_line ''[slow pri=9] end'', h2, ts2)
   })"

definition demo_run :: "(u64 \<Rightarrow> u64 \<Rightarrow> task_world \<Rightarrow> task_world option) \<Rightarrow> u64 \<Rightarrow> u64 \<Rightarrow>
    u64 \<Rightarrow> u64 \<Rightarrow> task_world \<Rightarrow> task_world option" where
  "demo_run driver short slow cb arg s =
     (if cb = slow then demo_task_slow driver short s else demo_inner driver short cb arg s)"

definition taskdemo :: "(u64 \<Rightarrow> u64 \<Rightarrow> task_world \<Rightarrow> task_world option) \<Rightarrow> u64 \<Rightarrow> u64 \<Rightarrow>
    kheap \<Rightarrow> tasks \<Rightarrow> task_world option" where
  "taskdemo driver short slow h ts = do {
     (h1, ts1, r1) \<leftarrow> add_task h ts short 3 3;
     (h2, ts2, r2) \<leftarrow> add_task h1 ts1 short 1 1;
     (h3, ts3, r3) \<leftarrow> add_task h2 ts2 short 5 5;
     task_run_pending (demo_run driver short slow) ([], h3, ts3)
   }"

definition tasknest :: "(u64 \<Rightarrow> u64 \<Rightarrow> task_world \<Rightarrow> task_world option) \<Rightarrow> u64 \<Rightarrow> u64 \<Rightarrow>
    kheap \<Rightarrow> tasks \<Rightarrow> task_world option" where
  "tasknest driver short slow h ts = do {
     (h1, ts1, r1) \<leftarrow> add_task h ts slow NULL 9;
     task_run_pending (demo_run driver short slow) ([], h1, ts1)
   }"

section \<open>Thread demonstration\<close>

text \<open>One round of \<^verbatim>\<open>demo_thread_body\<close> in the current thread, up to the switch to another one.\<close>

definition demo_thread_round :: "kernel \<Rightarrow> nat \<Rightarrow> (kernel \<times> u8 list) option" where
  "demo_thread_round k i = do {
     self \<leftarrow> threads k (get_current k);
     k1 \<leftarrow> schedule k;
     Some (k1, ascii ''Thread id: '' @ print_dec_ulong (scast (tid self)) @ ascii '' iter '' @
       print_dec_ulong (of_nat i) @ [10])
   }"

text \<open>The creation of the three workers, and one turn of the loop of the shell.\<close>

definition threadtest_start :: "u64 \<Rightarrow> kernel \<Rightarrow> kernel option" where
  "threadtest_start body k = do {
     (k1, t1) \<leftarrow> thread_create k body;
     (k2, t2) \<leftarrow> thread_create k1 body;
     (k3, t3) \<leftarrow> thread_create k2 body;
     Some k3
   }"

section \<open>Execution\<close>

text \<open>What the shell does after a command: it prompts again, waits for a child, goes on with the thread
  demonstration for the given number of turns, or has entered another kernel.\<close>

datatype shell_point = Prompts | Waits_for u64 | Yields nat | Booted

record shell_env =
  sh_initrd :: u64
  sh_firmware :: firmware
  sh_load_addr :: u64
  sh_getc :: "i32 list"
  sh_getc_raw :: "i32 list"
  sh_now :: u64
  sh_now_later :: u64
  sh_setto_cb :: u64
  sh_short :: u64
  sh_slow :: u64
  sh_body :: u64
  sh_driver :: "u64 \<Rightarrow> u64 \<Rightarrow> task_world \<Rightarrow> task_world option"

type_synonym shell_state = "kernel \<times> timers \<times> tasks"

text \<open>A demonstration of tasks works on the heap and the task queue.\<close>

definition on_tasks :: "task_world option \<Rightarrow> shell_state \<Rightarrow> (shell_state \<times> u8 list \<times> shell_point) option" where
  "on_tasks r s = (case s of (k, tm, ts) \<Rightarrow>
     map_option (\<lambda>(out, h, ts'). ((k\<lparr>k_heap := h\<rparr>, tm, ts'), out, Prompts)) r)"

definition on_threads :: "(kernel \<times> u8 list) option \<Rightarrow> shell_state \<Rightarrow> (shell_state \<times> u8 list \<times> shell_point) option" where
  "on_threads r s = (case s of (k, tm, ts) \<Rightarrow> map_option (\<lambda>(k', out). ((k', tm, ts), out, Prompts)) r)"

definition threadtest_turn :: "nat \<Rightarrow> shell_state \<Rightarrow> (shell_state \<times> u8 list \<times> shell_point) option" where
  "threadtest_turn i s = (case s of (k, tm, ts) \<Rightarrow>
     if i = 0 then Some (s, text_line ''[threadtest] back in shell'', Prompts)
     else do { k1 \<leftarrow> schedule k; Some ((k1, tm, ts), [], Yields (i - 1)) })"

definition run_command ::
    "shell_env \<Rightarrow> mem \<Rightarrow> u64 \<Rightarrow> command \<Rightarrow> shell_state \<Rightarrow> (shell_state \<times> u8 list \<times> shell_point) option" where
  "run_command env m cmd c s = (case s of (k, tm, ts) \<Rightarrow> case c of
       Help \<Rightarrow> Some (s, shell_print_help, Prompts)
     | Hello \<Rightarrow> Some (s, text_line ''Hello world.'', Prompts)
     | Info \<Rightarrow> Some (s, shell_print_info (sh_firmware env), Prompts)
     | Load \<Rightarrow> do {
         (m', enters, out) \<leftarrow> shell_load_kernel (sh_load_addr env) (sh_getc env) (sh_getc_raw env) (k_mem k);
         Some ((k\<lparr>k_mem := m'\<rparr>, tm, ts), out, if enters then Booted else Prompts)
       }
     | Test \<Rightarrow> map_option (\<lambda>(h, out). ((k\<lparr>k_heap := h\<rparr>, tm, ts), out, Prompts)) (test_alloc_1 (k_heap k))
     | Ls \<Rightarrow> map_option (\<lambda>out. (s, out, Prompts)) (cpio_ls (k_mem k) (sh_initrd env))
     | Cat name \<Rightarrow> map_option (\<lambda>(out, _). (s, out, Prompts)) (cpio_cat (k_mem k) (sh_initrd env) m name)
     | Exec name \<Rightarrow> map_option (\<lambda>(k', w, out).
           ((k', tm, ts), out, case w of None \<Rightarrow> Prompts | Some t \<Rightarrow> Waits_for t))
         (run_user_program (sh_initrd env) m name k)
     | Set_timeout args \<Rightarrow> map_option (\<lambda>(k', tm', out). ((k', tm', ts), out, Prompts))
         (shell_set_timeout (sh_setto_cb env) (sh_now env) (sh_now_later env) m args k tm)
     | Taskdemo \<Rightarrow> on_tasks (taskdemo (sh_driver env) (sh_short env) (sh_slow env) (k_heap k) ts) s
     | Tasknest \<Rightarrow> on_tasks (tasknest (sh_driver env) (sh_short env) (sh_slow env) (k_heap k) ts) s
     | Threadtest \<Rightarrow> do { k1 \<leftarrow> threadtest_start (sh_body env) k; threadtest_turn 20 (k1, tm, ts) }
     | Stop args \<Rightarrow> on_threads (shell_stop_pid m args k) s
     | Kill args \<Rightarrow> on_threads (shell_kill_pid m args k) s
     | Usage u \<Rightarrow> Some (s, usage_text u, Prompts)
     | Unknown \<Rightarrow> do { t \<leftarrow> string_at m cmd; Some (s, ascii ''Unknown command: '' @ t @ [10], Prompts) }
     | Empty_line \<Rightarrow> Some (s, [], Prompts))"

definition shell_handle_command ::
    "shell_env \<Rightarrow> mem \<Rightarrow> u64 \<Rightarrow> shell_state \<Rightarrow> (shell_state \<times> u8 list \<times> shell_point) option" where
  "shell_handle_command env m cmd s = do { c \<leftarrow> shell_command m cmd; run_command env m cmd c s }"

end
