(* ===== verification/Shell_Facts.thy ===== *)
theory Shell_Facts
  imports Shell_Commands
begin

text \<open>
  The properties of the shell (theories \<open>Shell\<close> and \<open>Shell_Commands\<close>): the line editor against an
  editor of lists, the command \<open>kill\<close> against the system call it stands for, and the outcome of the
  memory test.
\<close>

section \<open>Line editor\<close>

text \<open>The buffer has its 128 bytes and the length leaves room for the terminator.\<close>

definition ed_ok :: "editor \<Rightarrow> bool" where
  "ed_ok s \<longleftrightarrow> length (ed_buf s) = 128 \<and> ed_len s < 128"

definition ed_line :: "editor \<Rightarrow> u8 list" where
  "ed_line s = take (ed_len s) (ed_buf s)"

text \<open>The same editor on a list of characters.\<close>

definition edit_key :: "i32 \<Rightarrow> u8 list \<Rightarrow> u8 list \<times> u8 list \<times> u8 list option" where
  "edit_key c l =
     (if sint c < 0 then (l, [], None)
      else if c = 10 then ([], [10], Some (takeWhile (\<lambda>c. c \<noteq> 0) l))
      else if c = 8 \<or> c = 127 then (butlast l, if l = [] then [] else [8, 32, 8], None)
      else if length l < 127 then (l @ [ucast c], [ucast c], None)
      else (l, [], None))"

fun edit_keys :: "(u8 list \<Rightarrow> 's \<Rightarrow> ('s \<times> u8 list) option) \<Rightarrow> i32 list \<Rightarrow> u8 list \<times> 's \<Rightarrow>
    (u8 list \<times> 's \<times> u8 list) option" where
  "edit_keys command [] (l, s) = Some (l, s, [])"
| "edit_keys command (c # cs) (l, s) = (case edit_key c l of (l1, echo, line) \<Rightarrow> do {
     (s1, out) \<leftarrow> (case line of None \<Rightarrow> Some (s, []) | Some cmd \<Rightarrow> do {
        (s', o') \<leftarrow> command cmd s; Some (s', o' @ prompt) });
     (l2, s2, out2) \<leftarrow> edit_keys command cs (l1, s1);
     Some (l2, s2, echo @ out @ out2)
   })"

lemma cstr_lit_prefix:
  assumes "length l < length buf" and "take (length l) buf = l" and "buf ! length l = 0" and "length buf < 2 ^ 64"
  shows "cstr (lit buf) 0 (takeWhile (\<lambda>c. c \<noteq> 0) l)"
proof -
  let ?s = "takeWhile (\<lambda>c. c \<noteq> 0) l"
  have u: "unat (of_nat i :: u64) = i" if "i \<le> length l" for i
    using that assms(1,4) by (simp add: unat_of_nat)
  have le: "length ?s \<le> length l" by (rule length_takeWhile_le)
  have nth: "buf ! i = l ! i" if "i < length l" for i
    using assms(2) that by (metis nth_take)
  have "lit buf (of_nat i) = ?s ! i \<and> ?s ! i \<noteq> 0" if "i < length ?s" for i
  proof -
    have "i < length l" using that le by simp
    then have "lit buf (of_nat i) = l ! i"
      using assms(1) by (simp add: lit_def u nth)
    moreover have "?s ! i = l ! i" using that by (rule takeWhile_nth)
    moreover have "?s ! i \<noteq> 0" using nth_mem [OF that] by (auto dest: set_takeWhileD)
    ultimately show ?thesis by simp
  qed
  moreover have "lit buf (of_nat (length ?s)) = 0"
  proof (cases "length ?s = length l")
    case True
    with assms(1,3) show ?thesis by (simp add: lit_def u)
  next
    case False
    with le have lt: "length ?s < length l" by simp
    then have "l ! length ?s = 0" using nth_length_takeWhile by blast
    with lt assms(1) show ?thesis by (simp add: lit_def u nth)
  qed
  ultimately show ?thesis by (simp add: cstr_def)
qed

lemma shell_key_edits:
  assumes ok: "ed_ok s"
  shows "\<exists>s' echo r. shell_key c s = Some (s', echo, r) \<and> ed_ok s' \<and>
    (case edit_key c (ed_line s) of (l', echo', r') \<Rightarrow> ed_line s' = l' \<and> echo = echo' \<and>
      (case r' of None \<Rightarrow> r = None
       | Some l \<Rightarrow> \<exists>buf. r = Some buf \<and> length buf = 128 \<and> cstr (lit buf) 0 l))"
proof -
  have len: "length (ed_line s) = ed_len s" using ok by (simp add: ed_ok_def ed_line_def)
  have empty: "ed_line s = [] \<longleftrightarrow> ed_len s = 0" using len by (metis length_0_conv)
  consider "sint c < 0" | "0 \<le> sint c" "c = 10" | "0 \<le> sint c" "c \<noteq> 10" "c = 8 \<or> c = 127"
    | "0 \<le> sint c" "c \<noteq> 10" "c \<noteq> 8" "c \<noteq> 127" by fastforce
  then show ?thesis
  proof cases
    case 1
    with ok show ?thesis by (simp add: shell_key_def edit_key_def)
  next
    case 2
    let ?buf = "(ed_buf s)[ed_len s := 0]"
    have "cstr (lit ?buf) 0 (takeWhile (\<lambda>c. c \<noteq> 0) (ed_line s))"
      using ok len by (intro cstr_lit_prefix) (simp_all add: ed_ok_def ed_line_def)
    with 2 ok show ?thesis
      by (simp add: shell_key_def edit_key_def ed_ok_def aset_in) (simp add: ed_line_def)
  next
    case 3
    have "take (ed_len s - 1) (ed_buf s) = butlast (ed_line s)"
      using ok by (simp add: ed_line_def ed_ok_def butlast_take)
    with 3 ok empty show ?thesis
      by (auto simp: shell_key_def edit_key_def ed_ok_def ed_line_def)
  next
    case 4
    show ?thesis
    proof (cases "ed_len s < 127")
      case True
      with ok have "take (Suc (ed_len s)) ((ed_buf s)[ed_len s := ucast c]) = ed_line s @ [ucast c]"
        by (simp add: ed_line_def ed_ok_def take_Suc_conv_app_nth)
      with 4 ok True len show ?thesis
        by (simp add: shell_key_def edit_key_def ed_ok_def aset_in SHELL_BUF_SIZE_def) (simp add: ed_line_def)
    next
      case False
      with 4 ok len show ?thesis
        by (simp add: shell_key_def edit_key_def SHELL_BUF_SIZE_def)
    qed
  qed
qed

lemma shell_keys_edit:
  assumes ok: "ed_ok ed" and cmd: "\<And>m l s. cstr m 0 l \<Longrightarrow> handle m s = command l s"
  shows "map_option (\<lambda>(ed', s', out). (ed_line ed', s', out)) (shell_keys handle cs (ed, s)) =
      edit_keys command cs (ed_line ed, s) \<and>
    (\<forall>ed' s' out. shell_keys handle cs (ed, s) = Some (ed', s', out) \<longrightarrow> ed_ok ed')"
  using ok
proof (induction cs arbitrary: ed s)
  case Nil
  then show ?case by simp
next
  case (Cons c cs)
  obtain l1 echo line where e: "edit_key c (ed_line ed) = (l1, echo, line)" by (metis surj_pair)
  obtain ed1 r where k: "shell_key c ed = Some (ed1, echo, r)" "ed_ok ed1" "ed_line ed1 = l1"
    and r: "case line of None \<Rightarrow> r = None | Some l \<Rightarrow> \<exists>buf. r = Some buf \<and> length buf = 128 \<and> cstr (lit buf) 0 l"
    using shell_key_edits [OF Cons.prems, of c] unfolding e by auto
  have step: "(case r of None \<Rightarrow> Some (s, []) | Some buf \<Rightarrow> do { (s', o') \<leftarrow> handle (lit buf) s; Some (s', o' @ prompt) }) =
      (case line of None \<Rightarrow> Some (s, []) | Some l \<Rightarrow> do { (s', o') \<leftarrow> command l s; Some (s', o' @ prompt) })"
    using r cmd by (cases line) auto
  show ?case
  proof (cases "case line of None \<Rightarrow> Some (s, []) | Some l \<Rightarrow> do { (s', o') \<leftarrow> command l s; Some (s', o' @ prompt) }")
    case None
    with k e step show ?thesis by simp
  next
    case (Some so)
    obtain s1 out where so: "so = (s1, out)" by fastforce
    from Cons.IH [OF k(2), of s1] k e step Some so show ?thesis
      by (cases "shell_keys handle cs (ed1, s1)") (auto split: prod.splits dest!: sym [of "Some _"])
  qed
qed

lemma shell_keys_typed:
  assumes "ed_ok ed" and "I s"
    and handle: "\<And>m l s. cstr m 0 l \<Longrightarrow> length l < 128 \<Longrightarrow> I s \<Longrightarrow> \<exists>s' out. handle m s = Some (s', out) \<and> I s'"
  shows "\<exists>ed' s' out. shell_keys handle cs (ed, s) = Some (ed', s', out) \<and> ed_ok ed' \<and> I s'"
  using assms(1,2)
proof (induction cs arbitrary: ed s)
  case Nil
  then show ?case by simp
next
  case (Cons c cs)
  obtain l1 echo line where e: "edit_key c (ed_line ed) = (l1, echo, line)" by (metis surj_pair)
  obtain ed1 r where k: "shell_key c ed = Some (ed1, echo, r)" "ed_ok ed1"
    and r: "case line of None \<Rightarrow> r = None | Some l \<Rightarrow> \<exists>buf. r = Some buf \<and> length buf = 128 \<and> cstr (lit buf) 0 l"
    using shell_key_edits [OF Cons.prems(1), of c] unfolding e by auto
  have short: "length l < 128" if "line = Some l" for l
  proof -
    have "length (ed_line ed) < 128"
      using Cons.prems(1) by (simp add: ed_ok_def ed_line_def)
    moreover have "length l \<le> length (ed_line ed)"
      using e that by (auto simp: edit_key_def length_takeWhile_le split: if_splits)
    ultimately show ?thesis by simp
  qed
  obtain s1 out where h: "(case r of None \<Rightarrow> Some (s, []) | Some buf \<Rightarrow> do { (s', o') \<leftarrow> handle (lit buf) s; Some (s', o' @ prompt) }) = Some (s1, out)"
    and I: "I s1"
  proof (cases line)
    case None
    with r Cons.prems(2) that [of s] show ?thesis by simp
  next
    case (Some l)
    then obtain buf where b: "r = Some buf" "cstr (lit buf) 0 l" using r by auto
    obtain s' o' where "handle (lit buf) s = Some (s', o')" "I s'"
      using handle [OF b(2) short [OF Some] Cons.prems(2)] by blast
    with b that [of s'] show ?thesis by simp
  qed
  from Cons.IH [OF k(2) I] h k(1) show ?case by auto
qed

text \<open>
  C22: The line editor is well typed and total. Started in a state whose buffer has 128 bytes with a
  length below 128, it returns for every sequence of characters, over- and underlong input included,
  in such a state again, never writes outside the buffer, and gives the command interpreter a
  terminated string of less than 128 characters each time, as long as the interpreter returns on such
  strings and keeps its own invariant.
\<close>

theorem shell_editor_typed:
  assumes "ed_ok ed" and "I s"
    and "\<And>m l s. cstr m 0 l \<Longrightarrow> length l < 128 \<Longrightarrow> I s \<Longrightarrow> \<exists>s' out. handle m s = Some (s', out) \<and> I s'"
  shows "\<exists>ed' s' out. shell_keys handle cs (ed, s) = Some (ed', s', out) \<and> ed_ok ed' \<and> I s'"
  by (rule shell_keys_typed [OF assms])

lemma string_at_cstr: "cstr m p l \<Longrightarrow> string_at m p = Some l"
proof (induction l arbitrary: p)
  case Nil
  then show ?case by (subst string_at.simps) simp
next
  case (Cons c l)
  then show ?case by (subst string_at.simps) simp
qed

definition empty_editor :: editor where
  "empty_editor = \<lparr>ed_buf = replicate 128 0, ed_len = 0\<rparr>"

definition echo_line :: "mem \<Rightarrow> u8 list list \<Rightarrow> (u8 list list \<times> u8 list) option" where
  "echo_line m s = map_option (\<lambda>l. (s @ [l], l)) (string_at m 0)"

text \<open>A line of 300 characters and a backspace before a line.\<close>

theorem shell_editor_typed_witness:
  "\<exists>ed' s' out. shell_keys echo_line (replicate 300 65 @ [10, 127, 66, 10]) (empty_editor, []) = Some (ed', s', out) \<and>
    ed_ok ed' \<and> list_all (\<lambda>l. length l < 128) s'"
  by (rule shell_editor_typed [of _ "list_all (\<lambda>l. length l < 128)"])
    (auto simp: ed_ok_def empty_editor_def echo_line_def string_at_cstr)

text \<open>
  C23: The line editor behaves as an editor of character lists does: printable characters are
  appended up to 127, backspace and delete remove the last one, a newline hands the line, cut at a
  zero character, to the interpreter and starts an empty one; the text on the terminal is the same.
\<close>

theorem shell_edits_lines:
  assumes "ed_ok ed" and "\<And>m l s. cstr m 0 l \<Longrightarrow> handle m s = command l s"
  shows "map_option (\<lambda>(ed', s', out). (ed_line ed', s', out)) (shell_keys handle cs (ed, s)) =
    edit_keys command cs (ed_line ed, s)"
  using shell_keys_edit [of ed handle command cs s] assms by blast

theorem shell_edits_lines_witness:
  "map_option (\<lambda>(ed', s', out). (ed_line ed', s', out))
     (shell_keys echo_line [65, 66, 8, 67, 10, 68] (empty_editor, [])) =
   Some ([68], [[65, 67]], [65, 66, 8, 32, 8, 67, 10, 65, 67] @ prompt @ [68])"
proof -
  have "echo_line m s = Some (s @ [l], l)" if "cstr m 0 l" for m l s
    using string_at_cstr [OF that] by (simp add: echo_line_def)
  then have "map_option (\<lambda>(ed', s', out). (ed_line ed', s', out))
      (shell_keys echo_line [65, 66, 8, 67, 10, 68] (empty_editor, [])) =
    edit_keys (\<lambda>l s. Some (s @ [l], l)) [65, 66, 8, 67, 10, 68] (ed_line empty_editor, [])"
    by (intro shell_edits_lines) (simp_all add: ed_ok_def empty_editor_def)
  then show ?thesis
    by (simp add: empty_editor_def ed_line_def edit_key_def)
qed

section \<open>Numbers\<close>

lemma skip_spaces_cstr:
  "cstr m p (replicate n 32 @ s) \<Longrightarrow> s = [] \<or> hd s \<noteq> 32 \<Longrightarrow> skip_spaces m p = Some (p + of_nat n)"
proof (induction n arbitrary: p)
  case 0
  then show ?case by (subst skip_spaces.simps) (cases s; auto)
next
  case (Suc n)
  then show ?case by (subst skip_spaces.simps) (simp add: add.assoc)
qed

definition digit_step :: "nat \<Rightarrow> u8 \<Rightarrow> nat" where
  "digit_step n c = 10 * n + (unat c - 48)"

lemma digits_grow: "a \<le> foldl digit_step a ds"
proof (induction ds arbitrary: a)
  case (Cons c ds)
  have "a \<le> digit_step a c" by (simp add: digit_step_def)
  also have "\<dots> \<le> foldl digit_step (digit_step a c) ds" by (rule Cons.IH)
  finally show ?case by simp
qed simp

lemma parse_number_cstr:
  assumes "cstr m p (ds @ rest)" and "\<forall>c\<in>set ds. is_digit c" and "rest = [] \<or> \<not> is_digit (hd rest)"
    and "foldl digit_step a ds < 2 ^ 31"
  shows "parse_number m p (int a) n =
    Some (int (foldl digit_step a ds), n + length ds, p + of_nat (length ds))"
  using assms
proof (induction ds arbitrary: p a n)
  case Nil
  then have "\<not> is_digit (m p)"
    by (cases rest) (auto simp: is_digit_def)
  then show ?case by (subst parse_number.simps) simp
next
  case (Cons c ds)
  then have c: "m p = c" "is_digit c" "48 \<le> unat c" and rest: "cstr m (p + 1) (ds @ rest)"
    by (auto simp: is_digit_def word_le_nat_alt)
  have v: "int a * 10 + (uint c - 48) = int (digit_step a c)"
  proof -
    have "uint c = int (unat c)" by simp
    with c(3) show ?thesis by (simp only: digit_step_def)
  qed
  have "int (digit_step a c) < 2 ^ 31"
    using Cons.prems(4) digits_grow [of "digit_step a c" ds] by simp
  then have "parse_number m p (int a) n = parse_number m (p + 1) (int (digit_step a c)) (n + 1)"
    using c v by (subst parse_number.simps) simp
  also have "\<dots> = Some (int (foldl digit_step (digit_step a c) ds), n + 1 + length ds, p + 1 + of_nat (length ds))"
    by (rule Cons.IH [OF rest]) (use Cons.prems in auto)
  finally show ?case by (simp add: add.assoc)
qed

text \<open>A number typed in decimal is read back.\<close>

lemma dec_digits:
  "\<forall>c\<in>set (print_dec_ulong x). is_digit c" "print_dec_ulong x \<noteq> []" "foldl digit_step 0 (print_dec_ulong x) = unat x"
proof -
  have x: "unat x < 10 ^ 32"
    using unat_lt64 [of x] by (rule order_less_trans) simp
  show "\<forall>c\<in>set (print_dec_ulong x). is_digit c"
    using dec_fill_digits [of _ 32 x] by (auto simp: print_dec_ulong_def is_digit_def word_le_nat_alt)
  show "foldl digit_step 0 (print_dec_ulong x) = unat x"
    using dec_fill_value [OF x] unfolding dec_value_def print_dec_ulong_def digit_step_def [abs_def]
    by (auto simp: numeral_eq_Suc)
  then show "print_dec_ulong x \<noteq> []"
    by (cases "x = 0") (auto simp: print_dec_ulong_def unat_eq_0)
qed

lemma parse_decimal:
  assumes "cstr m p (print_dec_ulong x @ rest)" and "rest = [] \<or> \<not> is_digit (hd rest)" and "unat x < 2 ^ 31"
  shows "\<exists>n. parse_number m p 0 0 = Some (int (unat x), n, p + of_nat (length (print_dec_ulong x))) \<and> n \<noteq> 0"
  using parse_number_cstr [of m p "print_dec_ulong x" rest 0 0] assms dec_digits [of x]
  by (auto simp: length_greater_0_conv)

lemma dec_not_space: "print_dec_ulong x = [] \<or> hd (print_dec_ulong x) \<noteq> 32"
  using dec_digits(1,2) [of x] by (cases "print_dec_ulong x") (auto simp: is_digit_def)

section \<open>Signals from the shell\<close>

lemma word_of_int_unat: "word_of_int (int (unat (x :: u64))) = (ucast x :: i32)"
proof -
  have "uint x = int (unat x)" by simp
  then show ?thesis unfolding ucast_eq by (simp only:)
qed

lemma shell_kill_sys_kill:
  assumes line: "cstr m args (replicate i 32 @ print_dec_ulong p @ replicate (Suc j) 32 @ print_dec_ulong n @ rest)"
    and rest: "rest = [] \<or> \<not> is_digit (hd rest)" and p: "unat p < 2 ^ 31" and n: "unat n < 2 ^ 31"
  shows "map_option fst (shell_kill_pid m args k) = map_option fst (sys_kill k (ucast p) (ucast n))"
proof -
  let ?dp = "print_dec_ulong p" and ?dn = "print_dec_ulong n"
  define p1 where "p1 = args + of_nat i"
  define p2 where "p2 = p1 + of_nat (length ?dp)"
  define p3 where "p3 = p2 + of_nat (Suc j)"
  have c1: "cstr m p1 (?dp @ replicate (Suc j) 32 @ ?dn @ rest)"
    using line unfolding p1_def cstr_append by simp
  have c2: "cstr m p2 (replicate (Suc j) 32 @ ?dn @ rest)"
    using c1 unfolding p2_def cstr_append by simp
  have c3: "cstr m p3 (?dn @ rest)"
    using c2 cstr_append [of m p2 "replicate (Suc j) 32" "?dn @ rest"] by (simp add: p3_def)
  have hd_dp: "?dp @ r = [] \<or> hd (?dp @ r) \<noteq> 32" and hd_dn: "?dn @ r = [] \<or> hd (?dn @ r) \<noteq> 32" for r
    using dec_not_space [of p] dec_not_space [of n] dec_digits(2) by (auto simp: hd_append)
  have s1: "skip_spaces m args = Some p1"
    unfolding p1_def by (rule skip_spaces_cstr [OF line hd_dp])
  have "replicate (Suc j) 32 @ ?dn @ rest = [] \<or> \<not> is_digit (hd (replicate (Suc j) 32 @ ?dn @ rest))"
    by (simp add: is_digit_def)
  from parse_decimal [OF c1 this p] obtain d1 where d1: "parse_number m p1 0 0 = Some (int (unat p), d1, p2)" "d1 \<noteq> 0"
    unfolding p2_def by blast
  have space: "m p2 = 32" using c2 by simp
  have s2: "skip_spaces m p2 = Some p3"
    unfolding p3_def by (rule skip_spaces_cstr [OF c2 hd_dn])
  from parse_decimal [OF c3 rest n] obtain d2 q where d2: "parse_number m p3 0 0 = Some (int (unat n), d2, q)" "d2 \<noteq> 0"
    by blast
  have "(word_of_int (int (unat n)) :: i32) = of_nat (unat n)"
    by simp
  then have sn: "sint (ucast n :: i32) = int (unat n)"
    unfolding word_of_int_unat [symmetric] using small_i32(1) [OF n] by simp
  show ?thesis
    unfolding shell_kill_pid_def sys_kill_def s1 d1(1) s2 d2(1) bind.bind_lunit prod.case
    using space d1(2) d2(2) sn
    by (cases "find_thread_by_pid k (ucast p)"; cases "the (find_thread_by_pid k (ucast p))";
        cases "threads k (the (the (find_thread_by_pid k (ucast p))))";
        cases "signal_post k (the (the (find_thread_by_pid k (ucast p)))) (ucast n)")
      (simp_all add: word_of_int_unat)
qed

section \<open>Command lines\<close>

definition starts_with :: "u8 list \<Rightarrow> string \<Rightarrow> bool" where
  "starts_with l s \<longleftrightarrow> take (length s) l = ascii s"

lemma cstr_ascii:
  assumes "\<forall>c\<in>set s. of_char c \<noteq> (0 :: u8)" and "length s < 2 ^ 64"
  shows "cstr (lit (ascii s)) 0 (ascii s)"
  using assms by (intro cstr_lit) (auto simp: ascii_def)

lemma command_is:
  assumes "cstr m cmd l" and "list_all (\<lambda>c. of_char c \<noteq> (0 :: u8)) s" and "length s < 2 ^ 64"
  shows "str_eq m cmd (lit (ascii s)) 0 = Some (l = ascii s)"
  using str_eq_decides [OF assms(1) cstr_ascii] assms(2,3) by (simp add: list_all_iff)

lemma command_starts:
  assumes "cstr m cmd l" and "list_all (\<lambda>c. of_char c \<noteq> (0 :: u8)) s" and "length s < 2 ^ 64"
  shows "str_startswith m cmd (lit (ascii s)) 0 = Some (starts_with l s)"
  using str_startswith_decides [OF assms(1) cstr_ascii] assms(2,3)
  by (simp add: list_all_iff starts_with_def) (simp add: ascii_def)


lemma first_case_no:
  assumes "cstr m cmd l" and "list_all (\<lambda>c. of_char c \<noteq> (0 :: u8)) s" and "length s < 2 ^ 64"
  shows "l \<noteq> ascii s \<Longrightarrow> first_case cs r = x \<Longrightarrow> first_case ((str_eq m cmd (lit (ascii s)) 0, c) # cs) r = x"
    and "\<not> starts_with l s \<Longrightarrow> first_case cs r = x \<Longrightarrow>
      first_case ((str_startswith m cmd (lit (ascii s)) 0, c) # cs) r = x"
  by (simp_all add: command_is [OF assms] command_starts [OF assms])

lemma first_case_yes:
  assumes "cstr m cmd l" and "list_all (\<lambda>c. of_char c \<noteq> (0 :: u8)) s" and "length s < 2 ^ 64"
    and "starts_with l s"
  shows "first_case ((str_startswith m cmd (lit (ascii s)) 0, c) # cs) r = c"
  using assms(4) by (simp add: command_starts [OF assms(1-3)])

lemma kill_command:
  assumes "cstr m cmd (ascii ''kill '' @ rest)"
  shows "shell_command m cmd = Some (Kill (cmd + 5))"
  unfolding shell_command_def Let_def
  by ((rule first_case_no [OF assms], simp, simp, (simp add: ascii_def starts_with_def; fail))+,
      rule first_case_yes [OF assms], simp_all add: ascii_def starts_with_def)

text \<open>
  C24: The command line \<open>kill p n\<close>, with any number of spaces around the decimal numbers, does to the
  kernel exactly what the system call \<^verbatim>\<open>sys_kill(p, n)\<close> does, for numbers below $2^{31}$, and
  returns to the prompt whenever the system call returns.
\<close>

theorem kill_line_is_sys_kill:
  assumes line: "cstr m cmd (ascii ''kill '' @ replicate i 32 @ print_dec_ulong p @ replicate (Suc j) 32 @
      print_dec_ulong n @ rest)"
    and rest: "rest = [] \<or> \<not> is_digit (hd rest)" and p: "unat p < 2 ^ 31" and n: "unat n < 2 ^ 31"
  shows "map_option (\<lambda>(s, out, next). (s, next)) (shell_handle_command env m cmd (k, tm, ts)) =
    map_option (\<lambda>(k', r). ((k', tm, ts), Prompts)) (sys_kill k (ucast p) (ucast n))"
proof -
  have five: "of_nat (length (ascii ''kill '')) = (5 :: u64)" by (simp add: ascii_def)
  have "cstr m (cmd + 5) (replicate i 32 @ print_dec_ulong p @ replicate (Suc j) 32 @ print_dec_ulong n @ rest)"
    using line unfolding cstr_append [of m cmd "ascii _"] five by blast
  from shell_kill_sys_kill [OF this rest p n, of k] have
    "map_option fst (shell_kill_pid m (cmd + 5) k) = map_option fst (sys_kill k (ucast p) (ucast n))" .
  then show ?thesis
    unfolding shell_handle_command_def kill_command [OF line] bind.bind_lunit
    by (cases "shell_kill_pid m (cmd + 5) k"; cases "sys_kill k (ucast p) (ucast n)")
      (auto simp: run_command_def on_threads_def)
qed

definition killable :: kernel where
  "killable = sample_kernel\<lparr>threads := (threads sample_kernel)(0x2000 \<mapsto>
     (sample_thread 1 THREAD_READY [])\<lparr>image_base := 0x5000\<rparr>)\<rparr>"

lemma killable_kill: "\<exists>k'. sys_kill killable 1 9 = Some (k', Returns 0) \<and>
    map_option (sig_pending \<circ> sig) (threads k' 0x2000) = Some 512"
proof -
  have "Suc (unat (g_next_tid killable)) = Suc (Suc (Suc (Suc 0)))"
    by (simp add: killable_def sample_kernel_def)
  then have run: "find_thread_by_pid killable 1 = Some (Some 0x2000)"
    by (simp only: find_thread_by_pid_def) (simp add: killable_def sample_kernel_def sample_thread_def)
  show ?thesis
    unfolding sys_kill_def run
    by (simp add: killable_def sample_kernel_def sample_thread_def signal_post_def upd_def NSIG_def signal_state_init_def)
qed

theorem kill_line_is_sys_kill_witness:
  "\<forall>env tm ts. \<exists>k' out. shell_handle_command env (lit (ascii ''kill 1 9'')) 0 (killable, tm, ts) =
      Some ((k', tm, ts), out, Prompts) \<and> map_option (sig_pending \<circ> sig) (threads k' 0x2000) = Some 512"
proof (intro allI)
  fix env tm ts
  have d: "print_dec_ulong 1 = [49]" "print_dec_ulong 9 = [57]" by code_simp+
  have "cstr (lit (ascii ''kill 1 9'')) 0 (ascii ''kill '' @ replicate 0 32 @ print_dec_ulong 1 @ replicate (Suc 0) 32 @
      print_dec_ulong 9 @ [])"
    using cstr_ascii [of "''kill 1 9''"] unfolding d by (simp add: ascii_def)
  from kill_line_is_sys_kill [OF this, of env killable tm ts] killable_kill
  show "\<exists>k' out. shell_handle_command env (lit (ascii ''kill 1 9'')) 0 (killable, tm, ts) =
      Some ((k', tm, ts), out, Prompts) \<and> map_option (sig_pending \<circ> sig) (threads k' 0x2000) = Some 512"
    by (auto simp del: o_apply)
qed

section \<open>Memory test\<close>

lemma grab_live:
  assumes "heap_live h R" and "\<forall>sz\<in>set szs. 0 < unat sz \<and> unat sz \<le> 2 ^ 64 - 4096"
  shows "\<exists>h' ps bs. grab szs h = Some (h', ps) \<and> heap_live h' (set bs \<union> R) \<and> set bs \<inter> R = {} \<and>
    distinct bs \<and> map fst bs = filter (\<lambda>p. p \<noteq> NULL) ps"
  using assms
proof (induction szs arbitrary: h R)
  case Nil
  then show ?case by (intro exI [of _ "[]"] exI [of _ h]) simp
next
  case (Cons sz szs)
  then have sz: "0 < unat sz" "unat sz \<le> 2 ^ 64 - 4096" and rest: "\<forall>sz\<in>set szs. 0 < unat sz \<and> unat sz \<le> 2 ^ 64 - 4096"
    by auto
  obtain h1 p where h1: "kmalloc h sz = Some (h1, p)" and
    "p = NULL \<and> heap_live h1 R \<or> p \<noteq> NULL \<and> (\<exists>n. unat sz \<le> n \<and> (p, n) \<notin> R \<and> heap_live h1 (insert (p, n) R))"
    using heap.alloc_law [OF Cons.prems(1) sz] by blast
  then consider "p = NULL" "heap_live h1 R" | n where "p \<noteq> NULL" "(p, n) \<notin> R" "heap_live h1 (insert (p, n) R)"
    by blast
  then show ?case
  proof cases
    case 1
    with Cons.IH [OF 1(2) rest] h1 show ?thesis by auto
  next
    case 2
    obtain h' ps bs where b: "grab szs h1 = Some (h', ps)" "heap_live h' (set bs \<union> insert (p, n) R)"
      "set bs \<inter> insert (p, n) R = {}" "distinct bs" "map fst bs = filter (\<lambda>p. p \<noteq> NULL) ps"
      using Cons.IH [OF 2(3) rest] by blast
    with 2 h1 show ?thesis
      by (intro exI [of _ h'] exI [of _ "p # ps"] exI [of _ "(p, n) # bs"]) auto
  qed
qed

lemma release_live:
  assumes "heap_live h (set bs \<union> R)" and "set bs \<inter> R = {}" and "distinct bs"
    and "map fst bs = filter (\<lambda>p. p \<noteq> NULL) ps"
  shows "\<exists>h'. release ps h = Some h' \<and> heap_live h' R"
  using assms
proof (induction ps arbitrary: h bs)
  case (Cons p ps)
  show ?case
  proof (cases "p = NULL")
    case True
    with Cons.IH [OF Cons.prems(1-3)] Cons.prems(4) show ?thesis by (simp add: kfree_def)
  next
    case False
    then obtain n bs' where bs: "bs = (p, n) # bs'" "map fst bs' = filter (\<lambda>p. p \<noteq> NULL) ps"
      using Cons.prems(4) by (cases bs) auto
    obtain h1 where h1: "kfree h p = Some h1" "heap_live h1 (set bs \<union> R - {(p, n)})"
      using heap.free_law [OF Cons.prems(1), of p n] bs(1) by auto
    have "set bs \<union> R - {(p, n)} = set bs' \<union> R"
      using Cons.prems(2,3) bs(1) by auto
    with Cons.IH [of h1 bs'] h1 Cons.prems(2,3) bs show ?thesis by simp
  qed
qed simp

lemma grab_release:
  assumes "heap_live h R" and "\<forall>sz\<in>set szs. 0 < unat sz \<and> unat sz \<le> 2 ^ 64 - 4096"
  shows "\<exists>h1 ps h2. grab szs h = Some (h1, ps) \<and> release ps h1 = Some h2 \<and> heap_live h2 R"
  using grab_live [OF assms] release_live by metis

lemma live_range_fits:
  assumes "heap_live h R" and "(p, n) \<in> R"
  shows "n \<le> 4096 * g_total_pages (heap_buddy h)"
proof -
  obtain A where A: "heap_base_ok h A" "R = large_ranges h A \<union> small_ranges h"
    using assms(1) by (auto simp: heap_live_def)
  from assms(2) A(2) consider "(p, n) \<in> large_ranges h A" | "(p, n) \<in> small_ranges h" by blast
  then show ?thesis
  proof cases
    case 1
    then obtain i k where "(i, k) \<in> A" "n = 4096 * 2 ^ k"
      by (auto simp: large_ranges_def block_range_def)
    with binv_fits [of "heap_buddy h" A "{}" i k] A(1) show ?thesis
      by (simp add: heap_base_ok_def)
  next
    case 2
    then obtain j where j: "j < NUM_POOLS" "p \<in> pool_chunks h j" by (auto simp: small_ranges_def)
    obtain q c where "q < g_total_pages (heap_buddy h)"
      by (rule heap_small_block [OF A(1) j])
    with small_range_size [OF 2] show ?thesis by simp
  qed
qed

lemma kmalloc_too_large:
  assumes live: "heap_live h R" and sz: "4096 * g_total_pages (heap_buddy h) < unat sz" "unat sz \<le> 2 ^ 64 - 4096"
  shows "\<exists>h'. kmalloc h sz = Some (h', NULL) \<and> heap_live h' R"
proof -
  have pos: "0 < unat sz" using sz(1) by simp
  obtain h' p where h': "kmalloc h sz = Some (h', p)" and
    or: "p = NULL \<and> heap_live h' R \<or> p \<noteq> NULL \<and> (\<exists>n. unat sz \<le> n \<and> (p, n) \<notin> R \<and> heap_live h' (insert (p, n) R))"
    using heap.alloc_law [OF live pos sz(2)] by blast
  obtain A where A: "heap_base_ok h A" using live by (auto simp: heap_live_def)
  have same: "g_total_pages b' = g_total_pages (heap_buddy h)"
    if "buddy_alloc (heap_buddy h) n = Some (b', q)" "n \<in> {sz, PAGE_SIZE}" for n q b'
  proof -
    have "n \<noteq> 0" "unat n \<le> 2 ^ 64 - 4096" using that(2) pos sz(2) by (auto simp: PAGE_SIZE_def)
    moreover have "binv (heap_buddy h) A {}" "no_buddies (heap_buddy h)" using A by (simp_all add: heap_base_ok_def)
    ultimately show ?thesis
      using buddy_alloc_outcome [of "heap_buddy h" A n] that(1) changes_in_same(1) by fastforce
  qed
  have "g_total_pages (heap_buddy h') = g_total_pages (heap_buddy h)"
    using kmalloc_buddy [OF h'] same by auto
  then have "p = NULL"
    using or live_range_fits [of h' "insert (p, n) R" p n for n] sz(1) by force
  with h' or show ?thesis by auto
qed

text \<open>
  The memory test of the shell passes on every heap: it returns, the requests it serves are all
  given back, so that exactly the ranges that were live before are live again, and the request for
  more than the whole memory is refused.
\<close>

theorem memory_test_passes:
  assumes live: "heap_live h R"
  shows "\<exists>h' out. test_alloc_1 h = Some (h', out @ text_line ''Allocation failed as expected for size > MAX_ALLOC_SIZE'' @
      text_line ''=== Memory allocation test done ==='') \<and> heap_live h' R"
proof -
  obtain h1 ps h2 where g1: "grab [4000, 8000, 4000, 4000] h = Some (h1, ps)" "release ps h1 = Some h2" "heap_live h2 R"
    using grab_release [OF live, of "[4000, 8000, 4000, 4000]"] by auto
  obtain h3 qs h4 where g2: "grab [16, 32, 64, 128, 16, 32] h2 = Some (h3, qs)" "release qs h3 = Some h4" "heap_live h4 R"
    using grab_release [OF g1(3), of "[16, 32, 64, 128, 16, 32]"] by auto
  obtain h5 rs h6 where g3: "grab (replicate 100 128) h4 = Some (h5, rs)" "release rs h5 = Some h6" "heap_live h6 R"
    using grab_release [OF g2(3), of "replicate 100 128"] by auto
  let ?n = "of_nat (buddy_get_total_pages (heap_buddy h6)) * PAGE_SIZE + 1 :: u64"
  have reg: "region_ok (heap_buddy h6)" and "4096 dvd unat (g_buddy_base (heap_buddy h6))"
    using g3(3) by (auto simp: heap_live_def heap_base_ok_def)
  then have "4096 \<le> unat (g_buddy_base (heap_buddy h6))"
    by (intro dvd_imp_le) (simp_all add: region_ok_def)
  with reg have b: "g_total_pages (heap_buddy h6) * 4096 + 1 \<le> 2 ^ 64 - 4096"
    using unat_lt64 [of "g_buddy_end (heap_buddy h6)"] by (simp add: region_ok_def)
  have "?n = of_nat (g_total_pages (heap_buddy h6) * 4096 + 1)"
    by (simp add: buddy_get_total_pages_def PAGE_SIZE_def)
  moreover have "unat (of_nat (g_total_pages (heap_buddy h6) * 4096 + 1) :: u64) = g_total_pages (heap_buddy h6) * 4096 + 1"
    using b by (subst unat_of_nat) (rule mod_less, simp)
  ultimately have "unat ?n = g_total_pages (heap_buddy h6) * 4096 + 1" by (simp only:)
  then obtain h7 where "kmalloc h6 ?n = Some (h7, NULL)" "heap_live h7 R"
    using kmalloc_too_large [OF g3(3), of ?n] b by auto
  then show ?thesis
    unfolding test_alloc_1_def g1 g2 g3 bind.bind_lunit prod.case
    by (simp add: Let_def g1(2) g2(2) g3(2))
qed

theorem memory_test_passes_witness:
  "\<exists>h' out. test_alloc_1 sample_heap = Some (h', out @ text_line ''Allocation failed as expected for size > MAX_ALLOC_SIZE'' @
      text_line ''=== Memory allocation test done ==='') \<and> heap_live h' {}"
  by (rule memory_test_passes [OF sample_heap_live])

end
