(* ===== verification/Dtb.thy ===== *)
theory Dtb
  imports Memory_Words
begin

text \<open>
  The parser of the flattened device tree, \<^verbatim>\<open>kernel/src/dtb.c\<close>: the lookup of a property by the
  path of its node (\<^verbatim>\<open>_dtb_getprop\<close>, \<^verbatim>\<open>dtb_getprop\<close>), the size of the blob, the memory region, and
  the walk over the children of \<^verbatim>\<open>/reserved-memory\<close>. The blob lies in memory \<open>m\<close>; the path and the
  property name are strings of the caller, each a memory and an address. A scan that runs through
  all of memory without meeting a terminator is the value \<^const>\<open>None\<close>. The depth counters are
  integers: a structure block is shorter than \<^term>\<open>2 ^ 32\<close> bytes and every step consumes four of
  them, so the C counters do not overflow.
\<close>

section \<open>Model\<close>

definition FDT_HEADER_MAGIC :: u32 where
  "FDT_HEADER_MAGIC = 0xD00DFEED"

record fdt_header =
  h_magic :: u32
  h_totalsize :: u32
  h_off_dt_struct :: u32
  h_off_dt_strings :: u32
  h_off_mem_rsvmap :: u32
  h_version :: u32
  h_last_comp_version :: u32
  h_boot_cpuid_phys :: u32
  h_size_dt_strings :: u32
  h_size_dt_struct :: u32

definition load_header :: "mem \<Rightarrow> u64 \<Rightarrow> fdt_header" where
  "load_header m a =
     \<lparr>h_magic = load32 m a, h_totalsize = load32 m (a + 4), h_off_dt_struct = load32 m (a + 8),
      h_off_dt_strings = load32 m (a + 12), h_off_mem_rsvmap = load32 m (a + 16),
      h_version = load32 m (a + 20), h_last_comp_version = load32 m (a + 24),
      h_boot_cpuid_phys = load32 m (a + 28), h_size_dt_strings = load32 m (a + 32),
      h_size_dt_struct = load32 m (a + 36)\<rparr>"

definition FDT_BEGIN_NODE :: u32 where "FDT_BEGIN_NODE = 1"
definition FDT_END_NODE :: u32 where "FDT_END_NODE = 2"
definition FDT_PROP :: u32 where "FDT_PROP = 3"
definition FDT_NOP :: u32 where "FDT_NOP = 4"
definition FDT_END :: u32 where "FDT_END = 9"

record fdt_prop =
  p_len :: u32
  p_nameoff :: u32

definition load_prop :: "mem \<Rightarrow> u64 \<Rightarrow> fdt_prop" where
  "load_prop m a = \<lparr>p_len = load32 m a, p_nameoff = load32 m (a + 4)\<rparr>"

definition bswap_32 :: "u32 \<Rightarrow> u32" where
  "bswap_32 x =
     drop_bit 24 (x AND 0xFF000000) OR drop_bit 8 (x AND 0x00FF0000) OR
     push_bit 8 (x AND 0x0000FF00) OR push_bit 24 (x AND 0x000000FF)"

definition align_32 :: "u64 \<Rightarrow> u64" where
  "align_32 addr = (addr + 3) AND NOT 3"

text \<open>The characters \<^verbatim>\<open>'/'\<close> and \<^verbatim>\<open>'@'\<close>.\<close>

abbreviation SLASH :: u8 where "SLASH \<equiv> 47"
abbreviation AT :: u8 where "AT \<equiv> 64"

partial_function (option) node_name_match :: "mem \<Rightarrow> u64 \<Rightarrow> mem \<Rightarrow> u64 \<Rightarrow> bool option" where
  "node_name_match m node_name n seg =
     (if n seg \<noteq> 0
      then if m node_name = 0 \<or> m node_name = AT then Some False
        else if m node_name \<noteq> n seg then Some False
        else node_name_match m (node_name + 1) n (seg + 1)
      else Some (m node_name = 0 \<or> m node_name = AT))"

text \<open>The inner loop of \<^verbatim>\<open>path_segment\<close>, which stops at the end of a component, and its outer loop over
  the components from number \<open>i\<close> on. A segment is a pointer and its length.\<close>

partial_function (option) segment_end :: "mem \<Rightarrow> u64 \<Rightarrow> u64 option" where
  "segment_end n p = (if n p \<noteq> 0 \<and> n p \<noteq> SLASH then segment_end n (p + 1) else Some p)"

partial_function (option) segment_loop :: "mem \<Rightarrow> u64 \<Rightarrow> int \<Rightarrow> int \<Rightarrow> (u64 \<times> i32) option option" where
  "segment_loop n p idx i =
     (if n p = 0 then Some None
      else Option.bind (segment_end n p) (\<lambda>q.
        if i = idx then Some (Some (p, ucast (q - p)))
        else segment_loop n (if n q = SLASH then q + 1 else q) idx (i + 1)))"

definition path_segment :: "mem \<Rightarrow> u64 \<Rightarrow> int \<Rightarrow> (u64 \<times> i32) option option" where
  "path_segment n path idx =
     (if path = NULL \<or> n path \<noteq> SLASH then Some None else segment_loop n (path + 1) idx 0)"

partial_function (option) count_slashes :: "mem \<Rightarrow> u64 \<Rightarrow> int \<Rightarrow> int option" where
  "count_slashes m p n =
     (if m p \<noteq> 0 then count_slashes m (p + 1) (if m p = SLASH then n + 1 else n) else Some n)"

definition path_depth :: "mem \<Rightarrow> u64 \<Rightarrow> int option" where
  "path_depth n path =
     (if path = NULL \<or> n path \<noteq> SLASH then Some (-1)
      else if n (path + 1) = 0 then Some 0
      else Option.bind (count_slashes n (path + 1) 0) (\<lambda>k. Some (k + 1)))"

text \<open>The loop that skips a node name, to the address after its terminator.\<close>

partial_function (option) skip_name :: "mem \<Rightarrow> u64 \<Rightarrow> u64 option" where
  "skip_name m cur = (if m cur \<noteq> 0 then skip_name m (cur + 1) else Some (cur + 1))"

text \<open>The comparison of a property name with a literal, written out in three places.\<close>

partial_function (option) prop_name_eq :: "mem \<Rightarrow> u64 \<Rightarrow> mem \<Rightarrow> u64 \<Rightarrow> bool option" where
  "prop_name_eq m a n b =
     (if m a \<noteq> 0 \<or> n b \<noteq> 0
      then if m a \<noteq> n b then Some False else prop_name_eq m (a + 1) n (b + 1)
      else Some True)"

text \<open>The loop over the tokens of the structure block, shared by the three scans: while the cursor is
  below the end of the block and the scan wants to go on. A turn returns from the function, leaves
  the loop, or goes on; the result is the value returned or the state in which the loop was left.\<close>

datatype ('r, 's) turn = Return 'r | Leave 's | Go_on u64 's

partial_function (option) token_loop ::
    "('s \<Rightarrow> bool) \<Rightarrow> (u64 \<Rightarrow> 's \<Rightarrow> ('r, 's) turn option) \<Rightarrow> u64 \<Rightarrow> u64 \<Rightarrow> 's \<Rightarrow> ('r + 's) option" where
  "token_loop wants step fin cur s =
     (if cur < fin \<and> wants s
      then Option.bind (step cur s) (\<lambda>t. case t of
          Return r \<Rightarrow> Some (Inl r)
        | Leave s' \<Rightarrow> Some (Inr s')
        | Go_on cur' s' \<Rightarrow> token_loop wants step fin cur' s')
      else Some (Inr s))"

subsection \<open>Lookup of a property\<close>

text \<open>The copy of a path component into the 64-byte buffer, terminated: at most 63 bytes of it.\<close>

definition seg_buf :: "mem \<Rightarrow> u64 \<Rightarrow> i32 \<Rightarrow> mem" where
  "seg_buf n seg seg_len =
     (let copy_len = (if sint seg_len < 63 then sint seg_len else 63)
      in lit (mem_bytes n seg (nat copy_len)))"

text \<open>What the start of a node at \<open>depth\<close> does to \<^verbatim>\<open>matched_depth\<close> while no node is matched.\<close>

definition match_node :: "mem \<Rightarrow> u64 \<Rightarrow> mem \<Rightarrow> u64 \<Rightarrow> int \<Rightarrow> int \<Rightarrow> int \<Rightarrow> int option" where
  "match_node m node_name n path wanted depth matched =
     (if depth = 0 then Some (if wanted = 0 then 0 else matched)
      else Option.bind (path_segment n path (depth - 1)) (\<lambda>s. case s of
          None \<Rightarrow> Some matched
        | Some (seg, seg_len) \<Rightarrow>
            Option.bind (node_name_match m node_name (seg_buf n seg seg_len) 0) (\<lambda>hit.
              Some (if hit \<and> depth = wanted then depth else matched))))"

text \<open>One turn of the loop, with the two depths as its state: it returns the property found, leaves
  the loop, or goes on at the next token.\<close>

definition getprop_step ::
    "mem \<Rightarrow> u64 \<Rightarrow> mem \<Rightarrow> u64 \<Rightarrow> int \<Rightarrow> mem \<Rightarrow> u64 \<Rightarrow> u64 \<Rightarrow> int \<times> int \<Rightarrow> (u64 \<times> u32, int \<times> int) turn option" where
  "getprop_step m strs n path wanted k key cur = (\<lambda>(depth, matched).
     let token = bswap_32 (load32 m cur); cur = cur + 4 in
     if token = FDT_BEGIN_NODE then
       Option.bind (skip_name m cur) (\<lambda>next.
       Option.bind (if matched < 0 then match_node m cur n path wanted (depth + 1) matched
                    else Some matched) (\<lambda>matched'.
       Some (Go_on (align_32 next) (depth + 1, matched'))))
     else if token = FDT_END_NODE then
       Some (Go_on cur (depth - 1, if matched = depth then -1 else matched))
     else if token = FDT_PROP then
       let prop = load_prop m cur; cur = cur + 8; prop_len = bswap_32 (p_len prop);
         name = strs + ucast (bswap_32 (p_nameoff prop))
       in Option.bind (if matched \<ge> 0 then prop_name_eq m name k key else Some False) (\<lambda>eq.
          Some (if eq then Return (cur, prop_len)
                else Go_on (align_32 (cur + ucast prop_len)) (depth, matched)))
     else if token = FDT_NOP then Some (Go_on cur (depth, matched))
     else Some (Leave (depth, matched)))"

text \<open>The result is the pointer to the data and the length stored through \<^verbatim>\<open>lenp\<close>; a null pointer with
  the length left alone (\<open>None\<close>) for a missing argument or blob.\<close>

definition dtb_getprop_raw ::
    "mem \<Rightarrow> u64 \<Rightarrow> mem \<Rightarrow> u64 \<Rightarrow> mem \<Rightarrow> u64 \<Rightarrow> (u64 \<times> u32 option) option" where
  "dtb_getprop_raw m g_dtb_addr n node_path k prop_name =
     (if g_dtb_addr = NULL \<or> node_path = NULL \<or> prop_name = NULL then Some (NULL, None)
      else let header = load_header m g_dtb_addr in
        if bswap_32 (h_magic header) \<noteq> FDT_HEADER_MAGIC then Some (NULL, None)
        else let struct_size = bswap_32 (h_size_dt_struct header);
          dt_struct = g_dtb_addr + ucast (bswap_32 (h_off_dt_struct header));
          dt_strings = g_dtb_addr + ucast (bswap_32 (h_off_dt_strings header))
        in Option.bind (path_depth n node_path) (\<lambda>wanted.
           Option.bind (token_loop (\<lambda>_. True) (getprop_step m dt_strings n node_path wanted k prop_name)
                          (dt_struct + ucast struct_size) dt_struct (-1, -1)) (\<lambda>r.
             case r of Inl (p, len) \<Rightarrow> Some (p, Some len)
             | Inr _ \<Rightarrow> Some (NULL, Some 0))))"

definition dtb_getprop :: "mem \<Rightarrow> u64 \<Rightarrow> mem \<Rightarrow> u64 \<Rightarrow> mem \<Rightarrow> u64 \<Rightarrow> u64 option" where
  "dtb_getprop m g_dtb_addr n path k prop_name =
     Option.bind (dtb_getprop_raw m g_dtb_addr n path k prop_name) (\<lambda>(value, lenp).
       let len = sint (case lenp of None \<Rightarrow> 0 | Some l \<Rightarrow> l) in
       if value = NULL \<or> len < 4 then Some 0
       else if len \<ge> 8
         then let hi = ucast (bswap_32 (load32 m value)); lo = ucast (bswap_32 (load32 m (value + 4)))
           in Some (push_bit 32 hi OR lo)
       else Some (ucast (bswap_32 (load32 m value))))"

definition dtb_get_totalsize :: "mem \<Rightarrow> u64 \<Rightarrow> u64" where
  "dtb_get_totalsize m g_dtb_addr =
     (if g_dtb_addr = NULL then 0
      else let h = load_header m g_dtb_addr in
        if bswap_32 (h_magic h) \<noteq> FDT_HEADER_MAGIC then 0 else ucast (bswap_32 (h_totalsize h)))"

subsection \<open>Memory region\<close>

text \<open>The two 64-bit numbers of a 16-byte \<^verbatim>\<open>reg\<close> entry.\<close>

definition reg_entry :: "mem \<Rightarrow> u64 \<Rightarrow> u64 \<times> u64" where
  "reg_entry m p =
     (push_bit 32 (ucast (bswap_32 (load32 m p))) OR ucast (bswap_32 (load32 m (p + 4))),
      push_bit 32 (ucast (bswap_32 (load32 m (p + 8)))) OR ucast (bswap_32 (load32 m (p + 12))))"

definition memory_step ::
    "mem \<Rightarrow> u64 \<Rightarrow> u64 \<Rightarrow> int \<times> bool \<Rightarrow> (u64 \<times> u64, int \<times> bool) turn option" where
  "memory_step m strs cur = (\<lambda>(depth, in_memory_node).
     let token = bswap_32 (load32 m cur); cur = cur + 4 in
     if token = FDT_BEGIN_NODE then
       Option.bind (skip_name m cur) (\<lambda>next.
       Option.bind (if depth + 1 = 1 then node_name_match m cur (lit (ascii ''memory'')) 0
                    else Some False) (\<lambda>hit.
       Some (Go_on (align_32 next) (depth + 1, hit))))
     else if token = FDT_END_NODE then Some (Go_on cur (depth - 1, False))
     else if token = FDT_PROP then
       let prop = load_prop m cur; cur = cur + 8; prop_len = bswap_32 (p_len prop);
         name = strs + ucast (bswap_32 (p_nameoff prop))
       in Option.bind (if in_memory_node then prop_name_eq m name (lit (ascii ''reg'')) 0
                       else Some False) (\<lambda>is_reg.
          Some (if is_reg \<and> prop_len \<ge> 16 then Return (reg_entry m cur)
                else Go_on (align_32 (cur + ucast prop_len)) (depth, in_memory_node)))
     else if token = FDT_NOP then Some (Go_on cur (depth, in_memory_node))
     else Some (Leave (depth, in_memory_node)))"

text \<open>The result is the region stored through \<^verbatim>\<open>base\<close> and \<^verbatim>\<open>size\<close> (status 0) or \<^const>\<open>None\<close>
  (status \<open>-1\<close>), and the text printed. The callers pass two valid pointers.\<close>

definition dtb_get_memory_region :: "mem \<Rightarrow> u64 \<Rightarrow> ((u64 \<times> u64) option \<times> u8 list) option" where
  "dtb_get_memory_region m g_dtb_addr =
     (if g_dtb_addr = NULL
      then Some (None, ascii ''[DTB] Invalid arguments to dtb_get_memory_region'' @ [10])
      else let header = load_header m g_dtb_addr in
        if bswap_32 (h_magic header) \<noteq> FDT_HEADER_MAGIC
        then Some (None, ascii ''[DTB] Invalid DTB header magic: 0x'' @
               print_hex_ulong (ucast (bswap_32 (h_magic header))) @ [10])
        else let struct_size = bswap_32 (h_size_dt_struct header);
          dt_struct = g_dtb_addr + ucast (bswap_32 (h_off_dt_struct header));
          dt_strings = g_dtb_addr + ucast (bswap_32 (h_off_dt_strings header))
        in Option.bind (token_loop (\<lambda>_. True) (memory_step m dt_strings)
                          (dt_struct + ucast struct_size) dt_struct (-1, False)) (\<lambda>r.
             case r of Inl region \<Rightarrow> Some (Some region, [])
             | Inr _ \<Rightarrow> Some (None, ascii ''[DTB] Cannot find memory region in DTB'' @ [10])))"

subsection \<open>Reserved memory\<close>

text \<open>The state of the walk is its phase, the depth, and the calls of the callback made so far.\<close>

fun reg_entries :: "mem \<Rightarrow> u64 \<Rightarrow> nat \<Rightarrow> (u64 \<times> u64) list" where
  "reg_entries m p 0 = []"
| "reg_entries m p (Suc e) =
     (if snd (reg_entry m p) > 0 then [reg_entry m p] else []) @ reg_entries m (p + 16) e"

definition reserved_step ::
    "mem \<Rightarrow> u64 \<Rightarrow> u64 \<Rightarrow> nat \<times> int \<times> (u64 \<times> u64) list \<Rightarrow>
       (unit, nat \<times> int \<times> (u64 \<times> u64) list) turn option" where
  "reserved_step m strs cur = (\<lambda>(phase, depth, calls).
     let token = bswap_32 (load32 m cur); cur = cur + 4 in
     if token = FDT_BEGIN_NODE then
       Option.bind (skip_name m cur) (\<lambda>next.
       Option.bind (if phase = 0 \<and> depth + 1 = 1
                    then node_name_match m cur (lit (ascii ''reserved-memory'')) 0
                    else Some False) (\<lambda>hit.
       Some (Go_on (align_32 next) (if hit then 1 else phase, depth + 1, calls))))
     else if token = FDT_END_NODE then
       Some (Go_on cur (if phase = 1 \<and> depth = 1 then 2 else phase, depth - 1, calls))
     else if token = FDT_PROP then
       let prop = load_prop m cur; cur = cur + 8; prop_len = bswap_32 (p_len prop);
         name = strs + ucast (bswap_32 (p_nameoff prop))
       in Option.bind (if phase = 1 \<and> depth = 2 then prop_name_eq m name (lit (ascii ''reg'')) 0
                       else Some False) (\<lambda>is_reg.
          Some (Go_on (align_32 (cur + ucast prop_len))
            (phase, depth, calls @ (if is_reg then reg_entries m cur (unat (prop_len div 16)) else []))))
     else if token = FDT_NOP then Some (Go_on cur (phase, depth, calls))
     else Some (Leave (phase, depth, calls)))"

text \<open>The arguments of the callback, in the order of its calls.\<close>

definition dtb_walk_reserved_memory :: "mem \<Rightarrow> u64 \<Rightarrow> (u64 \<times> u64) list option" where
  "dtb_walk_reserved_memory m g_dtb_addr =
     (if g_dtb_addr = NULL then Some []
      else let header = load_header m g_dtb_addr in
        if bswap_32 (h_magic header) \<noteq> FDT_HEADER_MAGIC then Some []
        else let struct_size = bswap_32 (h_size_dt_struct header);
          dt_struct = g_dtb_addr + ucast (bswap_32 (h_off_dt_struct header));
          dt_strings = g_dtb_addr + ucast (bswap_32 (h_off_dt_strings header))
        in Option.bind (token_loop (\<lambda>(phase, _). phase < 2) (reserved_step m dt_strings)
                          (dt_struct + ucast struct_size) dt_struct (0, -1, [])) (\<lambda>r.
             case r of Inl _ \<Rightarrow> Some [] | Inr (_, _, calls) \<Rightarrow> Some calls))"

end
