(* ===== verification/Dtb_Tree.thy ===== *)
theory Dtb_Tree
  imports Dtb
begin

text \<open>
  What the scans of \<^verbatim>\<open>kernel/src/dtb.c\<close> compute, on the tree the blob stands for: the tokens of a
  structure block as a list of events, each scan as a fold over the events, and a device tree as a
  tree of named nodes with their properties.
\<close>

section \<open>Events\<close>

datatype fdt_event = Begin "u8 list" | End_Node | Prop "u8 list" "u8 list" | Nop

text \<open>The event \<open>e\<close> is encoded at address \<open>cur\<close>, and the address of the token after it.\<close>

definition token_at :: "mem \<Rightarrow> u64 \<Rightarrow> u32" where
  "token_at m cur = bswap_32 (load32 m cur)"

definition name_addr :: "mem \<Rightarrow> u64 \<Rightarrow> u64 \<Rightarrow> u64" where
  "name_addr m strs cur = strs + ucast (bswap_32 (p_nameoff (load_prop m (cur + 4))))"

definition value_len :: "mem \<Rightarrow> u64 \<Rightarrow> u32" where
  "value_len m cur = bswap_32 (p_len (load_prop m (cur + 4)))"

fun event_at :: "mem \<Rightarrow> u64 \<Rightarrow> u64 \<Rightarrow> fdt_event \<Rightarrow> bool" where
  "event_at m strs cur (Begin nm) \<longleftrightarrow> token_at m cur = FDT_BEGIN_NODE \<and> cstr m (cur + 4) nm"
| "event_at m strs cur End_Node \<longleftrightarrow> token_at m cur = FDT_END_NODE"
| "event_at m strs cur (Prop k v) \<longleftrightarrow> token_at m cur = FDT_PROP \<and> cstr m (name_addr m strs cur) k \<and>
     unat (value_len m cur) = length v \<and> unat cur + 12 + length v < 2 ^ 64 \<and>
     mem_bytes m (cur + 12) (length v) = v"
| "event_at m strs cur Nop \<longleftrightarrow> token_at m cur = FDT_NOP"

fun event_end :: "u64 \<Rightarrow> fdt_event \<Rightarrow> u64" where
  "event_end cur (Begin nm) = align_32 (cur + 4 + of_nat (length nm) + 1)"
| "event_end cur (Prop k v) = align_32 (cur + 12 + of_nat (length v))"
| "event_end cur e = cur + 4"

fun events_at :: "mem \<Rightarrow> u64 \<Rightarrow> u64 \<Rightarrow> u64 \<Rightarrow> fdt_event list \<Rightarrow> bool" where
  "events_at m strs fin cur [] \<longleftrightarrow> \<not> cur < fin \<or> token_at m cur = FDT_END"
| "events_at m strs fin cur (e # es) \<longleftrightarrow>
     cur < fin \<and> event_at m strs cur e \<and> events_at m strs fin (event_end cur e) es"

fun run :: "('s \<Rightarrow> bool) \<Rightarrow> (fdt_event \<Rightarrow> 's \<Rightarrow> 'v + 's) \<Rightarrow> fdt_event list \<Rightarrow> 's \<Rightarrow> 'v + 's" where
  "run wants f [] s = Inr s"
| "run wants f (e # es) s =
     (if wants s then case f e s of Inl v \<Rightarrow> Inl v | Inr s' \<Rightarrow> run wants f es s' else Inr s)"

text \<open>The contract of one turn of a scan: on the encoding of an event it does what the event function
  says, and it leaves the loop at the end token. Then the loop folds the event function.\<close>

locale token_scan =
  fixes m :: mem and strs :: u64 and wants :: "'s \<Rightarrow> bool"
    and step :: "u64 \<Rightarrow> 's \<Rightarrow> ('r, 's) turn option"
    and f :: "fdt_event \<Rightarrow> 's \<Rightarrow> 'v + 's" and stands_for :: "'r \<Rightarrow> 'v \<Rightarrow> bool"
  assumes step_value: "\<lbrakk>wants s; event_at m strs cur e; f e s = Inl v\<rbrakk> \<Longrightarrow>
      \<exists>r. step cur s = Some (Return r) \<and> stands_for r v"
    and step_next: "\<lbrakk>wants s; event_at m strs cur e; f e s = Inr s'\<rbrakk> \<Longrightarrow>
      step cur s = Some (Go_on (event_end cur e) s')"
    and step_end: "\<lbrakk>wants s; token_at m cur = FDT_END\<rbrakk> \<Longrightarrow> step cur s = Some (Leave s)"
begin

lemma loop_runs:
  assumes "events_at m strs fin cur es"
  shows "(\<exists>s'. run wants f es s = Inr s' \<and> token_loop wants step fin cur s = Some (Inr s')) \<or>
    (\<exists>v r. run wants f es s = Inl v \<and> token_loop wants step fin cur s = Some (Inl r) \<and> stands_for r v)"
  using assms
proof (induction es arbitrary: cur s)
  case Nil
  then have "token_loop wants step fin cur s = Some (Inr s)"
    using step_end [of s cur] by (subst token_loop.simps) auto
  then show ?case by simp
next
  case (Cons e es)
  then have at: "cur < fin" "event_at m strs cur e" "events_at m strs fin (event_end cur e) es"
    by simp_all
  show ?case
  proof (cases "wants s")
    case False
    then have "token_loop wants step fin cur s = Some (Inr s)"
      by (subst token_loop.simps) simp
    with False show ?thesis by simp
  next
    case wants: True
    show ?thesis
    proof (cases "f e s")
      case (Inl v)
      from step_value [OF wants at(2) Inl] obtain r where
        r: "step cur s = Some (Return r)" "stands_for r v" by blast
      then have "token_loop wants step fin cur s = Some (Inl r)"
        using wants at(1) by (subst token_loop.simps) simp
      with r wants Inl show ?thesis by simp
    next
      case (Inr s')
      have "token_loop wants step fin cur s = token_loop wants step fin (event_end cur e) s'"
        using wants at(1) step_next [OF wants at(2) Inr] by (subst token_loop.simps) simp
      with Cons.IH [OF at(3), of s'] wants Inr show ?thesis by simp
    qed
  qed
qed

end

section \<open>Strings\<close>

lemma skip_name_end: "cstr m a s \<Longrightarrow> skip_name m a = Some (a + of_nat (length s) + 1)"
proof (induction s arbitrary: a)
  case Nil
  then show ?case by (subst skip_name.simps) simp
next
  case (Cons c s)
  then show ?case by (subst skip_name.simps) (simp add: add.assoc)
qed

lemma prop_name_eq_decides:
  assumes "cstr m a s" and "cstr n b t"
  shows "prop_name_eq m a n b = Some (s = t)"
  using assms
proof (induction s arbitrary: a b t)
  case Nil
  then show ?case by (cases t) (subst prop_name_eq.simps, simp)+
next
  case (Cons c s)
  show ?case
  proof (cases t)
    case Nil
    with Cons.prems show ?thesis by (subst prop_name_eq.simps) simp
  next
    case (Cons d t')
    with Cons.prems Cons.IH [of "a + 1" "b + 1" t'] show ?thesis
      by (subst prop_name_eq.simps) auto
  qed
qed

text \<open>A node name without its unit address.\<close>

definition base_name :: "u8 list \<Rightarrow> u8 list" where
  "base_name nm = takeWhile (\<lambda>c. c \<noteq> AT) nm"

lemma node_name_match_decides:
  assumes "cstr m a nm" and "cstr n b seg"
  shows "node_name_match m a n b = Some (base_name nm = seg)"
  using assms
proof (induction seg arbitrary: a b nm)
  case Nil
  then show ?case
    by (cases nm) (subst node_name_match.simps, auto simp: base_name_def)+
next
  case (Cons d seg)
  show ?case
  proof (cases nm)
    case Nil
    with Cons.prems show ?thesis
      by (subst node_name_match.simps) (simp add: base_name_def)
  next
    case (Cons c nm')
    with Cons.prems Cons.IH [of "a + 1" nm' "b + 1"] show ?thesis
      by (subst node_name_match.simps) (auto simp: base_name_def)
  qed
qed

lemma lit_names:
  "cstr (lit (ascii ''memory'')) 0 (ascii ''memory'')"
  "cstr (lit (ascii ''reg'')) 0 (ascii ''reg'')"
  "cstr (lit (ascii ''reserved-memory'')) 0 (ascii ''reserved-memory'')"
  by (rule cstr_lit; simp add: ascii_def)+

section \<open>Big-endian numbers\<close>

definition be_word :: "u8 list \<Rightarrow> 'w::len word" where
  "be_word bs = foldl (\<lambda>w b. push_bit 8 w OR ucast b) 0 bs"

lemma bswap_masks:
  "(0xFF000000 :: u32) = push_bit 24 (mask 8)" "(0x00FF0000 :: u32) = push_bit 16 (mask 8)"
  "(0x0000FF00 :: u32) = push_bit 8 (mask 8)" "(0x000000FF :: u32) = mask 8"
  by (simp_all add: mask_eq_exp_minus_1 push_bit_eq_mult)

lemma byte_high: "8 \<le> n \<Longrightarrow> \<not> bit (b :: u8) n"
  by (auto dest: bit_imp_le_length)

lemma bit_bswap:
  assumes "n < 32"
  shows "bit (bswap_32 w) n = bit w (n mod 8 + (24 - n div 8 * 8))"
proof -
  consider "n div 8 = 0" "n < 8" | "n div 8 = 1" "8 \<le> n" "n < 16" | "n div 8 = 2" "16 \<le> n" "n < 24" | "n div 8 = 3" "24 \<le> n" "n < 32"
    using assms by linarith
  then show ?thesis
  proof cases
    case 1
    then show ?thesis using assms unfolding bswap_32_def bswap_masks by (simp add: bit_simps add.commute)
  next
    case 2
    then show ?thesis using assms unfolding bswap_32_def bswap_masks by (simp add: bit_simps modulo_nat_def less_diff_conv2 le_diff_conv2)
  next
    case 3
    then show ?thesis using assms unfolding bswap_32_def bswap_masks by (simp add: bit_simps modulo_nat_def less_diff_conv2 le_diff_conv2)
  next
    case 4
    then show ?thesis using assms unfolding bswap_32_def bswap_masks by (simp add: bit_simps modulo_nat_def less_diff_conv2 le_diff_conv2)
  qed
qed

lemma be_word_load32: "bswap_32 (load32 m a) = be_word (mem_bytes m a 4)"
proof (rule bit_word_eqI)
  fix n
  assume "n < LENGTH(32)"
  then have n: "n < 32" by simp
  have u: "[0..<4] = [0, 1, 2, 3::nat]" by (simp add: upt_rec)
  consider "n div 8 = 0" "n < 8" | "n div 8 = 1" "8 \<le> n" "n < 16" | "n div 8 = 2" "16 \<le> n" "n < 24" | "n div 8 = 3" "24 \<le> n" "n < 32"
    using n by linarith
  then show "bit (bswap_32 (load32 m a)) n = bit (be_word (mem_bytes m a 4) :: u32) n"
    unfolding bit_bswap [OF n] load32_def mem_bytes_def be_word_def u
    by cases (simp_all add: bit_simps byte_high modulo_nat_def less_diff_conv2 le_diff_conv2)
qed
lemma bit_be_word:
  "bit (be_word bs :: 'w::len word) n \<longleftrightarrow>
     n < LENGTH('w) \<and> n < 8 * length bs \<and> bit (rev bs ! (n div 8)) (n mod 8)"
proof (induction bs arbitrary: n rule: rev_induct)
  case Nil
  then show ?case by (simp add: be_word_def)
next
  case (snoc b bs)
  have step: "be_word (bs @ [b]) = (push_bit 8 (be_word bs) OR ucast b :: 'w word)"
    by (simp add: be_word_def)
  show ?case
  proof (cases "n < 8")
    case True
    then show ?thesis unfolding step by (auto simp: bit_simps)
  next
    case False
    then have "n div 8 = Suc ((n - 8) div 8)" "n mod 8 = (n - 8) mod 8"
      by (simp_all add: le_div_geq le_mod_geq)
    with False show ?thesis
      unfolding step by (auto simp: bit_simps snoc.IH byte_high)
  qed
qed

lemma minus_32: "32 \<le> (n::nat) \<Longrightarrow> (n - 32) mod 8 = n mod 8 \<and> (n - 32) div 8 = n div 8 - 4 \<and> 4 \<le> n div 8"
proof -
  assume "32 \<le> n"
  then obtain k where "n = 32 + k" by (auto dest: le_Suc_ex)
  moreover have "(32 + k) div 8 = 4 + k div 8" "(32 + k) mod 8 = k mod 8"
    using div_mult_self3 [of 8 4 k] mod_mult_self3 [of 4 8 k] by simp_all
  ultimately show ?thesis by simp
qed

lemma be_word_join:
  assumes "length xs = 4" and "length ys = 4"
  shows "push_bit 32 (ucast (be_word xs :: u32)) OR ucast (be_word ys :: u32) = (be_word (xs @ ys) :: u64)"
proof (rule bit_word_eqI)
  fix n
  assume n: "n < LENGTH(64)"
  note minus_32 [of n]
  moreover have "n div 8 < 4" if "n < 32"
    using that by simp
  ultimately show "bit (push_bit 32 (ucast (be_word xs :: u32)) OR ucast (be_word ys :: u32) :: u64) n =
      bit (be_word (xs @ ys) :: u64) n"
    using n assms by (cases "n < 32") (auto simp: bit_simps bit_be_word nth_append)
qed

text \<open>The 64-bit number at an address.\<close>

lemma be_load64:
  "push_bit 32 (ucast (bswap_32 (load32 m a))) OR ucast (bswap_32 (load32 m (a + 4))) =
     (be_word (mem_bytes m a 8) :: u64)"
proof -
  have "mem_bytes m a 8 = mem_bytes m a 4 @ mem_bytes m (a + 4) 4"
    by (simp add: mem_bytes_def upt_rec add.assoc)
  moreover have "length (mem_bytes m a 4) = 4" for m a
    by (simp add: mem_bytes_def)
  ultimately show ?thesis
    unfolding be_word_load32 by (simp add: be_word_join)
qed

section \<open>Paths\<close>

text \<open>The path of the components \<open>segs\<close>; the root is the path with no component.\<close>

fun path_join :: "u8 list list \<Rightarrow> u8 list" where
  "path_join [] = []"
| "path_join [s] = s"
| "path_join (s # segs) = s @ SLASH # path_join segs"

definition path_bytes :: "u8 list list \<Rightarrow> u8 list" where
  "path_bytes segs = SLASH # path_join segs"

definition segs_ok :: "u8 list list \<Rightarrow> bool" where
  "segs_ok segs \<longleftrightarrow> (\<forall>s\<in>set segs. s \<noteq> [] \<and> SLASH \<notin> set s \<and> length s < 2 ^ 31)"

lemma cstr_bytes: "cstr m a (s @ t) \<Longrightarrow> mem_bytes m a (length s) = s"
  by (auto simp: cstr_append mem_bytes_def intro!: nth_equalityI)

lemma mem_bytes_take: "k \<le> n \<Longrightarrow> mem_bytes m a k = take k (mem_bytes m a n)"
  by (simp add: mem_bytes_def take_map take_upt)

lemma count_slashes_cstr: "cstr m p s \<Longrightarrow> count_slashes m p n = Some (n + int (count_list s SLASH))"
proof (induction s arbitrary: p n)
  case Nil
  then show ?case by (subst count_slashes.simps) simp
next
  case (Cons c s)
  then show ?case by (subst count_slashes.simps) auto
qed

lemma path_join_slashes:
  "segs_ok segs \<Longrightarrow> segs \<noteq> [] \<Longrightarrow> count_list (path_join segs) SLASH = length segs - 1"
proof (induction segs rule: path_join.induct)
  case (3 s t ts)
  then have "count_list s SLASH = 0"
    by (simp add: segs_ok_def count_list_0_iff)
  with 3 show ?case by (simp add: segs_ok_def)
qed (auto simp: segs_ok_def count_list_0_iff)

lemma path_join_Nil: "segs_ok segs \<Longrightarrow> path_join segs = [] \<longleftrightarrow> segs = []"
  by (cases segs rule: path_join.cases) (auto simp: segs_ok_def)

lemma path_depth_path:
  assumes "cstr n path (path_bytes segs)" and "segs_ok segs" and "path \<noteq> NULL"
  shows "path_depth n path = Some (int (length segs))"
proof -
  have c: "n path = SLASH" "cstr n (path + 1) (path_join segs)"
    using assms(1) by (simp_all add: path_bytes_def)
  show ?thesis
  proof (cases segs)
    case Nil
    with c assms(3) show ?thesis by (simp add: path_depth_def)
  next
    case (Cons s ss)
    with c(2) path_join_Nil [OF assms(2)] have "n (path + 1) \<noteq> 0"
      by (cases "path_join segs") auto
    moreover have "length segs = Suc (length segs - 1)"
      using Cons by simp
    ultimately show ?thesis
      using c assms(3) count_slashes_cstr [OF c(2)] path_join_slashes [OF assms(2)] Cons
      by (simp add: path_depth_def)
  qed
qed

lemma segment_end_cstr:
  assumes "cstr n p (s @ t)" and "SLASH \<notin> set s" and "t = [] \<or> hd t = SLASH"
  shows "segment_end n p = Some (p + of_nat (length s))"
  using assms
proof (induction s arbitrary: p)
  case Nil
  then show ?case by (subst segment_end.simps) (cases t; auto)
next
  case (Cons c s)
  then show ?case by (subst segment_end.simps) (auto simp: add.assoc)
qed

lemma ucast_of_nat_down: "ucast (of_nat k :: u64) = (of_nat k :: u32)"
  by (rule bit_word_eqI) (simp add: bit_simps)

lemma segment_loop_finds:
  assumes "cstr n p (path_join segs)" and "segs_ok segs"
  shows "if i \<le> idx \<and> nat (idx - i) < length segs
    then \<exists>q. segment_loop n p idx i = Some (Some (q, of_nat (length (segs ! nat (idx - i))))) \<and>
      mem_bytes n q (length (segs ! nat (idx - i))) = segs ! nat (idx - i)
    else segment_loop n p idx i = Some None"
  using assms
proof (induction segs arbitrary: p i rule: path_join.induct)
  case 1
  then show ?case by (subst segment_loop.simps) simp
next
  case (2 s)
  then have s: "s \<noteq> []" "SLASH \<notin> set s" "cstr n p (s @ [])"
    by (simp_all add: segs_ok_def)
  then have "n p \<noteq> 0" by (cases s) auto
  have "mem_bytes n p (length s) = s"
    by (rule cstr_bytes [OF s(3)])
  moreover have "segment_loop n (p + of_nat (length s)) idx (i + 1) = Some None"
    using s(3) unfolding cstr_append by (subst segment_loop.simps) simp
  moreover have "n (p + of_nat (length s)) = 0"
    using s(3) unfolding cstr_append by simp
  moreover have "segment_loop n p idx i = (if i = idx then Some (Some (p, of_nat (length s)))
      else segment_loop n (p + of_nat (length s)) idx (i + 1))"
    using \<open>n p \<noteq> 0\<close> segment_end_cstr [OF s(3,2)] calculation(3)
    by (subst segment_loop.simps) (simp add: ucast_of_nat_down)
  ultimately show ?case by auto
next
  case (3 s t ts)
  let ?rest = "path_join (t # ts)"
  have c: "cstr n p (s @ SLASH # ?rest)" and s: "s \<noteq> []" "SLASH \<notin> set s" and ok: "segs_ok (t # ts)"
    using "3.prems" by (simp_all add: segs_ok_def)
  have "n p \<noteq> 0" using c s(1) by (cases s) auto
  have next_seg: "cstr n (p + of_nat (length s) + 1) ?rest" and slash: "n (p + of_nat (length s)) = SLASH"
    using c unfolding cstr_append by simp_all
  have bytes: "mem_bytes n p (length s) = s"
    by (rule cstr_bytes [OF c])
  have loop: "segment_loop n p idx i = (if i = idx then Some (Some (p, of_nat (length s)))
      else segment_loop n (p + of_nat (length s) + 1) idx (i + 1))"
    using \<open>n p \<noteq> 0\<close> segment_end_cstr [OF c s(2)] slash
    by (subst segment_loop.simps) (simp add: ucast_of_nat_down)
  show ?case
  proof (cases "i = idx")
    case True
    with loop bytes show ?thesis by simp
  next
    case False
    show ?thesis
    proof (cases "i \<le> idx")
      case True
      with False have "nat (idx - i) = Suc (nat (idx - (i + 1)))" by linarith
      then show ?thesis
        using "3.IH" [OF next_seg ok, of "i + 1"] loop False True by simp
    next
      case False
      then show ?thesis
        using "3.IH" [OF next_seg ok, of "i + 1"] loop by simp
    qed
  qed
qed

text \<open>A node name against a component: the comparison sees at most 63 bytes of the component.\<close>

definition seg_matches :: "u8 list \<Rightarrow> u8 list \<Rightarrow> bool" where
  "seg_matches nm seg \<longleftrightarrow> base_name nm = take 63 seg"

text \<open>The only component a node is compared with is the one at its own depth.\<close>

definition hit :: "u8 list list \<Rightarrow> int \<Rightarrow> u8 list \<Rightarrow> bool" where
  "hit segs d nm \<longleftrightarrow> d = int (length segs) \<and> (d = 0 \<or> seg_matches nm (last segs))"

lemma seg_buf_cstr:
  assumes "mem_bytes n q (length s) = s" and "length s < 2 ^ 31" and "0 \<notin> set s"
  shows "cstr (seg_buf n q (of_nat (length s))) 0 (take 63 s)"
proof -
  have "sint (of_nat (length s) :: i32) = int (length s)"
    using assms(2) by (simp add: signed_of_nat signed_take_bit_int_eq_self)
  then have "nat (if sint (of_nat (length s) :: i32) < 63 then sint (of_nat (length s) :: i32) else 63) =
      min (length s) 63"
    by auto
  moreover have "mem_bytes n q (min (length s) 63) = take 63 s"
    using assms(1) mem_bytes_take [of "min (length s) 63" "length s" n q] by (simp add: min_def)
  ultimately have "seg_buf n q (of_nat (length s)) = lit (take 63 s)"
    by (simp add: seg_buf_def Let_def)
  moreover have "0 \<notin> set (take 63 s)"
    using assms(3) by (meson in_set_takeD)
  ultimately show ?thesis
    by (simp add: cstr_lit)
qed

lemma match_node_hit:
  assumes "cstr m a nm" and "cstr n path (path_bytes segs)" and "segs_ok segs" and "path \<noteq> NULL"
  shows "match_node m a n path (int (length segs)) d mt = Some (if hit segs d nm then d else mt)"
proof (cases "d = 0")
  case True
  then show ?thesis by (simp add: match_node_def hit_def)
next
  case nz: False
  have c: "n path = SLASH" "cstr n (path + 1) (path_join segs)"
    using assms(2) by (simp_all add: path_bytes_def)
  let ?k = "nat (d - 1)"
  show ?thesis
  proof (cases "0 \<le> d - 1 \<and> ?k < length segs")
    case False
    with segment_loop_finds [OF c(2) assms(3), of 0 "d - 1"]
    have "segment_loop n (path + 1) (d - 1) 0 = Some None" by simp
    moreover have "\<not> hit segs d nm"
      using False nz unfolding hit_def by (cases segs) auto
    ultimately show ?thesis
      using nz c(1) assms(4) by (simp add: match_node_def path_segment_def)
  next
    case True
    let ?s = "segs ! ?k"
    have s: "?s \<in> set segs" using True by simp
    from segment_loop_finds [OF c(2) assms(3), of 0 "d - 1"] True obtain q where
      q: "segment_loop n (path + 1) (d - 1) 0 = Some (Some (q, of_nat (length ?s)))"
        "mem_bytes n q (length ?s) = ?s"
      by auto
    have len: "length ?s < 2 ^ 31"
      using assms(3) s unfolding segs_ok_def by blast
    have "0 \<notin> set (path_join segs)"
      using c(2) by (auto simp: cstr_def in_set_conv_nth)
    moreover have "set s \<subseteq> set (path_join segs)" if "s \<in> set segs" for s
      using that by (induction segs rule: path_join.induct) auto
    ultimately have "0 \<notin> set ?s" using s by blast
    from node_name_match_decides [OF assms(1) seg_buf_cstr [OF q(2) len this]]
    have nm: "node_name_match m a (seg_buf n q (of_nat (length ?s))) 0 = Some (seg_matches nm ?s)"
      by (simp add: seg_matches_def)
    have "?s = last segs" if "d = int (length segs)"
    proof -
      from that True have "segs \<noteq> []" "?k = length segs - 1" by auto
      then show ?thesis by (simp add: last_conv_nth)
    qed
    then show ?thesis
      using nz c(1) assms(4) q(1) nm by (auto simp: match_node_def path_segment_def hit_def)
  qed
qed

section \<open>The scans on events\<close>

text \<open>The bytes that a pointer and a length denote.\<close>

definition denotes :: "mem \<Rightarrow> u64 \<times> u32 \<Rightarrow> u8 list \<Rightarrow> bool" where
  "denotes m r v \<longleftrightarrow>
     fst r \<noteq> NULL \<and> unat (snd r) = length v \<and> mem_bytes m (fst r) (length v) = v"

fun getprop_event :: "u8 list list \<Rightarrow> u8 list \<Rightarrow> fdt_event \<Rightarrow> int \<times> int \<Rightarrow> u8 list + int \<times> int" where
  "getprop_event segs key (Begin nm) (d, mt) =
     Inr (d + 1, if mt < 0 \<and> hit segs (d + 1) nm then d + 1 else mt)"
| "getprop_event segs key End_Node (d, mt) = Inr (d - 1, if mt = d then -1 else mt)"
| "getprop_event segs key (Prop k v) (d, mt) = (if mt \<ge> 0 \<and> k = key then Inl v else Inr (d, mt))"
| "getprop_event segs key Nop (d, mt) = Inr (d, mt)"

lemmas fdt_token_defs = FDT_BEGIN_NODE_def FDT_END_NODE_def FDT_PROP_def FDT_NOP_def FDT_END_def

lemma ucast_unat_up: "unat (w :: u32) = k \<Longrightarrow> (ucast w :: u64) = of_nat k"
  by (auto simp: unsigned_ucast_eq)

lemma getprop_scan:
  assumes "cstr n path (path_bytes segs)" and "segs_ok segs" and "path \<noteq> NULL" and "cstr k name key"
  shows "token_scan m strs (\<lambda>_. True) (getprop_step m strs n path (int (length segs)) k name)
    (getprop_event segs key) (denotes m)"
proof
  note defs = getprop_step_def Let_def token_at_def fdt_token_defs
  fix s :: "int \<times> int" and cur e v
  obtain d mt where s: "s = (d, mt)" by fastforce
  assume at: "event_at m strs cur e" and f: "getprop_event segs key e s = Inl v"
  from f s obtain k' where e: "e = Prop k' v" "mt \<ge> 0" "k' = key"
    by (cases e) (auto split: if_splits)
  with at have c: "cstr m (name_addr m strs cur) key" by simp
  from e(1) at have "unat (cur + 12) = unat cur + 12"
    by (simp add: unat_word_ariths)
  then have "cur + 12 \<noteq> 0"
    by (metis add_is_0 unat_0 zero_neq_numeral)
  with e(1) at have "denotes m (cur + 12, value_len m cur) v" "token_at m cur = FDT_PROP"
    by (simp_all add: denotes_def)
  then show "\<exists>r. getprop_step m strs n path (int (length segs)) k name cur s = Some (Return r) \<and> denotes m r v"
    using prop_name_eq_decides [OF c assms(4)] s e(2)
    by (simp add: defs name_addr_def value_len_def add.assoc)
next
  note defs = getprop_step_def Let_def token_at_def fdt_token_defs
  fix s s' :: "int \<times> int" and cur e
  obtain d mt where s: "s = (d, mt)" by fastforce
  assume at: "event_at m strs cur e" and f: "getprop_event segs key e s = Inr s'"
  show "getprop_step m strs n path (int (length segs)) k name cur s = Some (Go_on (event_end cur e) s')"
  proof (cases e)
    case (Begin nm)
    with at have c: "cstr m (cur + 4) nm" "token_at m cur = FDT_BEGIN_NODE" by simp_all
    show ?thesis
      using f s Begin c(2) skip_name_end [OF c(1)] match_node_hit [OF c(1) assms(1-3)]
      by (auto simp: defs)
  next
    case End_Node
    with at f s show ?thesis by (simp add: defs)
  next
    case (Prop k' v)
    with at have c: "cstr m (name_addr m strs cur) k'" "token_at m cur = FDT_PROP"
      "unat (value_len m cur) = length v" by simp_all
    have "(ucast (value_len m cur) :: u64) = of_nat (length v)"
      by (rule ucast_unat_up [OF c(3)])
    then show ?thesis
      using f s Prop c(2) prop_name_eq_decides [OF c(1) assms(4)]
      by (auto simp: defs name_addr_def value_len_def add.assoc split: if_splits)
  next
    case Nop
    with at f s show ?thesis by (simp add: defs)
  qed
next
  fix s :: "int \<times> int" and cur
  assume "token_at m cur = FDT_END"
  then show "getprop_step m strs n path (int (length segs)) k name cur s = Some (Leave s)"
    by (cases s) (simp add: getprop_step_def Let_def token_at_def fdt_token_defs)
qed

section \<open>Trees\<close>

datatype dt_node =
  Node (node_name: "u8 list") (node_props: "(u8 list \<times> u8 list) list") (node_children: "dt_node list")

abbreviation prop_events :: "(u8 list \<times> u8 list) list \<Rightarrow> fdt_event list" where
  "prop_events ps \<equiv> map (\<lambda>(k, v). Prop k v) ps"

primrec flatten :: "dt_node \<Rightarrow> fdt_event list" where
  "flatten (Node nm ps cs) = Begin nm # prop_events ps @ concat (map flatten cs) @ [End_Node]"

text \<open>The blob at address \<open>a\<close> encodes the tree \<open>t\<close>, with any number of no-operation tokens.\<close>

definition fdt_blob :: "mem \<Rightarrow> u64 \<Rightarrow> dt_node \<Rightarrow> bool" where
  "fdt_blob m a t \<longleftrightarrow>
     (let h = load_header m a; start = a + ucast (bswap_32 (h_off_dt_struct h)) in
      a \<noteq> NULL \<and> bswap_32 (h_magic h) = FDT_HEADER_MAGIC \<and>
      (\<exists>es. events_at m (a + ucast (bswap_32 (h_off_dt_strings h)))
              (start + ucast (bswap_32 (h_size_dt_struct h))) start es \<and>
            filter (\<lambda>e. e \<noteq> Nop) es = flatten t))"

lemma run_append:
  "run wants f (es @ fs) s = (case run wants f es s of Inl v \<Rightarrow> Inl v | Inr s' \<Rightarrow> run wants f fs s')"
proof (induction es arbitrary: s)
  case Nil
  then show ?case by simp
next
  case (Cons e es)
  have "run wants f fs s = Inr s" if "\<not> wants s"
    using that by (cases fs) simp_all
  with Cons show ?case by (auto split: sum.splits)
qed

lemma run_drop_nops:
  assumes "\<And>s. f Nop s = Inr s"
  shows "run wants f es s = run wants f (filter (\<lambda>e. e \<noteq> Nop) es) s"
proof (induction es arbitrary: s)
  case (Cons e es)
  have "run wants f fs s = Inr s" if "\<not> wants s" for fs
    using that by (cases fs) simp_all
  with Cons assms show ?case by (auto split: sum.splits)
qed simp

text \<open>All properties of a subtree, in the order of the blob, and the first value found in a list of
  places.\<close>

primrec all_props :: "dt_node \<Rightarrow> (u8 list \<times> u8 list) list" where
  "all_props (Node nm ps cs) = ps @ concat (map all_props cs)"

fun first_some :: "'a option list \<Rightarrow> 'a option" where
  "first_some [] = None"
| "first_some (None # xs) = first_some xs"
| "first_some (Some x # xs) = Some x"

lemma first_some_single [simp]: "first_some [x] = x"
  by (cases x) simp_all

lemma first_some_append: "first_some (xs @ ys) = (case first_some xs of None \<Rightarrow> first_some ys | Some x \<Rightarrow> Some x)"
  by (induction xs rule: first_some.induct) auto

lemma map_of_concat: "map_of (concat pss) k = first_some (map (\<lambda>ps. map_of ps k) pss)"
proof (induction pss)
  case (Cons ps pss)
  then show ?case by (cases "map_of ps k") (simp_all add: map_add_def)
qed simp

abbreviation found :: "'s \<Rightarrow> 'v option \<Rightarrow> 'v + 's" where
  "found s r \<equiv> (case r of None \<Rightarrow> Inr s | Some v \<Rightarrow> Inl v)"

text \<open>A scan that each child leaves in the state it started in, unless it finds something.\<close>

lemma run_children:
  assumes "\<And>c. c \<in> set cs \<Longrightarrow> run wants f (g c) s = found s (h c)"
  shows "run wants f (concat (map g cs)) s = found s (first_some (map h cs))"
  using assms
proof (induction cs)
  case (Cons c cs)
  from Cons.prems [of c] have c: "run wants f (g c) s = found s (h c)" by simp
  have rest: "run wants f (concat (map g cs)) s = found s (first_some (map h cs))"
    by (rule Cons.IH) (use Cons.prems in simp)
  show ?case
    by (cases "h c") (simp_all add: run_append c rest)
qed simp

subsection \<open>Lookup\<close>

abbreviation lookup_run :: "u8 list list \<Rightarrow> u8 list \<Rightarrow> fdt_event list \<Rightarrow> int \<times> int \<Rightarrow> u8 list + int \<times> int" where
  "lookup_run segs key \<equiv> run (\<lambda>_. True) (getprop_event segs key)"

lemma run_props_matched:
  "0 \<le> mt \<Longrightarrow> lookup_run segs key (prop_events ps) (d, mt) = found (d, mt) (map_of ps key)"
  by (induction ps) auto

lemma run_props_unmatched: "lookup_run segs key (prop_events ps) (d, -1) = Inr (d, -1)"
  by (induction ps) auto

lemma run_matched:
  "0 \<le> mt \<Longrightarrow> mt \<le> d \<Longrightarrow> lookup_run segs key (flatten t) (d, mt) = found (d, mt) (map_of (all_props t) key)"
proof (induction t arbitrary: d)
  case (Node nm ps cs)
  have kids: "lookup_run segs key (concat (map flatten cs)) (d + 1, mt) =
      found (d + 1, mt) (first_some (map (\<lambda>c. map_of (all_props c) key) cs))"
    by (rule run_children) (use Node in auto)
  show ?case
    using Node.prems
    by (auto simp: run_append run_props_matched kids map_of_concat map_add_def comp_def split: option.splits)
qed

text \<open>What the code looks up: the first value of the property in a node of the right depth whose name
  is the last component, or in a descendant of one.\<close>

primrec lookup :: "u8 list list \<Rightarrow> u8 list \<Rightarrow> dt_node \<Rightarrow> int \<Rightarrow> u8 list option" where
  "lookup segs key (Node nm ps cs) d =
     (if hit segs d nm then map_of (all_props (Node nm ps cs)) key
      else first_some (map (\<lambda>c. lookup segs key c (d + 1)) cs))"

lemma run_unmatched:
  "-1 \<le> d \<Longrightarrow> lookup_run segs key (flatten t) (d, -1) = found (d, -1) (lookup segs key t (d + 1))"
proof (induction t arbitrary: d)
  case (Node nm ps cs)
  show ?case
  proof (cases "hit segs (d + 1) nm")
    case True
    have kids: "lookup_run segs key (concat (map flatten cs)) (d + 1, d + 1) =
        found (d + 1, d + 1) (first_some (map (\<lambda>c. map_of (all_props c) key) cs))"
      by (rule run_children) (use Node.prems in \<open>simp add: run_matched\<close>)
    with True Node.prems show ?thesis
      by (auto simp: run_append run_props_matched map_of_concat map_add_def comp_def split: option.splits)
  next
    case False
    have kids: "lookup_run segs key (concat (map flatten cs)) (d + 1, -1) =
        found (d + 1, -1) (first_some (map (\<lambda>c. lookup segs key c (d + 1 + 1)) cs))"
      by (rule run_children) (use Node in auto)
    with False Node.prems show ?thesis
      by (auto simp: run_append run_props_unmatched split: option.splits)
  qed
qed

text \<open>The nodes at a depth, those among them that the code takes for the node of a path, and the nodes
  that the path denotes.\<close>

fun level :: "nat \<Rightarrow> dt_node \<Rightarrow> dt_node list" where
  "level 0 t = [t]"
| "level (Suc n) t = concat (map (level n) (node_children t))"

definition candidates :: "u8 list list \<Rightarrow> dt_node \<Rightarrow> dt_node list" where
  "candidates segs t =
     filter (\<lambda>c. segs = [] \<or> seg_matches (node_name c) (last segs)) (level (length segs) t)"

fun nodes_at :: "u8 list list \<Rightarrow> dt_node \<Rightarrow> dt_node list" where
  "nodes_at [] t = [t]"
| "nodes_at (s # segs) t =
     concat (map (nodes_at segs) (filter (\<lambda>c. seg_matches (node_name c) s) (node_children t)))"

definition prop_in :: "u8 list \<Rightarrow> dt_node \<Rightarrow> u8 list option" where
  "prop_in key c = map_of (node_props c) key"

definition prop_below :: "u8 list \<Rightarrow> dt_node \<Rightarrow> u8 list option" where
  "prop_below key c = map_of (all_props c) key"

lemma first_some_concat: "first_some (concat xss) = first_some (map first_some xss)"
proof (induction xss)
  case (Cons xs xss)
  then show ?case by (cases "first_some xs") (simp_all add: first_some_append)
qed simp

lemma lookup_below: "int (length segs) < d \<Longrightarrow> lookup segs key t d = None"
proof (induction t arbitrary: d)
  case (Node nm ps cs)
  then have "first_some (map (\<lambda>c. lookup segs key c (d + 1)) cs) = None"
    by (induction cs) auto
  with Node.prems show ?case by (simp add: hit_def)
qed

lemma lookup_level:
  "d + int n = int (length segs) \<Longrightarrow> 0 \<le> d \<Longrightarrow>
   lookup segs key t d =
     first_some (map (prop_below key)
       (filter (\<lambda>c. segs = [] \<or> seg_matches (node_name c) (last segs)) (level n t)))"
proof (induction n arbitrary: t d)
  case 0
  obtain nm ps cs where t: "t = Node nm ps cs" by (cases t)
  have "first_some (map (\<lambda>c. lookup segs key c (d + 1)) cs) = None"
    using 0 lookup_below [of segs "d + 1" key] by (induction cs) auto
  with 0 t show ?case
    by (cases "map_of (all_props t) key") (auto simp: hit_def prop_below_def)
next
  case (Suc n)
  obtain nm ps cs where t: "t = Node nm ps cs" by (cases t)
  from Suc.prems have "\<not> hit segs d nm" by (simp add: hit_def)
  with t Suc.IH [of "d + 1"] Suc.prems show ?case
    by (simp add: filter_concat map_concat first_some_concat comp_def)
qed

lemma lookup_candidates: "lookup segs key t 0 = first_some (map (prop_below key) (candidates segs t))"
  using lookup_level [of 0 "length segs" segs key t] by (simp add: candidates_def)

subsection \<open>The functions\<close>

lemma getprop_raw_finds:
  assumes blob: "fdt_blob m a t" and path: "cstr n path (path_bytes segs)" "segs_ok segs" "path \<noteq> NULL"
    and name: "cstr k name key" "name \<noteq> NULL"
  shows "\<exists>p len. dtb_getprop_raw m a n path k name = Some (p, Some len) \<and>
    (case first_some (map (prop_below key) (candidates segs t)) of
       None \<Rightarrow> p = NULL \<and> len = 0 | Some v \<Rightarrow> denotes m (p, len) v)"
proof -
  let ?h = "load_header m a"
  let ?strs = "a + ucast (bswap_32 (h_off_dt_strings ?h))"
  let ?start = "a + ucast (bswap_32 (h_off_dt_struct ?h))"
  let ?fin = "?start + ucast (bswap_32 (h_size_dt_struct ?h))"
  from blob obtain es where es: "events_at m ?strs ?fin ?start es" "filter (\<lambda>e. e \<noteq> Nop) es = flatten t"
    and hd: "a \<noteq> NULL" "bswap_32 (h_magic ?h) = FDT_HEADER_MAGIC"
    by (auto simp: fdt_blob_def Let_def)
  have "lookup_run segs key es (-1, -1) = lookup_run segs key (flatten t) (-1, -1)"
    unfolding es(2) [symmetric] by (rule run_drop_nops) auto
  also have "\<dots> = found (-1, -1) (first_some (map (prop_below key) (candidates segs t)))"
    using run_unmatched [of "-1" segs key t] by (simp add: lookup_candidates)
  finally have run: "lookup_run segs key es (-1, -1) =
      found (-1, -1) (first_some (map (prop_below key) (candidates segs t)))" .
  note token_scan.loop_runs [OF getprop_scan [OF path name(1)] es(1), of "(-1, -1)"]
  then show ?thesis
    using hd path(3) name(2) path_depth_path [OF path] unfolding run
    by (auto simp: dtb_getprop_raw_def Let_def split: option.splits)
qed

text \<open>The number that \<^verbatim>\<open>dtb_getprop\<close> reads from a value: its first eight bytes or, when it is shorter,
  its first four.\<close>

definition dt_number :: "u8 list option \<Rightarrow> u64" where
  "dt_number r = (case r of None \<Rightarrow> 0 | Some v \<Rightarrow>
     if length v < 4 \<or> 2 ^ 31 \<le> length v then 0
     else if length v \<ge> 8 then be_word (take 8 v) else be_word (take 4 v))"

lemma be_word_short: "8 * length bs \<le> 32 \<Longrightarrow> (ucast (be_word bs :: u32) :: u64) = be_word bs"
  by (rule bit_word_eqI) (auto simp: bit_simps bit_be_word)

lemma denotes_number:
  assumes "denotes m (p, len) v"
  shows "(if p = NULL \<or> sint len < 4 then 0
      else if sint len \<ge> 8
        then push_bit 32 (ucast (bswap_32 (load32 m p))) OR ucast (bswap_32 (load32 m (p + 4)))
      else ucast (bswap_32 (load32 m p))) = dt_number (Some v)"
proof -
  from assms have p: "p \<noteq> NULL" and len: "unat len = length v" and v: "mem_bytes m p (length v) = v"
    by (simp_all add: denotes_def)
  have s: "sint len = (if length v < 2 ^ 31 then int (length v) else int (length v) - 2 ^ 32)"
  proof -
    have "uint len = int (length v)" using len by (metis uint_nat)
    moreover have "length v < 2 ^ 32" using len unsigned_less [of len, where 'a = nat] by simp
    moreover have "int (length v) div 2147483648 = 1" if "\<not> length v < 2147483648"
      using that calculation(2) by (intro div_pos_geq [THEN trans]) auto
    ultimately show ?thesis
      unfolding sint_uint by (simp add: signed_take_bit_eq_take_bit_minus take_bit_int_eq_self bit_iff_odd)
  qed
  have bytes: "mem_bytes m p j = take j v" if "j \<le> length v" for j
    using mem_bytes_take [OF that, of m p] v by simp
  show ?thesis
  proof (cases "length v < 4 \<or> 2 ^ 31 \<le> length v")
    case True
    with s have "sint len < 4"
      using unsigned_less [of len, where 'a = nat] len by auto
    with True show ?thesis by (auto simp: dt_number_def)
  next
    case False
    with s have sl: "sint len = int (length v)" by simp
    show ?thesis
    proof (cases "length v \<ge> 8")
      case True
      with False sl p bytes [of 8] show ?thesis
        by (simp add: dt_number_def be_load64)
    next
      case short: False
      with False sl p bytes [of 4] show ?thesis
        by (simp add: dt_number_def be_word_load32 be_word_short)
    qed
  qed
qed

lemma getprop_number:
  assumes blob: "fdt_blob m a t" and path: "cstr n path (path_bytes segs)" "segs_ok segs" "path \<noteq> NULL"
    and name: "cstr k name key" "name \<noteq> NULL"
  shows "dtb_getprop m a n path k name =
    Some (dt_number (first_some (map (prop_below key) (candidates segs t))))"
proof -
  from getprop_raw_finds [OF assms] obtain p len where
    r: "dtb_getprop_raw m a n path k name = Some (p, Some len)"
    "case first_some (map (prop_below key) (candidates segs t)) of
       None \<Rightarrow> p = NULL \<and> len = 0 | Some v \<Rightarrow> denotes m (p, len) v" by blast
  show ?thesis
  proof (cases "first_some (map (prop_below key) (candidates segs t))")
    case None
    with r show ?thesis by (simp add: dtb_getprop_def dt_number_def)
  next
    case (Some v)
    with r(2) have "denotes m (p, len) v" by simp
    from denotes_number [OF this] r(1) Some show ?thesis
      by (auto simp: dtb_getprop_def Let_def split: if_splits)
  qed
qed

end
