(* ===== verification/Dtb_Regions.thy ===== *)
theory Dtb_Regions
  imports Dtb_Tree
begin

text \<open>
  The two scans of \<^verbatim>\<open>kernel/src/dtb.c\<close> that look for regions, on the tree the blob encodes: the
  memory region of a node \<^verbatim>\<open>/memory\<close>, and the regions of the children of \<^verbatim>\<open>/reserved-memory\<close>.
\<close>

section \<open>The scans on events\<close>

definition reg_value :: "u8 list \<Rightarrow> u64 \<times> u64" where
  "reg_value v = (be_word (take 8 v), be_word (take 8 (drop 8 v)))"

fun reg_values :: "nat \<Rightarrow> u8 list \<Rightarrow> (u64 \<times> u64) list" where
  "reg_values 0 v = []"
| "reg_values (Suc e) v =
     (if snd (reg_value v) > 0 then [reg_value v] else []) @ reg_values e (drop 16 v)"

lemma mem_bytes_drop: "j \<le> n \<Longrightarrow> mem_bytes m (a + of_nat j) (n - j) = drop j (mem_bytes m a n)"
  by (rule nth_equalityI) (auto simp: mem_bytes_def add.assoc nth_upt simp flip: of_nat_add)

lemma reg_entry_value:
  assumes "16 \<le> length v" and "mem_bytes m p (length v) = v"
  shows "reg_entry m p = reg_value v"
proof -
  have "mem_bytes m p 8 = take 8 v"
    using mem_bytes_take [of 8 "length v" m p] assms by simp
  moreover have "mem_bytes m (p + 8) 8 = take 8 (drop 8 v)"
    using mem_bytes_take [of 8 "length v - 8" m "p + 8"] mem_bytes_drop [of 8 "length v" m p] assms by simp
  moreover have "p + 8 + 4 = p + 12" by simp
  ultimately show ?thesis
    using be_load64 [of m p] be_load64 [of m "p + 8", unfolded \<open>p + 8 + 4 = p + 12\<close>]
    by (simp only: reg_entry_def reg_value_def)
qed

lemma reg_entries_values:
  assumes "16 * e \<le> length v" and "mem_bytes m p (length v) = v"
  shows "reg_entries m p e = reg_values e v"
  using assms
proof (induction e arbitrary: p v)
  case (Suc e)
  have "mem_bytes m (p + 16) (length (drop 16 v)) = drop 16 v"
    using mem_bytes_drop [of 16 "length v" m p] Suc.prems by simp
  with Suc.IH [of "drop 16 v" "p + 16"] Suc.prems reg_entry_value [of v m p] show ?case
    by simp
qed simp

fun memory_event :: "fdt_event \<Rightarrow> int \<times> bool \<Rightarrow> (u64 \<times> u64) + int \<times> bool" where
  "memory_event (Begin nm) (d, inside) = Inr (d + 1, d + 1 = 1 \<and> base_name nm = ascii ''memory'')"
| "memory_event End_Node (d, inside) = Inr (d - 1, False)"
| "memory_event (Prop k v) (d, inside) =
     (if inside \<and> k = ascii ''reg'' \<and> 16 \<le> length v then Inl (reg_value v) else Inr (d, inside))"
| "memory_event Nop (d, inside) = Inr (d, inside)"

fun reserved_event :: "fdt_event \<Rightarrow> nat \<times> int \<times> (u64 \<times> u64) list \<Rightarrow>
    unit + nat \<times> int \<times> (u64 \<times> u64) list" where
  "reserved_event (Begin nm) (ph, d, calls) =
     Inr (if ph = 0 \<and> d + 1 = 1 \<and> base_name nm = ascii ''reserved-memory'' then 1 else ph, d + 1, calls)"
| "reserved_event End_Node (ph, d, calls) = Inr (if ph = 1 \<and> d = 1 then 2 else ph, d - 1, calls)"
| "reserved_event (Prop k v) (ph, d, calls) =
     Inr (ph, d, calls @ (if ph = 1 \<and> d = 2 \<and> k = ascii ''reg'' then reg_values (length v div 16) v else []))"
| "reserved_event Nop (ph, d, calls) = Inr (ph, d, calls)"

interpretation memory_scan: token_scan m strs "\<lambda>_. True" "memory_step m strs" memory_event "(=)"
  for m strs
proof
  note defs = memory_step_def Let_def token_at_def fdt_token_defs
  fix s :: "int \<times> bool" and cur e v
  obtain d inside where s: "s = (d, inside)" by fastforce
  assume at: "event_at m strs cur e" and f: "memory_event e s = Inl v"
  from f s obtain w where e: "e = Prop (ascii ''reg'') w" "16 \<le> length w" "v = reg_value w" inside
    by (cases e) (auto split: if_splits)
  with at have c: "cstr m (name_addr m strs cur) (ascii ''reg'')" "token_at m cur = FDT_PROP"
    "unat (value_len m cur) = length w" "mem_bytes m (cur + 12) (length w) = w"
    by simp_all
  from c(3) e(2) have "value_len m cur \<ge> 16" by (simp add: word_le_nat_alt)
  with c(2) prop_name_eq_decides [OF c(1) lit_names(2)] reg_entry_value [OF e(2) c(4)] s e(3,4)
  show "\<exists>r. memory_step m strs cur s = Some (Return r) \<and> r = v"
    by (simp add: defs name_addr_def value_len_def add.assoc)
next
  note defs = memory_step_def Let_def token_at_def fdt_token_defs
  fix s s' :: "int \<times> bool" and cur e
  obtain d inside where s: "s = (d, inside)" by fastforce
  assume at: "event_at m strs cur e" and f: "memory_event e s = Inr s'"
  show "memory_step m strs cur s = Some (Go_on (event_end cur e) s')"
  proof (cases e)
    case (Begin nm)
    with at have c: "cstr m (cur + 4) nm" "token_at m cur = FDT_BEGIN_NODE" by simp_all
    then show ?thesis
      using f s Begin skip_name_end [OF c(1)] node_name_match_decides [OF c(1) lit_names(1)]
      by (auto simp: defs)
  next
    case (Prop k v)
    with at have c: "cstr m (name_addr m strs cur) k" "token_at m cur = FDT_PROP"
      "unat (value_len m cur) = length v" by simp_all
    have "value_len m cur \<ge> 16 \<longleftrightarrow> 16 \<le> length v"
      using c(3) by (simp add: word_le_nat_alt)
    with ucast_unat_up [OF c(3)] f s Prop c(2) prop_name_eq_decides [OF c(1) lit_names(2)] show ?thesis
      by (auto simp: defs name_addr_def value_len_def add.assoc split: if_splits)
  qed (use at f s in \<open>simp_all add: defs\<close>)
next
  fix s :: "int \<times> bool" and cur
  assume "token_at m cur = FDT_END"
  then show "memory_step m strs cur s = Some (Leave s)"
    by (cases s) (simp add: memory_step_def Let_def token_at_def fdt_token_defs)
qed

interpretation reserved_scan: token_scan m strs "\<lambda>(phase, _). phase < 2" "reserved_step m strs" reserved_event "(=)"
  for m strs
proof
  fix s cur e v
  assume "reserved_event e s = Inl v"
  then show "\<exists>r. reserved_step m strs cur s = Some (Return r) \<and> r = v"
    by (cases s; cases e) auto
next
  note defs = reserved_step_def Let_def token_at_def fdt_token_defs
  fix s s' cur e
  obtain ph d calls where s: "s = (ph :: nat, d :: int, calls :: (u64 \<times> u64) list)" by (metis surj_pair)
  assume at: "event_at m strs cur e" and f: "reserved_event e s = Inr s'"
  show "reserved_step m strs cur s = Some (Go_on (event_end cur e) s')"
  proof (cases e)
    case (Begin nm)
    with at have c: "cstr m (cur + 4) nm" "token_at m cur = FDT_BEGIN_NODE" by simp_all
    then show ?thesis
      using f s Begin skip_name_end [OF c(1)] node_name_match_decides [OF c(1) lit_names(3)]
      by (auto simp: defs)
  next
    case (Prop k v)
    with at have c: "cstr m (name_addr m strs cur) k" "token_at m cur = FDT_PROP"
      "unat (value_len m cur) = length v" "mem_bytes m (cur + 12) (length v) = v" by simp_all
    have "unat (value_len m cur div 16) = length v div 16"
      using c(3) by (simp add: unat_div)
    with reg_entries_values [OF _ c(4), of "length v div 16"] ucast_unat_up [OF c(3)] f s Prop c(2)
      prop_name_eq_decides [OF c(1) lit_names(2)] show ?thesis
      by (auto simp: defs name_addr_def value_len_def add.assoc split: if_splits)
  qed (use at f s in \<open>simp_all add: defs\<close>)
next
  fix s :: "nat \<times> int \<times> (u64 \<times> u64) list" and cur
  assume "token_at m cur = FDT_END"
  then show "reserved_step m strs cur s = Some (Leave s)"
    by (cases s) (simp add: reserved_step_def Let_def token_at_def fdt_token_defs)
qed

section \<open>The memory region of a tree\<close>

abbreviation memory_run :: "fdt_event list \<Rightarrow> int \<times> bool \<Rightarrow> (u64 \<times> u64) + int \<times> bool" where
  "memory_run \<equiv> run (\<lambda>_. True) memory_event"

text \<open>The first \<^verbatim>\<open>reg\<close> with at least one entry among the properties of a node.\<close>

fun reg_of :: "(u8 list \<times> u8 list) list \<Rightarrow> (u64 \<times> u64) option" where
  "reg_of [] = None"
| "reg_of ((k, v) # ps) =
     (if k = ascii ''reg'' \<and> 16 \<le> length v then Some (reg_value v) else reg_of ps)"

definition memory_of :: "dt_node \<Rightarrow> (u64 \<times> u64) option" where
  "memory_of t = first_some (map (\<lambda>c. reg_of (node_props c))
     (filter (\<lambda>c. base_name (node_name c) = ascii ''memory'') (node_children t)))"

lemma memory_run_props:
  "memory_run (prop_events ps) (d, inside) = (if inside then found (d, True) (reg_of ps) else Inr (d, False))"
  by (induction ps) auto

lemma memory_run_deep: "1 \<le> d \<Longrightarrow> memory_run (flatten t) (d, inside) = Inr (d, False)"
proof (induction t arbitrary: d inside)
  case (Node nm ps cs)
  have "memory_run (concat (map flatten cs)) (d + 1, False) = found (d + 1, False) (first_some (map (\<lambda>_. None) cs))"
    by (rule run_children) (use Node in simp)
  moreover have "first_some (map (\<lambda>_. None :: (u64 \<times> u64) option) cs) = None"
    by (induction cs) auto
  ultimately show ?case
    using Node.prems by (simp add: run_append memory_run_props)
qed

lemma memory_run_deep_children:
  "1 \<le> d \<Longrightarrow> \<exists>inside'. memory_run (concat (map flatten cs)) (d, inside) = Inr (d, inside')"
  by (induction cs arbitrary: inside) (auto simp: run_append memory_run_deep)

lemma memory_run_child:
  "memory_run (flatten c) (0, inside) = found (0, False)
     (if base_name (node_name c) = ascii ''memory'' then reg_of (node_props c) else None)"
proof (cases c)
  case (Node nm ps cs)
  from memory_run_deep_children [of 1 cs] obtain g where
    g: "\<And>inside. memory_run (concat (map flatten cs)) (1, inside) = Inr (1, g inside)" by moura
  show ?thesis
    unfolding Node by (auto simp: run_append memory_run_props g split: option.splits)
qed

lemma memory_run_tree: "memory_run (flatten t) (-1, False) = found (-1, False) (memory_of t)"
proof (cases t)
  case (Node nm ps cs)
  have "memory_run (concat (map flatten cs)) (0, False) = found (0, False) (first_some (map (\<lambda>c.
      if base_name (node_name c) = ascii ''memory'' then reg_of (node_props c) else None) cs))"
    by (rule run_children) (rule memory_run_child)
  moreover have "first_some (map (\<lambda>c.
      if base_name (node_name c) = ascii ''memory'' then reg_of (node_props c) else None) cs) = memory_of t"
    unfolding Node memory_of_def
    by (induction cs) (auto simp: first_some_append [of "[_]", simplified] split: option.splits)
  ultimately show ?thesis
    unfolding Node by (auto simp: run_append memory_run_props split: option.splits)
qed

lemma get_memory_region_tree:
  assumes "fdt_blob m a t"
  shows "dtb_get_memory_region m a = Some (memory_of t,
    if memory_of t = None then ascii ''[DTB] Cannot find memory region in DTB'' @ [10] else [])"
proof -
  let ?h = "load_header m a"
  let ?start = "a + ucast (bswap_32 (h_off_dt_struct ?h))"
  from assms obtain es where es: "events_at m (a + ucast (bswap_32 (h_off_dt_strings ?h)))
      (?start + ucast (bswap_32 (h_size_dt_struct ?h))) ?start es" "filter (\<lambda>e. e \<noteq> Nop) es = flatten t"
    and hd: "a \<noteq> NULL" "bswap_32 (h_magic ?h) = FDT_HEADER_MAGIC"
    by (auto simp: fdt_blob_def Let_def)
  have "memory_run es (-1, False) = memory_run (flatten t) (-1, False)"
    unfolding es(2) [symmetric] by (rule run_drop_nops) auto
  with memory_scan.loop_runs [OF es(1), of "(-1, False)"] hd show ?thesis
    by (auto simp: memory_run_tree dtb_get_memory_region_def Let_def split: option.splits)
qed

section \<open>The reserved regions of a tree\<close>

abbreviation reserved_run :: "fdt_event list \<Rightarrow> nat \<times> int \<times> (u64 \<times> u64) list \<Rightarrow>
    unit + nat \<times> int \<times> (u64 \<times> u64) list" where
  "reserved_run \<equiv> run (\<lambda>(phase, _). phase < 2) reserved_event"

definition regs_of :: "(u8 list \<times> u8 list) list \<Rightarrow> (u64 \<times> u64) list" where
  "regs_of ps = concat (map (\<lambda>(k, v). if k = ascii ''reg'' then reg_values (length v div 16) v else []) ps)"

text \<open>The entries of every \<^verbatim>\<open>reg\<close> of the direct children of the first node \<^verbatim>\<open>/reserved-memory\<close>.\<close>

definition reserved_of :: "dt_node \<Rightarrow> (u64 \<times> u64) list" where
  "reserved_of t =
     (case filter (\<lambda>c. base_name (node_name c) = ascii ''reserved-memory'') (node_children t) of
        [] \<Rightarrow> [] | r # _ \<Rightarrow> concat (map (\<lambda>c. regs_of (node_props c)) (node_children r)))"

lemma reserved_run_props:
  "ph < 2 \<Longrightarrow> reserved_run (prop_events ps) (ph, d, calls) =
     Inr (ph, d, calls @ (if ph = 1 \<and> d = 2 then regs_of ps else []))"
  by (induction ps arbitrary: calls) (auto simp: regs_of_def)

lemma reserved_run_quiet_children:
  assumes "\<And>c calls. c \<in> set cs \<Longrightarrow> reserved_run (flatten c) (ph, d, calls) = Inr (ph, d, calls @ g c)"
  shows "reserved_run (concat (map flatten cs)) (ph, d, calls) = Inr (ph, d, calls @ concat (map g cs))"
  using assms by (induction cs arbitrary: calls) (simp_all add: run_append)

text \<open>Below a node that is not \<^verbatim>\<open>/reserved-memory\<close>, and below its children, nothing is recorded.\<close>

lemma reserved_run_deep:
  assumes "ph < 2" and "1 \<le> d" and "ph = 1 \<longrightarrow> 2 \<le> d"
  shows "reserved_run (flatten t) (ph, d, calls) = Inr (ph, d, calls)"
  using assms
proof (induction t arbitrary: d calls)
  case (Node nm ps cs)
  have "reserved_run (concat (map flatten cs)) (ph, d + 1, calls) = Inr (ph, d + 1, calls @ concat (map (\<lambda>_. []) cs))" for calls
    by (rule reserved_run_quiet_children) (use Node in simp)
  moreover have "concat (map (\<lambda>_. [] :: (u64 \<times> u64) list) cs) = []"
    by (induction cs) auto
  ultimately show ?case
    using Node.prems by (auto simp: run_append reserved_run_props)
qed

lemma reserved_run_grandchild:
  "reserved_run (flatten c) (1, 1, calls) = Inr (1, 1, calls @ regs_of (node_props c))"
proof (cases c)
  case (Node nm ps cs)
  have "reserved_run (concat (map flatten cs)) (1, 2, calls) = Inr (1, 2, calls @ concat (map (\<lambda>_. []) cs))" for calls
    by (rule reserved_run_quiet_children) (simp add: reserved_run_deep)
  moreover have "concat (map (\<lambda>_. [] :: (u64 \<times> u64) list) cs) = []"
    by (induction cs) auto
  ultimately show ?thesis
    unfolding Node by (simp add: run_append reserved_run_props)
qed

lemma reserved_run_child:
  "reserved_run (flatten c) (0, 0, calls) =
     (if base_name (node_name c) = ascii ''reserved-memory''
      then Inr (2, 0, calls @ concat (map (\<lambda>g. regs_of (node_props g)) (node_children c)))
      else Inr (0, 0, calls))"
proof (cases c)
  case (Node nm ps cs)
  have in_node: "reserved_run (concat (map flatten cs)) (1, 1, calls) =
      Inr (1, 1, calls @ concat (map (\<lambda>g. regs_of (node_props g)) cs))" for calls
    by (rule reserved_run_quiet_children) (rule reserved_run_grandchild)
  have "reserved_run (concat (map flatten cs)) (0, 1, calls) = Inr (0, 1, calls @ concat (map (\<lambda>_. []) cs))" for calls
    by (rule reserved_run_quiet_children) (simp add: reserved_run_deep)
  moreover have "concat (map (\<lambda>_. [] :: (u64 \<times> u64) list) cs) = []"
    by (induction cs) auto
  ultimately show ?thesis
    unfolding Node by (simp add: run_append reserved_run_props in_node del: One_nat_def)
qed

lemma reserved_run_done: "reserved_run es (2, d, calls) = Inr (2, d, calls)"
  by (cases es) simp_all

lemma reserved_run_tree: "\<exists>ph d. reserved_run (flatten t) (0, -1, []) = Inr (ph, d, reserved_of t)"
proof (cases t)
  case (Node nm ps cs)
  have "\<exists>ph. reserved_run (concat (map flatten cs)) (0, 0, []) = Inr (ph, 0, reserved_of t) \<and> (ph = 0 \<or> ph = 2)"
    unfolding Node reserved_of_def
    by (induction cs) (auto simp: run_append reserved_run_child reserved_run_done)
  then show ?thesis
    unfolding Node by (auto simp: run_append reserved_run_props)
qed

lemma walk_reserved_tree:
  assumes "fdt_blob m a t"
  shows "dtb_walk_reserved_memory m a = Some (reserved_of t)"
proof -
  let ?h = "load_header m a"
  let ?start = "a + ucast (bswap_32 (h_off_dt_struct ?h))"
  from assms obtain es where es: "events_at m (a + ucast (bswap_32 (h_off_dt_strings ?h)))
      (?start + ucast (bswap_32 (h_size_dt_struct ?h))) ?start es" "filter (\<lambda>e. e \<noteq> Nop) es = flatten t"
    and hd: "a \<noteq> NULL" "bswap_32 (h_magic ?h) = FDT_HEADER_MAGIC"
    by (auto simp: fdt_blob_def Let_def)
  have "reserved_run es (0, -1, []) = reserved_run (flatten t) (0, -1, [])"
    unfolding es(2) [symmetric] by (rule run_drop_nops) auto
  with reserved_run_tree [of t] obtain ph d where "reserved_run es (0, -1, []) = Inr (ph, d, reserved_of t)"
    by auto
  with reserved_scan.loop_runs [OF es(1), of "(0, -1, [])"] hd show ?thesis
    by (auto simp: dtb_walk_reserved_memory_def Let_def)
qed

end
