(* ===== verification/Dtb_Encode.thy ===== *)
theory Dtb_Encode
  imports Dtb_Regions
begin

text \<open>
  An encoder of device trees in the flattened format, after chapter 5 of the devicetree
  specification that \<^verbatim>\<open>kernel/src/dtb.c\<close> refers to, and the proof that the blob it produces stands
  for the tree. It is a specification device: the kernel only reads such blobs.
\<close>

section \<open>Encoder\<close>

definition be32 :: "nat \<Rightarrow> u8 list" where
  "be32 n = rev (le_bytes 4 (of_nat n :: u32))"

definition pad4 :: "u8 list \<Rightarrow> u8 list" where
  "pad4 bs = bs @ replicate ((4 - length bs mod 4) mod 4) 0"

fun encode_events :: "nat \<Rightarrow> fdt_event list \<Rightarrow> u8 list" where
  "encode_events off [] = be32 9"
| "encode_events off (Begin nm # es) = be32 1 @ pad4 (nm @ [0]) @ encode_events off es"
| "encode_events off (End_Node # es) = be32 2 @ encode_events off es"
| "encode_events off (Prop k v # es) =
     be32 3 @ be32 (length v) @ be32 off @ pad4 v @ encode_events (off + length k + 1) es"
| "encode_events off (Nop # es) = be32 4 @ encode_events off es"

fun event_strings :: "fdt_event list \<Rightarrow> u8 list" where
  "event_strings [] = []"
| "event_strings (Prop k v # es) = k @ 0 # event_strings es"
| "event_strings (_ # es) = event_strings es"

text \<open>Header, an empty reservation block of 16 bytes, the structure block and the strings.\<close>

definition encode_tree :: "dt_node \<Rightarrow> u8 list" where
  "encode_tree t =
     (let st = encode_events 0 (flatten t); ss = event_strings (flatten t) in
      be32 0xD00DFEED @ be32 (56 + length st + length ss) @ be32 56 @ be32 (56 + length st) @
      be32 40 @ be32 17 @ be32 16 @ be32 0 @ be32 (length ss) @ be32 (length st) @
      replicate 16 0 @ st @ ss)"

section \<open>Bytes in memory\<close>

definition bytes_at :: "mem \<Rightarrow> u64 \<Rightarrow> u8 list \<Rightarrow> bool" where
  "bytes_at m a bs \<longleftrightarrow> mem_bytes m a (length bs) = bs"

lemma bytes_at_nth: "bytes_at m a bs \<longleftrightarrow> (\<forall>i<length bs. m (a + of_nat i) = bs ! i)"
  unfolding bytes_at_def mem_bytes_def list_eq_iff_nth_eq [of _ bs] by simp

lemma all_less_add: "(\<forall>i<k + n. P i) \<longleftrightarrow> (\<forall>i<k. P i) \<and> (\<forall>i<n. P (k + i))" for k n :: nat
proof -
  have "P i" if "\<forall>i<k. P i" "\<forall>i<n. P (k + i)" "i < k + n" for i
    using that(1) that(2) [rule_format, of "i - k"] that(3) by (cases "i < k") auto
  then show ?thesis by auto
qed

lemma bytes_at_append:
  "bytes_at m a (xs @ ys) \<longleftrightarrow> bytes_at m a xs \<and> bytes_at m (a + of_nat (length xs)) ys"
proof -
  from all_less_add [of "length xs" "length ys" "\<lambda>i. m (a + of_nat i) = (xs @ ys) ! i"] show ?thesis
    by (simp add: bytes_at_nth nth_append add.assoc)
qed

lemma bytes_at_cstr: "0 \<notin> set s \<Longrightarrow> bytes_at m a (s @ 0 # bs) \<Longrightarrow> cstr m a s"
  unfolding bytes_at_append cstr_def
  by (auto simp: bytes_at_nth nth_Cons' in_set_conv_nth dest: spec [of _ 0])

lemma length_be32 [simp]: "length (be32 n) = 4"
  by (simp add: be32_def le_bytes_def)

lemma be_word_be32: "(be_word (be32 n) :: u32) = of_nat n"
proof (rule bit_word_eqI)
  fix i
  assume "i < LENGTH(32)"
  then have "i div 8 < 4" and i: "i < 32" by simp_all
  then have "[0..<4] ! (i div 8) = i div 8"
    by (simp add: nth_upt)
  moreover have "8 * (i div 8) + i mod 8 = i" by simp
  ultimately show "bit (be_word (be32 n) :: u32) i = bit (of_nat n :: u32) i"
    using i \<open>i div 8 < 4\<close> by (simp add: bit_be_word be32_def le_bytes_def bit_simps)
qed

lemma token_be32: "bytes_at m a (be32 n) \<Longrightarrow> bswap_32 (load32 m a) = of_nat n"
  by (simp add: be_word_load32 bytes_at_def be_word_be32)

section \<open>Alignment\<close>

lemma length_pad4: "length (pad4 bs) = (length bs + 3) div 4 * 4"
proof -
  have "l + (4 - l mod 4) mod 4 = (l + 3) div 4 * 4" for l :: nat
  proof -
    obtain q r where l: "l = 4 * q + r" and "r < 4"
      using mult_div_mod_eq [of 4 l] mod_less_divisor [of 4 l] by (metis zero_less_numeral)
    then consider "r = 0" | "r = 1" | "r = 2" | "r = 3" by linarith
    moreover have "(4 * q + r) mod 4 = r"
      using \<open>r < 4\<close> by (simp add: mod_less)
    ultimately show ?thesis unfolding l by cases simp_all
  qed
  then show ?thesis by (simp add: pad4_def)
qed

lemma pad4_dvd: "4 dvd length (pad4 bs)"
  by (simp add: length_pad4)

lemma align_32_up:
  assumes "4 dvd unat a" and "unat a + length bs + 3 < 2 ^ 64"
  shows "align_32 (a + of_nat (length bs)) = a + of_nat (length (pad4 bs))"
proof -
  let ?l = "length bs"
  have "(3 :: u64) = mask 2" by (simp add: mask_eq_exp_minus_1)
  then have "unat (align_32 (a + of_nat ?l)) = unat (a + of_nat ?l + 3) div 4 * 4"
    unfolding align_32_def using unat_and_not_mask [of "a + of_nat ?l + 3" 2] by simp
  also have "unat (a + of_nat ?l + 3) = unat a + ?l + 3"
  proof -
    have eq: "a + of_nat ?l + 3 = a + of_nat (?l + 3)" by (simp add: add.assoc)
    have "unat (of_nat (?l + 3) :: u64) = ?l + 3"
      using assms(2) by (simp only: unat_of_nat) simp
    then show ?thesis
      using assms(2) unat_add_lem [of a "of_nat (?l + 3)"] unfolding eq by simp
  qed
  finally have "unat (align_32 (a + of_nat ?l)) = (unat a + ?l + 3) div 4 * 4" .
  also have "\<dots> = unat a + length (pad4 bs)"
  proof -
    obtain q where q: "unat a = 4 * q" using assms(1) ..
    have "(4 * q + ?l + 3) div 4 * 4 = 4 * q + (?l + 3) div 4 * 4"
      by (simp add: add.assoc)
    then show ?thesis
      using q by (simp add: length_pad4)
  qed
  finally have u: "unat (align_32 (a + of_nat ?l)) = unat a + length (pad4 bs)" .
  then have "unat a + length (pad4 bs) < 2 ^ 64"
    using unat_lt64 [of "align_32 (a + of_nat ?l)"] by simp
  moreover from this have "unat (of_nat (length (pad4 bs)) :: u64) = length (pad4 bs)"
    by (simp only: unat_of_nat) simp
  ultimately have "unat (a + of_nat (length (pad4 bs))) = unat a + length (pad4 bs)"
    using unat_add_lem [of a "of_nat (length (pad4 bs))"] by simp
  with u show ?thesis by (simp add: word_unat_eq_iff)
qed

section \<open>The blob stands for the tree\<close>

fun clean_event :: "fdt_event \<Rightarrow> bool" where
  "clean_event (Begin nm) \<longleftrightarrow> 0 \<notin> set nm"
| "clean_event (Prop k v) \<longleftrightarrow> 0 \<notin> set k"
| "clean_event _ \<longleftrightarrow> True"

lemma unat_of_nat32: "n < 2 ^ 32 \<Longrightarrow> unat (of_nat n :: u32) = n"
  by (simp add: unat_of_nat)

lemma token_code: "bytes_at m cur (be32 n @ bs) \<Longrightarrow> token_at m cur = of_nat n"
  by (simp add: bytes_at_append token_at_def token_be32)

lemma after_token:
  assumes "bytes_at m cur (be32 n @ bs)" and "unat cur + 4 < 2 ^ 64"
  shows "bytes_at m (cur + 4) bs" and "unat (cur + 4) = unat cur + 4"
  using assms unat_add_small [of cur 4] by (simp_all add: bytes_at_append)

lemma after_padded:
  assumes "bytes_at m a (pad4 bs @ rest)" and "4 dvd unat a" and "unat a + length (pad4 bs @ rest) + 3 < 2 ^ 64"
  shows "bytes_at m a bs" and "bytes_at m (align_32 (a + of_nat (length bs))) rest"
    and "unat (align_32 (a + of_nat (length bs))) = unat a + length (pad4 bs)"
proof -
  have "length bs \<le> length (pad4 bs)" by (simp add: pad4_def)
  with assms(3) have "unat a + length bs + 3 < 2 ^ 64" by simp
  note al = align_32_up [OF assms(2) this]
  show "bytes_at m a bs" using assms(1) by (simp add: bytes_at_append pad4_def)
  show "bytes_at m (align_32 (a + of_nat (length bs))) rest"
    unfolding al using assms(1) by (simp add: bytes_at_append)
  show "unat (align_32 (a + of_nat (length bs))) = unat a + length (pad4 bs)"
    unfolding al using assms(3) by (intro unat_add_small) simp
qed

lemma encode_events_at:
  assumes "bytes_at m cur (encode_events off es)" and "bytes_at m (strs + of_nat off) (event_strings es)"
    and "4 dvd unat cur" and "unat cur + length (encode_events off es) \<le> unat fin"
    and "unat fin + 3 < 2 ^ 64" and "length (encode_events off es) < 2 ^ 32"
    and "off + length (event_strings es) < 2 ^ 32" and "\<forall>e\<in>set es. clean_event e"
  shows "events_at m strs fin cur es"
  using assms
proof (induction off es arbitrary: cur rule: encode_events.induct)
  case (1 off)
  then show ?case
    by (simp add: bytes_at_append token_at_def token_be32 FDT_END_def)
next
  case (2 off nm es)
  let ?rest = "encode_events off es"
  have b: "bytes_at m cur (be32 1 @ pad4 (nm @ [0]) @ ?rest)" and lt: "unat cur + 4 < 2 ^ 64"
    using "2.prems" by simp_all
  note t = after_token [OF b lt]
  have "4 dvd unat (cur + 4)" "unat (cur + 4) + length (pad4 (nm @ [0]) @ ?rest) + 3 < 2 ^ 64"
    using "2.prems" unfolding t(2) by simp_all
  note p = after_padded [OF t(1) this]
  have e: "event_end cur (Begin nm) = align_32 (cur + 4 + of_nat (length (nm @ [0])))"
    by (simp add: add.assoc)
  have "cstr m (cur + 4) nm"
    by (rule bytes_at_cstr [of _ _ _ "[]"]) (use p(1) "2.prems" in simp_all)
  moreover have "events_at m strs fin (event_end cur (Begin nm)) es"
    unfolding e by (rule "2.IH") (use "2.prems" p t(2) pad4_dvd [of "nm @ [0]"] in \<open>simp_all\<close>)
  moreover have "cur < fin"
    using "2.prems" by (simp add: word_less_nat_alt)
  ultimately show ?case
    using token_code [OF b] by (simp add: FDT_BEGIN_NODE_def)
next
  case (3 off es)
  have b: "bytes_at m cur (be32 2 @ encode_events off es)" and lt: "unat cur + 4 < 2 ^ 64"
    using "3.prems" by simp_all
  note t = after_token [OF b lt]
  have "events_at m strs fin (cur + 4) es"
    by (rule "3.IH") (use "3.prems" t in simp_all)
  moreover have "cur < fin"
    using "3.prems" by (simp add: word_less_nat_alt)
  ultimately show ?case
    using token_code [OF b] by (simp add: FDT_END_NODE_def)
next
  case (4 off k v es)
  let ?rest = "encode_events (off + length k + 1) es"
  have b: "bytes_at m cur (be32 3 @ be32 (length v) @ be32 off @ pad4 v @ ?rest)"
    using "4.prems" by simp
  have lt: "unat cur + 12 < 2 ^ 64" using "4.prems" by simp
  have t: "bytes_at m (cur + 4) (be32 (length v) @ be32 off @ pad4 v @ ?rest)" "unat (cur + 4) = unat cur + 4"
    using after_token [OF b] lt by simp_all
  have t2: "bytes_at m (cur + 8) (be32 off @ pad4 v @ ?rest)" "unat (cur + 8) = unat cur + 8"
    using after_token [OF t(1)] t(2) lt by (simp_all add: add.assoc)
  have t3: "bytes_at m (cur + 12) (pad4 v @ ?rest)" "unat (cur + 12) = unat cur + 12"
    using after_token [OF t2(1)] t2(2) lt by (simp_all add: add.assoc)
  have "4 dvd unat (cur + 12)" "unat (cur + 12) + length (pad4 v @ ?rest) + 3 < 2 ^ 64"
    using "4.prems" unfolding t3(2) by (simp_all add: dvd_add)
  note p = after_padded [OF t3(1) this]
  have lv: "length v \<le> length (pad4 v)" by (simp add: pad4_def)
  have "length v < 2 ^ 32" using "4.prems" lv by simp
  then have len: "unat (value_len m cur) = length v"
    using token_code [OF t(1)] by (simp add: token_at_def value_len_def load_prop_def unat_of_nat32)
  have "name_addr m strs cur = strs + of_nat off"
  proof -
    have "off < 2 ^ 32" using "4.prems" by simp
    moreover have "bswap_32 (load32 m (cur + 8)) = of_nat off"
      using token_code [OF t2(1)] by (simp add: token_at_def)
    ultimately show ?thesis
      using ucast_unat_up [of "of_nat off" off]
      by (simp add: name_addr_def load_prop_def unat_of_nat32 add.assoc)
  qed
  moreover have "cstr m (strs + of_nat off) k"
    by (rule bytes_at_cstr) (use "4.prems" in simp_all)
  moreover have "bytes_at m (strs + of_nat off + of_nat (length k + 1)) (event_strings es)"
    using "4.prems"(2) bytes_at_append [of m "strs + of_nat off" "k @ [0]" "event_strings es"] by simp
  then have "events_at m strs fin (event_end cur (Prop k v)) es"
    unfolding event_end.simps
    by (intro "4.IH") (use "4.prems" p t3(2) pad4_dvd [of v] in \<open>simp_all add: algebra_simps\<close>)
  moreover have "cur < fin"
    using "4.prems" by (simp add: word_less_nat_alt)
  moreover have "unat cur + 12 + length v < 2 ^ 64"
    using "4.prems" lv by simp
  ultimately show ?case
    using token_code [OF b] len p(1) by (simp add: FDT_PROP_def bytes_at_def)
next
  case (5 off es)
  have b: "bytes_at m cur (be32 4 @ encode_events off es)" and lt: "unat cur + 4 < 2 ^ 64"
    using "5.prems" by simp_all
  note t = after_token [OF b lt]
  have "events_at m strs fin (cur + 4) es"
    by (rule "5.IH") (use "5.prems" t in simp_all)
  moreover have "cur < fin"
    using "5.prems" by (simp add: word_less_nat_alt)
  ultimately show ?case
    using token_code [OF b] by (simp add: FDT_NOP_def)
qed

end
