(* ===== verification/Dtb_Facts.thy ===== *)
theory Dtb_Facts
  imports Dtb_Encode
begin

text \<open>
  The properties of the device tree parser: what \<^verbatim>\<open>dtb_getprop\<close> returns on the tree a blob stands
  for, where that differs from the property the path denotes, and the round trip from a tree through
  its encoding back to the values the boot code reads.
\<close>

definition clean_tree :: "dt_node \<Rightarrow> bool" where
  "clean_tree t \<longleftrightarrow> (\<forall>e\<in>set (flatten t). clean_event e)"

text \<open>The encoding of the tree lies at an aligned address and inside the 64-bit address space.\<close>

definition blob_at :: "mem \<Rightarrow> u64 \<Rightarrow> dt_node \<Rightarrow> bool" where
  "blob_at m a t \<longleftrightarrow> bytes_at m a (encode_tree t) \<and> clean_tree t \<and> a \<noteq> NULL \<and> 4 dvd unat a \<and>
     unat a + length (encode_tree t) + 3 < 2 ^ 64 \<and> length (encode_tree t) < 2 ^ 32"

lemma flatten_no_nop: "Nop \<notin> set (flatten t)"
  by (induction t) auto

lemma bytes_at_word:
  "bytes_at m a (be32 n @ bs) \<longleftrightarrow> bytes_at m a (be32 n) \<and> bytes_at m (a + 4) bs"
  by (simp add: bytes_at_append)

lemma blob_header:
  assumes "blob_at m a t"
  defines "st \<equiv> encode_events 0 (flatten t)" and "ss \<equiv> event_strings (flatten t)"
  shows "bswap_32 (h_magic (load_header m a)) = FDT_HEADER_MAGIC"
    and "bswap_32 (h_totalsize (load_header m a)) = of_nat (length (encode_tree t))"
    and "bswap_32 (h_off_dt_struct (load_header m a)) = 56"
    and "bswap_32 (h_off_dt_strings (load_header m a)) = of_nat (56 + length st)"
    and "bswap_32 (h_size_dt_struct (load_header m a)) = of_nat (length st)"
    and "bytes_at m (a + 56) (st @ ss)"
proof -
  have b: "bytes_at m a (be32 0xD00DFEED @ be32 (56 + length st + length ss) @ be32 56 @ be32 (56 + length st) @
      be32 40 @ be32 17 @ be32 16 @ be32 0 @ be32 (length ss) @ be32 (length st) @ replicate 16 0 @ st @ ss)"
    using assms by (simp add: blob_at_def encode_tree_def Let_def)
  have len: "length (encode_tree t) = 56 + length st + length ss"
    by (simp add: encode_tree_def Let_def st_def ss_def)
  note b' = b [unfolded bytes_at_word add.assoc, simplified]
  show "bswap_32 (h_magic (load_header m a)) = FDT_HEADER_MAGIC"
    using b' token_be32 [of m a 3490578157] by (simp add: load_header_def FDT_HEADER_MAGIC_def)
  show "bswap_32 (h_totalsize (load_header m a)) = of_nat (length (encode_tree t))"
    using b' token_be32 [of m "a + 4" "56 + (length st + length ss)"] by (simp add: load_header_def len)
  show "bswap_32 (h_off_dt_struct (load_header m a)) = 56"
    using b' token_be32 [of m "a + 8" 56] by (simp add: load_header_def)
  show "bswap_32 (h_off_dt_strings (load_header m a)) = of_nat (56 + length st)"
    using b' token_be32 [of m "a + 12" "56 + length st"] by (simp add: load_header_def)
  show "bswap_32 (h_size_dt_struct (load_header m a)) = of_nat (length st)"
    using b' token_be32 [of m "a + 36" "length st"] by (simp add: load_header_def)
  show "bytes_at m (a + 56) (st @ ss)"
    using b' bytes_at_append [of m "a + 40" "replicate 16 0" "st @ ss"] by (simp add: add.assoc)
qed

lemma blob_at_fdt:
  assumes "blob_at m a t"
  shows "fdt_blob m a t"
proof -
  let ?h = "load_header m a" and ?es = "flatten t"
  define st where "st = encode_events 0 ?es"
  define ss where "ss = event_strings ?es"
  note hd = blob_header [OF assms, folded st_def ss_def]
  from assms have a: "a \<noteq> NULL" "4 dvd unat a" "unat a + (56 + length st + length ss) + 3 < 2 ^ 64"
    "56 + length st + length ss < 2 ^ 32" and clean: "\<forall>e\<in>set ?es. clean_event e"
    by (simp_all add: blob_at_def clean_tree_def encode_tree_def Let_def st_def ss_def)
  have u: "unat (of_nat (length st) :: u32) = length st" "unat (of_nat (56 + length st) :: u32) = 56 + length st"
    using a(4) by (simp_all only: unat_of_nat32)
  have strs: "a + ucast (bswap_32 (h_off_dt_strings ?h)) = a + 56 + of_nat (length st)"
    unfolding hd(4) ucast_unat_up [OF u(2)] by simp
  have fin: "a + 56 + ucast (bswap_32 (h_size_dt_struct ?h)) = a + 56 + of_nat (length st)"
    unfolding hd(5) ucast_unat_up [OF u(1)] by simp
  have start: "a + ucast (bswap_32 (h_off_dt_struct ?h)) = a + 56"
    unfolding hd(3) by simp
  have u56: "unat (a + 56) = unat a + 56"
    using unat_add_small [of a 56] a(3) by simp
  then have ufin: "unat (a + 56 + of_nat (length st)) = unat a + 56 + length st"
    using unat_add_small [of "a + 56" "length st"] a(3) by simp
  have "events_at m (a + 56 + of_nat (length st)) (a + 56 + of_nat (length st)) (a + 56) ?es"
  proof (rule encode_events_at [where off = 0])
    show "bytes_at m (a + 56) (encode_events 0 ?es)"
      using hd(6) by (simp add: bytes_at_append st_def)
    show "bytes_at m (a + 56 + of_nat (length st) + of_nat 0) (event_strings ?es)"
      using hd(6) by (simp add: bytes_at_append ss_def)
    show "4 dvd unat (a + 56)"
      unfolding u56 using a(2) by (intro dvd_add) simp_all
  qed (use a clean ufin u56 in \<open>simp_all add: st_def [symmetric] ss_def [symmetric]\<close>)
  moreover have "filter (\<lambda>e. e \<noteq> Nop) ?es = ?es"
    using flatten_no_nop [of t] by (simp add: filter_id_conv) metis
  ultimately show ?thesis
    unfolding fdt_blob_def Let_def strs start fin using a(1) hd(1) by blast
qed

lemma blob_totalsize: "blob_at m a t \<Longrightarrow> dtb_get_totalsize m a = of_nat (length (encode_tree t))"
  using blob_header(1,2) [of m a t] ucast_unat_up [OF unat_of_nat32, of "length (encode_tree t)"]
  by (simp add: dtb_get_totalsize_def Let_def blob_at_def)

section \<open>Sample blobs\<close>

text \<open>A memory that holds the bytes at \<open>a\<close>.\<close>

definition placed :: "u64 \<Rightarrow> u8 list \<Rightarrow> mem" where
  "placed a bs x = lit bs (x - a)"

lemma placed_bytes: "length bs < 2 ^ 64 \<Longrightarrow> bytes_at (placed a bs) a bs"
  by (simp add: bytes_at_nth placed_def lit_def unat_of_nat)

lemma placed_cstr: "0 \<notin> set s \<Longrightarrow> length s < 2 ^ 64 \<Longrightarrow> cstr (placed a s) a s"
  using cstr_lit [of s] by (simp add: cstr_def placed_def)

lemma placed_blob:
  assumes "clean_tree t" and "a \<noteq> NULL" and "4 dvd unat a" and "unat a + length (encode_tree t) + 3 < 2 ^ 64"
    and "length (encode_tree t) < 2 ^ 32"
  shows "blob_at (placed a (encode_tree t)) a t"
  using assms placed_bytes [of "encode_tree t" a] by (simp add: blob_at_def)

text \<open>A board with a serial port, memory and one reserved region, and a board with two serial ports on
  different buses.\<close>

definition sample_tree :: dt_node where
  "sample_tree = Node [] [(ascii ''model'', ascii ''qemu'')]
     [Node (ascii ''memory@80000000'') [(ascii ''reg'', be32 0 @ be32 0x80000000 @ be32 0 @ be32 0x8000)] [],
      Node (ascii ''reserved-memory'') []
        [Node (ascii ''fw@80002000'') [(ascii ''reg'', be32 0 @ be32 0x80002000 @ be32 0 @ be32 0x1000)] []],
      Node (ascii ''soc'') [] [Node (ascii ''serial@10000000'')
        [(ascii ''interrupts'', be32 10), (ascii ''reg'', be32 0 @ be32 0x10000000 @ be32 0 @ be32 0x100)] []]]"

definition two_ports_tree :: dt_node where
  "two_ports_tree = Node [] []
     [Node (ascii ''plat'') [] [Node (ascii ''serial'') [(ascii ''reg'', be32 1)] []],
      Node (ascii ''soc'') [] [Node (ascii ''serial'') [(ascii ''reg'', be32 2)] []]]"

lemma sample_blob: "blob_at (placed 0x1000 (encode_tree sample_tree)) 0x1000 sample_tree"
  by (rule placed_blob)
    (simp_all add: clean_tree_def sample_tree_def encode_tree_def Let_def length_pad4 ascii_def)

lemma two_ports_blob: "blob_at (placed 0x1000 (encode_tree two_ports_tree)) 0x1000 two_ports_tree"
  by (rule placed_blob)
    (simp_all add: clean_tree_def two_ports_tree_def encode_tree_def Let_def length_pad4 ascii_def)

definition serial_path :: "u8 list list" where
  "serial_path = [ascii ''soc'', ascii ''serial'']"

lemma serial_path_ok: "segs_ok serial_path" "0 \<notin> set (path_bytes serial_path)" "length (path_bytes serial_path) < 2 ^ 64"
  by (auto simp: serial_path_def segs_ok_def path_bytes_def ascii_def)

lemma be_word_be32_64: "(be_word (be32 n) :: u64) = ucast (of_nat n :: u32)"
  using be_word_short [of "be32 n"] by (simp add: be_word_be32)

lemma be_word_pair: "n < 2 ^ 32 \<Longrightarrow> (be_word (be32 0 @ be32 n) :: u64) = of_nat n"
  using be_word_join [of "be32 0" "be32 n"] ucast_unat_up [OF unat_of_nat32, of n]
  by (simp add: be_word_be32)

section \<open>Properties\<close>

text \<open>Every node of the right depth with the last name of the path is a node the path denotes, and no
  node the path denotes lacks the property while a descendant has it.\<close>

definition unambiguous :: "u8 list list \<Rightarrow> u8 list \<Rightarrow> dt_node \<Rightarrow> bool" where
  "unambiguous segs key t \<longleftrightarrow> candidates segs t = nodes_at segs t \<and>
     (\<forall>c\<in>set (nodes_at segs t). prop_in key c = None \<longrightarrow> prop_below key c = None)"

text \<open>
  C20: On a device tree in which the node's name is unambiguous at its depth, \<^verbatim>\<open>dtb_getprop\<close> ends and
  returns the number stored in the property of the node its path denotes: the first eight bytes of
  the value, or four when it is shorter, big-endian, and 0 when there is no such property.
\<close>

theorem dtb_getprop_reads_path:
  assumes "fdt_blob m a t" and "cstr n path (path_bytes segs)" and "segs_ok segs" and "path \<noteq> NULL"
    and "cstr k name key" and "name \<noteq> NULL" and "unambiguous segs key t"
  shows "dtb_getprop m a n path k name = Some (dt_number (first_some (map (prop_in key) (nodes_at segs t))))"
proof -
  have "prop_below key c = prop_in key c" if "c \<in> set (nodes_at segs t)" for c
  proof (cases "prop_in key c")
    case None
    with that assms(7) show ?thesis by (simp add: unambiguous_def)
  next
    case (Some v)
    then show ?thesis
      by (cases c) (simp add: prop_below_def prop_in_def)
  qed
  then have "map (prop_below key) (candidates segs t) = map (prop_in key) (nodes_at segs t)"
    using assms(7) by (simp add: unambiguous_def)
  with getprop_number [OF assms(1-6)] show ?thesis by simp
qed

theorem dtb_getprop_reads_path_witness:
  "dtb_getprop (placed 0x1000 (encode_tree sample_tree)) 0x1000 (placed 1 (path_bytes serial_path)) 1
     (placed 1 (ascii ''reg'')) 1 = Some 0x10000000"
proof -
  have "unambiguous serial_path (ascii ''reg'') sample_tree"
    by (simp add: unambiguous_def candidates_def sample_tree_def serial_path_def seg_matches_def
        base_name_def prop_in_def prop_below_def ascii_def)
  moreover have "first_some (map (prop_in (ascii ''reg'')) (nodes_at serial_path sample_tree)) =
      Some (be32 0 @ be32 0x10000000 @ be32 0 @ be32 0x100)"
    by (simp add: sample_tree_def serial_path_def seg_matches_def base_name_def prop_in_def ascii_def)
  moreover have "dt_number (Some (be32 0 @ be32 0x10000000 @ be32 0 @ be32 0x100)) = 0x10000000"
    using be_word_pair [of "0x10000000"] by (simp add: dt_number_def)
  ultimately show ?thesis
    using dtb_getprop_reads_path [OF blob_at_fdt [OF sample_blob] placed_cstr [OF serial_path_ok(2,3), of 1]
        serial_path_ok(1) _ placed_cstr [of "ascii ''reg''" 1]]
    by (simp add: ascii_def)
qed

text \<open>
  \<^verbatim>\<open>dtb_getprop\<close> does not follow the path: it takes the first node of the right depth that has
  the last name of the path. On a board with serial ports on two buses it returns the property of
  the port on the other bus.
\<close>

theorem dtb_getprop_wrong_branch:
  "\<exists>m a n path k name. fdt_blob m a two_ports_tree \<and> cstr n path (ascii ''/soc/serial'') \<and>
     cstr k name (ascii ''reg'') \<and>
     dt_number (first_some (map (prop_in (ascii ''reg'')) (nodes_at serial_path two_ports_tree))) = 2 \<and>
     dtb_getprop m a n path k name = Some 1"
proof -
  have "path_bytes serial_path = ascii ''/soc/serial''"
    by (simp add: path_bytes_def serial_path_def ascii_def)
  moreover have "first_some (map (prop_in (ascii ''reg'')) (nodes_at serial_path two_ports_tree)) = Some (be32 2)"
    by (simp add: two_ports_tree_def serial_path_def seg_matches_def base_name_def prop_in_def ascii_def)
  moreover have "first_some (map (prop_below (ascii ''reg'')) (candidates serial_path two_ports_tree)) = Some (be32 1)"
    by (simp add: candidates_def two_ports_tree_def serial_path_def seg_matches_def base_name_def
        prop_below_def ascii_def)
  moreover have "dt_number (Some (be32 n)) = ucast (of_nat n :: u32)" for n
    by (simp add: dt_number_def be_word_be32_64)
  ultimately show ?thesis
    using getprop_number [OF blob_at_fdt [OF two_ports_blob] placed_cstr [OF serial_path_ok(2,3), of 1]
        serial_path_ok(1) _ placed_cstr [of "ascii ''reg''" 1]] blob_at_fdt [OF two_ports_blob]
      placed_cstr [OF serial_path_ok(2,3), of 1] placed_cstr [of "ascii ''reg''" 1]
    by (intro exI [of _ "placed 0x1000 (encode_tree two_ports_tree)"] exI [of _ "0x1000"]
        exI [of _ "placed 1 (path_bytes serial_path)"] exI [of _ 1]
        exI [of _ "placed 1 (ascii ''reg'')"] exI [of _ 1]) (simp add: ascii_def)
qed

text \<open>
  C21: What is encoded is read back: on the blob of a device tree the parser returns the size of the
  blob, the first entry of the first \<^verbatim>\<open>reg\<close> of a memory node at the top level, and every non-empty
  entry of the children of \<^verbatim>\<open>/reserved-memory\<close>, in order.
\<close>

theorem encoded_tree_read_back:
  assumes "blob_at m a t"
  shows "dtb_get_totalsize m a = of_nat (length (encode_tree t)) \<and>
    map_option fst (dtb_get_memory_region m a) = Some (memory_of t) \<and>
    dtb_walk_reserved_memory m a = Some (reserved_of t)"
  using blob_totalsize [OF assms] get_memory_region_tree [OF blob_at_fdt [OF assms]]
    walk_reserved_tree [OF blob_at_fdt [OF assms]] by simp

theorem encoded_tree_read_back_witness:
  "map_option fst (dtb_get_memory_region (placed 0x1000 (encode_tree sample_tree)) 0x1000) =
     Some (Some (0x80000000, 0x8000)) \<and>
   dtb_walk_reserved_memory (placed 0x1000 (encode_tree sample_tree)) 0x1000 = Some [(0x80002000, 0x1000)]"
proof -
  have v: "reg_value (be32 0 @ be32 n @ be32 0 @ be32 k) = (of_nat n, of_nat k)" if "n < 2 ^ 32" "k < 2 ^ 32" for n k
    using be_word_pair [OF that(1)] be_word_pair [OF that(2)] by (simp add: reg_value_def)
  have "memory_of sample_tree = Some (0x80000000, 0x8000)"
    using v [of "0x80000000" "0x8000"] by (simp add: memory_of_def sample_tree_def base_name_def ascii_def)
  moreover have "reserved_of sample_tree = [(0x80002000, 0x1000)]"
    using v [of "0x80002000" "0x1000"] by (simp add: reserved_of_def sample_tree_def base_name_def ascii_def regs_of_def)
  ultimately show ?thesis
    using encoded_tree_read_back [OF sample_blob] by simp
qed

end
