(* ===== verification/Boot_Dtb.thy ===== *)
theory Boot_Dtb
  imports Boot Dtb_Facts
begin

text \<open>
  The start of \<^verbatim>\<open>main\<close> in \<^verbatim>\<open>kernel/src/main.c\<close> (steps 1 to 5): what the kernel learns from the device
  tree, and the regions it registers with the startup allocator before the page allocator takes over
  the memory.
\<close>

section \<open>Model\<close>

text \<open>A string literal of the kernel. Its address stands for any address that is not null.\<close>

definition literal :: "string \<Rightarrow> mem" where
  "literal s = placed 1 (ascii s)"

definition dt_prop :: "mem \<Rightarrow> u64 \<Rightarrow> string \<Rightarrow> string \<Rightarrow> u64 option" where
  "dt_prop m dtb_ptr path name = dtb_getprop m dtb_ptr (literal path) 1 (literal name) 1"

definition newline :: "u8 list" where
  "newline = [10]"

record boot_info =
  bi_uart_base :: u64
  bi_mem_base :: u64
  bi_mem_size :: u64
  bi_startup :: startup

text \<open>The result is the text printed and, unless the kernel stops because there is no memory node, what
  it found out.\<close>

definition boot_discover :: "mem \<Rightarrow> u64 \<Rightarrow> u64 \<Rightarrow> u64 \<Rightarrow> (boot_info option \<times> u8 list) option" where
  "boot_discover m dtb_ptr kernel_start kernel_end = do {
     u_base \<leftarrow> dt_prop m dtb_ptr ''/soc/serial'' ''reg'';
     (region, msg) \<leftarrow> dtb_get_memory_region m dtb_ptr;
     let out1 = ascii ''Welcome to OPI-RV2!'' @ newline @ ascii ''Uart base address: 0x'' @
       print_hex_ulong u_base @ newline @ msg;
     case region of
       None \<Rightarrow> Some (None, out1 @ ascii ''[FATAL] Cannot find memory node in DTB'' @ newline)
     | Some (mem_base, mem_size) \<Rightarrow> do {
         let dtb_size = dtb_get_totalsize m dtb_ptr;
         initrd_start \<leftarrow> dt_prop m dtb_ptr ''/chosen'' ''linux,initrd-start'';
         initrd_end \<leftarrow> dt_prop m dtb_ptr ''/chosen'' ''linux,initrd-end'';
         regions \<leftarrow> dtb_walk_reserved_memory m dtb_ptr;
         let out2 = ascii ''[Mem] base=0x'' @ print_hex_ulong mem_base @ ascii '' size=0x'' @
           print_hex_ulong mem_size @ newline @
           ascii ''[DTB] Address: 0x'' @ print_hex_ulong dtb_ptr @ ascii '' Size: 0x'' @
           print_hex_ulong dtb_size @ newline @
           ascii ''[Kernel] Address: 0x'' @ print_hex_ulong kernel_start @ ascii '' - 0x'' @
           print_hex_ulong kernel_end @ newline @
           (if initrd_start \<noteq> 0 \<and> initrd_end > initrd_start
            then ascii ''[Initrd] Address: 0x'' @ print_hex_ulong initrd_start @ ascii '' - 0x'' @
              print_hex_ulong initrd_end @ newline else []) @
           ascii ''[DTB] Walking /reserved-memory regions...'' @ newline;
         let s = boot_reserve mem_base mem_size dtb_ptr dtb_size kernel_start kernel_end
           initrd_start initrd_end regions;
         Some (Some \<lparr>bi_uart_base = u_base, bi_mem_base = mem_base, bi_mem_size = mem_size,
                 bi_startup = s\<rparr>, out1 @ out2)
       }
   }"

section \<open>What the scans find\<close>

lemma dt_prop_tree:
  assumes "fdt_blob m a t" and "ascii path = path_bytes segs" and "segs_ok segs" and "0 \<notin> set (ascii path)"
    and "0 \<notin> set (ascii name)" and "length path < 2 ^ 32" and "length name < 2 ^ 32"
  shows "dt_prop m a path name =
    Some (dt_number (first_some (map (prop_below (ascii name)) (candidates segs t))))"
proof -
  have "cstr (literal path) 1 (path_bytes segs)"
    unfolding literal_def assms(2) [symmetric] using assms(4,6) by (intro placed_cstr) (simp_all add: ascii_def)
  moreover have "cstr (literal name) 1 (ascii name)"
    unfolding literal_def using assms(5,7) by (intro placed_cstr) (simp_all add: ascii_def)
  ultimately show ?thesis
    using getprop_number [OF assms(1) _ assms(3)] by (simp add: dt_prop_def)
qed

definition dt_value :: "u8 list list \<Rightarrow> string \<Rightarrow> dt_node \<Rightarrow> u64" where
  "dt_value segs name t = dt_number (first_some (map (prop_below (ascii name)) (candidates segs t)))"

lemma boot_props:
  assumes "fdt_blob m a t"
  shows "dt_prop m a ''/soc/serial'' ''reg'' = Some (dt_value serial_path ''reg'' t)"
    and "dt_prop m a ''/chosen'' ''linux,initrd-start'' = Some (dt_value [ascii ''chosen''] ''linux,initrd-start'' t)"
    and "dt_prop m a ''/chosen'' ''linux,initrd-end'' = Some (dt_value [ascii ''chosen''] ''linux,initrd-end'' t)"
proof -
  have "ascii ''/soc/serial'' = path_bytes serial_path"
    by (simp add: ascii_def path_bytes_def serial_path_def)
  from dt_prop_tree [OF assms this serial_path_ok(1), of "''reg''"]
  show "dt_prop m a ''/soc/serial'' ''reg'' = Some (dt_value serial_path ''reg'' t)"
    unfolding dt_value_def by (simp add: ascii_def)
  have c: "ascii ''/chosen'' = path_bytes [ascii ''chosen'']" "segs_ok [ascii ''chosen'']"
    by (auto simp: ascii_def path_bytes_def segs_ok_def)
  from dt_prop_tree [OF assms c, of "''linux,initrd-start''"]
  show "dt_prop m a ''/chosen'' ''linux,initrd-start'' = Some (dt_value [ascii ''chosen''] ''linux,initrd-start'' t)"
    unfolding dt_value_def by (simp add: ascii_def)
  from dt_prop_tree [OF assms c, of "''linux,initrd-end''"]
  show "dt_prop m a ''/chosen'' ''linux,initrd-end'' = Some (dt_value [ascii ''chosen''] ''linux,initrd-end'' t)"
    unfolding dt_value_def by (simp add: ascii_def)
qed

text \<open>What the boot code registers for a tree.\<close>

definition boot_startup :: "u64 \<Rightarrow> u64 \<Rightarrow> u64 \<Rightarrow> u64 \<Rightarrow> u64 \<Rightarrow> u64 \<Rightarrow> dt_node \<Rightarrow> startup" where
  "boot_startup mem_base mem_size dtb dtb_size ks ke t =
     boot_reserve mem_base mem_size dtb dtb_size ks ke
       (dt_value [ascii ''chosen''] ''linux,initrd-start'' t)
       (dt_value [ascii ''chosen''] ''linux,initrd-end'' t) (reserved_of t)"

lemma boot_discover_tree:
  assumes "fdt_blob m dtb t" and "memory_of t = Some (mem_base, mem_size)"
  shows "\<exists>out. boot_discover m dtb ks ke =
    Some (Some \<lparr>bi_uart_base = dt_value serial_path ''reg'' t, bi_mem_base = mem_base, bi_mem_size = mem_size,
            bi_startup = boot_startup mem_base mem_size dtb (dtb_get_totalsize m dtb) ks ke t\<rparr>, out)"
  using get_memory_region_tree [OF assms(1)] walk_reserved_tree [OF assms(1)] boot_props [OF assms(1)] assms(2)
  by (simp add: boot_discover_def boot_startup_def Let_def)

lemma boot_discover_no_memory:
  assumes "fdt_blob m dtb t" and "memory_of t = None"
  shows "\<exists>out. boot_discover m dtb ks ke = Some (None, out)"
  using get_memory_region_tree [OF assms(1)] boot_props [OF assms(1)] assms(2)
  by (simp add: boot_discover_def Let_def)

section \<open>Registered regions\<close>

text \<open>Every byte of the range that lies in the managed memory is in a recorded range.\<close>

definition covered :: "startup \<Rightarrow> u64 \<times> u64 \<Rightarrow> bool" where
  "covered s r \<longleftrightarrow> (\<forall>x\<in>{unat (fst r) ..< unat (snd r)}.
     unat (g_sa_mem_base s) \<le> x \<and> x < unat (g_sa_mem_end s) \<longrightarrow>
     (\<exists>q\<in>set (g_sa_reserves s). unat (fst q) \<le> x \<and> x < unat (snd q)))"

lemma reserve_bounds:
  "g_sa_mem_base (buddy_startup_reserve s a e) = g_sa_mem_base s"
  "g_sa_mem_end (buddy_startup_reserve s a e) = g_sa_mem_end s"
  "length (g_sa_reserves (buddy_startup_reserve s a e)) \<le> Suc (length (g_sa_reserves s))"
  by (simp_all add: buddy_startup_reserve_def Let_def)

lemma reserve_keeps: "covered s r \<Longrightarrow> covered (buddy_startup_reserve s a e) r"
  unfolding covered_def reserve_bounds by (fastforce simp: buddy_startup_reserve_def Let_def)

lemma reserve_covers:
  assumes "length (g_sa_reserves s) < BUDDY_STARTUP_MAX_RESERVES" and "unat e \<le> 2 ^ 64 - 4096"
  shows "covered (buddy_startup_reserve s a e) (a, e)"
proof -
  have lo: "unat (align_down a) \<le> unat a"
    by (simp add: unat_align_down)
  have "4096 * ((unat e + 4095) div 4096) \<ge> unat e"
    by linarith
  then have hi: "unat e \<le> unat (align_up e)"
    by (simp add: unat_align_up [OF assms(2)] mult.commute)
  show ?thesis
    unfolding covered_def reserve_bounds using assms(1) lo hi
    by (auto simp: buddy_startup_reserve_def Let_def word_less_nat_alt word_le_nat_alt)
qed

lemma fold_reserves:
  assumes "length (g_sa_reserves s) + length rs \<le> BUDDY_STARTUP_MAX_RESERVES"
    and "\<forall>(b, z)\<in>set rs. unat (b + z) \<le> 2 ^ 64 - 4096"
  defines "s' \<equiv> foldl (\<lambda>s (base, sz). reserve_startup_region s base sz) s rs"
  shows "(\<forall>r. covered s r \<longrightarrow> covered s' r) \<and> (\<forall>(b, z)\<in>set rs. covered s' (b, b + z))"
  using assms(1,2) unfolding s'_def
proof (induction rs arbitrary: s)
  case (Cons r rs)
  obtain b z where r: "r = (b, z)" by fastforce
  let ?s1 = "reserve_startup_region s b z"
  have "length (g_sa_reserves ?s1) + length rs \<le> BUDDY_STARTUP_MAX_RESERVES"
    using Cons.prems(1) reserve_bounds(3) [of s b "b + z"] by (simp add: reserve_startup_region_def)
  with Cons.IH [of ?s1] Cons.prems(2) have ih:
    "\<forall>r. covered ?s1 r \<longrightarrow> covered (foldl (\<lambda>s (base, sz). reserve_startup_region s base sz) ?s1 rs) r"
    "\<forall>(b, z)\<in>set rs. covered (foldl (\<lambda>s (base, sz). reserve_startup_region s base sz) ?s1 rs) (b, b + z)"
    by simp_all
  have "covered ?s1 (b, b + z)"
    unfolding reserve_startup_region_def using Cons.prems r by (intro reserve_covers) auto
  with ih r show ?case
    by (auto simp: reserve_startup_region_def reserve_keeps)
qed simp

text \<open>The regions the boot code has to keep out of the allocators.\<close>

definition boot_regions :: "u64 \<Rightarrow> u64 \<Rightarrow> u64 \<Rightarrow> u64 \<Rightarrow> dt_node \<Rightarrow> (u64 \<times> u64) list" where
  "boot_regions dtb dtb_size ks ke t =
     (let i0 = dt_value [ascii ''chosen''] ''linux,initrd-start'' t;
          i1 = dt_value [ascii ''chosen''] ''linux,initrd-end'' t
      in [(dtb, dtb + dtb_size), (ks, ke)] @ (if i0 \<noteq> 0 \<and> i1 > i0 then [(i0, i1)] else []) @
         map (\<lambda>(b, z). (b, b + z)) (reserved_of t))"

lemma boot_startup_covers:
  assumes room: "length (boot_regions dtb dtb_size ks ke t) \<le> BUDDY_STARTUP_MAX_RESERVES"
    and ends: "\<forall>r\<in>set (boot_regions dtb dtb_size ks ke t). unat (snd r) \<le> 2 ^ 64 - 4096"
    and r: "r \<in> set (boot_regions dtb dtb_size ks ke t)"
  shows "covered (boot_startup mem_base mem_size dtb dtb_size ks ke t) r"
proof -
  define i0 where "i0 = dt_value [ascii ''chosen''] ''linux,initrd-start'' t"
  define i1 where "i1 = dt_value [ascii ''chosen''] ''linux,initrd-end'' t"
  let ?n = "length (reserved_of t)"
  let ?init = "buddy_startup_init mem_base mem_size"
  let ?blob = "buddy_startup_reserve ?init dtb (dtb + dtb_size)"
  let ?image = "buddy_startup_reserve ?blob ks ke"
  let ?ramdisk = "if i0 \<noteq> 0 \<and> i1 > i0 then buddy_startup_reserve ?image i0 i1 else ?image"
  let ?s = "foldl (\<lambda>s (base, sz). reserve_startup_region s base sz) ?ramdisk (reserved_of t)"
  have s: "boot_startup mem_base mem_size dtb dtb_size ks ke t = ?s"
    by (simp add: boot_startup_def boot_reserve_def Let_def i0_def i1_def)
  note regs = boot_regions_def [of dtb dtb_size ks ke t, folded i0_def i1_def, unfolded Let_def, folded i0_def i1_def]
  have max: "BUDDY_STARTUP_MAX_RESERVES = 16"
    by (rule BUDDY_STARTUP_MAX_RESERVES_def)
  have n: "2 + (if i0 \<noteq> 0 \<and> i1 > i0 then 1 else 0) + ?n \<le> 16"
    using room unfolding regs max by (cases "i0 \<noteq> 0 \<and> i1 > i0") auto
  have l0: "length (g_sa_reserves ?init) = 0"
    by (simp add: buddy_startup_init_def)
  have l1: "length (g_sa_reserves ?blob) \<le> 1"
    using reserve_bounds(3) [of ?init dtb "dtb + dtb_size"] l0 by linarith
  have l2: "length (g_sa_reserves ?image) \<le> 2"
    using reserve_bounds(3) [of ?blob ks ke] l1 by linarith
  have l3: "length (g_sa_reserves ?ramdisk) + ?n \<le> BUDDY_STARTUP_MAX_RESERVES"
  proof (cases "i0 \<noteq> 0 \<and> i1 > i0")
    case True
    have "length (g_sa_reserves (buddy_startup_reserve ?image i0 i1)) \<le> 3"
      using reserve_bounds(3) [of ?image i0 i1] l2 by linarith
    with True n show ?thesis unfolding max by simp
  next
    case False
    have "2 + ?n \<le> 16" using n by linarith
    with l2 have "length (g_sa_reserves ?image) + ?n \<le> 16" by linarith
    with False show ?thesis unfolding max by (simp only: if_False)
  qed
  have e: "unat (dtb + dtb_size) \<le> 2 ^ 64 - 4096" "unat ke \<le> 2 ^ 64 - 4096"
    "i0 \<noteq> 0 \<and> i1 > i0 \<longrightarrow> unat i1 \<le> 2 ^ 64 - 4096"
    using ends unfolding regs by (simp_all add: ball_Un)
  have regions: "\<forall>(b, z)\<in>set (reserved_of t). unat (b + z) \<le> 2 ^ 64 - 4096"
  proof clarify
    fix b z
    assume "(b, z) \<in> set (reserved_of t)"
    then have "(b, b + z) \<in> set (boot_regions dtb dtb_size ks ke t)"
      unfolding regs by force
    with ends show "unat (b + z) \<le> 2 ^ 64 - 4096" by fastforce
  qed
  note fold = fold_reserves [OF l3 regions]
  have "covered ?image (dtb, dtb + dtb_size)"
    using e(1) by (intro reserve_keeps reserve_covers) (simp_all add: l0 max)
  moreover have "covered ?image (ks, ke)"
    by (rule reserve_covers [OF _ e(2)]) (use l1 max in linarith)
  moreover have "covered ?ramdisk (i0, i1)" if "i0 \<noteq> 0 \<and> i1 > i0"
  proof -
    have "covered (buddy_startup_reserve ?image i0 i1) (i0, i1)"
      by (rule reserve_covers) (use l2 max that e(3) in \<open>linarith | blast\<close>)+
    then show ?thesis unfolding if_P [OF that] .
  qed
  moreover have "covered ?ramdisk q" if "covered ?image q" for q
    using that by (simp add: reserve_keeps)
  ultimately show ?thesis
    unfolding s using r fold unfolding regs by (auto split: if_splits)
qed

section \<open>Properties\<close>

text \<open>A covered range holds no byte of a page that the heap may use.\<close>

lemma covered_off_limits:
  assumes cov: "covered s r"
    and mem: "g_sa_mem_base s = g_buddy_base b"
      "unat (g_sa_mem_end s) = unat (g_buddy_base b) + unat mem_size"
    and n: "g_total_pages b = unat mem_size div 4096"
    and rec: "\<forall>q\<in>set (g_sa_reserves s). {unat (fst q) ..< unat (snd q)} \<subseteq> off_limits b"
  shows "{unat (fst r) ..< unat (snd r)} \<subseteq> off_limits b"
proof
  fix x
  assume x: "x \<in> {unat (fst r) ..< unat (snd r)}"
  show "x \<in> off_limits b"
  proof (cases "unat (g_sa_mem_base s) \<le> x \<and> x < unat (g_sa_mem_end s)")
    case True
    with cov x obtain q where "q \<in> set (g_sa_reserves s)" "unat (fst q) \<le> x" "x < unat (snd q)"
      unfolding covered_def by blast
    with rec show ?thesis by fastforce
  next
    case False
    have "x \<notin> page_bytes b p" if "p < g_total_pages b" for p
    proof -
      from that n have "p + 1 \<le> unat mem_size div 4096" by simp
      then have "4096 * (p + 1) \<le> unat mem_size" by (simp add: less_eq_div_iff_mult_less_eq mult.commute)
      with False mem show ?thesis by (auto simp: page_bytes_def)
    qed
    then show ?thesis by (auto simp: off_limits_def)
  qed
qed

text \<open>
  C1: No memory that the device tree reserves is handed out, under the conditions that follow. The device tree is well formed. The
  regions that the kernel registers, the blob, its own image, the initial ramdisk and the children of
  \<^verbatim>\<open>/reserved-memory\<close>, are at most sixteen (\<^verbatim>\<open>buddy_startup_reserve\<close> drops the seventeenth), end at least a page below \<open>2 ^ 64\<close>, and
  none lies strictly inside another. The memory that the device tree describes starts at a page-aligned address that is not 0
  (the board's \<^verbatim>\<open>memory@0\<close> is outside of the theorem), has a page at least, and ends below \<open>2 ^ 63\<close>. The two metadata arrays found
  room. Then after boot every sequence of \<^verbatim>\<open>kmalloc\<close> and \<^verbatim>\<open>kfree\<close> calls, for sizes of at most \<open>2 ^ 64 - 4096\<close> bytes, returns, and
  no range a client holds has a byte in common with any of these regions.
\<close>

theorem boot_protects_device_tree_regions:
  assumes tree: "fdt_blob m dtb t" "memory_of t = Some (mem_base, mem_size)"
    and s: "s = boot_startup mem_base mem_size dtb (dtb_get_totalsize m dtb) ks ke t"
    and room: "length (boot_regions dtb (dtb_get_totalsize m dtb) ks ke t) \<le> BUDDY_STARTUP_MAX_RESERVES"
    and ends: "\<forall>r\<in>set (boot_regions dtb (dtb_get_totalsize m dtb) ks ke t). unat (snd r) \<le> 2 ^ 64 - 4096"
    and nn: "not_nested (g_sa_reserves s)"
    and base: "0 < unat mem_base" "4096 dvd unat mem_base" and size: "4096 \<le> unat mem_size"
    and fits: "unat mem_base + unat mem_size \<le> 2 ^ 63"
    and old: "length old_fa = unat (mem_size div PAGE_SIZE)" "length old_ppi = unat (mem_size div PAGE_SIZE)"
    and fa: "buddy_startup_alloc s (mem_size div PAGE_SIZE * 4) = Some (s1, fa_ptr)" "fa_ptr \<noteq> NULL"
    and ppi: "buddy_startup_alloc s1 (mem_size div PAGE_SIZE) = Some (s2, ppi_ptr)" "ppi_ptr \<noteq> NULL"
    and requests: "\<forall>r\<in>set rs. request_ok (2 ^ 64 - 4096) r"
  shows "\<exists>info out h h' held. boot_discover m dtb ks ke = Some (Some info, out) \<and>
    boot_memory (bi_startup info) (bi_mem_base info) (bi_mem_size info) old_fa old_ppi = Some (s2, fa_ptr, ppi_ptr, h) \<and>
    serve kmalloc kfree rs (h, []) = Some (h', held) \<and> ranges_disjoint held \<and>
    (\<forall>x\<in>set held. \<forall>r\<in>set (boot_regions dtb (dtb_get_totalsize m dtb) ks ke t).
       bytes_of x \<inter> {unat (fst r) ..< unat (snd r)} = {})"
proof -
  obtain out where disc: "boot_discover m dtb ks ke = Some (Some \<lparr>bi_uart_base = dt_value serial_path ''reg'' t,
      bi_mem_base = mem_base, bi_mem_size = mem_size, bi_startup = s\<rparr>, out)"
    using boot_discover_tree [OF tree] unfolding s by blast
  note ok = boot_reserve_ok [OF fits]
  have bounds: "startup_ok s" "g_sa_mem_base s = mem_base" "g_sa_mem_end s = mem_base + mem_size"
    unfolding s boot_startup_def by (simp_all add: ok)
  obtain h h' held where h: "boot_memory s mem_base mem_size old_fa old_ppi = Some (s2, fa_ptr, ppi_ptr, h)"
    and run: "serve kmalloc kfree rs (h, []) = Some (h', held)" "ranges_disjoint held"
      "\<forall>x\<in>set held. bytes_of x \<inter> off_limits (heap_buddy h) = {}"
    and b: "g_total_pages (heap_buddy h) = unat (mem_size div PAGE_SIZE)" "g_buddy_base (heap_buddy h) = mem_base"
    and rec: "\<forall>r\<in>set (g_sa_reserves s). {unat (fst r) ..< unat (snd r)} \<subseteq> off_limits (heap_buddy h)"
    using boot_heap_guarded [OF bounds(1) nn bounds(2,3) base size fits old fa ppi requests] by blast
  have "{unat (fst r) ..< unat (snd r)} \<subseteq> off_limits (heap_buddy h)"
    if "r \<in> set (boot_regions dtb (dtb_get_totalsize m dtb) ks ke t)" for r
  proof (rule covered_off_limits [OF _ _ _ _ rec])
    show "covered s r"
      unfolding s by (rule boot_startup_covers [OF room ends that])
    show "g_sa_mem_base s = g_buddy_base (heap_buddy h)" by (simp add: bounds b)
    show "unat (g_sa_mem_end s) = unat (g_buddy_base (heap_buddy h)) + unat mem_size"
      unfolding bounds b using fits by (intro word_add_le(2)) simp
    show "g_total_pages (heap_buddy h) = unat mem_size div 4096"
      unfolding b by (simp add: PAGE_SIZE_def unat_div)
  qed
  with run(3) have "\<forall>x\<in>set held. \<forall>r\<in>set (boot_regions dtb (dtb_get_totalsize m dtb) ks ke t).
      bytes_of x \<inter> {unat (fst r) ..< unat (snd r)} = {}" by blast
  with disc h run(1,2) show ?thesis
    by (intro exI [of _ "\<lparr>bi_uart_base = dt_value serial_path ''reg'' t, bi_mem_base = mem_base,
        bi_mem_size = mem_size, bi_startup = s\<rparr>"] exI [of _ out] exI [of _ h] exI [of _ h'] exI [of _ held]) simp
qed

text \<open>The sample board, with its blob at \<open>0x80004000\<close> and the kernel in the first page.\<close>

lemma sample_board_blob:
  "blob_at (placed 0x80004000 (encode_tree sample_tree)) 0x80004000 sample_tree"
  by (rule placed_blob)
    (simp_all add: clean_tree_def sample_tree_def encode_tree_def Let_def length_pad4 ascii_def)

lemma sample_board_tree:
  "memory_of sample_tree = Some (0x80000000, 0x8000)"
  "reserved_of sample_tree = [(0x80002000, 0x1000)]"
  "dt_value [ascii ''chosen''] ''linux,initrd-start'' sample_tree = 0"
  "dtb_get_totalsize (placed 0x80004000 (encode_tree sample_tree)) 0x80004000 = 0x141"
proof -
  have v: "reg_value (be32 0 @ be32 n @ be32 0 @ be32 k) = (of_nat n, of_nat k)" if "n < 2 ^ 32" "k < 2 ^ 32" for n k
    using be_word_pair [OF that(1)] be_word_pair [OF that(2)] by (simp add: reg_value_def)
  show "memory_of sample_tree = Some (0x80000000, 0x8000)"
    using v [of "0x80000000" "0x8000"] by (simp add: memory_of_def sample_tree_def base_name_def ascii_def)
  show "reserved_of sample_tree = [(0x80002000, 0x1000)]"
    using v [of "0x80002000" "0x1000"]
    by (simp add: reserved_of_def sample_tree_def base_name_def ascii_def regs_of_def)
  show "dt_value [ascii ''chosen''] ''linux,initrd-start'' sample_tree = 0"
    by (simp add: dt_value_def dt_number_def candidates_def sample_tree_def seg_matches_def
        base_name_def ascii_def)
  have "length (encode_tree sample_tree) = 0x141"
    by (simp add: sample_tree_def encode_tree_def Let_def length_pad4 ascii_def)
  then show "dtb_get_totalsize (placed 0x80004000 (encode_tree sample_tree)) 0x80004000 = 0x141"
    by (simp add: blob_totalsize [OF sample_board_blob])
qed

lemma sample_board_startup:
  "boot_startup 0x80000000 0x8000 0x80004000 0x141 0x80000000 0x80001000 sample_tree =
     \<lparr>g_sa_reserves = [(0x80004000, 0x80005000), (0x80000000, 0x80001000), (0x80002000, 0x80003000)],
      g_sa_mem_base = 0x80000000, g_sa_mem_end = 0x80008000\<rparr>"
  unfolding boot_startup_def boot_reserve_def sample_board_tree
  by (simp add: buddy_startup_init_def buddy_startup_reserve_def reserve_startup_region_def
      align_up_def align_down_def PAGE_SIZE_def BUDDY_STARTUP_MAX_RESERVES_def)

lemma sample_board_regions:
  "boot_regions 0x80004000 0x141 0x80000000 0x80001000 sample_tree =
     [(0x80004000, 0x80004141), (0x80000000, 0x80001000), (0x80002000, 0x80003000)]"
  unfolding boot_regions_def sample_board_tree by (simp add: Let_def)

lemma sample_board_allocs:
  fixes s :: startup
  assumes "g_sa_mem_base s = 0x80000000" and "g_sa_mem_end s = 0x80008000"
    and "g_sa_reserves s = [(0x80004000, 0x80005000), (0x80000000, 0x80001000), (0x80002000, 0x80003000)]"
  shows "\<exists>s1 s2. buddy_startup_alloc s (0x8000 div PAGE_SIZE * 4) = Some (s1, 0x80001000) \<and>
    buddy_startup_alloc s1 (0x8000 div PAGE_SIZE) = Some (s2, 0x80003000)"
proof -
  have "s = \<lparr>g_sa_reserves = [(0x80004000, 0x80005000), (0x80000000, 0x80001000), (0x80002000, 0x80003000)],
      g_sa_mem_base = 0x80000000, g_sa_mem_end = 0x80008000\<rparr>"
    using assms by (cases s) simp
  then show ?thesis
    by (simp add: buddy_startup_alloc_def sa_sort_reserves_def sa_sort_loop.simps
        sa_find_first_free_def align_up_def PAGE_SIZE_def BUDDY_STARTUP_MAX_RESERVES_def Let_def)
qed

theorem boot_protects_device_tree_regions_witness:
  "\<exists>info out s2 h h' held.
     boot_discover (placed 0x80004000 (encode_tree sample_tree)) 0x80004000 0x80000000 0x80001000 = Some (Some info, out) \<and>
     boot_memory (bi_startup info) (bi_mem_base info) (bi_mem_size info) (replicate 8 0) (replicate 8 0) =
       Some (s2, 0x80001000, 0x80003000, h) \<and>
     serve kmalloc kfree [Get 100, Get 5000, Put 0, Get 16] (h, []) = Some (h', held) \<and>
     (\<forall>x\<in>set held. bytes_of x \<inter> {unat (0x80002000 :: u64) ..< unat (0x80003000 :: u64)} = {})"
proof -
  let ?m = "placed 0x80004000 (encode_tree sample_tree)"
  define s where "s = boot_startup 0x80000000 0x8000 0x80004000 0x141 0x80000000 0x80001000 sample_tree"
  note s = s_def [unfolded sample_board_startup]
  obtain s1 s2 where al: "buddy_startup_alloc s (0x8000 div PAGE_SIZE * 4) = Some (s1, 0x80001000)"
    "buddy_startup_alloc s1 (0x8000 div PAGE_SIZE) = Some (s2, 0x80003000)"
    using sample_board_allocs [of s] s by auto
  have "s = boot_startup 0x80000000 0x8000 0x80004000 (dtb_get_totalsize ?m 0x80004000) 0x80000000 0x80001000 sample_tree"
    unfolding sample_board_tree s_def ..
  moreover have "not_nested (g_sa_reserves s)"
    unfolding s by (simp add: not_nested_def)
  moreover have "length (replicate 8 (0::i32)) = unat ((0x8000 :: u64) div PAGE_SIZE)"
    "length (replicate 8 (0::i8)) = unat ((0x8000 :: u64) div PAGE_SIZE)"
    by (simp_all add: PAGE_SIZE_def)
  ultimately show ?thesis
    using boot_protects_device_tree_regions [OF blob_at_fdt [OF sample_board_blob] sample_board_tree(1), of s
        "0x80000000" "0x80001000" "replicate 8 0" "replicate 8 0" s1 "0x80001000" s2 "0x80003000"
        "[Get 100, Get 5000, Put 0, Get 16]"] al
    unfolding sample_board_tree sample_board_regions
    by (simp add: BUDDY_STARTUP_MAX_RESERVES_def) blast
qed

end
