(* ===== verification/Riscv.thy ===== *)
theory Riscv
  imports Memory_Words
begin

text \<open>
  The registers of a hart and the instructions that the assembly files of the kernel use: loads and
  stores of double words, moves and the accesses to the supervisor registers. The integer registers
  are numbered as in the manual, so \<open>x2\<close> is the stack pointer and \<open>x0\<close> reads as zero.
\<close>

section \<open>Model\<close>

datatype csr = Sscratch | Sepc | Sstatus | Scause | Stval | Stvec

record cpu =
  gpr :: "nat \<Rightarrow> u64"
  csrs :: "csr \<Rightarrow> u64"
  ram :: mem
  pc :: u64
  user_mode :: bool

definition rd :: "cpu \<Rightarrow> nat \<Rightarrow> u64" where
  "rd c r = (if r = 0 then 0 else gpr c r)"

definition wr :: "nat \<Rightarrow> u64 \<Rightarrow> cpu \<Rightarrow> cpu" where
  "wr r v c = (if r = 0 then c else c\<lparr>gpr := (gpr c)(r := v)\<rparr>)"

definition wr_csr :: "csr \<Rightarrow> u64 \<Rightarrow> cpu \<Rightarrow> cpu" where
  "wr_csr s v c = c\<lparr>csrs := (csrs c)(s := v)\<rparr>"

text \<open>\<open>Sd r off b\<close> stores register \<open>r\<close> at \<open>off(b)\<close> and \<open>Ld r off b\<close> loads it; \<open>Csrc\<close> and \<open>Csrs\<close> clear and set bits.\<close>

datatype instr =
    Sd nat u64 nat
  | Ld nat u64 nat
  | Addi nat nat u64
  | Mv nat nat
  | Li nat u64
  | Csrr nat csr
  | Csrw csr nat
  | Csrrw nat csr nat
  | Csrc csr nat
  | Csrs csr nat

fun exec :: "instr \<Rightarrow> cpu \<Rightarrow> cpu" where
  "exec (Sd r off b) c = c\<lparr>ram := store64 (ram c) (rd c b + off) (rd c r)\<rparr>"
| "exec (Ld r off b) c = wr r (load64 (ram c) (rd c b + off)) c"
| "exec (Addi r s i) c = wr r (rd c s + i) c"
| "exec (Mv r s) c = wr r (rd c s) c"
| "exec (Li r i) c = wr r i c"
| "exec (Csrr r k) c = wr r (csrs c k) c"
| "exec (Csrw k r) c = wr_csr k (rd c r) c"
| "exec (Csrrw r k s) c = wr r (csrs c k) (wr_csr k (rd c s) c)"
| "exec (Csrc k r) c = wr_csr k (csrs c k AND NOT (rd c r)) c"
| "exec (Csrs k r) c = wr_csr k (csrs c k OR rd c r) c"

abbreviation run_code :: "instr list \<Rightarrow> cpu \<Rightarrow> cpu" where
  "run_code \<equiv> fold exec"

section \<open>Double words at distinct offsets\<close>

definition aligned8 :: "u64 \<Rightarrow> bool" where
  "aligned8 w \<longleftrightarrow> unat w mod 8 = 0"

lemma aligned_apart:
  assumes "aligned8 p" and "aligned8 q" and "i < 8" and "j < 8" and "p \<noteq> q"
  shows "a + p + of_nat i \<noteq> a + q + of_nat j"
proof
  assume "a + p + of_nat i = a + q + of_nat j"
  then have same: "unat (p + of_nat i) = unat (q + of_nat j)" by (simp add: add.assoc)
  have sum: "unat (w + of_nat k) = unat w + k" if "aligned8 w" "k < 8" for w :: u64 and k
  proof -
    define n where "n = unat w div 8"
    have n: "unat w = 8 * n" using that(1) unfolding aligned8_def n_def by presburger
    have "unat w < 2 ^ LENGTH(64)" by (rule unsigned_less)
    then have "unat w + k < 2 ^ 64" using n that(2) by simp
    then show ?thesis using that(2) by (simp add: unat_word_ariths unat_of_nat)
  qed
  have "unat p + i = unat q + j" using same sum assms by simp
  then have "unat p = unat q" using assms unfolding aligned8_def by presburger
  with assms(5) show False by (simp add: word_unat_eq_iff)
qed

lemma load64_cong: "(\<And>i. i < 8 \<Longrightarrow> m (a + of_nat i) = m' (a + of_nat i)) \<Longrightarrow> load64 m a = load64 m' a"
  unfolding load64_def by (rule foldr_cong) auto

lemma store64_outside: "(\<And>i. i < 8 \<Longrightarrow> x \<noteq> a + of_nat i) \<Longrightarrow> store64 m a w x = m x"
  unfolding store64_def by (rule store_bytes_other) (simp add: le_bytes_def)

lemma load64_store64_apart:
  assumes "aligned8 p" and "aligned8 q" and "p \<noteq> q"
  shows "load64 (store64 m (a + q) w) (a + p) = load64 m (a + p)"
  using aligned_apart [OF assms(1,2) _ _ assms(3)] by (intro load64_cong store64_outside) blast

text \<open>A sequence of stores relative to one base.\<close>

fun write_slots :: "u64 \<Rightarrow> (u64 \<times> u64) list \<Rightarrow> mem \<Rightarrow> mem" where
  "write_slots a [] m = m"
| "write_slots a ((q, w) # qs) m = write_slots a qs (store64 m (a + q) w)"

lemma write_slots_append: "write_slots a (xs @ ys) m = write_slots a ys (write_slots a xs m)"
  by (induction xs arbitrary: m) auto

lemma load_write_slots:
  assumes "\<forall>(q, w) \<in> set qs. aligned8 q" and "aligned8 p"
  shows "load64 (write_slots a qs m) (a + p) = (case map_of (rev qs) p of None \<Rightarrow> load64 m (a + p) | Some w \<Rightarrow> w)"
  using assms(1)
proof (induction qs rule: rev_induct)
  case (snoc x qs)
  obtain q w where x: "x = (q, w)" by force
  with snoc assms(2) load64_store64_apart [of p q] show ?case
    by (cases "p = q") (auto simp: write_slots_append)
qed simp

lemma write_slots_outside:
  "(\<And>q w i. (q, w) \<in> set qs \<Longrightarrow> i < 8 \<Longrightarrow> x \<noteq> a + q + of_nat i) \<Longrightarrow> write_slots a qs m x = m x"
proof (induction qs arbitrary: m)
  case (Cons qw qs)
  obtain q w where qw: "qw = (q, w)" by force
  have "store64 m (a + q) w x = m x"
    by (rule store64_outside) (use Cons.prems in \<open>auto simp: qw\<close>)
  moreover have "write_slots a qs (store64 m (a + q) w) x = store64 m (a + q) w x"
    by (rule Cons.IH) (use Cons.prems in auto)
  ultimately show ?case by (simp add: qw)
qed simp

section \<open>Blocks of stores and loads\<close>

lemma rd_ram [simp]: "rd (c\<lparr>ram := m\<rparr>) r = rd c r"
  by (simp add: rd_def)

lemma run_stores:
  "run_code (map (\<lambda>(r, q). Sd r q b) rqs) c =
    c\<lparr>ram := write_slots (rd c b) (map (\<lambda>(r, q). (q, rd c r)) rqs) (ram c)\<rparr>"
proof (induction rqs arbitrary: c)
  case (Cons rq rqs)
  obtain r q where rq: "rq = (r, q)" by force
  show ?case using Cons.IH by (simp add: rq)
qed simp

lemma run_loads:
  assumes "b \<notin> fst ` set rqs" and "0 \<notin> fst ` set rqs" and "b \<noteq> 0"
  shows "run_code (map (\<lambda>(r, q). Ld r q b) rqs) c =
    c\<lparr>gpr := (\<lambda>r. case map_of (rev rqs) r of None \<Rightarrow> gpr c r | Some q \<Rightarrow> load64 (ram c) (gpr c b + q))\<rparr>"
  using assms
proof (induction rqs rule: rev_induct)
  case (snoc x rqs)
  obtain r q where x: "x = (r, q)" by force
  have "b \<notin> fst ` set rqs" using snoc.prems by simp
  then have "map_of (rev rqs) b = None" by (simp add: map_of_eq_None_iff)
  with snoc x show ?case by (auto simp: rd_def wr_def fun_eq_iff)
qed simp

end
