(* ===== verification/Start.thy ===== *)
theory Start
  imports Riscv
begin

text \<open>
  The entry code of \<^verbatim>\<open>kernel/src/start.S\<close>, which the boot loader shares: it clears the \<^verbatim>\<open>bss\<close> section and calls
  \<^verbatim>\<open>main\<close> on a fresh stack. The symbols of the linker script are arguments.
\<close>

section \<open>Model\<close>

partial_function (option) init_bss :: "cpu \<Rightarrow> cpu option" where
  "init_bss c = (if rd c 6 \<le>s rd c 5 then Some c else init_bss (run_code [Sd 0 0 5, Addi 5 5 8] c))"

text \<open>The state in which \<^verbatim>\<open>main\<close> is called. Should it return, the stack pointer is set again and it is called
  once more.\<close>

definition c_prog :: "u64 \<Rightarrow> cpu \<Rightarrow> cpu" where
  "c_prog stack_top c = run_code [Li 2 stack_top, Mv 10 8, Mv 11 9] c"

definition start_code :: "u64 \<Rightarrow> u64 \<Rightarrow> u64 \<Rightarrow> cpu \<Rightarrow> cpu option" where
  "start_code sbss ebss stack_top c =
     map_option (c_prog stack_top) (init_bss (run_code [Mv 8 10, Mv 9 11, Li 5 sbss, Li 6 ebss] c))"

section \<open>The cleared range\<close>

lemma sle_unat:
  fixes a b :: u64
  assumes "unat a < 2 ^ 63" and "unat b < 2 ^ 63"
  shows "a \<le>s b \<longleftrightarrow> unat a \<le> unat b"
proof -
  have s: "sint (of_nat n :: u64) = int n" if "n < 2 ^ 63" for n
  proof -
    have u: "uint (of_nat n :: u64) = int n"
      using that by (simp add: uint_nat unat_of_nat)
    have "\<not> bit (int n) 63"
      using that by (simp add: bit_iff_odd)
    then show ?thesis
      using that u by (simp add: sint_uint signed_take_bit_eq_take_bit_minus take_bit_int_eq_self)
  qed
  show ?thesis
    using s [OF assms(1)] s [OF assms(2)] by (simp add: word_sle_eq flip: word_le_def word_le_nat_alt)
qed

lemma eight_up:
  fixes a b :: nat
  assumes "b < a"
  shows "8 + 8 * ((a - (b + 8) + 7) div 8) = 8 * ((a - b + 7) div 8)"
proof (cases "a - b < 8")
  case True
  with assms have "(a - b + 7) div 8 = 1" by (intro div_nat_eqI) simp_all
  moreover have "a - (b + 8) = 0" using True by simp
  ultimately show ?thesis by simp
next
  case False
  then have "a - b + 7 = (a - (b + 8) + 7) + 8" by simp
  then have "(a - b + 7) div 8 = (a - (b + 8) + 7) div 8 + 1" by (simp only: div_add_self2)
  then show ?thesis by (simp only: distrib_left mult_1_right add.commute)
qed

lemma store64_zero:
  assumes "unat a + 8 \<le> 2 ^ 64"
  shows "store64 m a 0 x = (if unat a \<le> unat x \<and> unat x < unat a + 8 then 0 else m x)"
proof (cases "unat a \<le> unat x \<and> unat x < unat a + 8")
  case True
  define i where "i = unat x - unat a"
  have i: "i < 8" "unat x = unat a + i"
    using True unfolding i_def by linarith+
  then have "a + of_nat i = x"
    using assms unat_add_small [of a i] by (simp add: word_unat_eq_iff)
  then have "store64 m a 0 x = store64 m a 0 (a + of_nat i)" by simp
  also have "\<dots> = 0" using i(1) by (simp add: store64_def le_bytes_def store_bytes_at)
  finally show ?thesis using True by simp
next
  case False
  have "x \<noteq> a + of_nat i" if "i < 8" for i
    using that False assms unat_add_small [of a i] by auto
  then show ?thesis using False by (auto intro: store64_outside)
qed

lemma init_bss_clears:
  assumes "unat (rd c 6) \<le> unat (rd c 5) + 8 * n" and "unat (rd c 6) + 8 \<le> 2 ^ 63" and "unat (rd c 5) < 2 ^ 63"
  shows "\<exists>t m. init_bss c = Some (c\<lparr>gpr := (gpr c)(5 := t), ram := m\<rparr>) \<and>
    (\<forall>x. m x = (if unat (rd c 5) \<le> unat x \<and> unat x < unat (rd c 5) + 8 * ((unat (rd c 6) - unat (rd c 5) + 7) div 8)
      then 0 else ram c x))"
  using assms
proof (induction n arbitrary: c)
  case 0
  then have "init_bss c = Some c"
    by (subst init_bss.simps) (simp add: sle_unat)
  moreover have "c = c\<lparr>gpr := (gpr c)(5 := gpr c 5), ram := ram c\<rparr>" by simp
  ultimately show ?case using 0 by (intro exI [of _ "gpr c 5"] exI [of _ "ram c"]) auto
next
  case (Suc n)
  show ?case
  proof (cases "unat (rd c 6) \<le> unat (rd c 5)")
    case True
    with Suc.prems have "init_bss c = Some c"
      by (subst init_bss.simps) (simp add: sle_unat)
    then show ?thesis using True by (intro exI [of _ "gpr c 5"] exI [of _ "ram c"]) auto
  next
    case False
    define c1 where "c1 = run_code [Sd 0 0 5, Addi 5 5 8] c"
    have c1: "c1 = c\<lparr>gpr := (gpr c)(5 := gpr c 5 + 8), ram := store64 (ram c) (gpr c 5) 0\<rparr>"
      by (simp add: c1_def rd_def wr_def)
    have u: "unat (gpr c 5 + 8) = unat (gpr c 5) + 8" "rd c 5 = gpr c 5" "rd c1 6 = rd c 6" "rd c1 5 = gpr c 5 + 8"
      using unat_add_small [of "gpr c 5" 8] Suc.prems by (simp_all add: rd_def c1)
    have step: "init_bss c = init_bss c1"
      using False Suc.prems by (subst init_bss.simps) (simp add: sle_unat c1_def)
    have pre: "unat (rd c1 6) \<le> unat (rd c1 5) + 8 * n" "unat (rd c1 6) + 8 \<le> 2 ^ 63" "unat (rd c1 5) < 2 ^ 63"
      using Suc.prems False u by simp_all
    obtain t m where tm: "init_bss c1 = Some (c1\<lparr>gpr := (gpr c1)(5 := t), ram := m\<rparr>)"
      "\<And>x. m x = (if unat (rd c1 5) \<le> unat x \<and> unat x < unat (rd c1 5) + 8 * ((unat (rd c1 6) - unat (rd c1 5) + 7) div 8)
        then 0 else ram c1 x)"
      using Suc.IH [OF pre] by blast
    have len: "8 + 8 * ((unat (rd c 6) - (unat (rd c 5) + 8) + 7) div 8) = 8 * ((unat (rd c 6) - unat (rd c 5) + 7) div 8)"
      by (rule eight_up) (use False in simp)
    have "m x = (if unat (rd c 5) \<le> unat x \<and> unat x < unat (rd c 5) + 8 * ((unat (rd c 6) - unat (rd c 5) + 7) div 8)
        then 0 else ram c x)" for x
      using len False Suc.prems(2,3) store64_zero [of "gpr c 5" "ram c" x] unfolding tm(2) u by (auto simp: c1 u)
    moreover have "init_bss c = Some (c\<lparr>gpr := (gpr c)(5 := t), ram := m\<rparr>)"
      unfolding step tm(1) by (simp add: c1)
    ultimately show ?thesis by blast
  qed
qed

text \<open>
  The entry code ends with the double words of the section, and nothing else, cleared and calls \<^verbatim>\<open>main\<close> with the
  hart number and the device tree that the firmware passed, on the stack of the linker script.
\<close>

theorem start_clears_bss:
  assumes "unat sbss \<le> unat ebss" and "unat ebss + 8 \<le> 2 ^ 63"
  shows "\<exists>c'. start_code sbss ebss stack_top c = Some c' \<and> gpr c' 10 = gpr c 10 \<and> gpr c' 11 = gpr c 11 \<and> gpr c' 2 = stack_top \<and>
    (\<forall>x. ram c' x = (if unat sbss \<le> unat x \<and> unat x < unat sbss + 8 * ((unat ebss - unat sbss + 7) div 8)
      then 0 else ram c x))"
proof -
  define d where "d = run_code [Mv 8 10, Mv 9 11, Li 5 sbss, Li 6 ebss] c"
  have d: "rd d 5 = sbss" "rd d 6 = ebss" "gpr d 8 = gpr c 10" "gpr d 9 = gpr c 11" "ram d = ram c"
    by (simp_all add: d_def rd_def wr_def)
  from init_bss_clears [of d "unat ebss"] assms d obtain t m where
    "init_bss d = Some (d\<lparr>gpr := (gpr d)(5 := t), ram := m\<rparr>)"
    "\<And>x. m x = (if unat sbss \<le> unat x \<and> unat x < unat sbss + 8 * ((unat ebss - unat sbss + 7) div 8) then 0 else ram c x)"
    by auto
  then show ?thesis
    unfolding start_code_def d_def [symmetric] by (simp add: c_prog_def rd_def wr_def d)
qed

end
