(* ===== verification/Bootloader.thy ===== *)
theory Bootloader
  imports Shell_Commands Boot_Dtb Start
begin

text \<open>
  The boot loader (\<^verbatim>\<open>bootloader/src\<close>): it moves itself out of the way of the kernel
  (\<^verbatim>\<open>main.c\<close>), and its shell receives a kernel over the serial port (\<^verbatim>\<open>shell.c\<close>). Its string
  helpers, its device tree parser, its ramdisk reader and its line editor are the code of the kernel,
  modelled in \<open>Utils\<close>, \<open>Dtb\<close>, \<open>Cpio\<close> and \<open>Shell\<close>. Its serial driver (\<^verbatim>\<open>uart.c\<close>) only polls, so the
  bytes that arrive are read one after the other by whichever function asks for one.
\<close>

section \<open>Relocation\<close>

text \<open>The copy loop runs until the two pointers meet; \<^const>\<open>None\<close> is that they never do.\<close>

partial_function (option) relocate_loop :: "mem \<Rightarrow> u64 \<Rightarrow> u64 \<Rightarrow> u64 \<Rightarrow> mem option" where
  "relocate_loop m dst src code_end =
     (if src \<noteq> code_end
      then relocate_loop (store64 m dst (load64 m src)) (dst + 8) (src + 8) code_end
      else Some m)"

definition code_relocate :: "u64 \<Rightarrow> u64 \<Rightarrow> u64 \<Rightarrow> mem \<Rightarrow> mem option" where
  "code_relocate relocate_addr code_start code_end m = relocate_loop m relocate_addr code_start code_end"

text \<open>\<^verbatim>\<open>main\<close> up to the shell. The flag \<^verbatim>\<open>need_relocated\<close> is the word at \<open>flag\<close>; after the relocation it calls
  \<open>relocate_addr\<close>, where the entry code of the copy is, with the device tree. The result tells which of the two goes on.\<close>

datatype boot_next = Restarts_at u64 u64 mem | Enters_shell u64 "u8 list"

definition boot_main :: "u64 \<Rightarrow> u64 \<Rightarrow> u64 \<Rightarrow> u64 \<Rightarrow> mem \<Rightarrow> u64 \<Rightarrow> boot_next option" where
  "boot_main relocate_addr code_start code_end flag m dtb_ptr =
     (if load32 m flag = 1
      then do {
        m' \<leftarrow> code_relocate relocate_addr code_start code_end (store32 m flag 0);
        Some (Restarts_at relocate_addr dtb_ptr m')
      }
      else do {
        u_base \<leftarrow> dt_prop m dtb_ptr ''/soc/serial'' ''reg'';
        Some (Enters_shell u_base (text_line ''Welcome to OPI-RV2 bootloader!''))
      })"

text \<open>The whole program at the address \<open>base\<close>: the entry code \<^verbatim>\<open>start.S\<close>, which is the one of the kernel, then \<^verbatim>\<open>main\<close>. The
  linker script gives the offsets of the symbols from \<^verbatim>\<open>_code_start\<close>; the code addresses them relative to the program counter, so
  the copy uses its own.\<close>

record boot_image =
  im_size :: u64
  im_flag :: u64
  im_sbss :: u64
  im_ebss :: u64
  im_stack :: u64

definition boot_start :: "u64 \<Rightarrow> boot_image \<Rightarrow> u64 \<Rightarrow> cpu \<Rightarrow> boot_next option" where
  "boot_start relocate_addr im base c = do {
     c1 \<leftarrow> start_code (base + im_sbss im) (base + im_ebss im) (base + im_stack im) c;
     boot_main relocate_addr base (base + im_size im) (base + im_flag im) (ram c1) (gpr c1 11)
   }"

section \<open>Shell\<close>

definition boot_print_help :: "u8 list" where
  "boot_print_help =
     text_line ''  help  - show all commands.'' @
     text_line ''  hello - print Hello world.'' @
     text_line ''  info  - print system info.'' @
     text_line ''  load  - receive kernel over UART and boot.'' @
     text_line ''  ls    - list files in the initial ramdisk.'' @
     text_line ''  cat   - print content of a file in the initial ramdisk.''"

text \<open>The receiver is polled: \<open>s\<close> holds the readings of the line status and of the receive buffer, one
  pair per round of the waiting loop. \<^const>\<open>None\<close> is still waiting.\<close>

type_synonym readings = "(u32 \<times> u32) list"

fun boot_uart_getc_raw :: "readings \<Rightarrow> (i32 \<times> readings) option" where
  "boot_uart_getc_raw [] = None"
| "boot_uart_getc_raw ((lsr, rbr) # s) =
     (if lsr AND LSR_DR = 0 then boot_uart_getc_raw s
      else if lsr AND LSR_ERRORS \<noteq> 0 then Some (-1, s)
      else Some (rbr AND 0xFF, s))"

definition line_end :: "i32 \<Rightarrow> i32" where
  "line_end c = (if c = 13 then 10 else c)"

definition boot_uart_getc :: "readings \<Rightarrow> (i32 \<times> readings) option" where
  "boot_uart_getc s = map_option (\<lambda>(c, s'). (line_end c, s')) (boot_uart_getc_raw s)"

fun boot_read :: "(readings \<Rightarrow> (i32 \<times> readings) option) \<Rightarrow> nat \<Rightarrow> readings \<Rightarrow> (i32 list \<times> readings) option" where
  "boot_read getc 0 s = Some ([], s)"
| "boot_read getc (Suc n) s = do { (c, s1) \<leftarrow> getc s; (cs, s2) \<leftarrow> boot_read getc n s1; Some (c # cs, s2) }"

text \<open>Sending polls the transmitter: \<open>ls\<close> are the readings of the line status.\<close>

definition LSR_TDRQ :: u32 where
  "LSR_TDRQ = 32"

fun boot_send :: "u8 \<Rightarrow> u32 list \<Rightarrow> (u8 list \<times> u32 list) option" where
  "boot_send c [] = None"
| "boot_send c (lsr # ls) = (if lsr AND LSR_TDRQ = 0 then boot_send c ls else Some ([c], ls))"

definition boot_uart_putc :: "u8 \<Rightarrow> u32 list \<Rightarrow> (u8 list \<times> u32 list) option" where
  "boot_uart_putc c ls =
     (if c = 10 then do { (o1, ls1) \<leftarrow> boot_send 13 ls; (o2, ls2) \<leftarrow> boot_send c ls1; Some (o1 @ o2, ls2) }
      else boot_send c ls)"

text \<open>The header is read with \<^verbatim>\<open>uart_getc\<close>, the kernel with \<^verbatim>\<open>uart_getc_raw\<close>, from the same receiver.\<close>

definition boot_load_kernel :: "u64 \<Rightarrow> readings \<Rightarrow> mem \<Rightarrow> (mem \<times> readings \<times> bool \<times> u8 list) option" where
  "boot_load_kernel kernel_base s m = do {
     (gs, s1) \<leftarrow> boot_read boot_uart_getc 8 s;
     (rs, s2) \<leftarrow> (if header_word (gs ! 0) (gs ! 1) (gs ! 2) (gs ! 3) \<noteq> BOOT_MAGIC then Some ([], s1)
        else boot_read boot_uart_getc_raw (unat (header_word (gs ! 4) (gs ! 5) (gs ! 6) (gs ! 7))) s1);
     (m', enters, out) \<leftarrow> shell_load_kernel kernel_base gs rs m;
     Some (m', s2, enters, out)
   }"

definition boot_cpio_ls :: "mem \<Rightarrow> u64 \<Rightarrow> u8 list option" where
  "boot_cpio_ls m archive = (if archive = NULL then Some msg_no_initrd else
     map_option (\<lambda>out. ascii ''cpio: Found initrd at 0x'' @ print_hex_ulong archive @ [10] @ out)
       (cpio_ls_loop m archive))"

definition boot_command :: "mem \<Rightarrow> u64 \<Rightarrow> command option" where
  "boot_command m cmd =
     (let is = (\<lambda>s. str_eq m cmd (lit (ascii s)) 0);
          starts = (\<lambda>s. str_startswith m cmd (lit (ascii s)) 0)
      in first_case
        [(is ''help'', Some Help),
         (is ''hello'', Some Hello),
         (is ''info'', Some Info),
         (is ''load'', Some Load),
         (is ''ls'', Some Ls),
         (starts ''cat '', file_argument m (cmd + 4) Cat ''cat <filename>''),
         (is ''cat'', Some (Usage ''cat <filename>''))]
        (Some (if m cmd \<noteq> 0 then Unknown else Empty_line)))"

record boot_env =
  be_firmware :: firmware
  be_dtb :: u64
  be_kernel_base :: u64

definition boot_initrd :: "boot_env \<Rightarrow> mem \<Rightarrow> u64 option" where
  "boot_initrd env m = dt_prop m (be_dtb env) ''/chosen'' ''linux,initrd-start''"

definition boot_handle_command :: "boot_env \<Rightarrow> mem \<Rightarrow> u64 \<Rightarrow> mem \<times> readings \<Rightarrow>
    ((mem \<times> readings) \<times> bool \<times> u8 list) option" where
  "boot_handle_command env cm cmd w = (case w of (m, s) \<Rightarrow>
     Option.bind (boot_command cm cmd) (\<lambda>c. case c of
       Help \<Rightarrow> Some (w, False, boot_print_help)
     | Hello \<Rightarrow> Some (w, False, text_line ''Hello world.'')
     | Info \<Rightarrow> Some (w, False, shell_print_info (be_firmware env))
     | Load \<Rightarrow> map_option (\<lambda>(m', s', enters, out). ((m', s'), enters, out)) (boot_load_kernel (be_kernel_base env) s m)
     | Ls \<Rightarrow> do { a \<leftarrow> boot_initrd env m; out \<leftarrow> boot_cpio_ls m a; Some (w, False, out) }
     | Cat name \<Rightarrow> do { a \<leftarrow> boot_initrd env m; (out, found) \<leftarrow> cpio_cat m a cm name; Some (w, False, out) }
     | Usage u \<Rightarrow> Some (w, False, usage_text u)
     | Unknown \<Rightarrow> do { t \<leftarrow> string_at cm cmd; Some (w, False, ascii ''Unknown command: '' @ t @ [10]) }
     | _ \<Rightarrow> Some (w, False, [])))"

text \<open>One turn of the loop of \<^verbatim>\<open>shell\<close>; its line editor is the one of the kernel. The flag tells that
  the loaded kernel has been entered.\<close>

definition boot_shell_turn :: "boot_env \<Rightarrow> editor \<times> mem \<times> readings \<Rightarrow>
    ((editor \<times> mem \<times> readings) \<times> bool \<times> u8 list) option" where
  "boot_shell_turn env w = (case w of (ed, m, s) \<Rightarrow> do {
     (c, s1) \<leftarrow> boot_uart_getc s;
     (ed1, echo, line) \<leftarrow> shell_key c ed;
     case line of
       None \<Rightarrow> Some ((ed1, m, s1), False, echo)
     | Some buf \<Rightarrow> do {
         ((m', s2), enters, out) \<leftarrow> boot_handle_command env (lit buf) 0 (m, s1);
         Some ((ed1, m', s2), enters, echo @ out @ (if enters then [] else prompt))
       }
   })"

section \<open>Words and bytes\<close>

lemma load64_be: "load64 m a = be_word (rev (mem_bytes m a 8))"
  unfolding load64_def be_word_def mem_bytes_def foldr_conv_foldl rev_map foldl_map
  by (simp add: or.commute)

lemma le_bytes_be:
  assumes "length bs = 8"
  shows "le_bytes 8 (be_word (rev bs) :: u64) = bs"
proof (rule nth_equalityI)
  show "length (le_bytes 8 (be_word (rev bs) :: u64)) = length bs"
    using assms by (simp add: le_bytes_def)
  fix i
  assume "i < length (le_bytes 8 (be_word (rev bs) :: u64))"
  then have i: "i < 8" by (simp add: le_bytes_def)
  show "le_bytes 8 (be_word (rev bs) :: u64) ! i = bs ! i"
  proof (rule bit_word_eqI)
    fix j
    assume "j < LENGTH(8)"
    then have j: "j < 8" by simp
    then have "(8 * i + j) div 8 = i" "(8 * i + j) mod 8 = j" by simp_all
    with i j assms show "bit (le_bytes 8 (be_word (rev bs) :: u64) ! i) j = bit (bs ! i) j"
      by (simp add: le_bytes_def bit_simps bit_be_word)
  qed
qed

lemma copy_word: "store64 m d (load64 m s) = store_bytes m d (mem_bytes m s 8)"
  unfolding store64_def load64_be by (subst le_bytes_be) (simp_all add: mem_bytes_def)

lemma store_bytes_append: "store_bytes m a (xs @ ys) = store_bytes (store_bytes m a xs) (a + of_nat (length xs)) ys"
  by (induction xs arbitrary: m a) (simp_all add: add.assoc)

lemma mem_bytes_add: "mem_bytes m a (i + n) = mem_bytes m a i @ mem_bytes m (a + of_nat i) n"
proof (rule nth_equalityI)
  fix j
  assume "j < length (mem_bytes m a (i + n))"
  then show "mem_bytes m a (i + n) ! j = (mem_bytes m a i @ mem_bytes m (a + of_nat i) n) ! j"
    by (auto simp: mem_bytes_def nth_append simp flip: of_nat_add)
qed (simp add: mem_bytes_def)

text \<open>Stored bytes are read back, in ranges that do not wrap.\<close>

lemma store_bytes_read: "length bs < 2 ^ 64 \<Longrightarrow> mem_bytes (store_bytes m a bs) a (length bs) = bs"
  by (rule nth_equalityI) (simp_all add: mem_bytes_def store_bytes_at)

lemma store_bytes_elsewhere:
  assumes "unat a + length bs \<le> 2 ^ 64" and "unat x < unat a \<or> unat a + length bs \<le> unat x"
  shows "store_bytes m a bs x = m x"
proof (rule store_bytes_other, intro allI impI notI)
  fix i
  assume i: "i < length bs" and x: "x = a + of_nat i"
  have "unat (a + of_nat i) = unat a + i"
    using assms(1) i by (intro unat_add_small) simp
  with assms(2) i x show False by simp
qed

lemma mem_bytes_frame:
  assumes "unat b + n \<le> 2 ^ 64" and "\<And>x. unat b \<le> unat x \<Longrightarrow> unat x < unat b + n \<Longrightarrow> m x = m' x"
  shows "mem_bytes m b n = mem_bytes m' b n"
  unfolding mem_bytes_def
proof (rule map_cong [OF refl])
  fix i
  assume "i \<in> set [0..<n]"
  then have i: "i < n" by simp
  then have "unat (b + of_nat i) = unat b + i"
    using assms(1) by (intro unat_add_small) simp
  with i show "m (b + of_nat i) = m' (b + of_nat i)"
    by (intro assms(2)) simp_all
qed

section \<open>Relocation\<close>

lemma relocate_loop_copies:
  assumes "unat src + 8 * n \<le> unat dst" and "unat dst + 8 * n \<le> 2 ^ 64" and "code_end = src + of_nat (8 * n)"
  shows "relocate_loop m dst src code_end = Some (store_bytes m dst (mem_bytes m src (8 * n)))"
  using assms
proof (induction n arbitrary: m dst src)
  case 0
  then show ?case by (subst relocate_loop.simps) (simp add: mem_bytes_def)
next
  case (Suc n)
  let ?m = "store_bytes m dst (mem_bytes m src 8)"
  have lt: "unat src + 8 * Suc n < 2 ^ 64"
    using Suc.prems(1,2) by simp
  have ends: "unat (src + of_nat (8 * Suc n)) = unat src + 8 * Suc n"
    using lt by (rule unat_add_small)
  have ne: "src \<noteq> code_end"
    using ends Suc.prems(3) by auto
  have s8: "unat (src + 8) = unat src + 8"
    using unat_add_small [of src 8] lt by simp
  have len: "length (mem_bytes m src 8) = 8" by (simp add: mem_bytes_def)
  have step: "relocate_loop m dst src code_end = relocate_loop ?m (dst + 8) (src + 8) code_end"
    using ne by (subst relocate_loop.simps) (simp add: copy_word)
  show ?case
  proof (cases n)
    case 0
    then have "code_end = src + 8" using Suc.prems(3) by simp
    then show ?thesis
      unfolding step 0 by (subst relocate_loop.simps) simp
  next
    case (Suc k)
    then have d8: "unat (dst + 8) = unat dst + 8"
      using unat_add_small [of dst 8] Suc.prems(2) by simp
    have "relocate_loop ?m (dst + 8) (src + 8) code_end =
        Some (store_bytes ?m (dst + 8) (mem_bytes ?m (src + 8) (8 * n)))"
      by (rule Suc.IH) (use Suc.prems d8 s8 in \<open>simp_all add: add.assoc\<close>)
    moreover have "mem_bytes ?m (src + 8) (8 * n) = mem_bytes m (src + 8) (8 * n)"
      using Suc.prems(1,2) s8 len by (intro mem_bytes_frame store_bytes_elsewhere) simp_all
    moreover have "mem_bytes m src (8 * Suc n) = mem_bytes m src 8 @ mem_bytes m (src + 8) (8 * n)"
      using mem_bytes_add [of m src 8 "8 * n"] by simp
    ultimately show ?thesis
      unfolding step by (simp add: store_bytes_append len)
  qed
qed

lemma load32_be: "load32 m a = be_word (rev (mem_bytes m a 4))"
  unfolding load32_def be_word_def mem_bytes_def foldr_conv_foldl rev_map foldl_map
  by (simp add: or.commute)

lemma mem_bytes_part:
  assumes "i + k \<le> n"
  shows "mem_bytes m (a + of_nat i) k = take k (drop i (mem_bytes m a n))"
  using mem_bytes_take [of k "n - i" m "a + of_nat i"] mem_bytes_drop [of i n m a] assms by simp

section \<open>Properties\<close>

text \<open>Where the linker script puts things: the flag before the \<^verbatim>\<open>bss\<close> section, all of it in a whole number of double
  words, and room for a copy above. The entry code compares addresses as signed numbers.\<close>

definition image_ok :: "boot_image \<Rightarrow> u64 \<Rightarrow> u64 \<Rightarrow> bool" where
  "image_ok im base to \<longleftrightarrow> unat (im_flag im) + 4 \<le> unat (im_sbss im) \<and> unat (im_sbss im) \<le> unat (im_ebss im) \<and>
     unat (im_ebss im) \<le> unat (im_size im) \<and> 8 dvd unat (im_sbss im) \<and> 8 dvd unat (im_size im) \<and>
     unat base + unat (im_size im) \<le> unat to \<and> unat to + unat (im_size im) + 8 \<le> 2 ^ 63"

abbreviation in_image :: "boot_image \<Rightarrow> u64 \<Rightarrow> u64 \<Rightarrow> bool" where
  "in_image im base x \<equiv> unat base \<le> unat x \<and> unat x < unat base + unat (im_size im)"

text \<open>The double words of the \<^verbatim>\<open>bss\<close> section.\<close>

definition in_bss :: "boot_image \<Rightarrow> u64 \<Rightarrow> u64 \<Rightarrow> bool" where
  "in_bss im base x \<longleftrightarrow> unat base + unat (im_sbss im) \<le> unat x \<and>
     unat x < unat base + unat (im_sbss im) + 8 * ((unat (im_ebss im) - unat (im_sbss im) + 7) div 8)"

text \<open>The device tree lies apart from the memory of \<open>S\<close>: whatever that holds, the tree is there.\<close>

definition fdt_apart :: "mem \<Rightarrow> u64 \<Rightarrow> dt_node \<Rightarrow> (u64 \<Rightarrow> bool) \<Rightarrow> bool" where
  "fdt_apart m dtb t S \<longleftrightarrow> (\<forall>m'. (\<forall>x. \<not> S x \<longrightarrow> m' x = m x) \<longrightarrow> fdt_blob m' dtb t)"

lemma blob_at_apart:
  assumes "blob_at m a t" and "\<And>i. i < length (encode_tree t) \<Longrightarrow> \<not> S (a + of_nat i)"
  shows "fdt_apart m a t S"
  unfolding fdt_apart_def using assms by (auto simp: blob_at_def bytes_at_nth intro!: blob_at_fdt)

lemma image_addrs:
  assumes "image_ok im base to" and "b = base \<or> b = to"
  shows "unat (b + im_sbss im) = unat b + unat (im_sbss im)" and "unat (b + im_ebss im) = unat b + unat (im_ebss im)"
    and "unat (b + im_flag im) = unat b + unat (im_flag im)" and "unat b + unat (im_size im) + 8 \<le> 2 ^ 63"
    and "in_bss im b x \<Longrightarrow> in_image im b x \<and> unat b + unat (im_flag im) + 4 \<le> unat x"
proof -
  show room: "unat b + unat (im_size im) + 8 \<le> 2 ^ 63"
    using assms by (auto simp: image_ok_def)
  have le: "unat (im_sbss im) \<le> unat (im_ebss im)" "unat (im_ebss im) \<le> unat (im_size im)"
    "unat (im_flag im) + 4 \<le> unat (im_sbss im)" "8 dvd unat (im_sbss im)" "8 dvd unat (im_size im)"
    using assms(1) by (simp_all add: image_ok_def)
  have sum: "unat (b + w) = unat b + unat w" if "unat w \<le> unat (im_size im)" for w
    using unat_add_small [of b "unat w"] that room by simp
  show "unat (b + im_sbss im) = unat b + unat (im_sbss im)" "unat (b + im_ebss im) = unat b + unat (im_ebss im)"
    "unat (b + im_flag im) = unat b + unat (im_flag im)"
    using le by (simp_all add: sum)
  obtain p q where pq: "unat (im_sbss im) = 8 * p" "unat (im_size im) = 8 * q"
    using le(4,5) by (auto elim!: dvdE)
  then have "(unat (im_ebss im) - unat (im_sbss im) + 7) div 8 \<le> q - p"
    using le(1,2) by linarith
  then have "unat (im_sbss im) + 8 * ((unat (im_ebss im) - unat (im_sbss im) + 7) div 8) \<le> unat (im_size im)"
    using pq le(1,2) by linarith
  then show "in_bss im b x \<Longrightarrow> in_image im b x \<and> unat b + unat (im_flag im) + 4 \<le> unat x"
    using le(3) by (auto simp: in_bss_def)
qed

text \<open>What \<^verbatim>\<open>main\<close> finds when the program starts at \<open>b\<close>.\<close>

lemma boot_start_main:
  assumes "image_ok im base to" and "b = base \<or> b = to"
  shows "\<exists>m. boot_start to im b c = boot_main to b (b + im_size im) (b + im_flag im) m (gpr c 11) \<and>
    (\<forall>x. m x = (if in_bss im b x then 0 else ram c x)) \<and> load32 m (b + im_flag im) = load32 (ram c) (b + im_flag im)"
proof -
  note ad = image_addrs [OF assms]
  have le: "unat (im_sbss im) \<le> unat (im_ebss im)" "unat (im_ebss im) \<le> unat (im_size im)"
    "unat (im_flag im) + 4 \<le> unat (im_sbss im)"
    using assms(1) by (simp_all add: image_ok_def)
  have "unat (b + im_sbss im) \<le> unat (b + im_ebss im)" "unat (b + im_ebss im) + 8 \<le> 2 ^ 63"
    unfolding ad(1,2) using le ad(4) by linarith+
  from start_clears_bss [OF this, of "b + im_stack im" c] obtain c1 where
    c1: "start_code (b + im_sbss im) (b + im_ebss im) (b + im_stack im) c = Some c1" "gpr c1 11 = gpr c 11"
    "\<And>x. ram c1 x = (if in_bss im b x then 0 else ram c x)"
    unfolding ad(1,2) in_bss_def by (auto simp: add.assoc)
  have "mem_bytes (ram c1) (b + im_flag im) 4 = mem_bytes (ram c) (b + im_flag im) 4"
  proof (rule mem_bytes_frame)
    show "unat (b + im_flag im) + 4 \<le> 2 ^ 64"
      unfolding ad(3) using le ad(4) by simp
    fix x :: u64
    assume "unat x < unat (b + im_flag im) + 4"
    then have "\<not> in_bss im b x" using ad(5) [of x] unfolding ad(3) by auto
    then show "ram c1 x = ram c x" by (simp add: c1(3))
  qed
  then have "load32 (ram c1) (b + im_flag im) = load32 (ram c) (b + im_flag im)"
    by (simp only: load32_be)
  with c1 show ?thesis
    by (intro exI [of _ "ram c1"]) (simp add: boot_start_def)
qed

text \<open>The copying half.\<close>

lemma boot_main_copies:
  assumes flag: "load32 m flag = 1" "flag = code_start + of_nat off" "off + 4 \<le> 8 * n"
    and room: "unat code_start + 8 * n \<le> unat to" "unat to + 8 * n \<le> 2 ^ 64"
    and code_end: "code_end = code_start + of_nat (8 * n)"
  shows "\<exists>m'. boot_main to code_start code_end flag m dtb = Some (Restarts_at to dtb m') \<and>
    mem_bytes m' to (8 * n) = mem_bytes (store32 m flag 0) code_start (8 * n) \<and>
    (\<forall>x. \<not> (unat to \<le> unat x \<and> unat x < unat to + 8 * n) \<longrightarrow> m' x = store32 m flag 0 x) \<and>
    load32 m' (to + of_nat off) = 0"
proof -
  let ?m = "store32 m flag 0"
  let ?bs = "mem_bytes ?m code_start (8 * n)"
  let ?m' = "store_bytes ?m to ?bs"
  have len: "length ?bs = 8 * n" by (simp add: mem_bytes_def)
  have n: "0 < n" "8 * n < 2 ^ 64"
    using flag(3) room by auto
  have copy: "mem_bytes ?m' to (8 * n) = ?bs"
    using store_bytes_read [of ?bs ?m to] n(2) unfolding len .
  have "mem_bytes ?m' (to + of_nat off) 4 = take 4 (drop off (mem_bytes ?m' to (8 * n)))"
    by (rule mem_bytes_part [OF flag(3)])
  also have "\<dots> = take 4 (drop off ?bs)"
    by (simp only: copy)
  also have "\<dots> = mem_bytes ?m (code_start + of_nat off) 4"
    by (rule mem_bytes_part [OF flag(3), symmetric])
  also have "\<dots> = mem_bytes ?m flag 4"
    by (simp only: flag(2))
  finally have "load32 ?m' (to + of_nat off) = 0"
    using load32_store32 [of m flag 0] unfolding load32_be by simp
  moreover have "boot_main to code_start code_end flag m dtb = Some (Restarts_at to dtb ?m')"
    using relocate_loop_copies [OF room code_end] flag(1) by (simp add: boot_main_def code_relocate_def)
  moreover have "?m' x = ?m x" if "\<not> (unat to \<le> unat x \<and> unat x < unat to + 8 * n)" for x
    using that room(2) len by (intro store_bytes_elsewhere) auto
  ultimately show ?thesis
    using copy by blast
qed

text \<open>
  C25: The boot loader moves itself exactly once. Started where it was loaded, it clears its \<^verbatim>\<open>bss\<close> section, copies its code and
  data, word by word, to the relocation address, changes nothing else but its flag, and jumps to the copy with the
  device tree it was given. The copy, whose entry code clears its own \<^verbatim>\<open>bss\<close> section, finds the flag 0, and
  instead of copying again it looks up its serial port in the device tree and enters the shell with the greeting. The layout of the
  image must be the one of the linker script, with the flag outside of \<^verbatim>\<open>bss\<close> and the image ending below the relocation
  address, and the device tree must be well formed and lie apart from the image and from the copy.
\<close>

theorem bootloader_relocates_once:
  assumes layout: "image_ok im base to" and flag: "load32 (ram c) (base + im_flag im) = 1" and dtb: "gpr c 11 = dtb"
    and tree: "fdt_apart (ram c) dtb t (\<lambda>x. in_image im base x \<or> in_image im to x)"
  shows "\<exists>m'. boot_start to im base c = Some (Restarts_at to dtb m') \<and>
    (\<forall>i<unat (im_size im). m' (to + of_nat i) = m' (base + of_nat i)) \<and>
    (\<forall>x. \<not> in_image im to x \<and> (x - (base + im_flag im)) \<notin> {0, 1, 2, 3} \<longrightarrow> m' x = (if in_bss im base x then 0 else ram c x)) \<and>
    (\<forall>d. ram d = m' \<and> gpr d 11 = dtb \<longrightarrow> boot_start to im to d =
       Some (Enters_shell (dt_value serial_path ''reg'' t) (text_line ''Welcome to OPI-RV2 bootloader!'')))"
proof -
  obtain n where n: "unat (im_size im) = 8 * n"
    using layout by (auto simp: image_ok_def elim!: dvdE)
  have le: "unat (im_flag im) + 4 \<le> 8 * n" "unat base + 8 * n \<le> unat to" "unat to + 8 * n \<le> 2 ^ 64"
    using layout n by (simp_all add: image_ok_def)
  have flag_at: "base + im_flag im = base + of_nat (unat (im_flag im))"
    by simp
  obtain m where m: "boot_start to im base c = boot_main to base (base + im_size im) (base + im_flag im) m dtb"
    "\<And>x. m x = (if in_bss im base x then 0 else ram c x)" "load32 m (base + im_flag im) = 1"
    using boot_start_main [OF layout, of base c] flag dtb by auto
  have code_end: "base + im_size im = base + of_nat (8 * n)"
    by (simp flip: n)
  obtain m' where m': "boot_main to base (base + im_size im) (base + im_flag im) m dtb = Some (Restarts_at to dtb m')"
    "mem_bytes m' to (8 * n) = mem_bytes (store32 m (base + im_flag im) 0) base (8 * n)"
    "\<And>x. \<not> (unat to \<le> unat x \<and> unat x < unat to + 8 * n) \<Longrightarrow> m' x = store32 m (base + im_flag im) 0 x"
    "load32 m' (to + of_nat (unat (im_flag im))) = 0"
    using boot_main_copies [OF m(3) flag_at le code_end, of dtb] by blast
  have copy: "m' (to + of_nat i) = m' (base + of_nat i)" if "i < unat (im_size im)" for i
  proof -
    have i: "i < 8 * n" using that n by simp
    then have "unat (base + of_nat i) = unat base + i"
      using le by (intro unat_add_small) simp
    then have "m' (base + of_nat i) = store32 m (base + im_flag im) 0 (base + of_nat i)"
      using i le by (intro m'(3)) simp
    with m'(2) i show ?thesis by (simp add: mem_bytes_def)
  qed
  have store: "store32 m a 0 x = m x" if "x - a \<notin> {0, 1, 2, 3}" for a x
    using that unfolding store32_def le_bytes_def by (intro store_bytes_other) (auto simp: less_Suc_eq numeral_eq_Suc)
  have rest: "m' x = (if in_bss im base x then 0 else ram c x)"
    if "\<not> in_image im to x" "x - (base + im_flag im) \<notin> {0, 1, 2, 3}" for x
    using m'(3) [of x] store [OF that(2)] m(2) that(1) n by simp
  have restart: "boot_start to im to d =
      Some (Enters_shell (dt_value serial_path ''reg'' t) (text_line ''Welcome to OPI-RV2 bootloader!''))"
    if d: "ram d = m'" "gpr d 11 = dtb" for d
  proof -
    obtain m2 where m2: "boot_start to im to d = boot_main to to (to + im_size im) (to + im_flag im) m2 dtb"
      "\<And>x. m2 x = (if in_bss im to x then 0 else m' x)" "load32 m2 (to + im_flag im) = 0"
      using boot_start_main [OF layout, of to d] d m'(4) by auto
    have "m2 x = ram c x" if "\<not> (in_image im base x \<or> in_image im to x)" for x
    proof -
      have "x - (base + im_flag im) \<notin> {0, 1, 2, 3}"
      proof
        assume "x - (base + im_flag im) \<in> {0, 1, 2, 3}"
        then obtain i where "x = base + im_flag im + of_nat i" "i < 4"
          by (auto simp: diff_eq_eq add.commute intro: that [of 0] that [of 1] that [of 2] that [of 3])
        with image_addrs [OF layout, of base] le n that show False
          using unat_add_small [of "base + im_flag im" i] by auto
      qed
      with rest [of x] m2(2) image_addrs(5) [OF layout, of base x] image_addrs(5) [OF layout, of to x] that show ?thesis
        by auto
    qed
    with tree have "fdt_blob m2 dtb t"
      unfolding fdt_apart_def by blast
    then show ?thesis
      unfolding m2(1) boot_main_def m2(3) by (simp add: boot_props(1))
  qed
  from m(1) m'(1) copy rest restart show ?thesis
    by (intro exI [of _ m']) auto
qed

text \<open>An image of three double words, with the flag in the second and \<^verbatim>\<open>bss\<close> in the third.\<close>

definition sample_image :: boot_image where
  "sample_image = \<lparr>im_size = 24, im_flag = 8, im_sbss = 16, im_ebss = 24, im_stack = 0x1018\<rparr>"

definition sample_boot_cpu :: cpu where
  "sample_boot_cpu = \<lparr>gpr = (\<lambda>_. 0)(11 := 0x1000), csrs = (\<lambda>_. 0),
     ram = store32 (placed 0x1000 (encode_tree sample_tree)) 0x80200008 1, pc = 0, user_mode = False\<rparr>"

theorem bootloader_relocates_once_witness:
  "\<exists>m'. boot_start 0x82000000 sample_image 0x80200000 sample_boot_cpu = Some (Restarts_at 0x82000000 0x1000 m') \<and>
     (\<exists>u out. boot_start 0x82000000 sample_image 0x82000000 (sample_boot_cpu\<lparr>ram := m'\<rparr>) = Some (Enters_shell u out))"
proof -
  have layout: "image_ok sample_image 0x80200000 0x82000000"
    by (simp add: image_ok_def sample_image_def)
  have flag: "load32 (ram sample_boot_cpu) (0x80200000 + im_flag sample_image) = 1"
    using load32_store32 [of _ "0x80200008" 1] by (simp add: sample_boot_cpu_def sample_image_def)
  have len: "length (encode_tree sample_tree) = 0x141"
    by (simp add: sample_tree_def encode_tree_def Let_def length_pad4 ascii_def)
  have at: "unat (0x1000 + of_nat i :: u64) = 0x1000 + i" if "i < 0x141" for i
    using that unat_add_small [of "0x1000 :: u64" i] by simp
  have "store32 m 0x80200008 1 (0x1000 + of_nat i) = m (0x1000 + of_nat i)" if "i < 0x141" for m i
    unfolding store32_def using at [OF that] that by (intro store_bytes_elsewhere) (simp_all add: le_bytes_def)
  then have "blob_at (ram sample_boot_cpu) 0x1000 sample_tree"
    using sample_blob len by (simp add: blob_at_def bytes_at_nth sample_boot_cpu_def)
  then have "fdt_apart (ram sample_boot_cpu) 0x1000 sample_tree
      (\<lambda>x. in_image sample_image 0x80200000 x \<or> in_image sample_image 0x82000000 x)"
    by (rule blob_at_apart) (simp add: len at sample_image_def)
  from bootloader_relocates_once [OF layout flag _ this] show ?thesis
    by (auto simp: sample_boot_cpu_def)
qed

lemma load_bytes_stores:
  "n \<le> length rs \<Longrightarrow> load_bytes n rs dst m = Some (store_bytes m dst (map ucast (take n rs)))"
  by (induction n rs dst m rule: load_bytes.induct) auto

text \<open>The header that \<^verbatim>\<open>send_kernel.py\<close> sends before an image: the magic number and the size, little
  endian.\<close>

definition boot_header :: "u32 \<Rightarrow> i32 list" where
  "boot_header sz = map ucast (le_bytes 4 BOOT_MAGIC @ le_bytes 4 sz)"

lemma header_word_le:
  "header_word (ucast (ucast w :: u8)) (ucast (ucast (drop_bit 8 w) :: u8))
     (ucast (ucast (drop_bit 16 w) :: u8)) (ucast (ucast (drop_bit 24 w) :: u8)) = (w :: u32)"
proof (rule bit_word_eqI)
  fix n
  assume "n < LENGTH(32)"
  then consider "n < 8" | "8 \<le> n" "n < 16" | "16 \<le> n" "n < 24" | "24 \<le> n" "n < 32"
    by fastforce
  then show "bit (header_word (ucast (ucast w :: u8)) (ucast (ucast (drop_bit 8 w) :: u8))
      (ucast (ucast (drop_bit 16 w) :: u8)) (ucast (ucast (drop_bit 24 w) :: u8))) n = bit w n"
    unfolding header_word_def
    by cases (simp_all add: bit_simps less_diff_conv2 le_diff_conv2)
qed

lemma le_bytes4:
  "le_bytes 4 (w :: u32) = [ucast w, ucast (drop_bit 8 w), ucast (drop_bit 16 w), ucast (drop_bit 24 w)]"
  by (simp add: le_bytes_def upt_rec)

text \<open>The size as the boot loader reads it: every carriage return byte has become a line feed.\<close>

definition line_word :: "u32 \<Rightarrow> u32" where
  "line_word w = (let c = (\<lambda>i. line_end (ucast (ucast (drop_bit i w) :: u8)))
     in header_word (c 0) (c 8) (c 16) (c 24))"

lemma byte_back: "(ucast (ucast (b :: u8) :: i32) :: u8) = b"
  by (rule bit_word_eqI) (auto simp: bit_simps)

lemma line_end_byte: "b \<noteq> 13 \<Longrightarrow> line_end (ucast (b :: u8)) = ucast b"
proof -
  assume "b \<noteq> 13"
  have "ucast b \<noteq> (13 :: i32)"
  proof
    assume "ucast b = (13 :: i32)"
    then have "(ucast (ucast b :: i32) :: u8) = ucast (13 :: i32)" by (simp only:)
    then have "b = 13" by (simp add: byte_back)
    with \<open>b \<noteq> 13\<close> show False ..
  qed
  then show ?thesis by (simp add: line_end_def)
qed

lemma line_word_same: "13 \<notin> set (le_bytes 4 w) \<Longrightarrow> line_word w = w"
  unfolding le_bytes4 line_word_def Let_def
  using header_word_le [of w] by (simp add: line_end_byte)

text \<open>What the receiver delivers, whatever the waiting in between.\<close>

definition delivered :: "readings \<Rightarrow> i32 list" where
  "delivered s = map (\<lambda>(lsr, rbr). if lsr AND LSR_ERRORS \<noteq> 0 then -1 else rbr AND 0xFF)
     (filter (\<lambda>(lsr, rbr). lsr AND LSR_DR \<noteq> 0) s)"

lemma boot_getc_raw_delivered:
  "case delivered s of [] \<Rightarrow> boot_uart_getc_raw s = None
   | c # cs \<Rightarrow> \<exists>s'. boot_uart_getc_raw s = Some (c, s') \<and> delivered s' = cs"
  by (induction s) (auto simp: delivered_def split: list.splits)

lemma boot_read_delivered:
  assumes "delivered s = cs @ rest"
  shows "\<exists>s'. boot_read boot_uart_getc_raw (length cs) s = Some (cs, s') \<and> delivered s' = rest"
    and "\<exists>s'. boot_read boot_uart_getc (length cs) s = Some (map line_end cs, s') \<and> delivered s' = rest"
  using assms
proof (induction cs arbitrary: s)
  case (Cons c cs)
  have first: "\<exists>s'. boot_uart_getc_raw s = Some (c, s') \<and> delivered s' = cs @ rest" if "delivered s = (c # cs) @ rest" for s
    using boot_getc_raw_delivered [of s] that by simp
  case 1
  from first [OF 1] obtain s1 where s1: "boot_uart_getc_raw s = Some (c, s1)" "delivered s1 = cs @ rest" by blast
  from Cons.IH(1) [OF s1(2)] s1(1) show ?case by auto
  case 2
  from first [OF 2] obtain s1 where s1: "boot_uart_getc_raw s = Some (c, s1)" "delivered s1 = cs @ rest" by blast
  from Cons.IH(2) [OF s1(2)] s1(1) show ?case by (auto simp: boot_uart_getc_def)
qed simp_all

lemma boot_load_result:
  assumes "delivered s = boot_header sz @ map ucast img" and "unat (line_word sz) \<le> length img"
  shows "\<exists>out s'. boot_load_kernel base s m =
      Some (store_bytes m base (take (unat (line_word sz)) img), s', True, out) \<and>
    delivered s' = map ucast (drop (unat (line_word sz)) img)"
proof -
  let ?n = "unat (line_word sz)"
  have magic: "line_word BOOT_MAGIC = BOOT_MAGIC"
    by (rule line_word_same) (simp add: le_bytes4 BOOT_MAGIC_def)
  have len: "length (boot_header sz) = 8" by (simp add: boot_header_def le_bytes4)
  obtain s1 where s1: "boot_read boot_uart_getc 8 s = Some (map line_end (boot_header sz), s1)"
    "delivered s1 = map ucast img"
    using boot_read_delivered(2) [OF assms(1)] unfolding len by blast
  have "delivered s1 = map ucast (take ?n img) @ map ucast (drop ?n img)"
    using s1(2) by (simp flip: map_append)
  from boot_read_delivered(1) [OF this] obtain s2 where
    s2: "boot_read boot_uart_getc_raw ?n s1 = Some (map ucast (take ?n img), s2)" "delivered s2 = map ucast (drop ?n img)"
    using assms(2) by auto
  have "load_bytes ?n (map ucast (take ?n img)) base m =
      Some (store_bytes m base (map ucast (take ?n (map ucast (take ?n img) :: i32 list))))"
    using assms(2) by (intro load_bytes_stores) simp
  moreover have "map ucast (take ?n (map ucast (take ?n img) :: i32 list)) = take ?n img"
    by (simp add: take_map comp_def byte_back)
  ultimately show ?thesis
    using magic s1(1) s2 unfolding boot_load_kernel_def boot_header_def le_bytes4
    by (simp add: shell_load_kernel_def Let_def line_word_def)
qed

text \<open>
  C26: A kernel sent as \<^verbatim>\<open>send_kernel.py\<close> sends it, with any pauses between the bytes, arrives byte for
  byte at the load address and is entered, and nothing of it is left in the receiver, provided no byte
  of its size is 13. A size with such a byte is read as a different one, because the header goes
  through the function that turns a carriage return into a line feed: of an image of 13 bytes only the
  first 10 are loaded.
\<close>

theorem sent_kernel_is_loaded:
  assumes "length img < 2 ^ 32" and "13 \<notin> set (le_bytes 4 (of_nat (length img) :: u32))"
    and "delivered s = boot_header (of_nat (length img)) @ map ucast img"
  shows "(\<exists>m' s' out. boot_load_kernel base s m = Some (m', s', True, out) \<and>
      mem_bytes m' base (length img) = img \<and> delivered s' = []) \<and>
    (\<forall>img s. length img = 13 \<and> delivered s = boot_header 13 @ map ucast img \<longrightarrow>
      (\<exists>out s'. boot_load_kernel base s m = Some (store_bytes m base (take 10 img), s', True, out)))"
proof
  have "unat (line_word (of_nat (length img))) = length img"
    unfolding line_word_same [OF assms(2)] using assms(1) by (rule unat_of_nat32)
  with boot_load_result [OF assms(3), of base m] store_bytes_read [of img m base] assms(1)
  show "\<exists>m' s' out. boot_load_kernel base s m = Some (m', s', True, out) \<and>
      mem_bytes m' base (length img) = img \<and> delivered s' = []"
    by auto
  have "line_word 13 = 10"
    by (simp add: line_word_def Let_def line_end_def header_word_def)
  then show "\<forall>img s. length img = 13 \<and> delivered s = boot_header 13 @ map ucast img \<longrightarrow>
      (\<exists>out s'. boot_load_kernel base s m = Some (store_bytes m base (take 10 img), s', True, out))"
    using boot_load_result [of _ 13 _ base m] by fastforce
qed

text \<open>A kernel of three bytes, with rounds of waiting before the first and the last byte.\<close>

definition sent_bytes :: readings where
  "sent_bytes = [(0, 0), (0x60, 0x42), (0x61, 0x42), (1, 0x4F), (1, 0x4F), (1, 0x54), (1, 3), (1, 0), (1, 0), (1, 0),
     (1, 0x13), (1, 0), (0, 0x13), (1, 0)]"

theorem sent_kernel_is_loaded_witness:
  "\<exists>m' s' out. boot_load_kernel 0x80200000 sent_bytes (\<lambda>_. 0) = Some (m', s', True, out) \<and>
     mem_bytes m' 0x80200000 3 = [0x13, 0, 0]"
proof -
  have l: "length [0x13, 0, 0 :: u8] = 3" by simp
  have "13 \<notin> set (le_bytes 4 (of_nat 3 :: u32))" by (simp add: le_bytes4)
  moreover have "delivered sent_bytes = boot_header (of_nat 3) @ map ucast [0x13, 0, 0 :: u8]"
    by (simp add: delivered_def sent_bytes_def boot_header_def le_bytes4 BOOT_MAGIC_def LSR_DR_def LSR_ERRORS_def)
  ultimately show ?thesis
    using sent_kernel_is_loaded [of "[0x13, 0, 0]" sent_bytes "0x80200000" "\<lambda>_. 0"] unfolding l
    by auto
qed

end
