(* ===== verification/Plic.thy ===== *)
theory Plic
  imports Trap Boot_Dtb
begin

text \<open>
  The interrupt controller of \<^verbatim>\<open>kernel/src/plic.c\<close> and the bring-up of the devices in
  \<^verbatim>\<open>kernel/src/main.c\<close> (steps 11 and 12): the serial port and its interrupt, whose number the device
  tree gives, and the interrupt controller, which has to let through exactly that interrupt.
\<close>

section \<open>Interrupt controller\<close>

definition PLIC_PRIORITY_OFF :: u64 where "PLIC_PRIORITY_OFF = 0"
definition PLIC_ENABLE_OFF :: u64 where "PLIC_ENABLE_OFF = 0x2000"
definition PLIC_ENABLE_STRIDE :: u64 where "PLIC_ENABLE_STRIDE = 0x80"
definition PLIC_THRESHOLD_OFF :: u64 where "PLIC_THRESHOLD_OFF = 0x200000"
definition PLIC_CONTEXT_STRIDE :: u64 where "PLIC_CONTEXT_STRIDE = 0x1000"
definition PLIC_CLAIM_OFF :: u64 where "PLIC_CLAIM_OFF = 0x200004"

record plic =
  g_plic_base :: u64
  g_plic_ctx :: u32

text \<open>The configuration registers of the device hold what is written to them.\<close>

type_synonym registers = "u64 \<Rightarrow> u32"

definition plic_init :: "u64 \<Rightarrow> u32 \<Rightarrow> u32 \<Rightarrow> registers \<Rightarrow> plic \<times> registers" where
  "plic_init base irq c regs =
     (let r1 = regs(base + PLIC_PRIORITY_OFF + 4 * ucast irq := 1);
          enable_reg = base + PLIC_ENABLE_OFF + PLIC_ENABLE_STRIDE * ucast c + 4 * ucast (irq div 32);
          b = push_bit (unat (irq mod 32)) 1;
          r2 = r1(enable_reg := r1 enable_reg OR b);
          r3 = r2(base + PLIC_THRESHOLD_OFF + PLIC_CONTEXT_STRIDE * ucast c := 0)
      in (\<lparr>g_plic_base = base, g_plic_ctx = c\<rparr>, r3))"

text \<open>Reading the claim register changes the device: \<open>rd\<close> and \<open>wr\<close> are a read and a write of one of its
  registers.\<close>

definition claim_reg :: "plic \<Rightarrow> u64" where
  "claim_reg p = g_plic_base p + PLIC_CLAIM_OFF + PLIC_CONTEXT_STRIDE * ucast (g_plic_ctx p)"

definition plic_claim :: "(u64 \<Rightarrow> 'd \<Rightarrow> u32 \<times> 'd) \<Rightarrow> plic \<Rightarrow> 'd \<Rightarrow> u32 \<times> 'd" where
  "plic_claim rd p d = rd (claim_reg p) d"

definition plic_complete :: "(u64 \<Rightarrow> u32 \<Rightarrow> 'd \<Rightarrow> 'd) \<Rightarrow> plic \<Rightarrow> u32 \<Rightarrow> 'd \<Rightarrow> 'd" where
  "plic_complete wr p irq d = wr (claim_reg p) irq d"

definition PLIC_CTX_HART_S :: "u64 \<Rightarrow> u32" where
  "PLIC_CTX_HART_S hart_id = 2 * ucast hart_id + 1"

section \<open>Bring-up\<close>

text \<open>The result is the state of the serial driver and of the interrupt controller, the number that
  \<^verbatim>\<open>trap_set_uart_irq\<close> stores for the trap handler, and the text printed. \<open>qemu\<close> tells for which of the
  two boards the kernel was built.\<close>

record irq_setup =
  is_uart :: uart
  is_plic :: plic
  is_regs :: registers
  is_uart_irq :: u32

definition boot_irq :: "bool \<Rightarrow> mem \<Rightarrow> u64 \<Rightarrow> u64 \<Rightarrow> uart \<Rightarrow> registers \<Rightarrow> (irq_setup \<times> u8 list) option" where
  "boot_irq qemu m dtb_ptr hart_id u regs = do {
     let u1 = uart_init u;
     plic_base \<leftarrow> dt_prop m dtb_ptr (if qemu then ''/soc/plic'' else ''/soc/interrupt-controller'') ''reg'';
     n \<leftarrow> dt_prop m dtb_ptr ''/soc/serial'' ''interrupts'';
     let uart_irq = ucast n;
     let plic_ctx = PLIC_CTX_HART_S hart_id;
     let (p, regs') = plic_init plic_base uart_irq plic_ctx regs;
     Some (\<lparr>is_uart = uart_enable_irq_mode u1, is_plic = p, is_regs = regs', is_uart_irq = uart_irq\<rparr>,
       ascii ''[Trap] stvec installed.'' @ newline @ ascii ''[UART] RX/TX IRQ configured.'' @ newline @
       ascii ''[PLIC] UART0 IRQ '' @ print_dec_ulong (ucast uart_irq) @ ascii '' enabled (ctx '' @
       print_dec_ulong (ucast plic_ctx) @ ascii '').'' @ newline)
   }"

section \<open>Registers\<close>

definition enable_reg :: "u64 \<Rightarrow> u32 \<Rightarrow> u32 \<Rightarrow> u64" where
  "enable_reg base c irq = base + PLIC_ENABLE_OFF + PLIC_ENABLE_STRIDE * ucast c + 4 * ucast (irq div 32)"

lemma plic_offsets:
  fixes irq c :: u32
  assumes "unat irq < 1024" and "unat c < 15872"
  shows "unat (PLIC_PRIORITY_OFF + 4 * ucast irq) = 4 * unat irq"
    and "unat (PLIC_ENABLE_OFF + PLIC_ENABLE_STRIDE * ucast c + 4 * ucast (irq div 32)) =
      8192 + 128 * unat c + 4 * (unat irq div 32)"
    and "unat (PLIC_THRESHOLD_OFF + PLIC_CONTEXT_STRIDE * ucast c) = 2097152 + 4096 * unat c"
  using assms
  by (simp_all add: PLIC_PRIORITY_OFF_def PLIC_ENABLE_OFF_def PLIC_ENABLE_STRIDE_def PLIC_THRESHOLD_OFF_def
      PLIC_CONTEXT_STRIDE_def unat_word_ariths unsigned_ucast_eq take_bit_nat_eq_self unat_div)

lemma plic_init_registers:
  fixes irq c :: u32
  assumes irq: "unat irq < 1024" and c: "unat c < 15872"
  shows "\<exists>regs'. plic_init base irq c regs = (\<lparr>g_plic_base = base, g_plic_ctx = c\<rparr>, regs') \<and>
    regs' (base + PLIC_PRIORITY_OFF + 4 * ucast irq) = 1 \<and>
    (\<forall>j. bit (regs' (enable_reg base c irq)) j \<longleftrightarrow> bit (regs (enable_reg base c irq)) j \<or> j = unat irq mod 32) \<and>
    regs' (base + PLIC_THRESHOLD_OFF + PLIC_CONTEXT_STRIDE * ucast c) = 0 \<and>
    (\<forall>a. a \<notin> {base + PLIC_PRIORITY_OFF + 4 * ucast irq, enable_reg base c irq, base + PLIC_THRESHOLD_OFF + PLIC_CONTEXT_STRIDE * ucast c} \<longrightarrow>
      regs' a = regs a)"
proof -
  let ?p = "PLIC_PRIORITY_OFF + 4 * ucast irq :: u64"
  let ?e = "PLIC_ENABLE_OFF + PLIC_ENABLE_STRIDE * ucast c + 4 * ucast (irq div 32) :: u64"
  let ?t = "PLIC_THRESHOLD_OFF + PLIC_CONTEXT_STRIDE * ucast c :: u64"
  note off = plic_offsets [OF irq c]
  have d: "unat irq div 32 < 32" using irq by linarith
  have lt: "unat ?p < unat ?e" "unat ?p < unat ?t" "unat ?e < unat ?t"
    unfolding off using irq c d by linarith+
  have diff: "unat x < unat y \<Longrightarrow> x \<noteq> y" for x y :: u64
    by auto
  note ne = diff [OF lt(1)] diff [OF lt(2)] diff [OF lt(3)]
  have regs: "base + PLIC_PRIORITY_OFF + 4 * ucast irq = base + ?p" "enable_reg base c irq = base + ?e"
    "base + PLIC_THRESHOLD_OFF + PLIC_CONTEXT_STRIDE * ucast c = base + ?t"
    "base + PLIC_ENABLE_OFF + PLIC_ENABLE_STRIDE * ucast c + 4 * ucast (irq div 32) = base + ?e"
    by (simp_all only: enable_reg_def add.assoc)
  have b: "bit (2 ^ unat (irq mod 32) :: u32) j \<longleftrightarrow> j = unat irq mod 32" for j
    by (auto simp: bit_exp_iff unat_mod)
  let ?r = "(regs(base + ?p := 1))(base + ?e := regs (base + ?e) OR push_bit (unat (irq mod 32)) 1, base + ?t := 0)"
  have run: "plic_init base irq c regs = (\<lparr>g_plic_base = base, g_plic_ctx = c\<rparr>, ?r)"
    unfolding plic_init_def Let_def regs using ne(1) [symmetric] by simp
  show ?thesis
    unfolding run regs using ne ne [symmetric] by (simp add: bit_or_iff b)
qed

section \<open>Properties\<close>

definition plic_path :: "bool \<Rightarrow> u8 list list" where
  "plic_path qemu = [ascii ''soc'', ascii (if qemu then ''plic'' else ''interrupt-controller'')]"

lemma boot_irq_props:
  assumes "fdt_blob m a t"
  shows "dt_prop m a (if qemu then ''/soc/plic'' else ''/soc/interrupt-controller'') ''reg'' =
      Some (dt_value (plic_path qemu) ''reg'' t)"
    and "dt_prop m a ''/soc/serial'' ''interrupts'' = Some (dt_value serial_path ''interrupts'' t)"
proof -
  have "ascii (if qemu then ''/soc/plic'' else ''/soc/interrupt-controller'') = path_bytes (plic_path qemu)"
    "segs_ok (plic_path qemu)"
    by (cases qemu; auto simp: ascii_def path_bytes_def plic_path_def segs_ok_def)+
  from dt_prop_tree [OF assms this, of "''reg''"]
  show "dt_prop m a (if qemu then ''/soc/plic'' else ''/soc/interrupt-controller'') ''reg'' =
      Some (dt_value (plic_path qemu) ''reg'' t)"
    unfolding dt_value_def by (cases qemu) (simp_all add: ascii_def)
  have "ascii ''/soc/serial'' = path_bytes serial_path"
    by (simp add: ascii_def path_bytes_def serial_path_def)
  from dt_prop_tree [OF assms this serial_path_ok(1), of "''interrupts''"]
  show "dt_prop m a ''/soc/serial'' ''interrupts'' = Some (dt_value serial_path ''interrupts'' t)"
    unfolding dt_value_def by (simp add: ascii_def)
qed

lemma hart_context: "unat h < 7936 \<Longrightarrow> unat (PLIC_CTX_HART_S h) = 2 * unat h + 1"
  by (simp add: PLIC_CTX_HART_S_def unat_word_ariths unsigned_ucast_eq take_bit_nat_eq_self)

text \<open>
  C27: The bring-up enables exactly the interrupt of the serial port. With a device tree that gives it a
  number below 1024, it sets the priority of that interrupt to 1, adds its bit, and no other, to the
  enable register of supervisor mode on the boot hart, sets the threshold to 0 and changes no other
  register of the controller; the trap handler knows the interrupt by the same number, and the
  serial port raises it for received bytes but not yet for an empty transmitter.
\<close>

theorem boot_enables_uart_irq:
  assumes "fdt_blob m a t" and h: "unat h < 7936"
    and base: "base = dt_value (plic_path qemu) ''reg'' t"
    and irq: "irq = ucast (dt_value serial_path ''interrupts'' t)" "unat irq < 1024"
    and c: "c = PLIC_CTX_HART_S h"
  shows "\<exists>s out. boot_irq qemu m a h u regs = Some (s, out) \<and> is_uart_irq s = irq \<and>
    is_regs s (base + PLIC_PRIORITY_OFF + 4 * ucast irq) = 1 \<and>
    (\<forall>j. bit (is_regs s (enable_reg base c irq)) j \<longleftrightarrow>
       bit (regs (enable_reg base c irq)) j \<or> j = unat irq mod 32) \<and>
    is_regs s (base + PLIC_THRESHOLD_OFF + PLIC_CONTEXT_STRIDE * ucast c) = 0 \<and>
    (\<forall>a. a \<notin> {base + PLIC_PRIORITY_OFF + 4 * ucast irq, enable_reg base c irq,
        base + PLIC_THRESHOLD_OFF + PLIC_CONTEXT_STRIDE * ucast c} \<longrightarrow> is_regs s a = regs a) \<and>
    g_uart_irq_mode (is_uart s) \<and> uart_IER (is_uart s) AND IER_RAVIE \<noteq> 0 \<and> uart_IER (is_uart s) AND IER_TIE = 0"
proof -
  have "unat c < 15872"
    unfolding c hart_context [OF h] using h by linarith
  from plic_init_registers [OF irq(2) this, of base regs] obtain regs' where
    run: "plic_init base irq c regs = (\<lparr>g_plic_base = base, g_plic_ctx = c\<rparr>, regs')" and
    regs: "regs' (base + PLIC_PRIORITY_OFF + 4 * ucast irq) = 1"
      "\<forall>j. bit (regs' (enable_reg base c irq)) j \<longleftrightarrow> bit (regs (enable_reg base c irq)) j \<or> j = unat irq mod 32"
      "regs' (base + PLIC_THRESHOLD_OFF + PLIC_CONTEXT_STRIDE * ucast c) = 0"
      "\<forall>a. a \<notin> {base + PLIC_PRIORITY_OFF + 4 * ucast irq, enable_reg base c irq,
        base + PLIC_THRESHOLD_OFF + PLIC_CONTEXT_STRIDE * ucast c} \<longrightarrow> regs' a = regs a"
    by blast
  have ier: "(w AND NOT IER_TIE OR IER_RAVIE) AND IER_RAVIE \<noteq> 0" "(w AND NOT IER_TIE OR IER_RAVIE) AND IER_TIE = 0" for w
  proof -
    have "bit ((w AND NOT IER_TIE OR IER_RAVIE) AND IER_RAVIE) 0"
      by (simp add: bit_simps IER_RAVIE_def)
    then show "(w AND NOT IER_TIE OR IER_RAVIE) AND IER_RAVIE \<noteq> 0" by force
    show "(w AND NOT IER_TIE OR IER_RAVIE) AND IER_TIE = 0"
      by (rule bit_word_eqI) (auto simp: bit_simps IER_RAVIE_def IER_TIE_def)
  qed
  show ?thesis
    using regs ier unfolding boot_irq_def boot_irq_props [OF assms(1)] bind.bind_lunit Let_def
      base [symmetric] irq(1) [symmetric] c [symmetric] run prod.case
    by (simp add: uart_enable_irq_mode_def uart_init_def)
qed

text \<open>The board with an interrupt controller.\<close>

definition plic_tree :: dt_node where
  "plic_tree = Node [] []
     [Node (ascii ''soc'') []
        [Node (ascii ''serial@10000000'')
           [(ascii ''interrupts'', be32 10), (ascii ''reg'', be32 0 @ be32 0x10000000 @ be32 0 @ be32 0x100)] [],
         Node (ascii ''plic@c000000'') [(ascii ''reg'', be32 0 @ be32 0xC000000 @ be32 0 @ be32 0x600000)] []]]"

theorem boot_enables_uart_irq_witness:
  "\<forall>u. \<exists>s out. boot_irq True (placed 0x1000 (encode_tree plic_tree)) 0x1000 0 u (\<lambda>_. 0) = Some (s, out) \<and>
     is_uart_irq s = 10 \<and> is_regs s (enable_reg 0xC000000 1 10) = 0x400"
proof
  fix u
  have blob: "blob_at (placed 0x1000 (encode_tree plic_tree)) 0x1000 plic_tree"
    by (rule placed_blob) (simp_all add: clean_tree_def plic_tree_def encode_tree_def Let_def length_pad4 ascii_def)
  have "first_some (map (prop_below (ascii ''reg'')) (candidates (plic_path True) plic_tree)) =
      Some (be32 0 @ be32 0xC000000 @ be32 0 @ be32 0x600000)"
    by (simp add: candidates_def plic_tree_def plic_path_def seg_matches_def base_name_def prop_below_def ascii_def)
  moreover have "dt_number (Some (be32 0 @ be32 0xC000000 @ be32 0 @ be32 0x600000)) = 0xC000000"
    using be_word_pair [of "0xC000000"] by (simp add: dt_number_def)
  ultimately have base: "0xC000000 = dt_value (plic_path True) ''reg'' plic_tree"
    by (simp only: dt_value_def)
  have "first_some (map (prop_below (ascii ''interrupts'')) (candidates serial_path plic_tree)) = Some (be32 10)"
    by (simp add: candidates_def plic_tree_def serial_path_def seg_matches_def base_name_def prop_below_def ascii_def)
  moreover have "dt_number (Some (be32 10)) = 10"
    by (simp add: dt_number_def be_word_be32_64)
  ultimately have irq: "10 = (ucast (dt_value serial_path ''interrupts'' plic_tree) :: u32)"
    by (simp only: dt_value_def) simp
  have one: "1 = PLIC_CTX_HART_S 0" by (simp add: PLIC_CTX_HART_S_def)
  obtain s out where s: "boot_irq True (placed 0x1000 (encode_tree plic_tree)) 0x1000 0 u (\<lambda>_. 0) = Some (s, out)"
    "is_uart_irq s = 10"
    "\<forall>j. bit (is_regs s (enable_reg 0xC000000 1 10)) j \<longleftrightarrow> bit ((0 :: u32)) j \<or> j = unat (10 :: u32) mod 32"
    using boot_enables_uart_irq [OF blob_at_fdt [OF blob] _ base irq _ one, of u "\<lambda>_. 0"] by auto
  have "is_regs s (enable_reg 0xC000000 1 10) = 0x400"
  proof (rule bit_word_eqI)
    fix j
    have "(0x400 :: u32) = push_bit 10 1" by simp
    then have "bit (0x400 :: u32) j \<longleftrightarrow> j = 10" by (simp only: bit_push_bit_iff) (auto simp: bit_1_iff)
    with s(3) show "bit (is_regs s (enable_reg 0xC000000 1 10)) j \<longleftrightarrow> bit (0x400 :: u32) j"
      by simp
  qed
  with s show "\<exists>s out. boot_irq True (placed 0x1000 (encode_tree plic_tree)) 0x1000 0 u (\<lambda>_. 0) = Some (s, out) \<and>
     is_uart_irq s = 10 \<and> is_regs s (enable_reg 0xC000000 1 10) = 0x400" by blast
qed

end
