(* ===== verification/Fw_Cfg.thy ===== *)
theory Fw_Cfg
  imports Video Boot_Dtb
begin

text \<open>
  The registration of the framebuffer with the emulator in \<^verbatim>\<open>kernel/src/video.c\<close>, through the DMA
  interface of its fw_cfg device, and the cache flush after a row. The device is a parameter: a
  function from a request, the bytes of the buffer the request points to and the state of the device
  to the bytes of the buffer afterwards and the new state, or \<^const>\<open>None\<close> when it never finishes.
\<close>

section \<open>Model\<close>

definition XRGB8888 :: u32 where "XRGB8888 = 875713112"

definition bswap16 :: "16 word \<Rightarrow> 16 word" where
  "bswap16 x = drop_bit 8 x OR push_bit 8 x"

definition bswap32 :: "u32 \<Rightarrow> u32" where
  "bswap32 x = push_bit 24 (x AND 0x000000FF) OR push_bit 8 (x AND 0x0000FF00) OR
     drop_bit 8 (x AND 0x00FF0000) OR drop_bit 24 (x AND 0xFF000000)"

definition bswap64 :: "u64 \<Rightarrow> u64" where
  "bswap64 x = push_bit 32 (ucast (bswap32 (ucast x))) OR ucast (bswap32 (ucast (drop_bit 32 x)))"

definition FW_CFG_DMA_CTL_READ :: u32 where "FW_CFG_DMA_CTL_READ = 0x02"
definition FW_CFG_DMA_CTL_SELECT :: u32 where "FW_CFG_DMA_CTL_SELECT = 0x08"
definition FW_CFG_DMA_CTL_WRITE :: u32 where "FW_CFG_DMA_CTL_WRITE = 0x10"
definition FW_CFG_FILE_DIR :: i32 where "FW_CFG_FILE_DIR = 0x19"

record dma_access =
  da_control :: u32
  da_length :: u32
  da_address :: u64

type_synonym 'd fw_device = "dma_access \<Rightarrow> u8 list \<Rightarrow> 'd \<Rightarrow> (u8 list \<times> 'd) option"

fun mem_ncmp :: "mem \<Rightarrow> u64 \<Rightarrow> mem \<Rightarrow> u64 \<Rightarrow> nat \<Rightarrow> int" where
  "mem_ncmp m a n b 0 = 0"
| "mem_ncmp m a n b (Suc k) =
     (if m a \<noteq> n b then uint (m a) - uint (n b) else if m a = 0 then 0 else mem_ncmp m (a + 1) n (b + 1) k)"

text \<open>\<open>a\<close> is the address of the buffer and \<open>buf\<close> its contents.\<close>

definition fw_cfg_dma_transfer :: "'d fw_device \<Rightarrow> u64 \<Rightarrow> u8 list \<Rightarrow> u32 \<Rightarrow> u32 \<Rightarrow> 'd \<Rightarrow> (u8 list \<times> 'd) option" where
  "fw_cfg_dma_transfer issue a buf len control d =
     issue \<lparr>da_control = bswap32 control, da_length = bswap32 len, da_address = bswap64 a\<rparr> buf d"

definition fw_cfg_read_entry :: "'d fw_device \<Rightarrow> u64 \<Rightarrow> u8 list \<Rightarrow> i32 \<Rightarrow> i32 \<Rightarrow> 'd \<Rightarrow> (u8 list \<times> 'd) option" where
  "fw_cfg_read_entry issue a buf e len d =
     fw_cfg_dma_transfer issue a buf len (push_bit 16 e OR FW_CFG_DMA_CTL_SELECT OR FW_CFG_DMA_CTL_READ) d"

definition fw_cfg_write_entry :: "'d fw_device \<Rightarrow> u64 \<Rightarrow> u8 list \<Rightarrow> i32 \<Rightarrow> i32 \<Rightarrow> 'd \<Rightarrow> (u8 list \<times> 'd) option" where
  "fw_cfg_write_entry issue a buf e len d =
     fw_cfg_dma_transfer issue a buf len (push_bit 16 e OR FW_CFG_DMA_CTL_SELECT OR FW_CFG_DMA_CTL_WRITE) d"

text \<open>The structure \<^verbatim>\<open>FWCfgFile\<close>: size, selector, a reserved field and a name of 56 bytes.\<close>

definition file_select :: "u8 list \<Rightarrow> 16 word" where
  "file_select file = ucast (lit file 4) OR push_bit 8 (ucast (lit file 5))"

fun fw_cfg_find_loop :: "'d fw_device \<Rightarrow> u64 \<Rightarrow> u8 list \<Rightarrow> mem \<Rightarrow> u64 \<Rightarrow> nat \<Rightarrow> 'd \<Rightarrow> (int \<times> 'd) option" where
  "fw_cfg_find_loop issue a buf n name 0 d = Some (-1, d)"
| "fw_cfg_find_loop issue a buf n name (Suc k) d = do {
     (file, d1) \<leftarrow> fw_cfg_dma_transfer issue a buf 64 FW_CFG_DMA_CTL_READ d;
     if mem_ncmp n name (lit file) 8 56 = 0 then Some (uint (bswap16 (file_select file)), d1)
     else fw_cfg_find_loop issue a buf n name k d1
   }"

text \<open>\<open>a1\<close> and \<open>a2\<close> are the addresses of the two buffers on the stack; the second is not initialised.\<close>

definition fw_cfg_find_file :: "'d fw_device \<Rightarrow> u64 \<Rightarrow> u64 \<Rightarrow> u8 list \<Rightarrow> mem \<Rightarrow> u64 \<Rightarrow> 'd \<Rightarrow> (int \<times> 'd) option" where
  "fw_cfg_find_file issue a1 a2 buf n name d = do {
     (count_bytes, d1) \<leftarrow> fw_cfg_read_entry issue a1 [0, 0, 0, 0] FW_CFG_FILE_DIR 4 d;
     fw_cfg_find_loop issue a2 buf n name (unat (bswap32 (load32 (lit count_bytes) 0))) d1
   }"

text \<open>The bytes of the structure \<^verbatim>\<open>RAMFBCfg\<close>.\<close>

definition ramfb_cfg :: "u64 \<Rightarrow> u8 list" where
  "ramfb_cfg fb = le_bytes 8 (bswap64 fb) @ le_bytes 4 (bswap32 XRGB8888) @ le_bytes 4 (bswap32 0) @
     le_bytes 4 (bswap32 FB_WIDTH) @ le_bytes 4 (bswap32 FB_HEIGHT) @ le_bytes 4 (bswap32 (FB_WIDTH * FB_BPP))"

text \<open>With \<^verbatim>\<open>QEMU\<close> defined; without it the function does nothing. \<open>a0\<close> is the address of the structure on the
  stack.\<close>

definition video_init :: "bool \<Rightarrow> 'd fw_device \<Rightarrow> u64 \<Rightarrow> u64 \<Rightarrow> u64 \<Rightarrow> u64 \<Rightarrow> u8 list \<Rightarrow> 'd \<Rightarrow> 'd option" where
  "video_init qemu issue fb a0 a1 a2 buf d =
     (if \<not> qemu then Some d
      else do {
        (sel, d1) \<leftarrow> fw_cfg_find_file issue a1 a2 buf (literal ''etc/ramfb'') 1 d;
        if sel < 0 then Some d1
        else do { (_, d2) \<leftarrow> fw_cfg_write_entry issue a0 (ramfb_cfg fb) (word_of_int sel) 28 d1; Some d2 }
      })"

text \<open>The addresses of the cache lines that are flushed, in order.\<close>

definition CACHE_BLOCK_SIZE :: u64 where "CACHE_BLOCK_SIZE = 64"

partial_function (option) flush_lines :: "u64 \<Rightarrow> u64 \<Rightarrow> u64 list option" where
  "flush_lines line fin =
     (if line < fin then Option.bind (flush_lines (line + CACHE_BLOCK_SIZE) fin) (\<lambda>ls. Some (line # ls))
      else Some [])"

definition flush_dcache :: "u64 \<Rightarrow> u64 \<Rightarrow> u64 list option" where
  "flush_dcache addr len = flush_lines (addr AND NOT (CACHE_BLOCK_SIZE - 1)) (addr + len)"

section \<open>Names and files\<close>

lemma mem_ncmp_decides:
  assumes "cstr m a s" and "cstr n b t" and "length t < k"
  shows "mem_ncmp m a n b k = 0 \<longleftrightarrow> s = t"
  using assms
proof (induction t arbitrary: s a b k)
  case Nil
  then obtain k' where "k = Suc k'" by (cases k) auto
  with Nil show ?case by (cases s) (auto simp: uint_0_iff)
next
  case (Cons c t)
  then obtain k' where k: "k = Suc k'" "length t < k'" by (cases k) auto
  show ?case
  proof (cases s)
    case Nil
    with Cons.prems k show ?thesis by (auto simp: uint_0_iff)
  next
    case (Cons c' s')
    with Cons.IH [of "a + 1" s' "b + 1" k'] Cons.prems k show ?thesis by (auto simp: word_uint_eq_iff)
  qed
qed

record fw_file =
  ff_select :: "16 word"
  ff_name :: "u8 list"

text \<open>The 64 bytes of a directory entry, whose selector is big-endian.\<close>

definition entry_bytes :: "u8 list \<Rightarrow> fw_file \<Rightarrow> bool" where
  "entry_bytes b f \<longleftrightarrow> lit b 4 = ucast (drop_bit 8 (ff_select f)) \<and> lit b 5 = ucast (ff_select f) \<and>
     cstr (lit b) 8 (ff_name f) \<and> length (ff_name f) < 56"

text \<open>A device whose next reads give the entries of the files, and one whose directory has them: what the
  emulator documents.\<close>

fun streams :: "'d fw_device \<Rightarrow> u64 \<Rightarrow> 'd \<Rightarrow> fw_file list \<Rightarrow> bool" where
  "streams issue a d [] = True"
| "streams issue a d (f # fs) = (\<exists>b d'. (\<forall>buf. fw_cfg_dma_transfer issue a buf 64 FW_CFG_DMA_CTL_READ d = Some (b, d')) \<and>
     entry_bytes b f \<and> streams issue a d' fs)"

definition has_directory :: "'d fw_device \<Rightarrow> u64 \<Rightarrow> u64 \<Rightarrow> 'd \<Rightarrow> fw_file list \<Rightarrow> bool" where
  "has_directory issue a1 a2 d fs \<longleftrightarrow> length fs < 2 ^ 32 \<and>
     (\<exists>d1. (\<forall>buf. fw_cfg_read_entry issue a1 buf FW_CFG_FILE_DIR 4 d = Some (be32 (length fs), d1)) \<and>
       streams issue a2 d1 fs)"

lemma select_back:
  assumes "entry_bytes b f"
  shows "bswap16 (file_select b) = ff_select f"
proof (rule bit_word_eqI)
  fix j
  assume "j < LENGTH(16)"
  then consider "j < 8" | "8 \<le> j" "j < 16" by fastforce
  then show "bit (bswap16 (file_select b)) j = bit (ff_select f) j"
    using assms unfolding bswap16_def file_select_def entry_bytes_def
    by cases (auto simp: bit_simps less_diff_conv2)
qed

lemma find_loop_first:
  assumes "streams issue a d fs" and "cstr n name target"
  shows "\<exists>d'. fw_cfg_find_loop issue a buf n name (length fs) d =
    Some (case find (\<lambda>f. ff_name f = target) fs of None \<Rightarrow> -1 | Some f \<Rightarrow> uint (ff_select f), d')"
  using assms(1)
proof (induction fs arbitrary: d)
  case (Cons f fs)
  then obtain b d1 where b: "\<And>buf. fw_cfg_dma_transfer issue a buf 64 FW_CFG_DMA_CTL_READ d = Some (b, d1)"
    "entry_bytes b f" "streams issue a d1 fs" by auto
  then have "mem_ncmp n name (lit b) 8 56 = 0 \<longleftrightarrow> ff_name f = target"
    using mem_ncmp_decides [OF assms(2), of "lit b" 8 "ff_name f" 56] by (auto simp: entry_bytes_def)
  with b Cons.IH [OF b(3)] show ?case
    by (cases "ff_name f = target") (simp_all add: select_back)
qed simp

lemma bswap32_32: "bswap32 x = bswap_32 x"
  by (rule bit_word_eqI) (auto simp: bswap32_def bswap_32_def bit_simps)

lemma load_count: "n < 2 ^ 32 \<Longrightarrow> unat (bswap32 (load32 (lit (be32 n)) 0)) = n"
proof -
  assume n: "n < 2 ^ 32"
  have "mem_bytes (lit (be32 n)) 0 4 = be32 n"
    by (rule nth_equalityI) (simp_all add: mem_bytes_def lit_def length_be32 unat_of_nat)
  then have "bswap_32 (load32 (lit (be32 n)) 0) = of_nat n"
    by (simp add: be_word_load32 be_word_be32)
  with n show ?thesis by (simp add: bswap32_32 unat_of_nat32)
qed

lemma find_file_first:
  assumes "has_directory issue a1 a2 d fs" and "cstr n name target"
  shows "\<exists>d'. fw_cfg_find_file issue a1 a2 buf n name d =
    Some (case find (\<lambda>f. ff_name f = target) fs of None \<Rightarrow> -1 | Some f \<Rightarrow> uint (ff_select f), d')"
proof -
  obtain d1 where d1: "length fs < 2 ^ 32"
    "\<And>buf. fw_cfg_read_entry issue a1 buf FW_CFG_FILE_DIR 4 d = Some (be32 (length fs), d1)" "streams issue a2 d1 fs"
    using assms(1) unfolding has_directory_def by blast
  from find_loop_first [OF d1(3) assms(2), of buf] show ?thesis
    by (simp add: fw_cfg_find_file_def d1(2) load_count [OF d1(1)])
qed

section \<open>Flush\<close>

lemma flush_lines_cover:
  assumes "unat fin \<le> unat line + 64 * k" and "unat fin + 64 \<le> 2 ^ 64"
  shows "\<exists>ls. flush_lines line fin = Some ls \<and>
    (\<forall>x. unat line \<le> x \<and> x < unat fin \<longrightarrow> (\<exists>l\<in>set ls. unat l \<le> x \<and> x < unat l + 64))"
  using assms(1)
proof (induction k arbitrary: line)
  case 0
  then show ?case by (subst flush_lines.simps) (auto simp: word_less_nat_alt)
next
  case (Suc k)
  show ?case
  proof (cases "line < fin")
    case False
    then show ?thesis by (subst flush_lines.simps) (auto simp: word_less_nat_alt)
  next
    case True
    then have u: "unat (line + 64) = unat line + 64"
      using unat_add_small [of line 64] assms(2) by (simp add: word_less_nat_alt)
    with Suc.prems Suc.IH [of "line + 64"] obtain ls where ls: "flush_lines (line + 64) fin = Some ls"
      "\<forall>x. unat line + 64 \<le> x \<and> x < unat fin \<longrightarrow> (\<exists>l\<in>set ls. unat l \<le> x \<and> x < unat l + 64)"
      by auto
    have "flush_lines line fin = Some (line # ls)"
      using True ls(1) by (subst flush_lines.simps) (simp add: CACHE_BLOCK_SIZE_def)
    moreover have "\<exists>l\<in>set (line # ls). unat l \<le> x \<and> x < unat l + 64" if "unat line \<le> x" "x < unat fin" for x
      using that ls(2) by (cases "unat line + 64 \<le> x") auto
    ultimately show ?thesis by blast
  qed
qed

lemma flush_covers:
  assumes "unat addr + unat len + 64 \<le> 2 ^ 64"
  shows "\<exists>ls. flush_dcache addr len = Some ls \<and>
    (\<forall>x. unat addr \<le> x \<and> x < unat addr + unat len \<longrightarrow> (\<exists>l\<in>set ls. unat l \<le> x \<and> x < unat l + 64))"
proof -
  have fin: "unat (addr + len) = unat addr + unat len"
    using assms unat_add_small [of addr "unat len"] by simp
  have lo: "unat (addr AND NOT (CACHE_BLOCK_SIZE - 1)) \<le> unat addr"
    by (simp add: word_and_le2 flip: word_le_nat_alt)
  have "unat (addr + len) \<le> unat (addr AND NOT (CACHE_BLOCK_SIZE - 1)) + 64 * (unat addr + unat len)"
    unfolding fin by simp
  from flush_lines_cover [OF this] obtain ls where
    "flush_lines (addr AND NOT (CACHE_BLOCK_SIZE - 1)) (addr + len) = Some ls"
    "\<forall>x. unat (addr AND NOT (CACHE_BLOCK_SIZE - 1)) \<le> x \<and> x < unat addr + unat len \<longrightarrow>
      (\<exists>l\<in>set ls. unat l \<le> x \<and> x < unat l + 64)"
    using assms unfolding fin by auto
  with lo show ?thesis
    unfolding flush_dcache_def by (intro exI [of _ ls]) (meson le_trans)
qed

section \<open>Registration\<close>

text \<open>Swapping the bytes of a word reverses its little-endian bytes.\<close>

lemma le_bytes_rev:
  fixes w v :: "'a :: len word"
  assumes "8 * n = LENGTH('a)" and "\<And>i j. i < n \<Longrightarrow> j < 8 \<Longrightarrow> bit v (8 * i + j) \<longleftrightarrow> bit w (8 * (n - 1 - i) + j)"
  shows "le_bytes n v = rev (le_bytes n w)"
proof (rule nth_equalityI)
  fix i
  assume "i < length (le_bytes n v)"
  then have i: "i < n" by (simp add: le_bytes_def)
  show "le_bytes n v ! i = rev (le_bytes n w) ! i"
  proof (rule bit_word_eqI)
    fix j
    assume "j < LENGTH(8)"
    then have j: "j < 8" by simp
    with i assms(2) [OF i j] show "bit (le_bytes n v ! i) j \<longleftrightarrow> bit (rev (le_bytes n w) ! i) j"
      by (simp add: le_bytes_def rev_nth bit_simps)
  qed
qed (simp add: le_bytes_def)

lemma le_bswap32: "le_bytes 4 (bswap32 w) = rev (le_bytes 4 w)"
proof (rule le_bytes_rev)
  fix i j :: nat
  assume ij: "i < 4" "j < 8"
  then have "(8 * i + j) div 8 = i" "(8 * i + j) mod 8 = j" "8 * i + j < 32" by simp_all
  moreover have "j + (24 - i * 8) = 8 * (4 - 1 - i) + j" using ij by simp
  ultimately show "bit (bswap32 w) (8 * i + j) \<longleftrightarrow> bit w (8 * (4 - 1 - i) + j)"
    unfolding bswap32_32 by (subst bit_bswap) simp_all
qed simp

lemma le_bswap64: "le_bytes 8 (bswap64 w) = rev (le_bytes 8 w)"
proof (rule le_bytes_rev)
  fix i j :: nat
  assume ij: "i < 8" "j < 8"
  have bits: "bit (bswap32 v) (8 * k + j) \<longleftrightarrow> bit v (8 * (3 - k) + j)" if "k < 4" for v k
  proof -
    have "(8 * k + j) div 8 = k" "(8 * k + j) mod 8 = j" "8 * k + j < 32" "j + (24 - k * 8) = 8 * (3 - k) + j"
      using ij that by simp_all
    then show ?thesis unfolding bswap32_32 by (subst bit_bswap) simp_all
  qed
  have halves: "bit (bswap64 w) n \<longleftrightarrow> bit (bswap32 (ucast (drop_bit 32 w))) n"
    "bit (bswap64 w) (32 + n) \<longleftrightarrow> bit (bswap32 (ucast w)) n" if "n < 32" for n
    using that by (auto simp: bswap64_def bit_simps dest: bit_imp_le_length)
  show "bit (bswap64 w) (8 * i + j) \<longleftrightarrow> bit w (8 * (8 - 1 - i) + j)"
  proof (cases "i < 4")
    case True
    have n: "8 * i + j < 32" "8 * (3 - i) + j < 32" using True ij by simp_all
    have e: "8 * (8 - 1 - i) + j = 32 + (8 * (3 - i) + j)" using True by simp
    show ?thesis
      unfolding halves(1) [OF n(1)] bits [OF True] e using n by (simp only: bit_simps) simp
  next
    case False
    define k where "k = i - 4"
    have k: "i = 4 + k" "k < 4" using False ij by (simp_all add: k_def)
    have n: "8 * i + j = 32 + (8 * k + j)" "8 * k + j < 32" using k ij by simp_all
    have "8 * (3 - k) + j = 8 * (8 - 1 - i) + j" "8 * (3 - k) + j < 32" using k ij by simp_all
    with k show ?thesis
      unfolding n(1) halves(2) [OF n(2)] bits [OF k(2)] by (simp add: bit_simps)
  qed
qed simp

lemma ramfb_cfg_be:
  "ramfb_cfg fb = rev (le_bytes 8 fb) @ be32 875713112 @ be32 0 @ be32 1920 @ be32 1080 @ be32 7680"
proof -
  have le: "le_bytes 4 (bswap32 (of_nat n)) = be32 n" for n
    by (simp only: le_bswap32 be32_def)
  have zero: "le_bytes 4 (bswap32 0) = be32 0" using le [of 0] by simp
  have stride: "FB_WIDTH * FB_BPP = 7680" by (simp add: FB_WIDTH_def FB_BPP_def)
  note words = le [of 875713112, unfolded of_nat_numeral] zero
    le [of 1920, unfolded of_nat_numeral] le [of 1080, unfolded of_nat_numeral] le [of 7680, unfolded of_nat_numeral]
  show ?thesis
    unfolding ramfb_cfg_def le_bswap64 XRGB8888_def stride unfolding FB_WIDTH_def FB_HEIGHT_def words ..
qed

text \<open>
  In an emulator that documents \<^verbatim>\<open>etc/ramfb\<close>, \<^verbatim>\<open>video_init\<close> writes to the first file of that name the
  address, format, size and stride of the framebuffer, all big-endian, in one request of 28 bytes;
  without such a file, or built for the board, it writes nothing.
\<close>

theorem video_init_registers:
  fixes d :: 'd
  assumes "has_directory issue a1 a2 d fs"
  shows "\<exists>d1. video_init True issue fb a0 a1 a2 buf d =
    (case find (\<lambda>f. ff_name f = ascii ''etc/ramfb'') fs of
       None \<Rightarrow> Some d1
     | Some f \<Rightarrow> map_option snd (fw_cfg_write_entry issue a0
         (rev (le_bytes 8 fb) @ be32 875713112 @ be32 0 @ be32 1920 @ be32 1080 @ be32 7680)
         (ucast (ff_select f)) 28 d1))"
proof -
  have "cstr (literal ''etc/ramfb'') 1 (ascii ''etc/ramfb'')"
    unfolding literal_def by (rule placed_cstr) (simp_all add: ascii_def)
  from find_file_first [OF assms this, of buf] obtain d1 where d1:
    "fw_cfg_find_file issue a1 a2 buf (literal ''etc/ramfb'') 1 d =
      Some (case find (\<lambda>f. ff_name f = ascii ''etc/ramfb'') fs of None \<Rightarrow> -1 | Some f \<Rightarrow> uint (ff_select f), d1)"
    by blast
  have bind_snd: "Option.bind x (\<lambda>(_, d2). Some d2) = map_option snd x" for x :: "(u8 list \<times> 'd) option"
    by (cases x) auto
  have cfg: "ramfb_cfg fb = rev (le_bytes 8 fb) @ be32 875713112 @ be32 0 @ be32 1920 @ be32 1080 @ be32 7680"
    by (rule ramfb_cfg_be)
  have sel: "\<not> uint (w :: 16 word) < 0" "(word_of_int (uint w) :: i32) = ucast w" for w :: "16 word"
    by (simp, rule ucast_eq [symmetric])
  show ?thesis
  proof (cases "find (\<lambda>f. ff_name f = ascii ''etc/ramfb'') fs")
    case None
    show ?thesis unfolding video_init_def d1 None option.case bind.bind_lunit prod.case by simp
  next
    case (Some f)
    have "video_init True issue fb a0 a1 a2 buf d =
        Option.bind (fw_cfg_write_entry issue a0 (ramfb_cfg fb) (ucast (ff_select f)) 28 d1) (\<lambda>(_, d2). Some d2)"
      unfolding video_init_def d1 Some option.case bind.bind_lunit prod.case by (simp only: sel if_False not_True_eq_False)
    then have "video_init True issue fb a0 a1 a2 buf d =
        map_option snd (fw_cfg_write_entry issue a0 (ramfb_cfg fb) (ucast (ff_select f)) 28 d1)"
      by (simp only: bind_snd)
    then show ?thesis unfolding Some option.case cfg by blast
  qed
qed

end
