(* ===== verification/Boot_Finish.thy ===== *)
theory Boot_Finish
  imports Process_Safety Fw_Cfg
begin

text \<open>
  Steps 13 to 15 of \<^verbatim>\<open>main\<close> in \<^verbatim>\<open>kernel/src/main.c\<close>: the timer, the framebuffer and the scheduler, up to the
  call of the shell.
\<close>

definition msg_timer :: "u8 list" where
  "msg_timer = ascii ''[Timer] Core timer interrupt enabled.'' @ [10]"

definition msg_video :: "u64 \<Rightarrow> u8 list" where
  "msg_video fb = ascii ''[Video] ramfb registered at 0x'' @ print_hex_ulong fb @ ascii ''.'' @ [10]"

definition msg_sched :: "u8 list" where
  "msg_sched = ascii ''[Sched] bootstrap + idle thread ready.'' @ [10]"

text \<open>\<open>freq\<close> is the property of the device tree that \<^verbatim>\<open>timer_init\<close> reads and \<open>now\<close> the time; \<open>fb\<close>, the addresses and
  \<open>buf\<close> are those of \<^const>\<open>video_init\<close>. The result is the state in which the shell starts, and the text.\<close>

definition boot_finish :: "bool \<Rightarrow> 'd fw_device \<Rightarrow> u64 \<Rightarrow> u64 \<Rightarrow> u64 \<Rightarrow> u64 \<Rightarrow> u8 list \<Rightarrow> u64 \<Rightarrow> u64 \<Rightarrow> u64 \<Rightarrow>
    kernel \<Rightarrow> timers \<Rightarrow> 'd \<Rightarrow> ((kernel \<times> timers \<times> 'd) \<times> u8 list) option" where
  "boot_finish qemu issue fb a0 a1 a2 buf freq now idle k tm d = do {
     let tm1 = timer_init freq now tm;
     let k1 = k\<lparr>csr_sstatus := csr_sstatus k OR SSTATUS_SIE\<rparr>;
     d1 \<leftarrow> video_init qemu issue fb a0 a1 a2 buf d;
     k2 \<leftarrow> sched_init k1 idle;
     Some ((k2, tm1, d1), msg_timer @ msg_video fb @ msg_sched)
   }"

text \<open>On the board, and on an emulator that documents the file and finishes the write, the steps return: the
  first tick is armed, the scheduler runs the boot context and the invariant of processes holds once the
  idle thread is there. The text is the same whether the framebuffer was registered or not.\<close>

theorem boot_finish_starts_kernel:
  assumes "unstarted k" and "heap_live (k_heap k) R" and "\<forall>r\<in>R. 0 < snd r \<and> fst r \<noteq> NULL"
    and "unat (g_bootstrap k) \<in> off_limits (heap_buddy (k_heap k))"
    and "qemu \<Longrightarrow> has_directory issue a1 a2 d fs"
    and "\<And>e d. fw_cfg_write_entry issue a0 (ramfb_cfg fb) e 28 d \<noteq> None"
  shows "\<exists>k1 d1. boot_finish qemu issue fb a0 a1 a2 buf freq now fn k tm d =
      Some ((k1, timer_init freq now tm, d1), msg_timer @ msg_video fb @ msg_sched) \<and>
    cur k1 = g_bootstrap k \<and> cur_state k1 = Some THREAD_RUNNING \<and>
    (g_runq k1 = [] \<or> (\<exists>idle. g_runq k1 = [idle] \<and> kinv idle (fst ` R) k1))"
proof -
  define k0 where "k0 = k\<lparr>csr_sstatus := csr_sstatus k OR SSTATUS_SIE\<rparr>"
  have "unstarted k0" using assms(1) by (simp add: k0_def unstarted_def)
  from sched_init_kinv [OF this, of R fn] assms(2-4) obtain k1 where k1: "sched_init k0 fn = Some k1"
    "cur_state k1 = Some THREAD_RUNNING" "cur k1 = g_bootstrap k"
    "g_runq k1 = [] \<or> (\<exists>idle. g_runq k1 = [idle] \<and> kinv idle (fst ` R) k1)"
    by (auto simp: k0_def)
  obtain d1 where "video_init qemu issue fb a0 a1 a2 buf d = Some d1"
  proof (cases qemu)
    case True
    from video_init_registers [OF assms(5) [OF True], of fb a0 buf] obtain d1 where
      "video_init True issue fb a0 a1 a2 buf d = (case find (\<lambda>f. ff_name f = ascii ''etc/ramfb'') fs of None \<Rightarrow> Some d1
       | Some f \<Rightarrow> map_option snd (fw_cfg_write_entry issue a0 (ramfb_cfg fb) (ucast (ff_select f)) 28 d1))"
      unfolding ramfb_cfg_be by blast
    with assms(6) True that show thesis
      by (cases "find (\<lambda>f. ff_name f = ascii ''etc/ramfb'') fs") (fastforce simp only: option.case)+
  qed (use that in \<open>simp add: video_init_def\<close>)
  with k1 show ?thesis
    unfolding boot_finish_def Let_def k0_def [symmetric] by simp
qed

text \<open>
  Nothing registers the framebuffer with the startup allocator. When it lies inside the memory region, as it
  does on the emulator (\<^verbatim>\<open>0x87000000\<close> with memory from \<^verbatim>\<open>0x80000000\<close>), the boot sequence puts all its pages on the free lists, unless
  another recorded range happens to cover them: requests get memory that \<^verbatim>\<open>sys_display\<close> overwrites.
\<close>

theorem framebuffer_pages_free:
  assumes ok: "startup_ok s" and nn: "not_nested (g_sa_reserves s)"
    and mem: "g_sa_mem_base s = mem_base" "g_sa_mem_end s = mem_base + mem_size"
    and base: "0 < unat mem_base" "4096 dvd unat mem_base" and size: "4096 \<le> unat mem_size"
    and fits: "unat mem_base + unat mem_size \<le> 2 ^ 63"
    and n: "n = unat (mem_size div PAGE_SIZE)"
    and old: "length old_fa = n" "length old_ppi = n"
    and fa: "buddy_startup_alloc s (mem_size div PAGE_SIZE * 4) = Some (s1, fa_ptr)" "fa_ptr \<noteq> NULL"
    and ppi: "buddy_startup_alloc s1 (mem_size div PAGE_SIZE) = Some (s2, ppi_ptr)" "ppi_ptr \<noteq> NULL"
    and fb: "unat mem_base \<le> unat fb" "unat fb + 8294400 \<le> unat mem_base + unat mem_size" "4096 dvd unat fb"
    and clear: "\<forall>r\<in>set (g_sa_reserves s2). unat (snd r) \<le> unat fb \<or> unat fb + 8294400 \<le> unat (fst r)"
  shows "\<exists>h. boot_memory s mem_base mem_size old_fa old_ppi = Some (s2, fa_ptr, ppi_ptr, h) \<and>
    {p. unat fb \<le> unat mem_base + 4096 * p \<and> unat mem_base + 4096 * p < unat fb + 8294400} \<subseteq> free_pages (heap_buddy h)"
proof -
  obtain h where h: "boot_memory s mem_base mem_size old_fa old_ppi = Some (s2, fa_ptr, ppi_ptr, h)"
    "g_buddy_base (heap_buddy h) = mem_base"
    "free_pages (heap_buddy h) = {p. p < n \<and> \<not> (\<exists>r\<in>set (g_sa_reserves s2). page_touches (heap_buddy h) r p)}"
    using boot_memory_ready [OF ok nn mem base size fits n old fa ppi] by blast
  have "p \<in> free_pages (heap_buddy h)"
    if p: "unat fb \<le> unat mem_base + 4096 * p" "unat mem_base + 4096 * p < unat fb + 8294400" for p
  proof -
    obtain i j where ij: "unat fb = 4096 * i" "unat mem_base = 4096 * j"
      using fb(3) base(2) by (auto elim!: dvdE)
    have "4096 * (j + p) < 4096 * (i + 2025)" using p(2) by (simp add: ij)
    then have "j + p + 1 \<le> i + 2025" by simp
    then have "4096 * (j + p + 1) \<le> 4096 * (i + 2025)" by (rule mult_le_mono2)
    then have last: "unat mem_base + 4096 * p + 4096 \<le> unat fb + 8294400" by (simp add: ij)
    then have "4096 * (p + 1) \<le> unat mem_size" using fb(2) by simp
    then have "p < unat mem_size div 4096"
      by (simp add: less_eq_div_iff_mult_less_eq flip: Suc_le_eq)
    then have "p < n" by (simp add: n PAGE_SIZE_def unat_div)
    moreover have "\<not> page_touches (heap_buddy h) r p" if "r \<in> set (g_sa_reserves s2)" for r
      using clear that p last unfolding page_touches_def h(2) by fastforce
    ultimately show ?thesis unfolding h(3) by blast
  qed
  with h(1) show ?thesis by blast
qed

end
