(* ===== verification/Trap_Entry.thy ===== *)
theory Trap_Entry
  imports Riscv Sched_Inv Trap
begin

text \<open>
  The assembly of \<^verbatim>\<open>kernel/src/trap_entry.S\<close> and \<^verbatim>\<open>kernel/src/switch.S\<close>, instruction by instruction. The call of
  the compiled C handler is a parameter: a function on the state of the hart, \<^const>\<open>None\<close> when it does not
  return. For traps inside the kernel it is tied to the model of \<^verbatim>\<open>trap_handler\<close>. The context switch is proved to implement the one the scheduler model uses.
\<close>

section \<open>The trap frame\<close>

definition TF_RA :: u64 where "TF_RA = 0"
definition TF_SP :: u64 where "TF_SP = 8"
definition TF_GP :: u64 where "TF_GP = 16"
definition TF_TP :: u64 where "TF_TP = 24"
definition TF_T0 :: u64 where "TF_T0 = 32"
definition TF_T1 :: u64 where "TF_T1 = 40"
definition TF_T2 :: u64 where "TF_T2 = 48"
definition TF_S0 :: u64 where "TF_S0 = 56"
definition TF_S1 :: u64 where "TF_S1 = 64"
definition TF_A0 :: u64 where "TF_A0 = 72"
definition TF_A1 :: u64 where "TF_A1 = 80"
definition TF_A2 :: u64 where "TF_A2 = 88"
definition TF_A3 :: u64 where "TF_A3 = 96"
definition TF_A4 :: u64 where "TF_A4 = 104"
definition TF_A5 :: u64 where "TF_A5 = 112"
definition TF_A6 :: u64 where "TF_A6 = 120"
definition TF_A7 :: u64 where "TF_A7 = 128"
definition TF_S2 :: u64 where "TF_S2 = 136"
definition TF_S3 :: u64 where "TF_S3 = 144"
definition TF_S4 :: u64 where "TF_S4 = 152"
definition TF_S5 :: u64 where "TF_S5 = 160"
definition TF_S6 :: u64 where "TF_S6 = 168"
definition TF_S7 :: u64 where "TF_S7 = 176"
definition TF_S8 :: u64 where "TF_S8 = 184"
definition TF_S9 :: u64 where "TF_S9 = 192"
definition TF_S10 :: u64 where "TF_S10 = 200"
definition TF_S11 :: u64 where "TF_S11 = 208"
definition TF_T3 :: u64 where "TF_T3 = 216"
definition TF_T4 :: u64 where "TF_T4 = 224"
definition TF_T5 :: u64 where "TF_T5 = 232"
definition TF_T6 :: u64 where "TF_T6 = 240"
definition TF_SEPC :: u64 where "TF_SEPC = 248"
definition TF_SSTATUS :: u64 where "TF_SSTATUS = 256"
definition TF_SCAUSE :: u64 where "TF_SCAUSE = 264"
definition TF_STVAL :: u64 where "TF_STVAL = 272"

lemmas TF_defs = TF_RA_def TF_SP_def TF_GP_def TF_TP_def TF_T0_def TF_T1_def TF_T2_def TF_S0_def TF_S1_def
  TF_A0_def TF_A1_def TF_A2_def TF_A3_def TF_A4_def TF_A5_def TF_A6_def TF_A7_def TF_S2_def TF_S3_def
  TF_S4_def TF_S5_def TF_S6_def TF_S7_def TF_S8_def TF_S9_def TF_S10_def TF_S11_def TF_T3_def TF_T4_def
  TF_T5_def TF_T6_def TF_SEPC_def TF_SSTATUS_def TF_SCAUSE_def TF_STVAL_def

section \<open>Code\<close>

definition trap_init :: "u64 \<Rightarrow> cpu \<Rightarrow> cpu" where
  "trap_init vec c = wr_csr Sscratch 0 (wr_csr Stvec vec c)"

text \<open>The registers that both paths save and restore in one block, with their offsets: all but \<open>x2\<close>.\<close>

definition gpr_slots :: "(nat \<times> u64) list" where
  "gpr_slots =
     [(1, TF_RA), (3, TF_GP), (4, TF_TP), (5, TF_T0), (6, TF_T1), (7, TF_T2), (8, TF_S0), (9, TF_S1),
      (10, TF_A0), (11, TF_A1), (12, TF_A2), (13, TF_A3), (14, TF_A4), (15, TF_A5), (16, TF_A6), (17, TF_A7),
      (18, TF_S2), (19, TF_S3), (20, TF_S4), (21, TF_S5), (22, TF_S6), (23, TF_S7), (24, TF_S8), (25, TF_S9),
      (26, TF_S10), (27, TF_S11), (28, TF_T3), (29, TF_T4), (30, TF_T5), (31, TF_T6)]"

definition save_gprs :: "instr list" where
  "save_gprs = map (\<lambda>(r, q). Sd r q 2) gpr_slots"

definition load_gprs :: "instr list" where
  "load_gprs = map (\<lambda>(r, q). Ld r q 2) gpr_slots"

definition save_csrs :: "instr list" where
  "save_csrs = [Csrr 5 Sepc, Csrr 6 Sstatus, Csrr 7 Scause, Csrr 28 Stval,
     Sd 5 TF_SEPC 2, Sd 6 TF_SSTATUS 2, Sd 7 TF_SCAUSE 2, Sd 28 TF_STVAL 2]"

definition load_csrs :: "instr list" where
  "load_csrs = [Ld 5 TF_SEPC 2, Ld 6 TF_SSTATUS 2, Csrw Sepc 5, Csrw Sstatus 6]"

text \<open>\<^verbatim>\<open>sret\<close>: the previous privilege and interrupt enable become the current ones.\<close>

definition sret_status :: "u64 \<Rightarrow> u64" where
  "sret_status s = (s AND NOT (SSTATUS_SPP OR SSTATUS_SIE)) OR SSTATUS_SPIE OR
     (if s AND SSTATUS_SPIE \<noteq> 0 then SSTATUS_SIE else 0)"

definition sret :: "cpu \<Rightarrow> cpu" where
  "sret c = wr_csr Sstatus (sret_status (csrs c Sstatus))
     (c\<lparr>pc := csrs c Sepc, user_mode := (csrs c Sstatus AND SSTATUS_SPP = 0)\<rparr>)"

definition trap_save_user :: "instr list" where
  "trap_save_user = Addi 2 2 (- TF_SIZE) # save_gprs @
     [Csrr 5 Sscratch, Sd 5 TF_SP 2, Csrw Sscratch 0] @ save_csrs @ [Ld 4 TF_TP 2, Mv 10 2]"

definition trap_return_user :: "cpu \<Rightarrow> cpu" where
  "trap_return_user c =
     sret (run_code (load_csrs @ load_gprs @ [Ld 5 TF_SP 2, Addi 2 2 TF_SIZE, Csrw Sscratch 2, Mv 2 5]) c)"

definition trap_save_kernel :: "instr list" where
  "trap_save_kernel = Csrrw 2 Sscratch 2 # Addi 2 2 (- TF_SIZE) # save_gprs @
     [Addi 5 2 TF_SIZE, Sd 5 TF_SP 2] @ save_csrs @ [Mv 10 2]"

definition trap_return_kernel :: "cpu \<Rightarrow> cpu" where
  "trap_return_kernel c = sret (run_code (load_csrs @ load_gprs @ [Addi 2 2 TF_SIZE]) c)"

definition trap_entry :: "(cpu \<Rightarrow> cpu option) \<Rightarrow> cpu \<Rightarrow> cpu option" where
  "trap_entry handler c =
     (let c1 = exec (Csrrw 2 Sscratch 2) c in
      if rd c1 2 = 0 then map_option trap_return_kernel (handler (run_code trap_save_kernel c1))
      else map_option trap_return_user (handler (run_code trap_save_user c1)))"

definition enter_user_mode :: "cpu \<Rightarrow> cpu" where
  "enter_user_mode c =
     sret (run_code ([Csrw Sscratch 2, Csrw Sepc 10, Li 5 SSTATUS_SPP, Csrc Sstatus 5, Li 5 SSTATUS_SPIE, Csrs Sstatus 5,
       Mv 2 11] @ map (\<lambda>r. Li r 0) [10, 11, 12, 13, 14, 15, 16, 17, 5, 6, 7, 28, 29, 30, 31]) c)"

definition bootstrap_code :: "cpu \<Rightarrow> cpu" where
  "bootstrap_code c = trap_return_user (run_code [Mv 10 2] c)"

text \<open>\<^verbatim>\<open>switch.S\<close>: the registers that a function call preserves, with their offsets in the context.\<close>

definition ctx_slots :: "(nat \<times> u64) list" where
  "ctx_slots = [(1, 0), (2, 8), (8, 16), (9, 24), (18, 32), (19, 40), (20, 48), (21, 56), (22, 64), (23, 72),
     (24, 80), (25, 88), (26, 96), (27, 104)]"

definition switch_code :: "cpu \<Rightarrow> cpu" where
  "switch_code c =
     (let c1 = run_code (map (\<lambda>(r, q). Sd r q 10) ctx_slots @ map (\<lambda>(r, q). Ld r q 11) ctx_slots @ [Mv 4 11]) c
      in c1\<lparr>pc := rd c1 1\<rparr>)"

section \<open>Frames in memory\<close>

definition frame_at :: "mem \<Rightarrow> u64 \<Rightarrow> trap_frame" where
  "frame_at m a =
     \<lparr>tf_ra = load64 m (a + TF_RA), tf_sp = load64 m (a + TF_SP), tf_gp = load64 m (a + TF_GP),
      tf_tp = load64 m (a + TF_TP), tf_t0 = load64 m (a + TF_T0), tf_t1 = load64 m (a + TF_T1),
      tf_t2 = load64 m (a + TF_T2), tf_s0 = load64 m (a + TF_S0), tf_s1 = load64 m (a + TF_S1),
      tf_a0 = load64 m (a + TF_A0), tf_a1 = load64 m (a + TF_A1), tf_a2 = load64 m (a + TF_A2),
      tf_a3 = load64 m (a + TF_A3), tf_a4 = load64 m (a + TF_A4), tf_a5 = load64 m (a + TF_A5),
      tf_a6 = load64 m (a + TF_A6), tf_a7 = load64 m (a + TF_A7), tf_s2 = load64 m (a + TF_S2),
      tf_s3 = load64 m (a + TF_S3), tf_s4 = load64 m (a + TF_S4), tf_s5 = load64 m (a + TF_S5),
      tf_s6 = load64 m (a + TF_S6), tf_s7 = load64 m (a + TF_S7), tf_s8 = load64 m (a + TF_S8),
      tf_s9 = load64 m (a + TF_S9), tf_s10 = load64 m (a + TF_S10), tf_s11 = load64 m (a + TF_S11),
      tf_t3 = load64 m (a + TF_T3), tf_t4 = load64 m (a + TF_T4), tf_t5 = load64 m (a + TF_T5),
      tf_t6 = load64 m (a + TF_T6), tf_sepc = load64 m (a + TF_SEPC), tf_sstatus = load64 m (a + TF_SSTATUS),
      tf_scause = load64 m (a + TF_SCAUSE), tf_stval = load64 m (a + TF_STVAL)\<rparr>"

definition cpu_frame :: "cpu \<Rightarrow> trap_frame" where
  "cpu_frame c =
     \<lparr>tf_ra = gpr c 1, tf_sp = gpr c 2, tf_gp = gpr c 3, tf_tp = gpr c 4, tf_t0 = gpr c 5, tf_t1 = gpr c 6,
      tf_t2 = gpr c 7, tf_s0 = gpr c 8, tf_s1 = gpr c 9, tf_a0 = gpr c 10, tf_a1 = gpr c 11, tf_a2 = gpr c 12,
      tf_a3 = gpr c 13, tf_a4 = gpr c 14, tf_a5 = gpr c 15, tf_a6 = gpr c 16, tf_a7 = gpr c 17,
      tf_s2 = gpr c 18, tf_s3 = gpr c 19, tf_s4 = gpr c 20, tf_s5 = gpr c 21, tf_s6 = gpr c 22,
      tf_s7 = gpr c 23, tf_s8 = gpr c 24, tf_s9 = gpr c 25, tf_s10 = gpr c 26, tf_s11 = gpr c 27,
      tf_t3 = gpr c 28, tf_t4 = gpr c 29, tf_t5 = gpr c 30, tf_t6 = gpr c 31, tf_sepc = csrs c Sepc,
      tf_sstatus = csrs c Sstatus, tf_scause = csrs c Scause, tf_stval = csrs c Stval\<rparr>"

section \<open>Saving\<close>

definition saved :: "(nat \<Rightarrow> u64) \<Rightarrow> (u64 \<times> u64) list" where
  "saved g = map (\<lambda>(r, q). (q, g r)) gpr_slots"

definition saved_csrs :: "(csr \<Rightarrow> u64) \<Rightarrow> u64 \<Rightarrow> (u64 \<times> u64) list" where
  "saved_csrs s sp = [(TF_SP, sp), (TF_SEPC, s Sepc), (TF_SSTATUS, s Sstatus), (TF_SCAUSE, s Scause),
     (TF_STVAL, s Stval)]"

lemma saved_upd [simp]: "saved (g(2 := v)) = saved g"
  by (simp add: saved_def gpr_slots_def)

lemma run_save_gprs: "run_code save_gprs c = c\<lparr>ram := write_slots (gpr c 2) (saved (gpr c)) (ram c)\<rparr>"
  unfolding save_gprs_def run_stores by (simp add: saved_def rd_def gpr_slots_def)

lemma slots_aligned: "(q, w) \<in> set (saved g @ saved_csrs s sp) \<Longrightarrow> aligned8 q"
  by (auto simp: saved_def saved_csrs_def gpr_slots_def TF_defs aligned8_def)

lemma load_slot:
  assumes "map_of (rev (saved g @ saved_csrs s sp)) p = Some w"
  shows "load64 (write_slots a (saved g @ saved_csrs s sp) m) (a + p) = w"
proof -
  have "(p, w) \<in> set (saved g @ saved_csrs s sp)" using map_of_SomeD [OF assms] by auto
  then have p: "aligned8 p" by (rule slots_aligned)
  have "\<forall>(q, w) \<in> set (saved g @ saved_csrs s sp). aligned8 q" using slots_aligned by fast
  from load_write_slots [OF this p] show ?thesis unfolding assms by simp
qed

lemma slots_map:
  shows
    "map_of (rev (saved g @ saved_csrs s sp)) TF_RA = Some (g 1)"
    "map_of (rev (saved g @ saved_csrs s sp)) TF_SP = Some (sp)"
    "map_of (rev (saved g @ saved_csrs s sp)) TF_GP = Some (g 3)"
    "map_of (rev (saved g @ saved_csrs s sp)) TF_TP = Some (g 4)"
    "map_of (rev (saved g @ saved_csrs s sp)) TF_T0 = Some (g 5)"
    "map_of (rev (saved g @ saved_csrs s sp)) TF_T1 = Some (g 6)"
    "map_of (rev (saved g @ saved_csrs s sp)) TF_T2 = Some (g 7)"
    "map_of (rev (saved g @ saved_csrs s sp)) TF_S0 = Some (g 8)"
    "map_of (rev (saved g @ saved_csrs s sp)) TF_S1 = Some (g 9)"
    "map_of (rev (saved g @ saved_csrs s sp)) TF_A0 = Some (g 10)"
    "map_of (rev (saved g @ saved_csrs s sp)) TF_A1 = Some (g 11)"
    "map_of (rev (saved g @ saved_csrs s sp)) TF_A2 = Some (g 12)"
    "map_of (rev (saved g @ saved_csrs s sp)) TF_A3 = Some (g 13)"
    "map_of (rev (saved g @ saved_csrs s sp)) TF_A4 = Some (g 14)"
    "map_of (rev (saved g @ saved_csrs s sp)) TF_A5 = Some (g 15)"
    "map_of (rev (saved g @ saved_csrs s sp)) TF_A6 = Some (g 16)"
    "map_of (rev (saved g @ saved_csrs s sp)) TF_A7 = Some (g 17)"
    "map_of (rev (saved g @ saved_csrs s sp)) TF_S2 = Some (g 18)"
    "map_of (rev (saved g @ saved_csrs s sp)) TF_S3 = Some (g 19)"
    "map_of (rev (saved g @ saved_csrs s sp)) TF_S4 = Some (g 20)"
    "map_of (rev (saved g @ saved_csrs s sp)) TF_S5 = Some (g 21)"
    "map_of (rev (saved g @ saved_csrs s sp)) TF_S6 = Some (g 22)"
    "map_of (rev (saved g @ saved_csrs s sp)) TF_S7 = Some (g 23)"
    "map_of (rev (saved g @ saved_csrs s sp)) TF_S8 = Some (g 24)"
    "map_of (rev (saved g @ saved_csrs s sp)) TF_S9 = Some (g 25)"
    "map_of (rev (saved g @ saved_csrs s sp)) TF_S10 = Some (g 26)"
    "map_of (rev (saved g @ saved_csrs s sp)) TF_S11 = Some (g 27)"
    "map_of (rev (saved g @ saved_csrs s sp)) TF_T3 = Some (g 28)"
    "map_of (rev (saved g @ saved_csrs s sp)) TF_T4 = Some (g 29)"
    "map_of (rev (saved g @ saved_csrs s sp)) TF_T5 = Some (g 30)"
    "map_of (rev (saved g @ saved_csrs s sp)) TF_T6 = Some (g 31)"
    "map_of (rev (saved g @ saved_csrs s sp)) TF_SEPC = Some (s Sepc)"
    "map_of (rev (saved g @ saved_csrs s sp)) TF_SSTATUS = Some (s Sstatus)"
    "map_of (rev (saved g @ saved_csrs s sp)) TF_SCAUSE = Some (s Scause)"
    "map_of (rev (saved g @ saved_csrs s sp)) TF_STVAL = Some (s Stval)"
  by (simp_all add: saved_def saved_csrs_def gpr_slots_def TF_defs)

lemma frame_of_slots: "frame_at (write_slots a (saved (gpr c) @ saved_csrs (csrs c) (gpr c 2)) m) a = cpu_frame c"
  unfolding frame_at_def cpu_frame_def by (simp only: slots_map [THEN load_slot])

lemma run_save_user:
  fixes c
  defines "a \<equiv> csrs c Sscratch - TF_SIZE" and "e \<equiv> run_code trap_save_user (exec (Csrrw 2 Sscratch 2) c)"
  shows "gpr e 2 = a" and "gpr e 10 = a" and "gpr e 4 = gpr c 4" and "csrs e = (csrs c)(Sscratch := 0)"
    and "ram e = write_slots a (saved (gpr c) @ saved_csrs (csrs c) (gpr c 2)) (ram c)"
proof -
  note tp = load_slot [OF slots_map(4)]
  show "gpr e 2 = a" "gpr e 10 = a" "csrs e = (csrs c)(Sscratch := 0)"
    and ram: "ram e = write_slots a (saved (gpr c) @ saved_csrs (csrs c) (gpr c 2)) (ram c)"
    by (simp_all add: e_def a_def trap_save_user_def run_save_gprs save_csrs_def rd_def wr_def wr_csr_def
        write_slots_append saved_csrs_def)
  have "gpr e 4 = load64 (ram e) (a + TF_TP)"
    by (simp add: e_def a_def trap_save_user_def run_save_gprs save_csrs_def rd_def wr_def wr_csr_def)
  then show "gpr e 4 = gpr c 4" by (simp only: ram tp)
qed

lemma run_save_kernel:
  fixes c
  defines "a \<equiv> gpr c 2 - TF_SIZE" and "e \<equiv> run_code trap_save_kernel (exec (Csrrw 2 Sscratch 2) c)"
  shows "gpr e 2 = a" and "gpr e 10 = a" and "csrs e = csrs c"
    and "ram e = write_slots a (saved (gpr c) @ saved_csrs (csrs c) (gpr c 2)) (ram c)"
  by (simp_all add: e_def a_def trap_save_kernel_def run_save_gprs save_csrs_def rd_def wr_def wr_csr_def
        write_slots_append saved_csrs_def)

section \<open>Restoring\<close>

lemma run_load_gprs:
  "run_code load_gprs c =
    c\<lparr>gpr := (\<lambda>r. case map_of (rev gpr_slots) r of None \<Rightarrow> gpr c r | Some q \<Rightarrow> load64 (ram c) (gpr c 2 + q))\<rparr>"
  unfolding load_gprs_def by (rule run_loads) (simp_all add: gpr_slots_def)

text \<open>The registers of a frame.\<close>

definition frame_regs :: "trap_frame \<Rightarrow> u64 list" where
  "frame_regs f =
     [0, tf_ra f, tf_sp f, tf_gp f, tf_tp f, tf_t0 f, tf_t1 f, tf_t2 f, tf_s0 f, tf_s1 f, tf_a0 f, tf_a1 f, tf_a2 f,
      tf_a3 f, tf_a4 f, tf_a5 f, tf_a6 f, tf_a7 f, tf_s2 f, tf_s3 f, tf_s4 f, tf_s5 f, tf_s6 f, tf_s7 f, tf_s8 f,
      tf_s9 f, tf_s10 f, tf_s11 f, tf_t3 f, tf_t4 f, tf_t5 f, tf_t6 f]"

lemma gpr_cases:
  assumes "0 < r" and "r < 32"
  shows "r = 1 \<or> r = 2 \<or> r = 3 \<or> r = 4 \<or> r = 5 \<or> r = 6 \<or> r = 7 \<or> r = 8 \<or> r = 9 \<or> r = 10 \<or> r = 11 \<or> r = 12 \<or>
    r = 13 \<or> r = 14 \<or> r = 15 \<or> r = 16 \<or> r = 17 \<or> r = 18 \<or> r = 19 \<or> r = 20 \<or> r = 21 \<or> r = 22 \<or> r = 23 \<or> r = 24 \<or>
    r = 25 \<or> r = 26 \<or> r = 27 \<or> r = 28 \<or> r = 29 \<or> r = 30 \<or> r = (31 :: nat)"
  using assms by arith

lemma slot_regs:
  assumes "0 < r" and "r < 32" and "r \<noteq> 2"
  shows "(case map_of (rev gpr_slots) r of None \<Rightarrow> v | Some q \<Rightarrow> load64 m (a + q)) = frame_regs (frame_at m a) ! r"
  using gpr_cases [OF assms(1,2)] assms(3)
  by (elim disjE) (simp_all add: gpr_slots_def frame_regs_def frame_at_def)

lemma slot_2 [simp]: "map_of (rev gpr_slots) 2 = None"
  by (simp add: gpr_slots_def)

lemma cpu_frame_regs:
  assumes "0 < r" and "r < 32"
  shows "frame_regs (cpu_frame c) ! r = gpr c r"
  using gpr_cases [OF assms] by (elim disjE) (simp_all add: frame_regs_def cpu_frame_def)

text \<open>What user mode finds after the return path, whatever the frame holds.\<close>

lemma return_user_state:
  fixes d
  defines "c' \<equiv> trap_return_user d" and "f \<equiv> frame_at (ram d) (gpr d 2)"
  shows "0 < r \<Longrightarrow> r < 32 \<Longrightarrow> gpr c' r = (if r = 5 then tf_sp f else frame_regs f ! r)"
    and "pc c' = tf_sepc f" and "user_mode c' \<longleftrightarrow> tf_sstatus f AND SSTATUS_SPP = 0"
    and "csrs c' Sstatus = sret_status (tf_sstatus f)" and "csrs c' Sscratch = gpr d 2 + TF_SIZE" and "ram c' = ram d"
proof -
  note defs = c'_def f_def trap_return_user_def load_csrs_def run_load_gprs sret_def rd_def wr_def wr_csr_def
  show "pc c' = tf_sepc f" "user_mode c' \<longleftrightarrow> tf_sstatus f AND SSTATUS_SPP = 0"
    "csrs c' Sstatus = sret_status (tf_sstatus f)" "csrs c' Sscratch = gpr d 2 + TF_SIZE" "ram c' = ram d"
    by (simp_all add: defs frame_at_def)
  assume r: "0 < r" "r < 32"
  show "gpr c' r = (if r = 5 then tf_sp f else frame_regs f ! r)"
  proof (cases "r = 2 \<or> r = 5")
    case True
    then show ?thesis by (auto simp: defs frame_regs_def) (simp_all add: frame_at_def)
  next
    case False
    with r slot_regs [of r] show ?thesis by (simp add: defs)
  qed
qed

lemma return_kernel_state:
  fixes d
  defines "c' \<equiv> trap_return_kernel d" and "f \<equiv> frame_at (ram d) (gpr d 2)"
  shows "0 < r \<Longrightarrow> r < 32 \<Longrightarrow> gpr c' r = (if r = 2 then gpr d 2 + TF_SIZE else frame_regs f ! r)"
    and "pc c' = tf_sepc f" and "user_mode c' \<longleftrightarrow> tf_sstatus f AND SSTATUS_SPP = 0"
    and "csrs c' Sstatus = sret_status (tf_sstatus f)" and "csrs c' Sscratch = csrs d Sscratch" and "ram c' = ram d"
proof -
  note defs = c'_def f_def trap_return_kernel_def load_csrs_def run_load_gprs sret_def rd_def wr_def wr_csr_def
  show "pc c' = tf_sepc f" "user_mode c' \<longleftrightarrow> tf_sstatus f AND SSTATUS_SPP = 0"
    "csrs c' Sstatus = sret_status (tf_sstatus f)" "csrs c' Sscratch = csrs d Sscratch" "ram c' = ram d"
    by (simp_all add: defs frame_at_def)
  assume r: "0 < r" "r < 32"
  then show "gpr c' r = (if r = 2 then gpr d 2 + TF_SIZE else frame_regs f ! r)"
    using slot_regs [of r] by (simp add: defs)
qed

section \<open>Traps\<close>

text \<open>The state in which the handler is called.\<close>

definition handler_entry :: "cpu \<Rightarrow> cpu" where
  "handler_entry c =
     run_code (if csrs c Sscratch = 0 then trap_save_kernel else trap_save_user) (exec (Csrrw 2 Sscratch 2) c)"

lemma trap_entry_calls:
  "trap_entry h c =
    map_option (if csrs c Sscratch = 0 then trap_return_kernel else trap_return_user) (h (handler_entry c))"
  by (simp add: trap_entry_def handler_entry_def rd_def wr_def wr_csr_def)

lemma entry_frame:
  shows "gpr (handler_entry c) 10 = gpr (handler_entry c) 2"
    and "frame_at (ram (handler_entry c)) (gpr (handler_entry c) 10) = cpu_frame c"
    and "csrs (handler_entry c) Sscratch = 0"
    and "gpr (handler_entry c) 2 = (if csrs c Sscratch = 0 then gpr c 2 else csrs c Sscratch) - TF_SIZE"
  using run_save_user [of c] run_save_kernel [of c]
  by (cases "csrs c Sscratch = 0"; simp add: handler_entry_def frame_of_slots)+

text \<open>The handler runs with the thread pointer of the user program, which is what \<^verbatim>\<open>get_current\<close> reads.\<close>

lemma user_controls_tp: "csrs c Sscratch \<noteq> 0 \<Longrightarrow> gpr (handler_entry c) 4 = gpr c 4"
  using run_save_user(3) [of c] unfolding handler_entry_def by (simp del: exec.simps)

text \<open>The handler is called on a stack that is not a multiple of 16 when the kernel stack is one.\<close>

lemma handler_stack_misaligned:
  assumes "csrs c Sscratch \<noteq> 0" and "unat (csrs c Sscratch) mod 16 = 0"
  shows "unat (gpr (handler_entry c) 2) mod 16 = 8"
proof -
  have "unat (w - 280) mod 16 = (unat w + 8) mod 16" for w :: u64
  proof -
    have "unat (w - 280) = (unat w + (2 ^ 64 - 280)) mod 2 ^ 64"
      using unat_word_ariths(1) [of w "- 280"] by simp
    then have "unat (w - 280) mod 16 = (unat w + (2 ^ 64 - 280)) mod 16"
      by (simp only:) (rule mod_mod_cancel, simp)
    also have "\<dots> = (unat w + 8) mod 16"
      by (rule mod_add_cong) simp_all
    finally show ?thesis .
  qed
  from this [of "csrs c Sscratch"] assms show ?thesis
    by (simp add: entry_frame TF_SIZE_def mod_add_left_eq [symmetric])
qed

text \<open>The handler comes back with the stack pointer, as the calling convention says, and \<^verbatim>\<open>sscratch\<close> as it
  found them, and with the frame \<open>f\<close>.\<close>

definition leaves_frame :: "(cpu \<Rightarrow> cpu option) \<Rightarrow> cpu \<Rightarrow> trap_frame \<Rightarrow> bool" where
  "leaves_frame h c f \<longleftrightarrow> (\<exists>d. h (handler_entry c) = Some d \<and> gpr d 2 = gpr (handler_entry c) 2 \<and>
     csrs d Sscratch = csrs (handler_entry c) Sscratch \<and> frame_at (ram d) (gpr (handler_entry c) 10) = f)"

text \<open>
  C11: A trap from user mode shows the handler the frame of all registers, and user mode goes on with the
  registers of the frame the handler leaves, at its \<^verbatim>\<open>sepc\<close>, except that \<^verbatim>\<open>t0\<close> is the stack pointer of the
  frame. The kernel stack is parked in \<^verbatim>\<open>sscratch\<close> as before the trap.
\<close>

theorem user_trap_restores_all_but_t0:
  assumes "csrs c Sscratch \<noteq> 0" and "leaves_frame h c f"
  shows "frame_at (ram (handler_entry c)) (gpr (handler_entry c) 10) = cpu_frame c \<and>
    (\<exists>c'. trap_entry h c = Some c' \<and>
      (\<forall>r. 0 < r \<and> r < 32 \<longrightarrow> gpr c' r = (if r = 5 then tf_sp f else frame_regs f ! r)) \<and>
      pc c' = tf_sepc f \<and> (user_mode c' \<longleftrightarrow> tf_sstatus f AND SSTATUS_SPP = 0) \<and>
      csrs c' Sstatus = sret_status (tf_sstatus f) \<and> csrs c' Sscratch = csrs c Sscratch)"
proof -
  obtain d where d: "h (handler_entry c) = Some d" "gpr d 2 = gpr (handler_entry c) 2"
      "frame_at (ram d) (gpr (handler_entry c) 10) = f"
    using assms(2) unfolding leaves_frame_def by blast
  then have f: "frame_at (ram d) (gpr d 2) = f" by (simp add: entry_frame)
  have "trap_entry h c = Some (trap_return_user d)"
    using assms(1) d(1) by (simp add: trap_entry_calls)
  then show ?thesis
    by (intro conjI entry_frame(2)) (simp add: return_user_state [where d = d, unfolded f],
      simp add: d(2) entry_frame(4) assms(1))
qed

text \<open>The return path for a trap inside the kernel whose handler comes back and leaves the frame as it was.\<close>

lemma kernel_frame_restored:
  assumes "csrs c Sscratch = 0" and "leaves_frame h c (cpu_frame c)"
  shows "\<exists>c'. trap_entry h c = Some c' \<and> (\<forall>r. 0 < r \<and> r < 32 \<longrightarrow> gpr c' r = gpr c r) \<and>
    pc c' = csrs c Sepc \<and> (user_mode c' \<longleftrightarrow> csrs c Sstatus AND SSTATUS_SPP = 0) \<and>
    csrs c' Sstatus = sret_status (csrs c Sstatus) \<and> csrs c' Sscratch = 0"
proof -
  obtain d where d: "h (handler_entry c) = Some d" "gpr d 2 = gpr (handler_entry c) 2"
      "csrs d Sscratch = 0" "frame_at (ram d) (gpr (handler_entry c) 10) = cpu_frame c"
    using assms(2) unfolding leaves_frame_def entry_frame(3) by blast
  then have f: "frame_at (ram d) (gpr d 2) = cpu_frame c" by (simp add: entry_frame)
  have "trap_entry h c = Some (trap_return_kernel d)"
    using assms(1) d(1) by (simp add: trap_entry_calls)
  then show ?thesis
    by (simp add: return_kernel_state [where d = d, unfolded f] cpu_frame_regs)
      (simp add: cpu_frame_def d(2,3) entry_frame assms(1))
qed

text \<open>The call of \<^verbatim>\<open>trap_handler\<close> from the assembly, on the machine \<open>m\<close> of the kernel model: it gets the frame that \<^verbatim>\<open>a0\<close>
  points to, and when the model returns the compiled code leaves the hart in the state \<open>body m' e\<close>. \<open>keeps_frame\<close> is what
  is assumed of that code: it follows the calling convention, leaves \<^verbatim>\<open>sscratch\<close> alone, and, as the source of the
  interrupt branch only reads \<^verbatim>\<open>*tf\<close> when the trap came from the kernel, the frame too.\<close>

definition handler_call :: "trapenv \<Rightarrow> machine \<Rightarrow> (machine \<Rightarrow> cpu \<Rightarrow> cpu) \<Rightarrow> cpu \<Rightarrow> cpu option" where
  "handler_call env m body e = map_option (\<lambda>m'. body m' e) (trap_handler env (frame_at (ram e) (gpr e 10)) m)"

definition keeps_frame :: "(machine \<Rightarrow> cpu \<Rightarrow> cpu) \<Rightarrow> bool" where
  "keeps_frame body \<longleftrightarrow> (\<forall>m' e. gpr (body m' e) 2 = gpr e 2 \<and> csrs (body m' e) Sscratch = csrs e Sscratch \<and>
     frame_at (ram (body m' e)) (gpr e 10) = frame_at (ram e) (gpr e 10))"

lemma handler_call_result:
  "handler_call env m body (handler_entry c) =
    map_option (\<lambda>m'. body m' (handler_entry c)) (trap_handler env (cpu_frame c) m)"
  by (simp add: handler_call_def entry_frame(2))

lemma handler_call_leaves_frame:
  assumes "keeps_frame body" and "trap_handler env (cpu_frame c) m = Some m'"
  shows "leaves_frame (handler_call env m body) c (cpu_frame c)"
  using assms unfolding leaves_frame_def keeps_frame_def handler_call_result by (simp add: entry_frame(2))

text \<open>
  C12: A trap taken while the kernel runs, with \<^verbatim>\<open>sscratch\<close> zero and the previous privilege supervisor. When it is an interrupt
  and \<^verbatim>\<open>trap_handler\<close> returns, the interrupted code goes on at its instruction with every register, the mode, the previous interrupt
  enable and \<^verbatim>\<open>sscratch\<close> as they were, provided that the compiled handler keeps the frame, which its
  source does not write for such a trap. Any exception but the environment call of user mode, which cannot come from here, halts: \<^verbatim>\<open>trap_handler\<close>
  does not return, and neither does \<^verbatim>\<open>trap_entry\<close>.
\<close>

theorem kernel_trap_transparent:
  assumes "csrs c Sscratch = 0" and "csrs c Sstatus AND SSTATUS_SPP \<noteq> 0" and "keeps_frame body"
  shows "(csrs c Scause AND SCAUSE_INTR_BIT \<noteq> 0 \<and> trap_handler env (cpu_frame c) m \<noteq> None \<longrightarrow>
      (\<exists>c'. trap_entry (handler_call env m body) c = Some c' \<and> (\<forall>r. 0 < r \<and> r < 32 \<longrightarrow> gpr c' r = gpr c r) \<and>
        pc c' = csrs c Sepc \<and> \<not> user_mode c' \<and> csrs c' Sstatus = sret_status (csrs c Sstatus) \<and> csrs c' Sscratch = 0)) \<and>
    (csrs c Scause AND SCAUSE_INTR_BIT = 0 \<and> csrs c Scause \<noteq> EXC_ECALL_U \<longrightarrow>
      trap_entry (handler_call env m body) c = None)"
proof (intro conjI impI)
  assume "csrs c Scause AND SCAUSE_INTR_BIT \<noteq> 0 \<and> trap_handler env (cpu_frame c) m \<noteq> None"
  then obtain m' where "trap_handler env (cpu_frame c) m = Some m'" by blast
  from kernel_frame_restored [OF assms(1) handler_call_leaves_frame [OF assms(3) this]] assms(2)
  show "\<exists>c'. trap_entry (handler_call env m body) c = Some c' \<and> (\<forall>r. 0 < r \<and> r < 32 \<longrightarrow> gpr c' r = gpr c r) \<and>
      pc c' = csrs c Sepc \<and> \<not> user_mode c' \<and> csrs c' Sstatus = sret_status (csrs c Sstatus) \<and> csrs c' Sscratch = 0"
    by simp
next
  assume "csrs c Scause AND SCAUSE_INTR_BIT = 0 \<and> csrs c Scause \<noteq> EXC_ECALL_U"
  then have "trap_handler env (cpu_frame c) m = None"
    by (simp add: trap_handler_def cpu_frame_def)
  then show "trap_entry (handler_call env m body) c = None"
    by (simp add: trap_entry_calls handler_call_result)
qed

definition sample_cpu :: "u64 \<Rightarrow> cpu" where
  "sample_cpu s = \<lparr>gpr = (\<lambda>r. of_nat r), csrs = (\<lambda>_. 0)(Sscratch := s, Sepc := 0x80), ram = (\<lambda>_. 0), pc = 0,
     user_mode = False\<rparr>"

lemma sample_frame: "leaves_frame Some c (cpu_frame c)"
  unfolding leaves_frame_def by (simp add: entry_frame(2))

theorem user_trap_restores_all_but_t0_witness:
  "\<exists>c'. trap_entry Some (sample_cpu 0x1000) = Some c' \<and> gpr c' 5 = 2 \<and> gpr c' 6 = 6 \<and> pc c' = 0x80 \<and>
    csrs c' Sscratch = 0x1000"
proof -
  have "csrs (sample_cpu 0x1000) Sscratch \<noteq> 0" by (simp add: sample_cpu_def)
  from user_trap_restores_all_but_t0 [OF this sample_frame] obtain c' where c':
    "trap_entry Some (sample_cpu 0x1000) = Some c'"
    "\<And>r. 0 < r \<and> r < 32 \<Longrightarrow> gpr c' r = (if r = 5 then tf_sp (cpu_frame (sample_cpu 0x1000)) else
      frame_regs (cpu_frame (sample_cpu 0x1000)) ! r)"
    "pc c' = tf_sepc (cpu_frame (sample_cpu 0x1000))" "csrs c' Sscratch = csrs (sample_cpu 0x1000) Sscratch" by blast
  then show ?thesis
    using c'(2) [of 5] c'(2) [of 6] by (simp add: cpu_frame_def frame_regs_def sample_cpu_def)
qed

text \<open>An interrupt of the kernel that is neither the timer nor an external one, with nothing to do for the bottom halves.\<close>

definition sample_machine :: machine where
  "sample_machine = \<lparr>mk = sample_kernel,
     mtimers = \<lparr>g_timer_queue = [], g_timebase_freq = 3200, stimer = 0, resched = False\<rparr>, muart = sample_uart,
     mtasks = \<lparr>g_task_queue = [], g_running_priority = TASK_PRIO_IDLE, sstatus_SIE = False\<rparr>,
     plic_done = [], points = Map.empty\<rparr>"

definition kernel_trap_cpu :: "u64 \<Rightarrow> cpu" where
  "kernel_trap_cpu cause = (sample_cpu 0)\<lparr>csrs := (\<lambda>_. 0)(Sepc := 0x80, Sstatus := SSTATUS_SPP, Scause := cause)\<rparr>"

lemma sample_machine_idle:
  "task_run_pending f (w, h, mtasks sample_machine) = Some (w, h, mtasks sample_machine)"
  by (rule task_run_pending_none) (simp add: sample_machine_def task_pick_def)

theorem kernel_trap_transparent_witness:
  "\<forall>env. (\<exists>c'. trap_entry (handler_call env sample_machine (\<lambda>_ e. e)) (kernel_trap_cpu (SCAUSE_INTR_BIT OR 1)) = Some c' \<and>
      gpr c' 5 = 5 \<and> gpr c' 2 = 2 \<and> pc c' = 0x80) \<and>
    trap_entry (handler_call env sample_machine (\<lambda>_ e. e)) (kernel_trap_cpu 13) = None"
proof
  fix env
  have spp: "SSTATUS_SPP AND SSTATUS_SPP \<noteq> 0" "csrs (kernel_trap_cpu x) Sstatus = SSTATUS_SPP"
    "csrs (kernel_trap_cpu x) Sscratch = 0" "csrs (kernel_trap_cpu x) Scause = x" for x
    by (simp_all add: SSTATUS_SPP_def kernel_trap_cpu_def)
  have keeps: "keeps_frame (\<lambda>_ e. e)" by (simp add: keeps_frame_def)
  have intr: "(SCAUSE_INTR_BIT OR 1) AND SCAUSE_INTR_BIT \<noteq> 0" "(13 :: u64) AND SCAUSE_INTR_BIT = 0" "13 \<noteq> EXC_ECALL_U"
    "(SCAUSE_INTR_BIT OR 1) AND NOT SCAUSE_INTR_BIT = 1"
    by (simp_all add: SCAUSE_INTR_BIT_def EXC_ECALL_U_def)
  have "trap_handler env (cpu_frame (kernel_trap_cpu (SCAUSE_INTR_BIT OR 1))) sample_machine \<noteq> None"
    using spp(1) intr(1,4) spp(2,4) by (simp add: trap_handler_def cpu_frame_def Let_def trap_interrupt_def bottom_halves_def
        sample_machine_idle INTR_S_TIMER_def INTR_S_EXT_def)
  with kernel_trap_transparent [OF spp(3) _ keeps, of "SCAUSE_INTR_BIT OR 1" env sample_machine]
    kernel_trap_transparent [OF spp(3) _ keeps, of 13 env sample_machine]
  show "(\<exists>c'. trap_entry (handler_call env sample_machine (\<lambda>_ e. e)) (kernel_trap_cpu (SCAUSE_INTR_BIT OR 1)) = Some c' \<and>
      gpr c' 5 = 5 \<and> gpr c' 2 = 2 \<and> pc c' = 0x80) \<and>
    trap_entry (handler_call env sample_machine (\<lambda>_ e. e)) (kernel_trap_cpu 13) = None"
    using spp intr by (auto simp: kernel_trap_cpu_def sample_cpu_def)
qed

section \<open>The first entry of a thread\<close>

lemma status_bits:
  "bit SSTATUS_SPIE n \<longleftrightarrow> n = 5" "bit SSTATUS_SPP n \<longleftrightarrow> n = 8" "bit SSTATUS_SIE n \<longleftrightarrow> n = 1"
proof -
  have masks: "SSTATUS_SPIE = 2 ^ 5" "SSTATUS_SPP = 2 ^ 8" "SSTATUS_SIE = 2 ^ 1"
    by (simp_all add: SSTATUS_SPIE_def SSTATUS_SPP_def SSTATUS_SIE_def)
  show "bit SSTATUS_SPIE n \<longleftrightarrow> n = 5" "bit SSTATUS_SPP n \<longleftrightarrow> n = 8" "bit SSTATUS_SIE n \<longleftrightarrow> n = 1"
    unfolding masks bit_exp_iff by auto
qed

lemma status_user: "\<not> bit s 8 \<Longrightarrow> s AND SSTATUS_SPP = 0"
  by (rule bit_word_eqI) (auto simp: status_bits bit_simps)

lemma status_enabled:
  assumes "bit s 5"
  shows "sret_status s AND SSTATUS_SIE = SSTATUS_SIE"
proof -
  have "bit (s AND SSTATUS_SPIE) 5" using assms by (simp add: status_bits bit_simps)
  then have spie: "s AND SSTATUS_SPIE \<noteq> 0" by auto
  show ?thesis
    unfolding sret_status_def if_P [OF spie] by (rule bit_word_eqI) (auto simp: bit_simps)
qed

text \<open>
  C13: The first dispatch of a thread whose frame was planted for an entry point and a stack enters user mode
  there with interrupts enabled, the kernel stack above the frame parked in \<^verbatim>\<open>sscratch\<close>, and every register
  zero but \<^verbatim>\<open>sp\<close>, \<^verbatim>\<open>tp\<close>, which is the address of the thread, and \<^verbatim>\<open>t0\<close>.
\<close>

theorem planted_thread_enters_user_mode:
  assumes "plant_initial_frame k t start usp = Some (k', tf)" and "threads k' t = Some th"
    and "gpr c 2 = tf" and "frame_at (ram c) tf = kframe th"
  shows "user_mode (bootstrap_code c) \<and> pc (bootstrap_code c) = start \<and>
    csrs (bootstrap_code c) Sstatus AND SSTATUS_SIE = SSTATUS_SIE \<and>
    csrs (bootstrap_code c) Sscratch = (kstack_base th + kstack_size th) AND NOT 0xF \<and>
    (\<forall>r. 0 < r \<and> r < 32 \<longrightarrow> gpr (bootstrap_code c) r = (if r = 2 \<or> r = 5 then usp else if r = 4 then t else 0))"
proof -
  define d where "d = run_code [Mv 10 2] c"
  have d: "gpr d 2 = tf" "ram d = ram c" "bootstrap_code c = trap_return_user d"
    using assms(3) by (simp_all add: d_def rd_def wr_def bootstrap_code_def)
  define ss where "ss = (csr_sstatus k AND NOT (SSTATUS_SPP OR SSTATUS_SIE)) OR SSTATUS_SPIE"
  have f: "frame_at (ram d) (gpr d 2) = zero_frame\<lparr>tf_sepc := start, tf_sp := usp, tf_tp := t, tf_sstatus := ss\<rparr>"
    and "tf = ((kstack_base th + kstack_size th) AND NOT 0xF) - TF_SIZE"
    using assms(1,2,4) d by (auto simp: plant_initial_frame_def upd_def Let_def ss_def split: bind_splits)
  then have tf: "tf + TF_SIZE = (kstack_base th + kstack_size th) AND NOT 0xF" by simp
  have regs: "frame_regs (zero_frame\<lparr>tf_sepc := start, tf_sp := usp, tf_tp := t, tf_sstatus := ss\<rparr>) ! r =
      (if r = 2 then usp else if r = 4 then t else 0)" if "0 < r" "r < 32" for r
    using gpr_cases [OF that] by (elim disjE) (simp_all add: frame_regs_def zero_frame_def)
  have bits: "ss AND SSTATUS_SPP = 0" "sret_status ss AND SSTATUS_SIE = SSTATUS_SIE"
    by (simp_all add: status_user status_enabled ss_def status_bits bit_simps)
  show ?thesis
    unfolding d(3) by (auto simp: return_user_state [where d = d, unfolded f] regs bits) (simp_all add: d(1) tf)
qed

definition planted_kernel :: kernel where
  "planted_kernel = sample_kernel\<lparr>threads := [0x2000 \<mapsto> (sample_thread 1 THREAD_READY [])
     \<lparr>kstack_base := 0x8000, kstack_size := 0x2000\<rparr>]\<rparr>"

definition planted_cpu :: cpu where
  "planted_cpu = \<lparr>gpr = (\<lambda>_. 0)(2 := 0x7000, 4 := 0x2000), csrs = (\<lambda>_. 0)(Sepc := 0x5000, Sstatus := 0x20),
     ram = (\<lambda>_. 0), pc = 0, user_mode = False\<rparr>"

definition landing_cpu :: cpu where
  "landing_cpu = planted_cpu\<lparr>gpr := (\<lambda>_. 0)(2 := 0xA000 - TF_SIZE), ram := write_slots (0xA000 - TF_SIZE)
     (saved (gpr planted_cpu) @ saved_csrs (csrs planted_cpu) (gpr planted_cpu 2)) (\<lambda>_. 0)\<rparr>"

theorem planted_thread_enters_user_mode_witness:
  "user_mode (bootstrap_code landing_cpu) \<and> pc (bootstrap_code landing_cpu) = 0x5000 \<and>
    gpr (bootstrap_code landing_cpu) 4 = 0x2000 \<and> csrs (bootstrap_code landing_cpu) Sscratch = 0xA000"
proof -
  obtain k' th where k': "plant_initial_frame planted_kernel 0x2000 0x5000 0x7000 = Some (k', 0xA000 - TF_SIZE)"
    "threads k' 0x2000 = Some th" "kframe th = cpu_frame planted_cpu" "kstack_base th = 0x8000" "kstack_size th = 0x2000"
    by (simp add: plant_initial_frame_def planted_kernel_def sample_kernel_def sample_thread_def upd_def cpu_frame_def
        planted_cpu_def zero_frame_def SSTATUS_SPIE_def)
  have "gpr landing_cpu 2 = 0xA000 - TF_SIZE" by (simp add: landing_cpu_def)
  moreover have "frame_at (ram landing_cpu) (0xA000 - TF_SIZE) = kframe th"
    unfolding k'(3) landing_cpu_def by (simp add: frame_of_slots)
  ultimately show ?thesis
    using planted_thread_enters_user_mode [OF k'(1,2), of landing_cpu] by (simp add: k'(4,5))
qed

section \<open>The context switch\<close>

definition ctx_at :: "mem \<Rightarrow> u64 \<Rightarrow> thread_ctx" where
  "ctx_at m a =
     \<lparr>ctx_ra = load64 m (a + 0), ctx_sp = load64 m (a + 8), ctx_s0 = load64 m (a + 16), ctx_s1 = load64 m (a + 24),
      ctx_s2 = load64 m (a + 32), ctx_s3 = load64 m (a + 40), ctx_s4 = load64 m (a + 48), ctx_s5 = load64 m (a + 56),
      ctx_s6 = load64 m (a + 64), ctx_s7 = load64 m (a + 72), ctx_s8 = load64 m (a + 80), ctx_s9 = load64 m (a + 88),
      ctx_s10 = load64 m (a + 96), ctx_s11 = load64 m (a + 104)\<rparr>"

definition cpu_ctx :: "cpu \<Rightarrow> thread_ctx" where
  "cpu_ctx c =
     \<lparr>ctx_ra = gpr c 1, ctx_sp = gpr c 2, ctx_s0 = gpr c 8, ctx_s1 = gpr c 9, ctx_s2 = gpr c 18, ctx_s3 = gpr c 19,
      ctx_s4 = gpr c 20, ctx_s5 = gpr c 21, ctx_s6 = gpr c 22, ctx_s7 = gpr c 23, ctx_s8 = gpr c 24, ctx_s9 = gpr c 25,
      ctx_s10 = gpr c 26, ctx_s11 = gpr c 27\<rparr>"

definition ctx_writes :: "(nat \<Rightarrow> u64) \<Rightarrow> (u64 \<times> u64) list" where
  "ctx_writes g = map (\<lambda>(r, q). (q, g r)) ctx_slots"

lemma switch_state:
  fixes c
  defines "m \<equiv> write_slots (gpr c 10) (ctx_writes (gpr c)) (ram c)"
  shows "cpu_ctx (switch_code c) = ctx_at m (gpr c 11)" and "gpr (switch_code c) 4 = gpr c 11"
    and "ram (switch_code c) = m" and "pc (switch_code c) = load64 m (gpr c 11)"
proof -
  have m: "run_code (map (\<lambda>(r, q). Sd r q 10) ctx_slots) c = c\<lparr>ram := m\<rparr>"
    unfolding run_stores by (simp add: m_def ctx_writes_def rd_def ctx_slots_def)
  have l: "run_code (map (\<lambda>(r, q). Ld r q 11) ctx_slots) c' = c'\<lparr>gpr := (\<lambda>r. case map_of (rev ctx_slots) r of
      None \<Rightarrow> gpr c' r | Some q \<Rightarrow> load64 (ram c') (gpr c' 11 + q))\<rparr>" for c'
    by (rule run_loads) (simp_all add: ctx_slots_def)
  show "cpu_ctx (switch_code c) = ctx_at m (gpr c 11)" "gpr (switch_code c) 4 = gpr c 11"
    "ram (switch_code c) = m" "pc (switch_code c) = load64 m (gpr c 11)"
    unfolding switch_code_def Let_def fold_append comp_apply m l
    by (simp_all add: cpu_ctx_def ctx_at_def rd_def wr_def ctx_slots_def)
qed

lemma ctx_saved: "ctx_at (write_slots a (ctx_writes (gpr c)) m) a = cpu_ctx c"
proof -
  have al: "\<forall>(q, w) \<in> set (ctx_writes (gpr c)). aligned8 q"
    by (simp add: ctx_writes_def ctx_slots_def aligned8_def)
  have look: "load64 (write_slots a (ctx_writes (gpr c)) m) (a + p) = w"
    if "map_of (rev (ctx_writes (gpr c))) p = Some w" for p w
  proof -
    have "(p, w) \<in> set (ctx_writes (gpr c))" using map_of_SomeD [OF that] by simp
    with al have "aligned8 p" by fast
    with load_write_slots [OF al this] that show ?thesis by simp
  qed
  have "map_of (rev (ctx_writes (gpr c))) 0 = Some (gpr c 1)"
    "map_of (rev (ctx_writes (gpr c))) 8 = Some (gpr c 2)"
    "map_of (rev (ctx_writes (gpr c))) 16 = Some (gpr c 8)"
    "map_of (rev (ctx_writes (gpr c))) 24 = Some (gpr c 9)"
    "map_of (rev (ctx_writes (gpr c))) 32 = Some (gpr c 18)"
    "map_of (rev (ctx_writes (gpr c))) 40 = Some (gpr c 19)"
    "map_of (rev (ctx_writes (gpr c))) 48 = Some (gpr c 20)"
    "map_of (rev (ctx_writes (gpr c))) 56 = Some (gpr c 21)"
    "map_of (rev (ctx_writes (gpr c))) 64 = Some (gpr c 22)"
    "map_of (rev (ctx_writes (gpr c))) 72 = Some (gpr c 23)"
    "map_of (rev (ctx_writes (gpr c))) 80 = Some (gpr c 24)"
    "map_of (rev (ctx_writes (gpr c))) 88 = Some (gpr c 25)"
    "map_of (rev (ctx_writes (gpr c))) 96 = Some (gpr c 26)"
    "map_of (rev (ctx_writes (gpr c))) 104 = Some (gpr c 27)"
    by (simp_all add: ctx_writes_def ctx_slots_def)
  note this [THEN look]
  then show ?thesis unfolding ctx_at_def cpu_ctx_def by (simp only:)
qed

definition ctx_apart :: "u64 \<Rightarrow> u64 \<Rightarrow> bool" where
  "ctx_apart p q \<longleftrightarrow> (\<forall>i<112. \<forall>j<112. p + of_nat i \<noteq> q + of_nat j)"

lemma ctx_other:
  assumes "ctx_apart p q"
  shows "ctx_at (write_slots p (ctx_writes g) m) q = ctx_at m q"
proof -
  have "write_slots p (ctx_writes g) m (q + of_nat j) = m (q + of_nat j)" if "j < 112" for j
  proof (rule write_slots_outside)
    fix x w and i :: nat
    assume "(x, w) \<in> set (ctx_writes g)" "i < 8"
    moreover have "\<forall>(x, w) \<in> set (ctx_writes g). unat x + 8 \<le> 112"
      by (simp add: ctx_writes_def ctx_slots_def)
    ultimately have "unat x + i < 112" by fastforce
    with assms \<open>j < 112\<close> have "p + of_nat (unat x + i) \<noteq> q + of_nat j"
      unfolding ctx_apart_def by blast
    then show "q + of_nat j \<noteq> p + x + of_nat i" by (simp add: add.assoc)
  qed
  then have "load64 (write_slots p (ctx_writes g) m) (q + of_nat n) = load64 m (q + of_nat n)" if "n + 8 \<le> 112" for n
    using that by (intro load64_cong) (simp add: add.assoc flip: of_nat_add)
  from this [of 0] this [of 8] this [of 16] this [of 24] this [of 32] this [of 40] this [of 48] this [of 56]
    this [of 64] this [of 72] this [of 80] this [of 88] this [of 96] this [of 104]
  show ?thesis by (simp add: ctx_at_def)
qed

text \<open>The registers and the contexts in memory are those of the scheduler model.\<close>

definition ctx_rel :: "kernel \<Rightarrow> cpu \<Rightarrow> bool" where
  "ctx_rel k c \<longleftrightarrow> hart k = cpu_ctx c \<and> cur k = gpr c 4 \<and> (\<forall>t th. threads k t = Some th \<longrightarrow> ctx_at (ram c) t = ctx th)"

text \<open>
  C10: The assembly of \<^verbatim>\<open>switch_to\<close> implements the context switch of the scheduler model and continues at the
  return address of the thread it switches to.
\<close>

theorem switch_code_refines:
  assumes "ctx_rel k c" and "switch_to k (gpr c 10) (gpr c 11) = Some k'"
    and "\<forall>t. threads k t \<noteq> None \<and> t \<noteq> gpr c 10 \<longrightarrow> ctx_apart (gpr c 10) t"
  shows "ctx_rel k' (switch_code c) \<and> pc (switch_code c) = ctx_ra (hart k')"
proof -
  obtain th n where th: "threads k (gpr c 10) = Some th"
    "((threads k)(gpr c 10 \<mapsto> th\<lparr>ctx := hart k\<rparr>)) (gpr c 11) = Some n"
    "k' = k\<lparr>threads := (threads k)(gpr c 10 \<mapsto> th\<lparr>ctx := hart k\<rparr>), hart := ctx n, cur := gpr c 11\<rparr>"
    using assms(2) by (auto simp: switch_to_def upd_def split: option.splits bind_splits)
  have ctxs: "ctx_at (ram (switch_code c)) t = ctx th'" if "threads k' t = Some th'" for t th'
  proof (cases "t = gpr c 10")
    case True
    with that th(3) assms(1) show ?thesis by (auto simp: switch_state ctx_saved ctx_rel_def)
  next
    case False
    with that th(3) assms(1,3) show ?thesis by (auto simp: switch_state ctx_other ctx_rel_def)
  qed
  have n: "ctx n = cpu_ctx (switch_code c)"
    using ctxs [of "gpr c 11" n] th(2,3) by (simp add: switch_state)
  with ctxs th(3) show ?thesis
    by (auto simp: ctx_rel_def switch_state) (simp add: ctx_at_def)
qed

lemma ctx_apartI:
  assumes "unat p + 112 \<le> unat q" and "unat q + 112 \<le> 2 ^ 64"
  shows "ctx_apart p q"
  unfolding ctx_apart_def
proof (intro allI impI)
  fix i j :: nat
  assume ij: "i < 112" "j < 112"
  then have "unat (p + of_nat i) = unat p + i" "unat (q + of_nat j) = unat q + j"
    using assms unat_add_small [of p i] unat_add_small [of q j] by simp_all
  then show "p + of_nat i \<noteq> q + of_nat j" using assms ij by (metis add_leD1 add_less_cancel_left leD le_add1 less_le_trans)
qed

definition switching_cpu :: cpu where
  "switching_cpu = \<lparr>gpr = (\<lambda>_. 0)(4 := 0x1000, 9 := 7, 10 := 0x1000, 11 := 0x2000), csrs = (\<lambda>_. 0), ram = (\<lambda>_. 0),
     pc = 0, user_mode = False\<rparr>"

theorem switch_code_refines_witness:
  "\<exists>k'. switch_to (sample_kernel\<lparr>hart := cpu_ctx switching_cpu\<rparr>) 0x1000 0x2000 = Some k' \<and> cur k' = 0x2000 \<and>
    ctx_rel k' (switch_code switching_cpu)"
proof -
  let ?k = "sample_kernel\<lparr>hart := cpu_ctx switching_cpu\<rparr>"
  obtain k' where k': "switch_to ?k 0x1000 0x2000 = Some k'" "cur k' = 0x2000"
    by (simp add: switch_to_def upd_def sample_kernel_def)
  have zero: "load64 (\<lambda>_. 0) a = 0" for a
    by (simp add: load64_def upt_rec)
  have "ctx_rel ?k switching_cpu"
    by (auto simp: ctx_rel_def sample_kernel_def sample_thread_def switching_cpu_def ctx_at_def zero zero_ctx_def split: if_splits)
  moreover have "switch_to ?k (gpr switching_cpu 10) (gpr switching_cpu 11) = Some k'"
    using k'(1) by (simp add: switching_cpu_def)
  moreover have "\<forall>t. threads ?k t \<noteq> None \<and> t \<noteq> gpr switching_cpu 10 \<longrightarrow> ctx_apart (gpr switching_cpu 10) t"
    by (auto simp: sample_kernel_def switching_cpu_def intro!: ctx_apartI)
  ultimately show ?thesis using switch_code_refines [of ?k switching_cpu k'] k' by blast
qed

section \<open>Direct entry into user mode\<close>

text \<open>\<^verbatim>\<open>enter_user_mode\<close> clears the argument and temporary registers only: the others keep what the kernel had.\<close>

lemma enter_user_mode_state:
  shows "pc (enter_user_mode c) = gpr c 10" and "gpr (enter_user_mode c) 2 = gpr c 11"
    and "csrs (enter_user_mode c) Sscratch = gpr c 2" and "user_mode (enter_user_mode c)"
    and "csrs (enter_user_mode c) Sstatus AND SSTATUS_SIE = SSTATUS_SIE"
    and "r \<in> set ([5, 6, 7] @ [10..<18] @ [28..<32]) \<Longrightarrow> gpr (enter_user_mode c) r = 0"
    and "r \<in> set ([1, 3, 4, 8, 9] @ [18..<28]) \<Longrightarrow> gpr (enter_user_mode c) r = gpr c r"
proof -
  define d where "d = run_code [Csrw Sscratch 2, Csrw Sepc 10, Li 5 SSTATUS_SPP, Csrc Sstatus 5, Li 5 SSTATUS_SPIE,
    Csrs Sstatus 5, Mv 2 11] c"
  define zs :: "nat list" where "zs = [10, 11, 12, 13, 14, 15, 16, 17, 5, 6, 7, 28, 29, 30, 31]"
  have li: "run_code (map (\<lambda>r. Li r 0) rs) e = e\<lparr>gpr := (\<lambda>r. if r \<in> set rs then 0 else gpr e r)\<rparr>" if "0 \<notin> set rs" for rs e
    using that by (induction rs arbitrary: e) (auto simp: wr_def fun_eq_iff)
  have code: "enter_user_mode c = sret (d\<lparr>gpr := (\<lambda>r. if r \<in> set zs then 0 else gpr d r)\<rparr>)"
    unfolding enter_user_mode_def fold_append comp_apply d_def [symmetric] zs_def [symmetric]
    by (subst li) (simp_all add: zs_def)
  define ss where "ss = (csrs c Sstatus AND NOT SSTATUS_SPP) OR SSTATUS_SPIE"
  have d: "gpr d = (gpr c)(5 := SSTATUS_SPIE, 2 := gpr c 11)" "csrs d Sscratch = gpr c 2" "csrs d Sepc = gpr c 10"
      "csrs d Sstatus = ss"
    by (auto simp: d_def rd_def wr_def wr_csr_def ss_def)
  show "pc (enter_user_mode c) = gpr c 10" "gpr (enter_user_mode c) 2 = gpr c 11"
    "csrs (enter_user_mode c) Sscratch = gpr c 2"
    by (simp_all add: code sret_def wr_csr_def d zs_def)
  show "user_mode (enter_user_mode c)" "csrs (enter_user_mode c) Sstatus AND SSTATUS_SIE = SSTATUS_SIE"
    by (simp_all add: code sret_def wr_csr_def d status_user status_enabled ss_def status_bits bit_simps)
  show "r \<in> set ([5, 6, 7] @ [10..<18] @ [28..<32]) \<Longrightarrow> gpr (enter_user_mode c) r = 0"
    by (auto simp: code sret_def wr_csr_def zs_def)
  show "r \<in> set ([1, 3, 4, 8, 9] @ [18..<28]) \<Longrightarrow> gpr (enter_user_mode c) r = gpr c r"
    by (auto simp: code sret_def wr_csr_def d zs_def)
qed

end
