(* ===== verification/Uart_Mmio.thy ===== *)
theory Uart_Mmio
  imports Uart Memory_Words
begin

text \<open>
  The register accesses of \<^verbatim>\<open>kernel/src/uart.c\<close>. The board has 32-bit registers four bytes apart, the emulator 8-bit
  registers next to one another. The two registers that \<^verbatim>\<open>uart_init\<close> sets up hold what is written, so they are
  memory; reading and writing the data registers are arguments of the other operations in theory \<open>Uart\<close>.
\<close>

section \<open>Model\<close>

definition uart_set_base :: "u64 \<Rightarrow> u64 \<Rightarrow> u64" where
  "uart_set_base g_uart_base base = (if base \<noteq> 0 then base else g_uart_base)"

datatype uart_reg = UART_RBR | UART_THR | UART_IER | UART_FCR | UART_LCR | UART_MCR | UART_LSR

fun reg_offset :: "bool \<Rightarrow> uart_reg \<Rightarrow> u64" where
  "reg_offset False UART_RBR = 0x00"
| "reg_offset False UART_THR = 0x00"
| "reg_offset False UART_IER = 0x04"
| "reg_offset False UART_FCR = 0x08"
| "reg_offset False UART_LCR = 0x0C"
| "reg_offset False UART_MCR = 0x10"
| "reg_offset False UART_LSR = 0x14"
| "reg_offset True UART_RBR = 0x00"
| "reg_offset True UART_THR = 0x00"
| "reg_offset True UART_IER = 0x01"
| "reg_offset True UART_FCR = 0x02"
| "reg_offset True UART_LCR = 0x03"
| "reg_offset True UART_MCR = 0x04"
| "reg_offset True UART_LSR = 0x05"

definition mmio_write32 :: "mem \<Rightarrow> u64 \<Rightarrow> u32 \<Rightarrow> mem" where "mmio_write32 m addr val = store32 m addr val"
definition mmio_read32 :: "mem \<Rightarrow> u64 \<Rightarrow> u32" where "mmio_read32 m addr = load32 m addr"
definition mmio_write8 :: "mem \<Rightarrow> u64 \<Rightarrow> u8 \<Rightarrow> mem" where "mmio_write8 m addr val = m(addr := val)"
definition mmio_read8 :: "mem \<Rightarrow> u64 \<Rightarrow> u8" where "mmio_read8 m addr = m addr"

definition mmio_write :: "bool \<Rightarrow> mem \<Rightarrow> u64 \<Rightarrow> u32 \<Rightarrow> mem" where
  "mmio_write qemu m addr val = (if \<not> qemu then mmio_write32 m addr val else mmio_write8 m addr (ucast val))"

definition mmio_read :: "bool \<Rightarrow> mem \<Rightarrow> u64 \<Rightarrow> u32" where
  "mmio_read qemu m addr = (if \<not> qemu then mmio_read32 m addr else ucast (mmio_read8 m addr))"

definition uart_init_mmio :: "bool \<Rightarrow> u64 \<Rightarrow> mem \<Rightarrow> mem" where
  "uart_init_mmio qemu base m =
     (let mcr = mmio_read qemu m (base + reg_offset qemu UART_MCR);
          m1 = mmio_write qemu m (base + reg_offset qemu UART_MCR) (mcr OR MCR_OUT2);
          ier = mmio_read qemu m1 (base + reg_offset qemu UART_IER)
      in mmio_write qemu m1 (base + reg_offset qemu UART_IER) ((ier AND NOT IER_TIE) OR IER_RAVIE))"

section \<open>The registers refine the driver's state\<close>

definition regs_rel :: "bool \<Rightarrow> u64 \<Rightarrow> mem \<Rightarrow> uart \<Rightarrow> bool" where
  "regs_rel qemu base m u \<longleftrightarrow> mmio_read qemu m (base + reg_offset qemu UART_MCR) = uart_MCR u \<and>
     mmio_read qemu m (base + reg_offset qemu UART_IER) = uart_IER u"

definition fits_reg :: "bool \<Rightarrow> u32 \<Rightarrow> bool" where
  "fits_reg qemu v \<longleftrightarrow> (qemu \<longrightarrow> take_bit 8 v = v)"

lemma mmio_same: "fits_reg qemu v \<Longrightarrow> mmio_read qemu (mmio_write qemu m a v) a = v"
  by (simp add: fits_reg_def mmio_read_def mmio_write_def mmio_read8_def mmio_write8_def mmio_read32_def
      mmio_write32_def unsigned_ucast_eq)

lemma reg_bits: "bit IER_RAVIE n \<longleftrightarrow> n = 0" "bit MCR_OUT2 n \<longleftrightarrow> n = 3"
proof -
  have masks: "IER_RAVIE = 2 ^ 0" "MCR_OUT2 = 2 ^ 3"
    by (simp_all add: IER_RAVIE_def MCR_OUT2_def)
  show "bit IER_RAVIE n \<longleftrightarrow> n = 0" "bit MCR_OUT2 n \<longleftrightarrow> n = 3"
    unfolding masks bit_exp_iff by auto
qed

lemma byte_bit: "bit (w :: u8) n \<Longrightarrow> n < 8"
  using bit_imp_le_length [of w n] by simp

lemma init_fits:
  "fits_reg qemu (mmio_read qemu m a OR MCR_OUT2)"
  "fits_reg qemu ((mmio_read qemu m a AND NOT IER_TIE) OR IER_RAVIE)"
  unfolding fits_reg_def mmio_read_def
  by (auto intro!: bit_word_eqI simp: bit_simps reg_bits dest: byte_bit)

lemma load32_store32_apart:
  assumes "\<And>i j. i < 4 \<Longrightarrow> j < 4 \<Longrightarrow> a + of_nat i \<noteq> b + of_nat j"
  shows "load32 (store32 m b v) a = load32 m a"
proof -
  have "store32 m b v (a + of_nat i) = m (a + of_nat i)" if "i < 4" for i
    unfolding store32_def using assms [OF that] by (intro store_bytes_other) (simp add: le_bytes_def)
  then show ?thesis
    unfolding load32_def by (intro foldr_cong) auto
qed

lemma mmio_apart:
  "mmio_read qemu (mmio_write qemu m (base + reg_offset qemu UART_MCR) v) (base + reg_offset qemu UART_IER) =
    mmio_read qemu m (base + reg_offset qemu UART_IER)"
  "mmio_read qemu (mmio_write qemu m (base + reg_offset qemu UART_IER) v) (base + reg_offset qemu UART_MCR) =
    mmio_read qemu m (base + reg_offset qemu UART_MCR)"
proof -
  have four: "i = 0 \<or> i = 1 \<or> i = 2 \<or> i = 3" if "i < 4" for i :: nat
    using that by arith
  have "base + 4 + of_nat i \<noteq> base + 16 + of_nat j" "base + 16 + of_nat i \<noteq> base + 4 + of_nat j"
    if "i < 4" "j < 4" for i j
    using four [OF that(1)] four [OF that(2)] by (auto simp: add.assoc)
  then have "load32 (store32 m (base + 16) v) (base + 4) = load32 m (base + 4)"
    "load32 (store32 m (base + 4) v) (base + 16) = load32 m (base + 16)"
    by (intro load32_store32_apart; blast)+
  then show
    "mmio_read qemu (mmio_write qemu m (base + reg_offset qemu UART_MCR) v) (base + reg_offset qemu UART_IER) =
      mmio_read qemu m (base + reg_offset qemu UART_IER)"
    "mmio_read qemu (mmio_write qemu m (base + reg_offset qemu UART_IER) v) (base + reg_offset qemu UART_MCR) =
      mmio_read qemu m (base + reg_offset qemu UART_MCR)"
    by (cases qemu; simp add: mmio_read_def mmio_write_def mmio_read8_def mmio_write8_def mmio_read32_def mmio_write32_def)+
qed

text \<open>\<^verbatim>\<open>uart_init\<close> on the registers of either machine does what the driver model says.\<close>

theorem uart_init_refines:
  assumes "regs_rel qemu base m u"
  shows "regs_rel qemu base (uart_init_mmio qemu base m) (uart_init u)"
proof -
  let ?mcr = "base + reg_offset qemu UART_MCR" and ?ier = "base + reg_offset qemu UART_IER"
  have u: "uart_MCR u = mmio_read qemu m ?mcr" "uart_IER u = mmio_read qemu m ?ier"
    using assms by (simp_all add: regs_rel_def)
  show ?thesis
    unfolding regs_rel_def uart_init_mmio_def uart_init_def Let_def
    by (simp add: u mmio_apart mmio_same [OF init_fits(1)] mmio_same [OF init_fits(2)])
qed

end
