(* ===== verification/Spec2Isabelle.thy ===== *)
theory Spec2Isabelle
  imports Process_Facts Klist Shell_Facts Bootloader Plic Boot_Finish Trap_Entry Start Uart_Mmio
begin

text \<open>
  Verification of OSC2026: a small RISC-V kernel in C (\<^verbatim>\<open>kernel/\<close>) and the boot loader that receives it
  over the serial port (\<^verbatim>\<open>bootloader/\<close>).

  \<^bold>\<open>The program.\<close> The boot loader moves itself away, offers a small shell and loads a kernel. The kernel
  (\<^verbatim>\<open>main.c\<close>) reads the device tree (\<^verbatim>\<open>dtb.c\<close>), registers the memory that is taken with the startup
  allocator and builds its tables with it, hands the rest to the page allocator (both \<^verbatim>\<open>buddy.c\<close>) and
  puts the heap on top (\<^verbatim>\<open>kmalloc.c\<close>). It then brings up the serial port (\<^verbatim>\<open>uart.c\<close>), the interrupt
  controller (\<^verbatim>\<open>plic.c\<close>), the timer (\<^verbatim>\<open>timer.c\<close>) and the scheduler (\<^verbatim>\<open>sched.c\<close>) and runs a shell
  (\<^verbatim>\<open>shell.c\<close>), which starts user programs from the initial ramdisk (\<^verbatim>\<open>cpio.c\<close>). Traps (\<^verbatim>\<open>trap.c\<close>)
  lead to system calls (\<^verbatim>\<open>syscall.c\<close>), to the top halves of the drivers and, through them, to bottom-half
  tasks (\<^verbatim>\<open>task.c\<close>); on the way back to user mode signals are delivered (\<^verbatim>\<open>signal.c\<close>) and the processor
  may go to another thread. Nodes of queues, stacks, images and contexts all come from the heap.

  \<^bold>\<open>Conventions.\<close> C integers are words of their width, with wrap-around; addresses are 64-bit words, and
  memory that is read byte by byte is a function from addresses to bytes. Tables are lists whose accesses
  out of range are \<^const>\<open>None\<close>. An \<open>option\<close> result is \<^const>\<open>None\<close> for an access out of range, for a null or
  dangling pointer, and for a loop that does not end (\<open>partial_function\<close>), so a theorem with a result
  \<^const>\<open>Some\<close> says that the code returns and goes wrong nowhere. Output is the list of characters. Code that
  yields is modelled up to the switch; what it does when it runs again is a definition of its own
  (\<open>waitpid_on\<close>, \<open>uart_read_on\<close>, \<open>exec_wait\<close>).

  \<^bold>\<open>Memory management.\<close> \<open>Buddy\<close> models \<^verbatim>\<open>buddy.c\<close> up to line 379; \<open>Buddy_Inv\<close> proves its invariant, in
  which every page is free in exactly one block, handed out, reserved or lost, for every operation;
  \<open>Buddy_Boot\<close> does so for its construction. \<open>Startup\<close> models the startup allocator: its allocations are
  aligned and avoid what is recorded. \<open>Allocator\<close> states what the page allocator and the heap promise
  their clients (the locales \<open>allocator\<close> and \<open>guarded_allocator\<close>) and proves what follows for sequences
  of requests and for clients that own named objects. \<open>Buddy_Spec\<close> and \<open>Kmalloc\<close> interpret the locales
  on the models and hold the properties of single operations. \<open>Boot\<close> composes steps 4 to 10 of \<^verbatim>\<open>main\<close>:
  afterwards no sequence of requests can get at memory that was registered. Two conditions recur: no registered region lies
  strictly inside another, and the memory does not start at address 0. \<open>Startup\<close> shows that the search for a gap goes wrong
  without either; the board's \<^verbatim>\<open>memory@0\<close> is outside of these properties. Sizes above \<open>2 ^ 64 - 4096\<close> wrap when they
  are rounded up (\<open>buddy_alloc_size_wraps\<close>) and are left out of them too.

  \<^bold>\<open>Device tree and start.\<close> \<open>Dtb\<close> models \<^verbatim>\<open>dtb.c\<close>; \<open>Dtb_Tree\<close> gives the tree and the sequence of tokens a
  blob stands for, runs the loop shared by the scans in the locale \<open>token_scan\<close>, and proves what
  \<^verbatim>\<open>dtb_getprop\<close> returns on a tree; \<open>Dtb_Regions\<close> does the same for the memory and the reserved regions.
  \<open>Dtb_Encode\<close> encodes trees, and \<open>Dtb_Facts\<close> holds the properties, one of which exhibits a tree on which
  the lookup takes a node the path does not denote. \<open>Boot_Dtb\<close> composes steps 1 to 5 of \<^verbatim>\<open>main\<close> with
  \<open>Boot\<close>. \<open>Plic\<close> models \<^verbatim>\<open>plic.c\<close> and steps 11 and 12 of \<^verbatim>\<open>main\<close>. \<open>Boot_Finish\<close> composes the last steps, after which
  the scheduler runs, and shows that the framebuffer is memory the allocators hand out.

  \<^bold>\<open>Queues and drivers.\<close> \<open>Klist\<close> models the intrusive lists of \<^verbatim>\<open>list.h\<close> on a heap of nodes and refines
  them to lists, which is how the other theories write them. \<open>Ordered_Queue\<close> and \<open>Bounded_Queue\<close> are the
  interfaces of the sorted queues and of the ring buffers; \<open>Tasks\<close>, \<open>Timer\<close> and \<open>Uart\<close> model \<^verbatim>\<open>task.c\<close>,
  \<^verbatim>\<open>timer.c\<close> and \<^verbatim>\<open>uart.c\<close> and interpret them: order of execution, nesting of callbacks by priority, no
  timer and no byte lost. The callbacks are parameters with a contract: \<open>callbacks_ok\<close> lets those of tasks use the heap for
  blocks of their own and post tasks, \<open>timer_callbacks_ok\<close> covers those that the timer interrupt calls itself when it
  has no memory for a task. A callback that gives up the processor (the printing ones do when the transmit
  buffer is full) is outside of both; \<open>yield_keeps_priority_raised\<close> shows what it breaks. \<open>Uart_Mmio\<close> has the register accesses of both machines and refines
  the set-up of the port to them. \<open>Video\<close> models the copy to the framebuffer and \<open>Fw_Cfg\<close> its registration
  with the emulator: the request carries the big-endian description of the screen. \<open>Utils\<close> and \<open>Memory_Words\<close> hold
  the helpers of \<^verbatim>\<open>utils.c\<close> and the access to words in memory, \<open>Cpio\<close> the ramdisk.

  \<^bold>\<open>Threads and processes.\<close> \<open>Threads\<close> holds the data of \<^verbatim>\<open>sched.h\<close>, \<^verbatim>\<open>signal.h\<close> and \<^verbatim>\<open>trap.h\<close>, \<open>Sched\<close> the
  scheduler with \<^verbatim>\<open>switch.S\<close>, \<open>Signal\<close> the signals, \<open>Syscall\<close> the system calls, \<open>Trap\<close> the trap handler.
  \<open>Sched_Inv\<close> proves that queues and thread states agree, that scheduling is round robin and that ready
  threads run; \<open>Proc_Tree\<close> that the search for a process decides. \<open>Kernel_Inv\<close> states the invariant that
  spans threads, process tree, signals and heap; \<open>Process_End\<close>, \<open>Process_Start\<close> and \<open>Process_Signals\<close>
  prove that each system call and scheduler operation keeps it, \<open>Process_Safety\<close> concludes for
  sequences of events from the start of the scheduler, except for the three kinds of event after which the code follows a
  dangling pointer (\<open>event_ok\<close> lists them), and \<open>Process_Facts\<close> and \<open>Syscall_Facts\<close> say what
  single calls do.

  \<^bold>\<open>Assembly.\<close> \<open>Riscv\<close> gives the state of a hart and the instructions in use. \<open>Trap_Entry\<close> runs \<^verbatim>\<open>trap_entry.S\<close> and
  \<^verbatim>\<open>switch.S\<close> on it: the frame in memory is the record of \<open>Threads\<close>, interrupts inside the kernel restore every
  register and exceptions there halt, with \<^verbatim>\<open>trap_handler\<close> of \<open>Trap\<close> as the handler that is called, traps from user mode all but \<^verbatim>\<open>t0\<close>, a planted frame leads to user mode, and the switch implements
  the one of \<open>Sched\<close>. \<open>Start\<close> runs \<^verbatim>\<open>start.S\<close>, which clears the \<^verbatim>\<open>bss\<close> section. The current thread of the
  kernel model is the register \<^verbatim>\<open>tp\<close>, so the properties of system calls are about user programs that do not
  change it; \<open>Trap_Entry\<close> shows that the kernel takes over what they put there.

  \<^bold>\<open>Shell and boot loader.\<close> \<open>Shell\<close> models the line editor, the parsing and the commands that change the
  kernel, \<open>Shell_Commands\<close> the rest of \<^verbatim>\<open>shell.c\<close> and the firmware calls of \<^verbatim>\<open>sbi.c\<close>; \<open>Shell_Facts\<close> proves
  the editor safe and equivalent to one on lists, and the command \<open>kill\<close> equivalent to the system call.
  \<open>Bootloader\<close> models the start of the program and of its relocated copy, both through \<^verbatim>\<open>start.S\<close>, serial port, shell and kernel transfer of \<^verbatim>\<open>bootloader/src\<close>.

  \<^bold>\<open>Fuel and bounds.\<close> The search of the process tree has fuel one more than the number of process ids given
  out, which \<open>Proc_Tree\<close> shows to be enough: on a well-formed tree it always returns. All other loops are
  structural, have a termination measure, or are partial functions whose theorems include that they
  return. The tables of the startup allocator have sixteen entries, as in the code.

  \<^bold>\<open>Parameters.\<close> What the code reads from devices (time, line status, received bytes, the interrupt claimed),
  the answers of the firmware and of the emulator's fw_cfg device are arguments, and so are the addresses
  that the linker gives. The assembly calls the C handler through an argument that stands for the compiled
  code with its calling convention; for traps inside the kernel it returns exactly when the model of \<^verbatim>\<open>trap_handler\<close> does.

  \<^bold>\<open>Not modelled.\<close> The layout of the linker scripts. The enable bits of the \<^verbatim>\<open>sie\<close> register at boot. Interrupts
  inside the page allocator and the heap, which do not mask them: each call runs to its end. A switch of threads
  inside the callback of a task, but for the counterexample above: \<open>Trap\<close> runs a callback to its end. The boot
  loader's \<^verbatim>\<open>dtb.c\<close>, \<^verbatim>\<open>utils.c\<close>, \<^verbatim>\<open>sbi.c\<close> and most of its \<^verbatim>\<open>cpio.c\<close>, which are copies of code of the kernel,
  and its register accesses. Log messages of the allocators, and \<^verbatim>\<open>send_kernel.py\<close>, which runs on the host.
\<close>

end
